(* ===== verification/Prelude.thy ===== *)
theory Prelude
  imports Main "HOL-Library.Word" "HOL-Library.Signed_Division"
begin

text \<open>
  Shared vocabulary of the development: the machine integer types of the program, the
  collections of rewrite rules, and generic facts on words and lists.

  \<^item> \<open>u8\<close>, \<open>u16\<close>, \<open>u32\<close> are the unsigned C types (\<open>IUINT8\<close>, \<open>IUINT16\<close>, \<open>IUINT32\<close>); an
    \<open>IINT32\<close> is kept as a 32-bit word and read with \<^const>\<open>sint\<close>.
  \<^item> The comparison of serial numbers modulo \<open>2^32\<close> is a comparison of distances from a
    common base, as long as both distances are below \<open>2^31\<close>; \<open>serial_less_iff\<close> and its
    variants state that once for every component.
  \<^item> \<open>window_sorted\<close> is the order invariant of both kcp buffers: the serial numbers, measured
    from a base, increase strictly.
\<close>

unbundle bit_operations_syntax

type_synonym u8 = "8 word"
type_synonym u16 = "16 word"
type_synonym u32 = "32 word"
type_synonym i32 = "32 word"

abbreviation half32 :: nat where
  "half32 \<equiv> 2147483648"

named_theorems wf_intros \<open>introduction rules for the invariants of the components\<close>
named_theorems wf_dests \<open>facts that follow from the invariants of the components\<close>
named_theorems frame_simps \<open>which fields an operation leaves alone\<close>

section \<open>Words\<close>

lemma unat_u32_less [simp]: "unat (w :: u32) < 4294967296"
  using unsigned_less [of w, where ?'a = nat] by simp

lemma unat_of_nat_u32: "n < 4294967296 \<Longrightarrow> unat (of_nat n :: u32) = n"
  by (simp add: unat_of_nat)

lemma sint_u32_mod:
  "sint (x :: u32) = (int (unat x) + 2147483648) mod 4294967296 - 2147483648"
  using int_word_sint [of "uint x", where ?'a = 32] by simp

lemma sint_u32_small: "unat (x :: u32) < half32 \<Longrightarrow> sint x = int (unat x)"
  unfolding sint_u32_mod by (subst mod_pos_pos_trivial) linarith+

lemma sint_of_nat_u32: "n < half32 \<Longrightarrow> sint (of_nat n :: u32) = int n"
proof -
  assume "n < half32"
  then have "unat (of_nat n :: u32) = n"
    by (intro unat_of_nat_u32) linarith
  with \<open>n < half32\<close> sint_u32_small [of "of_nat n"] show ?thesis
    by (simp only:)
qed

lemma sint_u32_big: "half32 \<le> unat (x :: u32) \<Longrightarrow> sint x = int (unat x) - 4294967296"
proof -
  assume big: "half32 \<le> unat x"
  have "(int (unat x) + 2147483648) mod 4294967296
      = (int (unat x) - 2147483648 + 4294967296) mod 4294967296"
    by (rule arg_cong [where f = "\<lambda>i. i mod 4294967296"]) linarith
  also have "\<dots> = (int (unat x) - 2147483648) mod 4294967296"
    by (rule mod_add_self2)
  also have "\<dots> = int (unat x) - 2147483648"
    using big unat_u32_less [of x] by (intro mod_pos_pos_trivial) linarith+
  finally show ?thesis
    unfolding sint_u32_mod by linarith
qed

lemma sint_u32_less_0: "sint (x :: u32) < 0 \<longleftrightarrow> half32 \<le> unat x"
proof (cases "unat x < half32")
  case True
  then show ?thesis using sint_u32_small [OF True] by linarith
next
  case False
  then have "half32 \<le> unat x" by simp
  with sint_u32_big [OF this] unat_u32_less [of x] show ?thesis by linarith
qed

lemma unat_u32_diff:
  "unat (a - b :: u32) = (if unat b \<le> unat a then unat a - unat b
                          else unat a + 4294967296 - unat b)"
  by (simp add: unat_sub_if' split: if_splits)

text \<open>
  Serial numbers that are both less than half the space ahead of a common base \<open>c\<close> compare
  as their distances from \<open>c\<close> do.
\<close>

lemma sint_u32_diff:
  fixes a b c :: u32
  assumes "unat (a - c) < half32" and "unat (b - c) < half32"
  shows "sint (a - b) = int (unat (a - c)) - int (unat (b - c))"
proof -
  have eq: "a - b = (a - c) - (b - c)"
    by simp
  show ?thesis
  proof (cases "unat (b - c) \<le> unat (a - c)")
    case True
    then have "unat (a - b) = unat (a - c) - unat (b - c)"
      unfolding eq by (rule unat_sub [OF iffD2 [OF word_le_nat_alt]])
    with True assms sint_u32_small [of "a - b"] show ?thesis
      by linarith
  next
    case False
    then have "unat (a - b) = unat (a - c) + 4294967296 - unat (b - c)"
      unfolding eq by (subst unat_u32_diff) simp
    with False assms sint_u32_big [of "a - b"] show ?thesis
      by linarith
  qed
qed

lemma serial_less_iff:
  fixes a b c :: u32
  assumes "unat (a - c) < half32" and "unat (b - c) < half32"
  shows "sint (a - b) < 0 \<longleftrightarrow> unat (a - c) < unat (b - c)"
  using sint_u32_diff [OF assms] by linarith

lemma serial_greater_iff:
  fixes a b c :: u32
  assumes "unat (a - c) < half32" and "unat (b - c) < half32"
  shows "0 < sint (a - b) \<longleftrightarrow> unat (b - c) < unat (a - c)"
  using sint_u32_diff [OF assms] by linarith

lemma serial_eq_iff: "unat (a - c :: u32) = unat (b - c) \<longleftrightarrow> a = b"
  by (simp add: word_unat_eq_iff [symmetric])

lemma unat_u32_Suc:
  fixes a c :: u32
  assumes "unat (a - c) < n" and "n \<le> half32"
  shows "unat (a + 1 - c) = Suc (unat (a - c))"
proof -
  have eq: "a + 1 - c = (a - c) + 1"
    by simp
  show ?thesis
    using assms unfolding eq by (simp add: unat_word_ariths)
qed

lemma unat_u32_pred:
  fixes a c :: u32
  assumes "0 < unat (a - c)"
  shows "unat (a - (c + 1)) = unat (a - c) - 1"
proof -
  have eq: "a - (c + 1) = (a - c) - 1"
    by simp
  show ?thesis
    using assms unfolding eq by (simp add: unat_minus_one unat_gt_0)
qed

lemma unat_u32_inc: "(a :: u32) < b \<Longrightarrow> unat (a + 1) = Suc (unat a)"
proof -
  assume "a < b"
  then have "Suc (unat a) < 4294967296"
    using unat_u32_less [of b] unfolding word_less_nat_alt by linarith
  then show ?thesis
    by (simp add: unat_word_ariths)
qed

lemma sint_of_nat_diff_u32:
  assumes "a < half32" and "b < half32"
  shows "sint (of_nat a - of_nat b :: u32) = int a - int b"
proof -
  have "unat (of_nat a :: u32) = a" "unat (of_nat b :: u32) = b"
    using assms by (auto intro: unat_of_nat_u32)
  with assms sint_u32_diff [of "of_nat a" 0 "of_nat b"] show ?thesis
    by simp
qed

text \<open>C division truncates; on non-negative values it is \<^const>\<open>divide\<close>.\<close>

lemma sdiv_of_nat: "int a sdiv int b = int (a div b)"
  by (simp add: signed_divide_int_def sgn_if zdiv_int)

lemma word_of_int_sdiv:
  "a < half32 \<Longrightarrow> (word_of_int (int a sdiv int b) :: u32) = of_nat (a div b)"
  by (simp add: sdiv_of_nat)

section \<open>Serial numbers in order\<close>

text \<open>\<open>consecutive base ws\<close>: the numbers \<open>ws\<close> count up from \<open>base\<close>, modulo \<open>2^32\<close>.\<close>

fun consecutive :: "u32 \<Rightarrow> u32 list \<Rightarrow> bool" where
  "consecutive base [] = True"
| "consecutive base (w # ws) = (w = base \<and> consecutive (base + 1) ws)"

lemma consecutive_append:
  "consecutive base (vs @ ws) \<longleftrightarrow>
     consecutive base vs \<and> consecutive (base + of_nat (length vs)) ws"
  by (induction vs arbitrary: base) (auto simp: algebra_simps)

lemma consecutive_nth:
  "consecutive base ws \<Longrightarrow> i < length ws \<Longrightarrow> ws ! i = base + of_nat i"
  by (induction ws arbitrary: base i) (auto simp: nth_Cons' algebra_simps gr0_conv_Suc)

text \<open>
  \<open>window_sorted base n ws\<close>: the serial numbers \<open>ws\<close> increase strictly when they are measured
  from \<open>base\<close>, and all of them are less than \<open>n\<close> ahead of it.
\<close>

definition window_sorted :: "u32 \<Rightarrow> nat \<Rightarrow> u32 list \<Rightarrow> bool" where
  "window_sorted base n ws \<longleftrightarrow>
     sorted_wrt (<) (map (\<lambda>w. unat (w - base)) ws) \<and> (\<forall>w\<in>set ws. unat (w - base) < n)"

lemma window_sorted_Nil [simp]: "window_sorted base n []"
  by (simp add: window_sorted_def)

lemma window_sorted_Cons:
  "window_sorted base n (w # ws) \<longleftrightarrow>
     unat (w - base) < n \<and> (\<forall>v\<in>set ws. unat (w - base) < unat (v - base)) \<and>
     window_sorted base n ws"
  by (auto simp: window_sorted_def)

lemma window_sorted_append:
  "window_sorted base n (vs @ ws) \<longleftrightarrow>
     window_sorted base n vs \<and> window_sorted base n ws \<and>
     (\<forall>v\<in>set vs. \<forall>w\<in>set ws. unat (v - base) < unat (w - base))"
  by (auto simp: window_sorted_def sorted_wrt_append)

lemma window_sorted_distinct: "window_sorted base n ws \<Longrightarrow> distinct ws"
  by (induction ws) (auto simp: window_sorted_Cons)

lemma window_sorted_mono: "window_sorted base m ws \<Longrightarrow> m \<le> n \<Longrightarrow> window_sorted base n ws"
  by (auto simp: window_sorted_def)

lemma window_sorted_filter: "window_sorted base n ws \<Longrightarrow> window_sorted base n (filter P ws)"
  by (induction ws) (auto simp: window_sorted_Cons)

text \<open>Moving the base up by \<open>d\<close> brings every number that is at least \<open>d\<close> ahead \<open>d\<close> closer.\<close>

lemma unat_u32_shift:
  fixes v base :: u32
  assumes "d \<le> unat (v - base)"
  shows "unat (v - (base + of_nat d)) = unat (v - base) - d"
proof -
  have "unat (of_nat d :: u32) = d"
    using assms unat_u32_less [of "v - base"] by (intro unat_of_nat_u32) linarith
  then show ?thesis
    using assms unat_sub [of "of_nat d" "v - base"] by (simp add: word_le_nat_alt algebra_simps)
qed

lemma window_sorted_shift:
  assumes "window_sorted base n ws" and "\<forall>w\<in>set ws. d \<le> unat (w - base)"
  shows "window_sorted (base + of_nat d) (n - d) ws"
  using assms by (induction ws) (force simp: window_sorted_Cons unat_u32_shift)+

lemma window_sorted_length: "window_sorted base n ws \<Longrightarrow> length ws \<le> n"
proof -
  assume ws: "window_sorted base n ws"
  have "distinct (map (\<lambda>w. unat (w - base)) ws)"
    using ws unfolding window_sorted_def strict_sorted_iff by simp
  moreover have "set (map (\<lambda>w. unat (w - base)) ws) \<subseteq> {..<n}"
    using ws by (auto simp: window_sorted_def)
  ultimately show ?thesis
    by (metis card_lessThan card_mono distinct_card finite_lessThan length_map)
qed

lemma window_sorted_after_consecutive:
  assumes "window_sorted base n (vs @ ws)" and "consecutive base vs" and "n \<le> half32"
  shows "window_sorted (base + of_nat (length vs)) (n - length vs) ws"
  using assms
proof (induction vs arbitrary: base n)
  case Nil
  then show ?case by simp
next
  case (Cons v vs)
  have "window_sorted (base + of_nat 1) (n - 1) (vs @ ws)"
    using Cons.prems by (intro window_sorted_shift) (auto simp: window_sorted_Cons Suc_le_eq)
  from Cons.IH [of "base + 1" "n - 1"] this Cons.prems show ?case
    by (simp add: algebra_simps)
qed

section \<open>Counted loops\<close>

text \<open>A loop \<open>for (i = a; i < b; i++)\<close> is a fold over \<open>[a..<b]\<close>; its invariant is indexed by \<open>i\<close>.\<close>

lemma fold_upt_invariant:
  assumes "P a s" and "a \<le> b"
    and "\<And>i s. a \<le> i \<Longrightarrow> i < b \<Longrightarrow> P i s \<Longrightarrow> P (Suc i) (f i s)"
  shows "P b (fold f [a..<b] s)"
proof -
  have "P (a + n) (fold f [a..<a + n] s)" if "a + n \<le> b" for n
    using that by (induction n) (auto simp: assms)
  from this [of "b - a"] assms(2) show ?thesis by simp
qed

end
