(* ===== verification/Codec.thy ===== *)
theory Codec
  imports Prelude
begin

text \<open>
  The byte codecs of the program: \<open>ikcp_encode8u\<close> to \<open>ikcp_decode32u\<close> of
  \<open>lib/kcp/source/ikcp.c\<close> (least significant byte first) and the readers and writers of
  \<open>lib/libfec/source/common.cpp\<close> (\<open>write_u32\<close>, \<open>write_u16\<close> most significant byte first,
  \<open>write_u32_r\<close> reversed).

  An encoder is the list of bytes it stores at \<open>p\<close>, in address order; the pointer it returns is
  the address after them. A decoder reads from the front of the bytes at \<open>p\<close> and returns the
  value together with the bytes after the ones it read. The kcp codecs have a native store for
  little endian machines and a byte-wise branch for the others; both store the same bytes, and
  the byte-wise branch is the one translated. Decoders read as many bytes as their width; their
  callers check the length first.
\<close>

section \<open>kcp: least significant byte first\<close>

definition ikcp_encode8u :: "u8 \<Rightarrow> u8 list" where
  "ikcp_encode8u c = [c]"

definition ikcp_decode8u :: "u8 list \<Rightarrow> u8 \<times> u8 list" where
  "ikcp_decode8u p = (p ! 0, drop 1 p)"

definition ikcp_encode16u :: "u16 \<Rightarrow> u8 list" where
  "ikcp_encode16u w = [ucast (w AND 255), ucast (drop_bit 8 w)]"

definition ikcp_decode16u :: "u8 list \<Rightarrow> u16 \<times> u8 list" where
  "ikcp_decode16u p =
     (let w = ucast (p ! 1);
          w = ucast (p ! 0) + push_bit 8 w
      in (w, drop 2 p))"

definition ikcp_encode32u :: "u32 \<Rightarrow> u8 list" where
  "ikcp_encode32u l =
     [ucast (drop_bit 0 l AND 0xff), ucast (drop_bit 8 l AND 0xff),
      ucast (drop_bit 16 l AND 0xff), ucast (drop_bit 24 l AND 0xff)]"

definition ikcp_decode32u :: "u8 list \<Rightarrow> u32 \<times> u8 list" where
  "ikcp_decode32u p =
     (let l = ucast (p ! 3);
          l = ucast (p ! 2) + push_bit 8 l;
          l = ucast (p ! 1) + push_bit 8 l;
          l = ucast (p ! 0) + push_bit 8 l
      in (l, drop 4 p))"

text \<open>\<open>ikcp_getconv\<close> reads the conversation id at the front of a packet.\<close>

definition ikcp_getconv :: "u8 list \<Rightarrow> u32" where
  "ikcp_getconv p = fst (ikcp_decode32u p)"

section \<open>libfec: most significant byte first, and reversed\<close>

definition write_u32 :: "u32 \<Rightarrow> u8 list" where
  "write_u32 l =
     [ucast (drop_bit 24 l AND 0xff), ucast (drop_bit 16 l AND 0xff),
      ucast (drop_bit 8 l AND 0xff), ucast (drop_bit 0 l AND 0xff)]"

definition write_u32_r :: "u32 \<Rightarrow> u8 list" where
  "write_u32_r l =
     [ucast (drop_bit 0 l AND 0xff), ucast (drop_bit 8 l AND 0xff),
      ucast (drop_bit 16 l AND 0xff), ucast (drop_bit 24 l AND 0xff)]"

definition read_u32 :: "u8 list \<Rightarrow> u32" where
  "read_u32 p =
     (let res = ucast (p ! 0);
          res = ucast (p ! 1) + push_bit 8 res;
          res = ucast (p ! 2) + push_bit 8 res;
          res = ucast (p ! 3) + push_bit 8 res
      in res)"

definition read_u32_r :: "u8 list \<Rightarrow> u32" where
  "read_u32_r p =
     (let res = ucast (p ! 3);
          res = ucast (p ! 2) + push_bit 8 res;
          res = ucast (p ! 1) + push_bit 8 res;
          res = ucast (p ! 0) + push_bit 8 res
      in res)"

definition write_u16 :: "u16 \<Rightarrow> u8 list" where
  "write_u16 l = [ucast (drop_bit 8 l AND 0xff), ucast (drop_bit 0 l AND 0xff)]"

definition read_u16 :: "u8 list \<Rightarrow> u16" where
  "read_u16 p =
     (let res = ucast (p ! 0);
          res = ucast (p ! 1) + push_bit 8 res
      in res)"

section \<open>Round trips\<close>

text \<open>
  One step of a decoder shifts what it has and adds the next byte; no bit of the two overlaps,
  so the sum is a disjunction, and the bits of a round trip can be compared one by one.
\<close>

lemma byte_plus_shift_or:
  "(ucast (b :: u8) + push_bit 8 w :: 'a::len word) = ucast b OR push_bit 8 w"
  by (rule disjunctive_add_eq_or)
    (auto simp: bit_eq_iff bit_simps dest: bit_imp_le_length)

lemma mask_255: "(255 :: 'a::len word) = mask 8"
  by (simp add: mask_eq_exp_minus_1)

lemma word_of_bytes16:
  "(ucast (ucast (w AND 255 :: u16) :: u8) OR push_bit 8 (ucast (ucast (drop_bit 8 w) :: u8)) :: u16) = w"
  unfolding mask_255 by (rule bit_word_eqI) (auto simp: bit_simps)

lemma word_of_bytes32:
  "(ucast (ucast (drop_bit 0 l AND 255 :: u32) :: u8) OR
    push_bit 8 (ucast (ucast (drop_bit 8 l AND 255) :: u8) OR
      push_bit 8 (ucast (ucast (drop_bit 16 l AND 255) :: u8) OR
        push_bit 8 (ucast (ucast (drop_bit 24 l AND 255) :: u8)))) :: u32) = l"
  (is "?w = l")
proof (rule bit_word_eqI)
  fix n assume "n < LENGTH(32)"
  then consider "n < 8" | "8 \<le> n \<and> n < 16" | "16 \<le> n \<and> n < 24" | "24 \<le> n \<and> n < 32"
    by fastforce
  then show "bit ?w n = bit l n"
    unfolding mask_255 by cases (auto simp: bit_simps)
qed

lemma length_encode [simp]:
  "length (ikcp_encode8u c) = 1"
  "length (ikcp_encode16u w) = 2"
  "length (ikcp_encode32u l) = 4"
  by (simp_all add: ikcp_encode8u_def ikcp_encode16u_def ikcp_encode32u_def)

lemma length_write [simp]:
  "length (write_u32 l) = 4" "length (write_u32_r l) = 4" "length (write_u16 w) = 2"
  by (simp_all add: write_u32_def write_u32_r_def write_u16_def)

lemma decode_encode8u [simp]: "ikcp_decode8u (ikcp_encode8u c @ p) = (c, p)"
  by (simp add: ikcp_decode8u_def ikcp_encode8u_def)

lemma decode_encode16u [simp]: "ikcp_decode16u (ikcp_encode16u w @ p) = (w, p)"
  using word_of_bytes16 [of w]
  by (simp add: ikcp_decode16u_def ikcp_encode16u_def byte_plus_shift_or)

lemma decode_encode32u [simp]: "ikcp_decode32u (ikcp_encode32u l @ p) = (l, p)"
  using word_of_bytes32 [of l]
  by (simp add: ikcp_decode32u_def ikcp_encode32u_def byte_plus_shift_or numeral_3_eq_3)

lemma getconv_encode [simp]: "ikcp_getconv (ikcp_encode32u l @ p) = l"
  by (simp add: ikcp_getconv_def)

lemma read_write_u32: "read_u32 (write_u32 l @ p) = l"
  using word_of_bytes32 [of l]
  by (simp add: read_u32_def write_u32_def byte_plus_shift_or numeral_3_eq_3)

lemma read_write_u32_r: "read_u32_r (write_u32_r l @ p) = l"
  using word_of_bytes32 [of l]
  by (simp add: read_u32_r_def write_u32_r_def byte_plus_shift_or numeral_3_eq_3)

lemma read_write_u16: "read_u16 (write_u16 w @ p) = w"
proof -
  have "drop_bit 8 w AND 255 = drop_bit 8 w"
    unfolding mask_255 by (rule bit_word_eqI) (auto simp: bit_simps dest: bit_imp_le_length)
  then show ?thesis
    using word_of_bytes16 [of w]
    by (simp add: read_u16_def write_u16_def byte_plus_shift_or)
qed

text \<open>The other direction: what a decoder reads encodes to the bytes it read.\<close>

lemma list_of_4: "length p = 4 \<Longrightarrow> \<exists>a b c d. p = [a, b, c, d]"
  by (auto simp: length_Suc_conv numeral_eq_Suc)

lemma encode_decode32u:
  assumes "length p = 4"
  shows "ikcp_encode32u (fst (ikcp_decode32u p)) = p"
proof -
  obtain a b c d where "p = [a, b, c, d]"
    using list_of_4 [OF assms] by blast
  then show ?thesis
    by (simp add: ikcp_decode32u_def ikcp_encode32u_def byte_plus_shift_or numeral_3_eq_3
        mask_255; intro conjI bit_word_eqI)
      (auto simp: bit_simps dest: bit_imp_le_length)
qed

lemma write_read_u32:
  assumes "length p = 4"
  shows "write_u32 (read_u32 p) = p"
proof -
  obtain a b c d where "p = [a, b, c, d]"
    using list_of_4 [OF assms] by blast
  then show ?thesis
    by (simp add: read_u32_def write_u32_def byte_plus_shift_or numeral_3_eq_3
        mask_255; intro conjI bit_word_eqI)
      (auto simp: bit_simps dest: bit_imp_le_length)
qed

text \<open>The two byte orders are mirror images.\<close>

lemma write_u32_r_rev: "write_u32_r l = rev (write_u32 l)"
  by (simp add: write_u32_r_def write_u32_def)

lemma read_u32_r_rev: "length p = 4 \<Longrightarrow> read_u32_r p = read_u32 (rev p)"
  by (drule list_of_4) (auto simp: read_u32_r_def read_u32_def numeral_3_eq_3)

section \<open>Properties\<close>

text \<open>
  Each decoder applied to what its encoder wrote, followed
  by anything, returns the value and the rest; and the bytes are in little endian order.
\<close>

theorem kcp_codec_roundtrip:
  "ikcp_decode8u (ikcp_encode8u c @ p) = (c, p) \<and> ikcp_decode16u (ikcp_encode16u w @ p) = (w, p) \<and>
   ikcp_decode32u (ikcp_encode32u l @ p) = (l, p) \<and>
   map unat (ikcp_encode32u l) = map (\<lambda>i. unat l div 256 ^ i mod 256) [0, 1, 2, 3]"
proof -
  have drop: "unat (drop_bit n l) = unat l div 2 ^ n" for n
    unfolding unat_drop_bit_eq by (rule drop_bit_eq_div)
  have "unat (ucast (drop_bit n l AND 255) :: u8) = unat l div 2 ^ n mod 256" for n
    unfolding mask_255
    by (simp add: unsigned_ucast_eq take_bit_eq_mod unat_mod_distrib drop flip: take_bit_eq_mask)
  note byte = this [of 0] this [of 8] this [of 16] this [of 24]
  have "map unat (ikcp_encode32u l) = map (\<lambda>i. unat l div 256 ^ i mod 256) [0, 1, 2, 3]"
    unfolding ikcp_encode32u_def list.map byte by simp
  then show ?thesis by simp
qed

text \<open>
  \<open>read_u32\<close>, \<open>read_u32_r\<close> and \<open>read_u16\<close> invert the writers, whatever
  follows in the buffer, and the reversed form stores the same bytes in the opposite order.
\<close>

theorem fec_codec_roundtrip:
  "read_u32 (write_u32 l @ p) = l \<and> read_u32_r (write_u32_r l @ p) = l \<and>
   read_u16 (write_u16 w @ p) = w \<and> write_u32_r l = rev (write_u32 l)"
  using read_write_u32 read_write_u32_r read_write_u16 write_u32_r_rev by blast

end
