(* ===== verification/Kcp_State.thy ===== *)
theory Kcp_State
  imports Codec
begin

text \<open>
  The data of the kcp protocol engine (\<open>lib/kcp/source/ikcp.c\<close>, \<open>lib/kcp/include/ikcp.h\<close>):
  its constants, its arithmetic helpers, a segment (\<open>struct IKCPSEG\<close>), the control block
  (\<open>struct IKCPCB\<close>), \<open>ikcp_create\<close> and the operations that only set parameters.

  Reading of the C types: \<open>IUINT32\<close> is \<^typ>\<open>u32\<close>; \<open>IINT32\<close> is a \<^typ>\<open>i32\<close>, a 32-bit word read
  with \<^const>\<open>sint\<close>; \<open>int\<close> and \<open>long\<close> parameters are \<^typ>\<open>int\<close>. The four \<open>IQUEUEHEAD\<close> queues
  are lists of segments, front first (theory Iqueue relates the pointer structure to lists).
  The \<open>data\<close> area of a segment holds the bytes that were written to it, so the area of a
  segment created without a source buffer is empty although its length is set. \<open>buffer\<close> is the number
  of bytes allocated for the output buffer. \<open>acklist\<close> is the initialised prefix of the array
  of \<open>ackblock\<close> pairs. The callbacks \<open>output\<close> and \<open>writelog\<close>, the pointer \<open>user\<close> and the log
  mask are not part of the state; logging has no effect on the protocol.
\<close>

section \<open>Constants\<close>

definition IKCP_RTO_NDL :: u32 where [simp]: "IKCP_RTO_NDL = 30"
definition IKCP_RTO_MIN :: u32 where [simp]: "IKCP_RTO_MIN = 100"
definition IKCP_RTO_DEF :: u32 where [simp]: "IKCP_RTO_DEF = 200"
definition IKCP_RTO_MAX :: u32 where [simp]: "IKCP_RTO_MAX = 60000"
definition IKCP_CMD_PUSH :: u32 where [simp]: "IKCP_CMD_PUSH = 81"
definition IKCP_CMD_ACK :: u32 where [simp]: "IKCP_CMD_ACK = 82"
definition IKCP_CMD_WASK :: u32 where [simp]: "IKCP_CMD_WASK = 83"
definition IKCP_CMD_WINS :: u32 where [simp]: "IKCP_CMD_WINS = 84"
definition IKCP_ASK_SEND :: u32 where [simp]: "IKCP_ASK_SEND = 1"
definition IKCP_ASK_TELL :: u32 where [simp]: "IKCP_ASK_TELL = 2"
definition IKCP_WND_SND :: u32 where [simp]: "IKCP_WND_SND = 32"
definition IKCP_WND_RCV :: u32 where [simp]: "IKCP_WND_RCV = 128"
definition IKCP_MTU_DEF :: u32 where [simp]: "IKCP_MTU_DEF = 1400"
definition IKCP_INTERVAL :: u32 where [simp]: "IKCP_INTERVAL = 100"
definition IKCP_OVERHEAD :: u32 where [simp]: "IKCP_OVERHEAD = 24"
definition IKCP_DEADLINK :: u32 where [simp]: "IKCP_DEADLINK = 20"
definition IKCP_THRESH_INIT :: u32 where [simp]: "IKCP_THRESH_INIT = 2"
definition IKCP_THRESH_MIN :: u32 where [simp]: "IKCP_THRESH_MIN = 2"
definition IKCP_PROBE_INIT :: u32 where [simp]: "IKCP_PROBE_INIT = 7000"
definition IKCP_PROBE_LIMIT :: u32 where [simp]: "IKCP_PROBE_LIMIT = 120000"
definition IKCP_FASTACK_LIMIT :: int where [simp]: "IKCP_FASTACK_LIMIT = 5"

section \<open>Arithmetic helpers\<close>

definition imin :: "u32 \<Rightarrow> u32 \<Rightarrow> u32" where
  "imin a b = (if a \<le> b then a else b)"

definition imax :: "u32 \<Rightarrow> u32 \<Rightarrow> u32" where
  "imax a b = (if a \<ge> b then a else b)"

definition ibound :: "u32 \<Rightarrow> u32 \<Rightarrow> u32 \<Rightarrow> u32" where
  "ibound lower middle upper = imin (imax lower middle) upper"

definition itimediff :: "u32 \<Rightarrow> u32 \<Rightarrow> int" where
  "itimediff later earlier = sint (later - earlier)"

section \<open>Segments\<close>

record ikcpseg =
  seg_conv :: u32
  seg_cmd :: u32
  seg_frg :: u32
  seg_wnd :: u32
  seg_ts :: u32
  seg_sn :: u32
  seg_una :: u32
  seg_len :: u32
  seg_resendts :: u32
  seg_rto :: u32
  seg_fastack :: u32
  seg_xmit :: u32
  seg_data :: "u8 list"

text \<open>A fresh segment: \<open>malloc\<close> leaves the header fields open, and every creator sets those it uses.\<close>

definition ikcp_segment_zero :: ikcpseg where
  "ikcp_segment_zero =
     \<lparr>seg_conv = 0, seg_cmd = 0, seg_frg = 0, seg_wnd = 0, seg_ts = 0, seg_sn = 0, seg_una = 0,
      seg_len = 0, seg_resendts = 0, seg_rto = 0, seg_fastack = 0, seg_xmit = 0, seg_data = []\<rparr>"

section \<open>The control block\<close>

record ikcpcb =
  conv :: u32
  mtu :: u32
  mss :: u32
  state :: u32
  snd_una :: u32
  snd_nxt :: u32
  rcv_nxt :: u32
  ts_recent :: u32
  ts_lastack :: u32
  ssthresh :: u32
  rx_rttval :: i32
  rx_srtt :: i32
  rx_rto :: i32
  rx_minrto :: i32
  snd_wnd :: u32
  rcv_wnd :: u32
  rmt_wnd :: u32
  cwnd :: u32
  probe :: u32
  current :: u32
  interval :: u32
  ts_flush :: u32
  xmit :: u32
  nrcv_buf :: u32
  nsnd_buf :: u32
  nrcv_que :: u32
  nsnd_que :: u32
  nodelay :: u32
  updated :: u32
  ts_probe :: u32
  probe_wait :: u32
  dead_link :: u32
  incr :: u32
  snd_queue :: "ikcpseg list"
  rcv_queue :: "ikcpseg list"
  snd_buf :: "ikcpseg list"
  rcv_buf :: "ikcpseg list"
  acklist :: "u32 list"
  ackcount :: u32
  ackblock :: u32
  buffer :: u32
  fastresend :: int
  fastlimit :: int
  nocwnd :: int
  stream :: int

definition ikcp_create :: "bool \<Rightarrow> bool \<Rightarrow> u32 \<Rightarrow> ikcpcb option" where
  "ikcp_create mem_kcp mem_buffer cv =
     (if \<not> mem_kcp then None
      else if \<not> mem_buffer then None
      else Some
        \<lparr>conv = cv, mtu = IKCP_MTU_DEF, mss = IKCP_MTU_DEF - IKCP_OVERHEAD, state = 0,
         snd_una = 0, snd_nxt = 0, rcv_nxt = 0, ts_recent = 0, ts_lastack = 0,
         ssthresh = IKCP_THRESH_INIT, rx_rttval = 0, rx_srtt = 0,
         rx_rto = IKCP_RTO_DEF, rx_minrto = IKCP_RTO_MIN,
         snd_wnd = IKCP_WND_SND, rcv_wnd = IKCP_WND_RCV, rmt_wnd = IKCP_WND_RCV,
         cwnd = 0, probe = 0, current = 0, interval = IKCP_INTERVAL, ts_flush = IKCP_INTERVAL,
         xmit = 0, nrcv_buf = 0, nsnd_buf = 0, nrcv_que = 0, nsnd_que = 0,
         nodelay = 0, updated = 0, ts_probe = 0, probe_wait = 0, dead_link = IKCP_DEADLINK,
         incr = 0, snd_queue = [], rcv_queue = [], snd_buf = [], rcv_buf = [],
         acklist = [], ackcount = 0, ackblock = 0,
         buffer = (IKCP_MTU_DEF + IKCP_OVERHEAD) * 3,
         fastresend = 0, fastlimit = IKCP_FASTACK_LIMIT, nocwnd = 0, stream = 0\<rparr>)"

section \<open>Parameters\<close>

definition ikcp_setmtu :: "bool \<Rightarrow> int \<Rightarrow> ikcpcb \<Rightarrow> int \<times> ikcpcb" where
  "ikcp_setmtu mem mt k =
     (if mt < 50 \<or> mt < sint IKCP_OVERHEAD then (-1, k)
      else if \<not> mem then (-2, k)
      else (0, k\<lparr>mtu := word_of_int mt, mss := word_of_int mt - IKCP_OVERHEAD,
                 buffer := (word_of_int mt + IKCP_OVERHEAD) * 3\<rparr>))"

definition clamp_interval :: "int \<Rightarrow> int" where
  "clamp_interval iv = (if iv > 5000 then 5000 else if iv < 10 then 10 else iv)"

definition ikcp_interval :: "int \<Rightarrow> ikcpcb \<Rightarrow> int \<times> ikcpcb" where
  "ikcp_interval iv k = (0, k\<lparr>interval := word_of_int (clamp_interval iv)\<rparr>)"

definition ikcp_nodelay :: "int \<Rightarrow> int \<Rightarrow> int \<Rightarrow> int \<Rightarrow> ikcpcb \<Rightarrow> int \<times> ikcpcb" where
  "ikcp_nodelay nd iv resend nc k =
     (let k = (if nd \<ge> 0 then
                 (let k = k\<lparr>nodelay := word_of_int nd\<rparr>
                  in if nd \<noteq> 0 then k\<lparr>rx_minrto := IKCP_RTO_NDL\<rparr>
                     else k\<lparr>rx_minrto := IKCP_RTO_MIN\<rparr>)
               else k);
          k = (if iv \<ge> 0 then k\<lparr>interval := word_of_int (clamp_interval iv)\<rparr> else k);
          k = (if resend \<ge> 0 then k\<lparr>fastresend := resend\<rparr> else k);
          k = (if nc \<ge> 0 then k\<lparr>nocwnd := nc\<rparr> else k)
      in (0, k))"

definition ikcp_wndsize :: "int \<Rightarrow> int \<Rightarrow> ikcpcb \<Rightarrow> int \<times> ikcpcb" where
  "ikcp_wndsize sndwnd rcvwnd k =
     (let k = (if sndwnd > 0 then k\<lparr>snd_wnd := word_of_int sndwnd\<rparr> else k);
          k = (if rcvwnd > 0 then k\<lparr>rcv_wnd := imax (word_of_int rcvwnd) IKCP_WND_RCV\<rparr> else k)
      in (0, k))"

definition ikcp_waitsnd :: "ikcpcb \<Rightarrow> int" where
  "ikcp_waitsnd k = sint (nsnd_buf k + nsnd_que k)"

section \<open>Facts on the helpers\<close>

lemma unat_imin: "unat (imin a b) = min (unat a) (unat b)"
  by (simp add: imin_def min_def word_le_nat_alt)

lemma unat_imax: "unat (imax a b) = max (unat a) (unat b)"
  by (auto simp: imax_def max_def word_le_nat_alt)

lemma ibound_bounds:
  assumes "lower \<le> upper"
  shows "lower \<le> ibound lower middle upper" and "ibound lower middle upper \<le> upper"
  using assms by (auto simp: ibound_def imin_def imax_def)

lemma itimediff_less_0_iff:
  "unat (a - c) < half32 \<Longrightarrow> unat (b - c) < half32 \<Longrightarrow>
   itimediff a b < 0 \<longleftrightarrow> unat (a - c) < unat (b - c)"
  unfolding itimediff_def by (rule serial_less_iff)

lemma itimediff_greater_0_iff:
  "unat (a - c) < half32 \<Longrightarrow> unat (b - c) < half32 \<Longrightarrow>
   0 < itimediff a b \<longleftrightarrow> unat (b - c) < unat (a - c)"
  unfolding itimediff_def by (rule serial_greater_iff)

lemma itimediff_base: "itimediff a c < 0 \<longleftrightarrow> half32 \<le> unat (a - c)"
  unfolding itimediff_def by (rule sint_u32_less_0)

lemma itimediff_self [simp]: "itimediff a a = 0"
  by (simp add: itimediff_def)

text \<open>A block just created, for concrete instances.\<close>

definition kcp_fresh :: "u32 \<Rightarrow> ikcpcb" where
  "kcp_fresh cv = the (ikcp_create True True cv)"

end
