(* ===== verification/Kcp_Recv.thy ===== *)
theory Kcp_Recv
  imports Kcp_State "HOL-Library.Multiset"
begin

text \<open>
  The receiving side of the kcp engine: \<open>ikcp_peeksize\<close>, \<open>ikcp_recv\<close>, \<open>ikcp_parse_data\<close> and
  the loop that moves segments from \<open>rcv_buf\<close> to \<open>rcv_queue\<close>, which the source writes out in
  both callers.

  \<^item> \<open>rcv_inv\<close> is the invariant: the counters agree with the queues, \<open>rcv_buf\<close> is ordered by
    serial number within half the number space ahead of \<open>rcv_nxt\<close>, and \<open>rcv_queue\<close> holds the
    consecutive numbers just below \<open>rcv_nxt\<close>.
  \<^item> \<open>rcv_insert_back_eq\<close> says that the backward scan of \<open>ikcp_parse_data\<close> is insertion
    into a sorted list without duplicates.
  \<^item> \<open>ikcp_recv_eq\<close> describes the result of \<open>ikcp_recv\<close> on every path; its assertion never
    fails.
\<close>

section \<open>Operations\<close>

text \<open>The summation loop of \<open>ikcp_peeksize\<close>.\<close>

fun peek_len :: "ikcpseg list \<Rightarrow> u32 \<Rightarrow> u32" where
  "peek_len [] l = l"
| "peek_len (seg # q) l =
     (let l = l + seg_len seg in if seg_frg seg = 0 then l else peek_len q l)"

definition ikcp_peeksize :: "ikcpcb \<Rightarrow> int" where
  "ikcp_peeksize k =
     (case rcv_queue k of
        [] \<Rightarrow> -1
      | seg # _ \<Rightarrow>
          if seg_frg seg = 0 then sint (seg_len seg)
          else if nrcv_que k < seg_frg seg + 1 then -1
          else sint (peek_len (rcv_queue k) 0))"

text \<open>
  The merge loop of \<open>ikcp_recv\<close>. Its cursor \<open>q\<close> runs over \<open>rcv_queue\<close>; \<open>out\<close> are the bytes
  stored to the caller's buffer so far (none for a null buffer).
\<close>

fun recv_merge ::
  "bool \<Rightarrow> bool \<Rightarrow> ikcpseg list \<Rightarrow> u32 \<Rightarrow> u8 list \<Rightarrow> ikcpcb \<Rightarrow> u32 \<times> u8 list \<times> ikcpcb" where
  "recv_merge has_buffer ispeek [] l out k = (l, out, k)"
| "recv_merge has_buffer ispeek (seg # q) l out k =
     (let out = (if has_buffer then out @ seg_data seg else out);
          l = l + seg_len seg;
          fragment = seg_frg seg;
          k = (if \<not> ispeek then k\<lparr>rcv_queue := tl (rcv_queue k), nrcv_que := nrcv_que k - 1\<rparr>
               else k)
      in if fragment = 0 then (l, out, k) else recv_merge has_buffer ispeek q l out k)"

text \<open>Move available data from \<open>rcv_buf\<close> to \<open>rcv_queue\<close>.\<close>

function ikcp_move_ready :: "ikcpcb \<Rightarrow> ikcpcb" where
  "ikcp_move_ready k =
     (case rcv_buf k of
        [] \<Rightarrow> k
      | seg # rest \<Rightarrow>
          if seg_sn seg = rcv_nxt k \<and> nrcv_que k < rcv_wnd k
          then ikcp_move_ready
                 (k\<lparr>rcv_buf := rest, nrcv_buf := nrcv_buf k - 1,
                    rcv_queue := rcv_queue k @ [seg], nrcv_que := nrcv_que k + 1,
                    rcv_nxt := rcv_nxt k + 1\<rparr>)
          else k)"
  by pat_completeness auto
termination
  by (relation "measure (\<lambda>k. length (rcv_buf k))") auto

declare ikcp_move_ready.simps [simp del]

text \<open>\<open>None\<close> is the failed assertion \<open>len == peeksize\<close>.\<close>

definition ikcp_recv :: "bool \<Rightarrow> int \<Rightarrow> ikcpcb \<Rightarrow> (int \<times> u8 list \<times> ikcpcb) option" where
  "ikcp_recv has_buffer len k =
     (if rcv_queue k = [] then Some (-1, [], k)
      else
        let ispeek = (len < 0);
            len = (if len < 0 then - len else len);
            peeksize = ikcp_peeksize k
        in if peeksize < 0 then Some (-2, [], k)
           else if peeksize > len then Some (-3, [], k)
           else
             let recover = (nrcv_que k \<ge> rcv_wnd k);
                 (l, out, k) = recv_merge has_buffer ispeek (rcv_queue k) 0 [] k
             in if sint l \<noteq> peeksize then None
                else
                  let k = ikcp_move_ready k;
                      k = (if nrcv_que k < rcv_wnd k \<and> recover
                           then k\<lparr>probe := probe k OR IKCP_ASK_TELL\<rparr> else k)
                  in Some (sint l, out, k))"

text \<open>
  The backward scan of \<open>ikcp_parse_data\<close>: \<open>before\<close> are the segments still to compare, nearest
  first, and \<open>after\<close> the ones already passed. \<open>None\<close> is a repeated segment.
\<close>

fun rcv_insert_back :: "ikcpseg \<Rightarrow> ikcpseg list \<Rightarrow> ikcpseg list \<Rightarrow> ikcpseg list option" where
  "rcv_insert_back newseg [] after = Some (newseg # after)"
| "rcv_insert_back newseg (seg # before) after =
     (if seg_sn seg = seg_sn newseg then None
      else if itimediff (seg_sn newseg) (seg_sn seg) > 0
      then Some (rev (seg # before) @ newseg # after)
      else rcv_insert_back newseg before (seg # after))"

definition ikcp_parse_data :: "ikcpseg \<Rightarrow> ikcpcb \<Rightarrow> ikcpcb" where
  "ikcp_parse_data newseg k =
     (let sn = seg_sn newseg
      in if itimediff sn (rcv_nxt k + rcv_wnd k) \<ge> 0 \<or> itimediff sn (rcv_nxt k) < 0 then k
         else
           let k = (case rcv_insert_back newseg (rev (rcv_buf k)) [] of
                      Some buf \<Rightarrow> k\<lparr>rcv_buf := buf, nrcv_buf := nrcv_buf k + 1\<rparr>
                    | None \<Rightarrow> k)
           in ikcp_move_ready k)"

section \<open>The invariant\<close>

definition seg_ok :: "ikcpseg \<Rightarrow> bool" where
  "seg_ok s \<longleftrightarrow> length (seg_data s) = unat (seg_len s)"

definition rcv_inv :: "ikcpcb \<Rightarrow> bool" where
  "rcv_inv k \<longleftrightarrow>
     128 \<le> unat (rcv_wnd k) \<and> unat (rcv_wnd k) < half32 \<and>
     nrcv_buf k = of_nat (length (rcv_buf k)) \<and>
     nrcv_que k = of_nat (length (rcv_queue k)) \<and> length (rcv_queue k) < half32 \<and>
     window_sorted (rcv_nxt k) half32 (map seg_sn (rcv_buf k)) \<and>
     consecutive (rcv_nxt k - of_nat (length (rcv_queue k))) (map seg_sn (rcv_queue k)) \<and>
     (\<forall>s \<in> set (rcv_buf k) \<union> set (rcv_queue k). seg_ok s)"

lemma rcv_inv_nrcv_que [wf_dests]: "rcv_inv k \<Longrightarrow> unat (nrcv_que k) = length (rcv_queue k)"
  by (simp add: rcv_inv_def unat_of_nat_u32)

section \<open>Moving ready segments\<close>

text \<open>The prefix of \<open>rcv_buf\<close> that the loop moves, and the loop in terms of it.\<close>

fun ready_prefix :: "u32 \<Rightarrow> u32 \<Rightarrow> u32 \<Rightarrow> ikcpseg list \<Rightarrow> ikcpseg list" where
  "ready_prefix nxt que wnd [] = []"
| "ready_prefix nxt que wnd (s # buf) =
     (if seg_sn s = nxt \<and> que < wnd then s # ready_prefix (nxt + 1) (que + 1) wnd buf else [])"

abbreviation ready :: "ikcpcb \<Rightarrow> ikcpseg list" where
  "ready k \<equiv> ready_prefix (rcv_nxt k) (nrcv_que k) (rcv_wnd k) (rcv_buf k)"

definition take_ready :: "nat \<Rightarrow> ikcpcb \<Rightarrow> ikcpcb" where
  "take_ready n k = k\<lparr>rcv_buf := drop n (rcv_buf k), nrcv_buf := nrcv_buf k - of_nat n,
     rcv_queue := rcv_queue k @ take n (rcv_buf k), nrcv_que := nrcv_que k + of_nat n,
     rcv_nxt := rcv_nxt k + of_nat n\<rparr>"

lemma ready_prefix_take: "ready_prefix nxt que wnd buf = take (length (ready_prefix nxt que wnd buf)) buf"
  by (induction nxt que wnd buf rule: ready_prefix.induct) simp_all

lemma consecutive_ready_prefix: "consecutive nxt (map seg_sn (ready_prefix nxt que wnd buf))"
  by (induction nxt que wnd buf rule: ready_prefix.induct) simp_all

lemma ikcp_move_ready_eq: "ikcp_move_ready k = take_ready (length (ready k)) k"
proof (induction "rcv_buf k" arbitrary: k)
  case Nil
  then show ?case
    by (simp add: take_ready_def ikcp_move_ready.simps [of k] flip: Nil)
next
  case (Cons s rest)
  note buf = Cons.hyps(2) [symmetric]
  show ?case
  proof (cases "seg_sn s = rcv_nxt k \<and> nrcv_que k < rcv_wnd k")
    case False
    with buf show ?thesis
      by (auto simp: take_ready_def ikcp_move_ready.simps [of k])
  next
    case True
    let ?k' = "k\<lparr>rcv_buf := rest, nrcv_buf := nrcv_buf k - 1, rcv_queue := rcv_queue k @ [s],
      nrcv_que := nrcv_que k + 1, rcv_nxt := rcv_nxt k + 1\<rparr>"
    have "ikcp_move_ready k = ikcp_move_ready ?k'"
      using buf True by (simp add: ikcp_move_ready.simps [of k])
    also have "\<dots> = take_ready (length (ready ?k')) ?k'"
      by (rule Cons.hyps(1)) simp
    also have "\<dots> = take_ready (length (ready k)) k"
      using buf True by (simp add: take_ready_def algebra_simps)
    finally show ?thesis .
  qed
qed

text \<open>The loop stops only at an empty buffer, at a gap, or at a full queue.\<close>

lemma ready_prefix_maximal:
  "drop (length (ready_prefix nxt que wnd buf)) buf = s # rest \<Longrightarrow>
   seg_sn s \<noteq> nxt + of_nat (length (ready_prefix nxt que wnd buf)) \<or>
   \<not> que + of_nat (length (ready_prefix nxt que wnd buf)) < wnd"
  by (induction nxt que wnd buf rule: ready_prefix.induct)
    (auto simp: algebra_simps split: if_splits)

lemma length_ready_prefix:
  "unat que + length (ready_prefix nxt que wnd buf) \<le> max (unat que) (unat wnd)"
proof (induction nxt que wnd buf rule: ready_prefix.induct)
  case (1 nxt que wnd)
  then show ?case by simp
next
  case (2 nxt que wnd s buf)
  show ?case
  proof (cases "seg_sn s = nxt \<and> que < wnd")
    case False
    then show ?thesis by auto
  next
    case True
    then have "unat (que + 1) = Suc (unat que)" "Suc (unat que) \<le> unat wnd"
      by (auto simp: word_less_nat_alt unat_u32_inc)
    with "2.IH" [OF True] True show ?thesis by simp
  qed
qed

lemma rcv_inv_take_ready:
  assumes inv: "rcv_inv k" and buf: "rcv_buf k = m @ rest"
    and con: "consecutive (rcv_nxt k) (map seg_sn m)"
    and len: "length (rcv_queue k) + length m < half32"
  shows "rcv_inv (take_ready (length m) k)"
proof -
  have ws: "window_sorted (rcv_nxt k) half32 (map seg_sn m @ map seg_sn rest)"
    using inv buf by (simp add: rcv_inv_def)
  from window_sorted_after_consecutive [OF this con]
  have "window_sorted (rcv_nxt k + of_nat (length m)) half32 (map seg_sn rest)"
    by (auto intro: window_sorted_mono)
  moreover have "consecutive (rcv_nxt k - of_nat (length (rcv_queue k)))
    (map seg_sn (rcv_queue k) @ map seg_sn m)"
    using inv con by (simp add: consecutive_append rcv_inv_def)
  ultimately show ?thesis
    using inv len buf by (auto simp: rcv_inv_def take_ready_def)
qed

lemma ready_split: "rcv_buf k = ready k @ drop (length (ready k)) (rcv_buf k)"
  by (metis append_take_drop_id ready_prefix_take)

lemma ikcp_move_ready_inv [wf_intros]:
  assumes inv: "rcv_inv k"
  shows "rcv_inv (ikcp_move_ready k)"
proof -
  have "unat (nrcv_que k) + length (ready k) < half32"
    using length_ready_prefix [of "nrcv_que k" "rcv_nxt k" "rcv_wnd k" "rcv_buf k"] inv
      rcv_inv_nrcv_que [OF inv] by (auto simp: rcv_inv_def)
  then show ?thesis
    unfolding ikcp_move_ready_eq
    using rcv_inv_take_ready [OF inv ready_split consecutive_ready_prefix]
      rcv_inv_nrcv_que [OF inv] by simp
qed

section \<open>Insertion into the receive buffer\<close>

text \<open>The reference: keep the order, drop nothing, add the new segment between its neighbours.\<close>

definition insert_by_sn :: "u32 \<Rightarrow> ikcpseg \<Rightarrow> ikcpseg list \<Rightarrow> ikcpseg list" where
  "insert_by_sn base s q =
     filter (\<lambda>t. unat (seg_sn t - base) < unat (seg_sn s - base)) q @ s #
     filter (\<lambda>t. unat (seg_sn s - base) < unat (seg_sn t - base)) q"

lemma rcv_insert_back_aux:
  assumes "window_sorted base half32 (map seg_sn (rev before))"
    and "unat (seg_sn s - base) < half32"
  shows "rcv_insert_back s before after =
    (if seg_sn s \<in> seg_sn ` set before then None
     else Some (insert_by_sn base s (rev before) @ after))"
  using assms
proof (induction before arbitrary: after)
  case Nil
  then show ?case by (simp add: insert_by_sn_def)
next
  case (Cons t before)
  have ws: "window_sorted base half32 (map seg_sn (rev before))"
    and t: "unat (seg_sn t - base) < half32"
    and below: "\<forall>v\<in>set before. unat (seg_sn v - base) < unat (seg_sn t - base)"
    using Cons.prems(1) by (auto simp: window_sorted_append window_sorted_Cons)
  have cmp: "0 < itimediff (seg_sn s) (seg_sn t) \<longleftrightarrow>
      unat (seg_sn t - base) < unat (seg_sn s - base)"
    using Cons.prems(2) t by (intro itimediff_greater_0_iff)
  show ?case
  proof (cases "seg_sn t = seg_sn s")
    case True
    then show ?thesis by simp
  next
    case ne: False
    show ?thesis
    proof (cases "unat (seg_sn t - base) < unat (seg_sn s - base)")
      case True
      have "seg_sn s \<notin> seg_sn ` set before"
        using True below by fastforce
      moreover have "filter (\<lambda>u. unat (seg_sn u - base) < unat (seg_sn s - base)) (rev before) = rev before"
        using True below by (intro filter_True) force
      moreover have "filter (\<lambda>u. unat (seg_sn s - base) < unat (seg_sn u - base)) (rev before) = []"
        using True below by (intro filter_False) force
      ultimately show ?thesis
        using ne cmp True by (auto simp: insert_by_sn_def)
    next
      case False
      then have "unat (seg_sn s - base) < unat (seg_sn t - base)"
        using ne serial_eq_iff [of "seg_sn t" base "seg_sn s"] by linarith
      then show ?thesis
        using ne cmp Cons.IH [OF ws Cons.prems(2)]
        by (auto simp: insert_by_sn_def)
    qed
  qed
qed

lemma rcv_insert_back_eq:
  assumes "window_sorted base half32 (map seg_sn q)" and "unat (seg_sn s - base) < half32"
  shows "rcv_insert_back s (rev q) [] =
    (if seg_sn s \<in> seg_sn ` set q then None else Some (insert_by_sn base s q))"
  using rcv_insert_back_aux [of base "rev q" s "[]"] assms by simp

lemma set_insert_by_sn:
  "seg_sn s \<notin> seg_sn ` set q \<Longrightarrow> set (insert_by_sn base s q) = insert s (set q)"
  by (auto simp: insert_by_sn_def) (metis image_eqI linorder_neqE_nat serial_eq_iff)

lemma length_insert_by_sn:
  assumes "seg_sn s \<notin> seg_sn ` set q"
  shows "length (insert_by_sn base s q) = Suc (length q)"
proof -
  have "filter (\<lambda>t. unat (seg_sn s - base) < unat (seg_sn t - base)) q =
    filter (\<lambda>t. \<not> unat (seg_sn t - base) < unat (seg_sn s - base)) q"
    using assms by (intro filter_cong refl) (metis image_eqI linorder_neqE_nat not_less_iff_gr_or_eq serial_eq_iff)
  then show ?thesis
    using sum_length_filter_compl [of "\<lambda>t. unat (seg_sn t - base) < unat (seg_sn s - base)" q]
    by (simp add: insert_by_sn_def)
qed

lemma window_sorted_insert:
  assumes "window_sorted base n (map seg_sn q)" and "unat (seg_sn s - base) < n"
  shows "window_sorted base n (map seg_sn (insert_by_sn base s q))"
proof -
  have "window_sorted base n (map seg_sn (filter P q))" for P
    using window_sorted_filter [OF assms(1), of "\<lambda>_. True"] assms(1)
    by (induction q) (auto simp: window_sorted_Cons)
  then show ?thesis
    using assms(2) by (auto simp: insert_by_sn_def window_sorted_append window_sorted_Cons)
qed

section \<open>\<open>ikcp_parse_data\<close>\<close>

definition in_rcv_window :: "u32 \<Rightarrow> ikcpcb \<Rightarrow> bool" where
  "in_rcv_window sn k \<longleftrightarrow> unat (sn - rcv_nxt k) < unat (rcv_wnd k)"

text \<open>The two signed tests of the source are the window test.\<close>

lemma window_test:
  assumes "unat (rcv_wnd k) < half32"
  shows "(itimediff sn (rcv_nxt k + rcv_wnd k) \<ge> 0 \<or> itimediff sn (rcv_nxt k) < 0)
    \<longleftrightarrow> \<not> in_rcv_window sn k"
proof (cases "unat (sn - rcv_nxt k) < half32")
  case True
  then have "itimediff sn (rcv_nxt k + rcv_wnd k) < 0 \<longleftrightarrow>
      unat (sn - rcv_nxt k) < unat (rcv_nxt k + rcv_wnd k - rcv_nxt k)"
    using assms by (intro itimediff_less_0_iff) simp_all
  then have "itimediff sn (rcv_nxt k + rcv_wnd k) < 0 \<longleftrightarrow> in_rcv_window sn k"
    by (simp add: in_rcv_window_def)
  moreover have "\<not> itimediff sn (rcv_nxt k) < 0"
    using True itimediff_base [of sn "rcv_nxt k"] by simp
  ultimately show ?thesis
    by linarith
next
  case False
  with assms show ?thesis
    by (auto simp: itimediff_base in_rcv_window_def)
qed

definition rcv_store :: "ikcpseg \<Rightarrow> ikcpcb \<Rightarrow> ikcpcb" where
  "rcv_store s k =
     (if seg_sn s \<in> seg_sn ` set (rcv_buf k) then k
      else k\<lparr>rcv_buf := insert_by_sn (rcv_nxt k) s (rcv_buf k), nrcv_buf := nrcv_buf k + 1\<rparr>)"

lemma ikcp_parse_data_eq:
  assumes "rcv_inv k"
  shows "ikcp_parse_data s k =
    (if in_rcv_window (seg_sn s) k then ikcp_move_ready (rcv_store s k) else k)"
proof (cases "in_rcv_window (seg_sn s) k")
  case True
  then have "unat (seg_sn s - rcv_nxt k) < half32"
    using assms by (simp add: in_rcv_window_def rcv_inv_def)
  with True show ?thesis
    using assms window_test [of k "seg_sn s"]
      rcv_insert_back_eq [of "rcv_nxt k" "rcv_buf k" s]
    by (simp add: ikcp_parse_data_def rcv_store_def rcv_inv_def)
next
  case False
  then show ?thesis
    using assms window_test [of k "seg_sn s"]
    by (simp add: ikcp_parse_data_def rcv_inv_def)
qed

lemma rcv_store_inv:
  assumes "rcv_inv k" and "in_rcv_window (seg_sn s) k" and "seg_ok s"
  shows "rcv_inv (rcv_store s k)"
  using assms
  by (auto simp: rcv_store_def rcv_inv_def set_insert_by_sn length_insert_by_sn
      in_rcv_window_def intro!: window_sorted_insert)

lemma ikcp_parse_data_inv [wf_intros]:
  "rcv_inv k \<Longrightarrow> seg_ok s \<Longrightarrow> rcv_inv (ikcp_parse_data s k)"
  by (auto simp: ikcp_parse_data_eq intro: ikcp_move_ready_inv rcv_store_inv)

section \<open>\<open>ikcp_recv\<close>\<close>

text \<open>The segments of the first message: up to and including the first with \<open>frg = 0\<close>.\<close>

fun first_message :: "ikcpseg list \<Rightarrow> ikcpseg list" where
  "first_message [] = []"
| "first_message (s # q) = (if seg_frg s = 0 then [s] else s # first_message q)"

definition message_len :: "ikcpseg list \<Rightarrow> u32" where
  "message_len q = sum_list (map seg_len (first_message q))"

definition message_bytes :: "ikcpseg list \<Rightarrow> u8 list" where
  "message_bytes q = concat (map seg_data (first_message q))"

lemma first_message_take: "first_message q = take (length (first_message q)) q"
  by (induction q rule: first_message.induct) simp_all

lemma peek_len_eq: "peek_len q l = l + message_len q"
  by (induction q l rule: peek_len.induct) (simp_all add: message_len_def algebra_simps)

definition drop_front :: "nat \<Rightarrow> ikcpcb \<Rightarrow> ikcpcb" where
  "drop_front n k =
     k\<lparr>rcv_queue := drop n (rcv_queue k), nrcv_que := nrcv_que k - of_nat n\<rparr>"

lemma recv_merge_eq:
  "recv_merge has_buffer ispeek q l out k =
     (l + message_len q, (if has_buffer then out @ message_bytes q else out),
      (if ispeek then k else drop_front (length (first_message q)) k))"
  by (induction has_buffer ispeek q l out k rule: recv_merge.induct)
    (auto simp: message_len_def message_bytes_def drop_front_def Let_def algebra_simps
      drop_Suc)

text \<open>
  \<open>ikcp_recv\<close> on every path. The assertion \<open>len == peeksize\<close> holds in every state.
\<close>

lemma ikcp_recv_eq:
  "ikcp_recv has_buffer len k =
     (if rcv_queue k = [] then Some (-1, [], k)
      else if ikcp_peeksize k < 0 then Some (-2, [], k)
      else if ikcp_peeksize k > \<bar>len\<bar> then Some (-3, [], k)
      else
        let q = rcv_queue k;
            k1 = ikcp_move_ready (if len < 0 then k else drop_front (length (first_message q)) k)
        in Some (ikcp_peeksize k, if has_buffer then message_bytes q else [],
             if nrcv_que k1 < rcv_wnd k1 \<and> nrcv_que k \<ge> rcv_wnd k
             then k1\<lparr>probe := probe k1 OR IKCP_ASK_TELL\<rparr> else k1))"
proof -
  have "sint (message_len (rcv_queue k)) = ikcp_peeksize k"
    if "rcv_queue k \<noteq> []" "\<not> ikcp_peeksize k < 0"
    using that
    by (cases "rcv_queue k") (auto simp: ikcp_peeksize_def message_len_def peek_len_eq Let_def)
  then show ?thesis
    by (auto simp: ikcp_recv_def Let_def recv_merge_eq)
qed

lemma first_message_prefix: "\<exists>rest. q = first_message q @ rest"
  by (metis append_take_drop_id first_message_take)

lemma length_first_message: "length (first_message q) \<le> length q"
  by (induction q rule: first_message.induct) simp_all

lemma rcv_inv_drop_front:
  assumes "rcv_inv k" and "n \<le> length (rcv_queue k)"
  shows "rcv_inv (drop_front n k)"
proof -
  have "map seg_sn (rcv_queue k) = map seg_sn (take n (rcv_queue k)) @ map seg_sn (drop n (rcv_queue k))"
    by (metis append_take_drop_id map_append)
  then have "consecutive (rcv_nxt k - of_nat (length (rcv_queue k)) + of_nat n)
      (map seg_sn (drop n (rcv_queue k)))"
    using assms by (simp add: rcv_inv_def consecutive_append)
  with assms show ?thesis
    by (auto simp: rcv_inv_def drop_front_def of_nat_diff algebra_simps dest: in_set_dropD)
qed

lemma rcv_inv_probe [simp]: "rcv_inv (k\<lparr>probe := p\<rparr>) = rcv_inv k"
  by (simp add: rcv_inv_def)

lemma ikcp_recv_inv [wf_intros]:
  assumes "rcv_inv k" and "ikcp_recv has_buffer len k = Some (ret, out, k')"
  shows "rcv_inv k'"
  using assms
  by (auto simp: ikcp_recv_eq Let_def length_first_message split: if_splits
      intro!: ikcp_move_ready_inv rcv_inv_drop_front)

text \<open>
  A complete message at the front of \<open>rcv_queue\<close>: every fragment but the last announces how
  many fragments follow it.
\<close>

fun complete_message :: "ikcpseg list \<Rightarrow> bool" where
  "complete_message [] = False"
| "complete_message (s # q) =
     (unat (seg_frg s) = length q \<and> (q = [] \<or> complete_message q))"

lemma first_message_complete: "complete_message m \<Longrightarrow> first_message (m @ rest) = m"
proof (induction m)
  case Nil
  then show ?case by simp
next
  case (Cons s m)
  show ?case
  proof (cases m)
    case Nil
    with Cons.prems show ?thesis by (simp add: unat_eq_zero)
  next
    case (Cons t m')
    with Cons.prems have "seg_frg s \<noteq> 0" by auto
    with Cons.prems Cons.IH Cons show ?thesis by simp
  qed
qed

definition payload_len :: "ikcpseg list \<Rightarrow> nat" where
  "payload_len q = sum_list (map (\<lambda>s. unat (seg_len s)) q)"

lemma unat_sum_seg_len:
  "payload_len q < 4294967296 \<Longrightarrow> unat (sum_list (map seg_len q)) = payload_len q"
  by (induction q) (auto simp: payload_len_def unat_word_ariths)

lemma ikcp_peeksize_complete:
  assumes "rcv_inv k" and "rcv_queue k = m @ rest" and "complete_message m"
    and "payload_len m < half32"
  shows "ikcp_peeksize k = int (payload_len m)"
proof -
  obtain s m' where m: "m = s # m'"
    using assms(3) by (cases m) auto
  have frg: "unat (seg_frg s) = length m'"
    using assms(3) m by simp
  have len: "sint (sum_list (map seg_len m)) = int (payload_len m)"
    using sint_u32_small [of "sum_list (map seg_len m)"] unat_sum_seg_len [of m] assms(4) by simp
  show ?thesis
  proof (cases "seg_frg s = 0")
    case True
    with frg m len assms(2) show ?thesis by (simp add: ikcp_peeksize_def)
  next
    case False
    have "unat (nrcv_que k) = Suc (length m') + length rest"
      using rcv_inv_nrcv_que [OF assms(1)] assms(2) m by simp
    moreover have "length m' < half32"
      using assms(1,2) m by (simp add: rcv_inv_def)
    then have "unat (seg_frg s + 1) = Suc (length m')"
      using frg by (simp add: unat_word_ariths)
    ultimately have "\<not> nrcv_que k < seg_frg s + 1"
      by (simp add: word_less_nat_alt)
    with False m assms(2) len show ?thesis
      using first_message_complete [OF assms(3), of rest]
      by (simp add: ikcp_peeksize_def peek_len_eq message_len_def del: peek_len.simps)
  qed
qed

lemma ikcp_recv_complete:
  assumes "rcv_inv k" and "rcv_queue k = m @ rest" and "complete_message m"
    and "payload_len m < half32" and "int (payload_len m) \<le> len"
  shows "\<exists>k'. ikcp_recv True len k = Some (int (payload_len m), concat (map seg_data m), k') \<and>
    rcv_inv k' \<and> rcv_queue k' = rest @ ready (drop_front (length m) k)"
proof -
  have "rcv_queue k \<noteq> []"
    using assms(2,3) by (cases m) auto
  moreover have "first_message (rcv_queue k) = m"
    using assms(2) first_message_complete [OF assms(3)] by simp
  ultimately obtain k' where
    k': "ikcp_recv True len k = Some (int (payload_len m), concat (map seg_data m), k')"
      "rcv_queue k' = rcv_queue (ikcp_move_ready (drop_front (length m) k))"
    using ikcp_peeksize_complete [OF assms(1-4)] assms(5)
    by (auto simp: ikcp_recv_eq Let_def message_bytes_def)
  moreover have "rcv_inv k'"
    using assms(1) k'(1) by (rule ikcp_recv_inv)
  moreover have "rcv_queue (ikcp_move_ready (drop_front (length m) k)) =
      rest @ ready (drop_front (length m) k)"
    using assms(2) by (simp add: ikcp_move_ready_eq take_ready_def drop_front_def
        ready_prefix_take [symmetric])
  ultimately show ?thesis
    by auto
qed

section \<open>Properties\<close>

lemma mset_insert_by_sn:
  assumes "seg_sn s \<notin> seg_sn ` set q"
  shows "mset (insert_by_sn base s q) = add_mset s (mset q)"
proof -
  let ?P = "\<lambda>t. unat (seg_sn t - base) < unat (seg_sn s - base)"
  have "filter (\<lambda>t. unat (seg_sn s - base) < unat (seg_sn t - base)) q = filter (\<lambda>t. \<not> ?P t) q"
    using assms by (intro filter_cong refl)
      (metis image_eqI linorder_neqE_nat not_less_iff_gr_or_eq serial_eq_iff)
  moreover have "mset (filter ?P q) + mset (filter (\<lambda>t. \<not> ?P t) q) = mset q"
    by (simp only: mset_filter multiset_partition [symmetric])
  ultimately show ?thesis
    by (simp add: insert_by_sn_def)
qed

lemma length_ready_le: "length (ready_prefix nxt que wnd buf) \<le> length buf"
  by (induction nxt que wnd buf rule: ready_prefix.induct) simp_all

text \<open>
  C17 (in-order delivery). Whatever segment arrives, \<open>ikcp_parse_data\<close> keeps the invariant of
  the receive side; the queue of the application only grows at its end, by segments with the
  consecutive serial numbers from \<open>rcv_nxt\<close> on, and \<open>rcv_nxt\<close> advances by their number; and no
  segment is lost or duplicated: what is queued and buffered afterwards is what was buffered
  before, and the new segment if its number is in the window and not yet buffered.
\<close>

theorem parse_data_in_order:
  assumes inv: "rcv_inv k" and ok: "seg_ok s"
  shows "rcv_inv (ikcp_parse_data s k) \<and>
    (\<exists>ms. rcv_queue (ikcp_parse_data s k) = rcv_queue k @ ms \<and>
      consecutive (rcv_nxt k) (map seg_sn ms) \<and>
      rcv_nxt (ikcp_parse_data s k) = rcv_nxt k + of_nat (length ms) \<and>
      mset (ms @ rcv_buf (ikcp_parse_data s k)) =
        (if in_rcv_window (seg_sn s) k \<and> seg_sn s \<notin> seg_sn ` set (rcv_buf k)
         then add_mset s (mset (rcv_buf k)) else mset (rcv_buf k)))"
proof (cases "in_rcv_window (seg_sn s) k")
  case False
  with inv show ?thesis
    by (simp add: ikcp_parse_data_eq)
next
  case True
  let ?k = "rcv_store s k"
  have same: "rcv_queue ?k = rcv_queue k" "rcv_nxt ?k = rcv_nxt k"
    by (simp_all add: rcv_store_def)
  have "mset (rcv_buf ?k) = (if seg_sn s \<notin> seg_sn ` set (rcv_buf k)
      then add_mset s (mset (rcv_buf k)) else mset (rcv_buf k))"
    by (simp add: rcv_store_def mset_insert_by_sn)
  moreover have "mset (ready ?k @ drop (length (ready ?k)) (rcv_buf ?k)) = mset (rcv_buf ?k)"
    by (metis ready_split)
  moreover have "take (length (ready ?k)) (rcv_buf ?k) = ready ?k"
    by (rule ready_prefix_take [symmetric])
  ultimately show ?thesis
    using True inv ok ikcp_parse_data_inv [OF inv ok] consecutive_ready_prefix same
    by (intro conjI exI [of _ "ready ?k"])
      (simp_all add: ikcp_parse_data_eq ikcp_move_ready_eq take_ready_def)
qed

definition sample_seg :: "u32 \<Rightarrow> u8 list \<Rightarrow> ikcpseg" where
  "sample_seg sn bytes = ikcp_segment_zero\<lparr>seg_sn := sn, seg_len := of_nat (length bytes), seg_data := bytes\<rparr>"

lemma rcv_inv_fresh: "rcv_inv (kcp_fresh cv)"
  by (simp add: kcp_fresh_def ikcp_create_def rcv_inv_def window_sorted_Nil)

lemma seg_ok_sample: "length bytes < 4294967296 \<Longrightarrow> seg_ok (sample_seg sn bytes)"
  by (simp add: seg_ok_def sample_seg_def unat_of_nat_u32)

theorem parse_data_in_order_witness:
  "\<exists>ms. rcv_queue (ikcp_parse_data (sample_seg 1 [7]) (kcp_fresh 9)) = rcv_queue (kcp_fresh 9) @ ms \<and>
    consecutive (rcv_nxt (kcp_fresh 9)) (map seg_sn ms)"
proof -
  have "rcv_inv (kcp_fresh 9)" "seg_ok (sample_seg 1 [7])"
    by (simp_all add: rcv_inv_fresh seg_ok_sample)
  from parse_data_in_order [OF this] show ?thesis by blast
qed

text \<open>
  C28 (a whole message at a time). When the queue starts with the segments of a complete message
  and the buffer is large enough, \<open>ikcp_recv\<close> returns the length of the message and its bytes,
  the fragments in order, removes exactly these segments, and refills the queue from the
  receive buffer.
\<close>

theorem recv_whole_message:
  assumes "rcv_inv k" and "rcv_queue k = m @ rest" and "complete_message m"
    and "payload_len m < half32" and "int (payload_len m) \<le> len"
  shows "\<exists>k'. ikcp_recv True len k = Some (int (payload_len m), concat (map seg_data m), k') \<and>
    rcv_inv k' \<and> rcv_queue k' = rest @ ready (drop_front (length m) k)"
  using assms by (rule ikcp_recv_complete)

theorem recv_whole_message_witness:
  "\<exists>k'. ikcp_recv True 10 (ikcp_parse_data (sample_seg 0 [7, 8]) (kcp_fresh 9)) = Some (2, [7, 8], k')"
proof -
  let ?k = "ikcp_parse_data (sample_seg 0 [7, 8]) (kcp_fresh 9)"
  have q: "rcv_queue ?k = [sample_seg 0 [7, 8]] @ []" by code_simp
  have "rcv_inv ?k"
    by (simp add: ikcp_parse_data_inv rcv_inv_fresh seg_ok_sample)
  moreover have "complete_message [sample_seg 0 [7, 8]]" "payload_len [sample_seg 0 [7, 8]] = 2"
    "seg_data (sample_seg 0 [7, 8]) = [7, 8]"
    by (simp_all add: sample_seg_def payload_len_def ikcp_segment_zero_def)
  ultimately show ?thesis
    using recv_whole_message [OF _ q, of 10] by auto
qed

text \<open>
  \<open>ikcp_recv\<close> always returns: its assertion holds in every
  state. A negative result is -1, -2 or -3 and leaves the control block as it was, with nothing
  copied; any other result is the length of the first message and fits the buffer.
\<close>

theorem recv_total:
  "\<exists>ret out k'. ikcp_recv has_buffer len k = Some (ret, out, k') \<and>
    (ret < 0 \<longrightarrow> ret \<in> {-1, -2, -3} \<and> out = [] \<and> k' = k) \<and>
    (0 \<le> ret \<longrightarrow> ret = ikcp_peeksize k \<and> ret \<le> \<bar>len\<bar>)"
  by (simp add: ikcp_recv_eq Let_def)

theorem recv_total_witness:
  "\<exists>ret out k'. ikcp_recv True 10 (kcp_fresh 9) = Some (ret, out, k')"
  using recv_total [of True 10 "kcp_fresh 9"] by blast

end
