(* ===== verification/Kcp_Ack.thy ===== *)
theory Kcp_Ack
  imports Kcp_State
begin

text \<open>
  Acknowledgements in the kcp engine: the round trip estimator \<open>ikcp_update_ack\<close>, the removal
  of acknowledged segments from \<open>snd_buf\<close> (\<open>ikcp_parse_una\<close>, \<open>ikcp_parse_ack\<close>,
  \<open>ikcp_shrink_buf\<close>), the duplicate-ack counter \<open>ikcp_parse_fastack\<close> and the growing array of
  acknowledgements to send (\<open>ikcp_ack_push\<close>, \<open>ikcp_ack_get\<close>).

  \<^item> \<open>snd_inv\<close> is the invariant of the send buffer: it is ordered by serial number inside
    \<open>[snd_una, snd_nxt)\<close>, \<open>snd_una\<close> is its first number (or \<open>snd_nxt\<close>), and the counter is its
    length. \<open>snd_order\<close> leaves out the part that \<open>ikcp_shrink_buf\<close> restores.
  \<^item> Under the invariant the loops, which stop early, are filters and maps
    (\<open>ikcp_parse_una_eq\<close>, \<open>ikcp_parse_ack_eq\<close>, \<open>ikcp_parse_fastack_eq\<close>).
  \<^item> \<open>acks\<close> is the list of acknowledgements the array stands for; \<open>ikcp_ack_push\<close> refines
    appending to it.
\<close>

section \<open>Operations\<close>

text \<open>
  The arithmetic is that of the source: \<open>int\<close> operations wrap at 32 bits, \<open>delta\<close> is a
  \<open>long\<close>, division truncates, and the last sum and \<open>_ibound_\<close> are unsigned.
\<close>

definition ikcp_update_ack :: "int \<Rightarrow> ikcpcb \<Rightarrow> ikcpcb" where
  "ikcp_update_ack rtt_long k =
     (let rtt = word_of_int rtt_long :: i32;
          k = (if rx_srtt k = 0
               then k\<lparr>rx_srtt := rtt, rx_rttval := word_of_int (sint rtt sdiv 2)\<rparr>
               else
                 let delta = sint (rtt - rx_srtt k);
                     delta = (if delta < 0 then - delta else delta);
                     k = k\<lparr>rx_rttval := word_of_int ((sint (3 * rx_rttval k) + delta) sdiv 4)\<rparr>;
                     k = k\<lparr>rx_srtt := word_of_int (sint (7 * rx_srtt k + rtt) sdiv 8)\<rparr>
                 in if sint (rx_srtt k) < 1 then k\<lparr>rx_srtt := 1\<rparr> else k);
          rto = rx_srtt k + imax (interval k) (4 * rx_rttval k)
      in k\<lparr>rx_rto := ibound (rx_minrto k) rto IKCP_RTO_MAX\<rparr>)"

definition ikcp_shrink_buf :: "ikcpcb \<Rightarrow> ikcpcb" where
  "ikcp_shrink_buf k =
     (case snd_buf k of
        seg # _ \<Rightarrow> k\<lparr>snd_una := seg_sn seg\<rparr>
      | [] \<Rightarrow> k\<lparr>snd_una := snd_nxt k\<rparr>)"

definition outside_flight :: "u32 \<Rightarrow> ikcpcb \<Rightarrow> bool" where
  "outside_flight sn k \<longleftrightarrow> itimediff sn (snd_una k) < 0 \<or> itimediff sn (snd_nxt k) \<ge> 0"

fun parse_ack_loop :: "u32 \<Rightarrow> ikcpseg list \<Rightarrow> u32 \<Rightarrow> ikcpseg list \<times> u32" where
  "parse_ack_loop sn [] n = ([], n)"
| "parse_ack_loop sn (seg # p) n =
     (if sn = seg_sn seg then (p, n - 1)
      else if itimediff sn (seg_sn seg) < 0 then (seg # p, n)
      else let (p, n) = parse_ack_loop sn p n in (seg # p, n))"

definition ikcp_parse_ack :: "u32 \<Rightarrow> ikcpcb \<Rightarrow> ikcpcb" where
  "ikcp_parse_ack sn k =
     (if outside_flight sn k then k
      else let (buf, n) = parse_ack_loop sn (snd_buf k) (nsnd_buf k)
           in k\<lparr>snd_buf := buf, nsnd_buf := n\<rparr>)"

fun parse_una_loop :: "u32 \<Rightarrow> ikcpseg list \<Rightarrow> u32 \<Rightarrow> ikcpseg list \<times> u32" where
  "parse_una_loop una [] n = ([], n)"
| "parse_una_loop una (seg # p) n =
     (if itimediff una (seg_sn seg) > 0 then parse_una_loop una p (n - 1) else (seg # p, n))"

definition ikcp_parse_una :: "u32 \<Rightarrow> ikcpcb \<Rightarrow> ikcpcb" where
  "ikcp_parse_una una k =
     (let (buf, n) = parse_una_loop una (snd_buf k) (nsnd_buf k)
      in k\<lparr>snd_buf := buf, nsnd_buf := n\<rparr>)"

text \<open>\<open>IKCP_FASTACK_CONSERVE\<close> is not defined in this program, so the timestamp is not used.\<close>

fun parse_fastack_loop :: "u32 \<Rightarrow> ikcpseg list \<Rightarrow> ikcpseg list" where
  "parse_fastack_loop sn [] = []"
| "parse_fastack_loop sn (seg # p) =
     (if itimediff sn (seg_sn seg) < 0 then seg # p
      else if sn \<noteq> seg_sn seg
      then seg\<lparr>seg_fastack := seg_fastack seg + 1\<rparr> # parse_fastack_loop sn p
      else seg # parse_fastack_loop sn p)"

definition ikcp_parse_fastack :: "u32 \<Rightarrow> u32 \<Rightarrow> ikcpcb \<Rightarrow> ikcpcb" where
  "ikcp_parse_fastack sn ts k =
     (if outside_flight sn k then k
      else k\<lparr>snd_buf := parse_fastack_loop sn (snd_buf k)\<rparr>)"

text \<open>
  The acknowledgement array. Block sizes double from 8 (the guard on 0 only makes the
  recursion total); a new block takes over the used entries of the old one.
\<close>

function grow_block :: "nat \<Rightarrow> nat \<Rightarrow> nat" where
  "grow_block newsize newblock =
     (if newblock < newsize \<and> 0 < newblock then grow_block newsize (newblock * 2) else newblock)"
  by pat_completeness auto
termination
  by (relation "measure (\<lambda>(newsize, newblock). newsize - newblock)") auto

declare grow_block.simps [simp del]

definition array_put :: "u32 list \<Rightarrow> nat \<Rightarrow> u32 \<Rightarrow> u32 list" where
  "array_put xs i v = (if i < length xs then xs[i := v] else xs @ [v])"

definition ikcp_ack_push :: "u32 \<Rightarrow> u32 \<Rightarrow> ikcpcb \<Rightarrow> ikcpcb" where
  "ikcp_ack_push sn ts k =
     (let newsize = unat (ackcount k + 1);
          k = (if newsize > unat (ackblock k) then
                 let newblock = grow_block newsize 8
                 in k\<lparr>acklist := take (unat (ackcount k) * 2) (acklist k),
                      ackblock := of_nat newblock\<rparr>
               else k);
          ptr = unat (ackcount k * 2)
      in k\<lparr>acklist := array_put (array_put (acklist k) ptr sn) (ptr + 1) ts,
           ackcount := ackcount k + 1\<rparr>)"

definition ikcp_ack_get :: "ikcpcb \<Rightarrow> nat \<Rightarrow> u32 \<times> u32" where
  "ikcp_ack_get k p = (acklist k ! (p * 2 + 0), acklist k ! (p * 2 + 1))"

section \<open>The invariant of the send buffer\<close>

definition flight :: "ikcpcb \<Rightarrow> nat" where
  "flight k = unat (snd_nxt k - snd_una k)"

definition snd_order :: "ikcpcb \<Rightarrow> bool" where
  "snd_order k \<longleftrightarrow>
     flight k < half32 \<and>
     window_sorted (snd_una k) (flight k) (map seg_sn (snd_buf k)) \<and>
     nsnd_buf k = of_nat (length (snd_buf k))"

definition first_sn :: "ikcpcb \<Rightarrow> u32" where
  "first_sn k = hd (map seg_sn (snd_buf k) @ [snd_nxt k])"

definition snd_inv :: "ikcpcb \<Rightarrow> bool" where
  "snd_inv k \<longleftrightarrow>
     snd_order k \<and> snd_una k = first_sn k \<and>
     nsnd_que k = of_nat (length (snd_queue k)) \<and>
     0 < unat (snd_wnd k) \<and> unat (snd_wnd k) < half32"

lemma ikcp_shrink_buf_eq: "ikcp_shrink_buf k = k\<lparr>snd_una := first_sn k\<rparr>"
  by (simp add: ikcp_shrink_buf_def first_sn_def split: list.split)

text \<open>The invariant reads only the numbers in the buffer and the sizes.\<close>

lemma snd_inv_cong:
  assumes "snd_nxt k' = snd_nxt k" "snd_una k' = snd_una k"
    and "map seg_sn (snd_buf k') = map seg_sn (snd_buf k)" "nsnd_buf k' = nsnd_buf k"
    and "length (snd_queue k') = length (snd_queue k)" "nsnd_que k' = nsnd_que k"
    and "snd_wnd k' = snd_wnd k"
  shows "snd_inv k' = snd_inv k"
proof -
  have "length (snd_buf k') = length (snd_buf k)"
    using assms(3) by (metis length_map)
  with assms show ?thesis
    by (simp add: snd_inv_def snd_order_def flight_def first_sn_def)
qed

lemma window_sorted_rebase:
  assumes "window_sorted base (unat (nxt - base)) (w # ws)"
  shows "window_sorted w (unat (nxt - w)) (w # ws)" and "unat (nxt - w) \<le> unat (nxt - base)"
proof -
  let ?d = "unat (w - base)"
  have le: "?d \<le> unat (nxt - base)"
    using assms by (simp add: window_sorted_Cons)
  have "window_sorted (base + of_nat ?d) (unat (nxt - base) - ?d) (w # ws)"
    using assms by (intro window_sorted_shift) (auto simp: window_sorted_Cons)
  moreover have "unat (nxt - (base + of_nat ?d)) = unat (nxt - base) - ?d"
    using le by (rule unat_u32_shift)
  ultimately show "window_sorted w (unat (nxt - w)) (w # ws)"
    and "unat (nxt - w) \<le> unat (nxt - base)"
    by simp_all
qed

lemma snd_order_shrink:
  assumes "snd_order k"
  shows "snd_order (ikcp_shrink_buf k)" and "flight (ikcp_shrink_buf k) \<le> flight k"
proof -
  have "snd_order (ikcp_shrink_buf k) \<and> flight (ikcp_shrink_buf k) \<le> flight k"
  proof (cases "snd_buf k")
    case Nil
    with assms show ?thesis
      by (simp add: snd_order_def ikcp_shrink_buf_eq first_sn_def flight_def)
  next
    case (Cons s p)
    with assms window_sorted_rebase [of "snd_una k" "snd_nxt k" "seg_sn s" "map seg_sn p"]
    show ?thesis
      by (simp add: snd_order_def ikcp_shrink_buf_eq first_sn_def flight_def)
  qed
  then show "snd_order (ikcp_shrink_buf k)" and "flight (ikcp_shrink_buf k) \<le> flight k"
    by simp_all
qed

section \<open>Removal of acknowledged segments\<close>

lemma parse_una_loop_eq:
  "parse_una_loop una p n =
     (dropWhile (\<lambda>s. itimediff una (seg_sn s) > 0) p,
      n - of_nat (length (takeWhile (\<lambda>s. itimediff una (seg_sn s) > 0) p)))"
  by (induction una p n rule: parse_una_loop.induct) simp_all

lemma snd_order_parse_una:
  assumes "snd_order k"
  shows "snd_order (ikcp_parse_una una k)"
proof -
  let ?P = "\<lambda>s. itimediff una (seg_sn s) > 0"
  have split: "snd_buf k = takeWhile ?P (snd_buf k) @ dropWhile ?P (snd_buf k)"
    by simp
  have "window_sorted (snd_una k) (flight k) (map seg_sn (dropWhile ?P (snd_buf k)))"
    using assms unfolding snd_order_def
    by (metis map_append split window_sorted_append)
  moreover have "length (snd_buf k) =
      length (takeWhile ?P (snd_buf k)) + length (dropWhile ?P (snd_buf k))"
    by (metis length_append split)
  ultimately show ?thesis
    using assms by (simp add: snd_order_def ikcp_parse_una_def parse_una_loop_eq flight_def)
qed

lemma dropWhile_window:
  "window_sorted base n (map f p) \<Longrightarrow>
   dropWhile (\<lambda>s. unat (f s - base) < u) p = filter (\<lambda>s. u \<le> unat (f s - base)) p"
proof (induction p)
  case Nil
  then show ?case by simp
next
  case (Cons s p)
  show ?case
  proof (cases "unat (f s - base) < u")
    case True
    with Cons show ?thesis by (simp add: window_sorted_Cons)
  next
    case False
    then have "\<forall>t\<in>set p. u \<le> unat (f t - base)"
      using Cons.prems by (force simp: window_sorted_Cons)
    with False show ?thesis by simp
  qed
qed

text \<open>For a \<open>una\<close> the window covers, exactly the segments before it go.\<close>

lemma ikcp_parse_una_eq:
  assumes "snd_order k" and "unat (una - snd_una k) \<le> flight k"
  shows "snd_buf (ikcp_parse_una una k) =
    filter (\<lambda>s. unat (una - snd_una k) \<le> unat (seg_sn s - snd_una k)) (snd_buf k)"
proof -
  have "itimediff una (seg_sn s) > 0 \<longleftrightarrow>
      unat (seg_sn s - snd_una k) < unat (una - snd_una k)" if "s \<in> set (snd_buf k)" for s
    using assms that
    by (intro itimediff_greater_0_iff) (auto simp: snd_order_def window_sorted_def)
  then have "dropWhile (\<lambda>s. itimediff una (seg_sn s) > 0) (snd_buf k) =
      dropWhile (\<lambda>s. unat (seg_sn s - snd_una k) < unat (una - snd_una k)) (snd_buf k)"
    by (intro dropWhile_cong) auto
  then show ?thesis
    using assms(1) dropWhile_window [of "snd_una k" "flight k" seg_sn "snd_buf k"]
    by (simp add: ikcp_parse_una_def parse_una_loop_eq snd_order_def)
qed

text \<open>A selective acknowledgement removes the segment with its number, if it is in flight.\<close>

lemma outside_flight_iff:
  assumes "flight k < half32"
  shows "outside_flight sn k \<longleftrightarrow> flight k \<le> unat (sn - snd_una k)"
proof (cases "unat (sn - snd_una k) < half32")
  case True
  then have "itimediff sn (snd_nxt k) < 0 \<longleftrightarrow> unat (sn - snd_una k) < flight k"
    using assms unfolding flight_def by (intro itimediff_less_0_iff)
  with True itimediff_base [of sn "snd_una k"] show ?thesis
    unfolding outside_flight_def by linarith
next
  case False
  with assms itimediff_base [of sn "snd_una k"] show ?thesis
    unfolding outside_flight_def by linarith
qed

lemma parse_ack_loop_eq:
  assumes "window_sorted base half32 (map seg_sn p)" and "unat (sn - base) < half32"
  shows "parse_ack_loop sn p n =
    (filter (\<lambda>s. seg_sn s \<noteq> sn) p,
     if sn \<in> seg_sn ` set p then n - 1 else n)"
  using assms
proof (induction sn p n rule: parse_ack_loop.induct)
  case (1 sn n)
  then show ?case by simp
next
  case (2 sn seg p n)
  have ws: "window_sorted base half32 (map seg_sn p)"
    and seg: "unat (seg_sn seg - base) < half32"
    and above: "\<forall>t\<in>set p. unat (seg_sn seg - base) < unat (seg_sn t - base)"
    using "2.prems"(1) by (auto simp: window_sorted_Cons)
  have cmp: "itimediff sn (seg_sn seg) < 0 \<longleftrightarrow> unat (sn - base) < unat (seg_sn seg - base)"
    using "2.prems"(2) seg by (intro itimediff_less_0_iff)
  show ?case
  proof (cases "unat (sn - base) \<le> unat (seg_sn seg - base)")
    case True
    with above have notin: "\<forall>t\<in>set p. seg_sn t \<noteq> sn" by fastforce
    then have "filter (\<lambda>s. seg_sn s \<noteq> sn) p = p" by simp
    moreover have "sn \<notin> seg_sn ` set p" using notin by blast
    ultimately show ?thesis
      using True cmp serial_eq_iff [of sn base "seg_sn seg"] by auto
  next
    case False
    with cmp 2 ws show ?thesis by auto
  qed
qed

lemma of_nat_length_filter_neq:
  "distinct (map f p) \<Longrightarrow>
   (if x \<in> f ` set p then of_nat (length p) - 1 else of_nat (length p)) =
   (of_nat (length (filter (\<lambda>s. f s \<noteq> x) p)) :: u32)"
proof (induction p)
  case Nil
  then show ?case by simp
next
  case (Cons s p)
  show ?case
  proof (cases "f s = x")
    case True
    with Cons.prems have "x \<notin> f ` set p" by auto
    moreover from this have "filter (\<lambda>s. f s \<noteq> x) p = p"
      by (intro filter_True) auto
    ultimately show ?thesis using True by simp
  next
    case False
    with Cons show ?thesis by (auto simp: algebra_simps split: if_splits)
  qed
qed

lemma ikcp_parse_ack_eq:
  assumes "snd_order k"
  shows "ikcp_parse_ack sn k =
    k\<lparr>snd_buf := filter (\<lambda>s. seg_sn s \<noteq> sn) (snd_buf k),
      nsnd_buf := of_nat (length (filter (\<lambda>s. seg_sn s \<noteq> sn) (snd_buf k)))\<rparr>"
proof -
  have fl: "flight k < half32"
    and ws: "window_sorted (snd_una k) (flight k) (map seg_sn (snd_buf k))"
    and n: "nsnd_buf k = of_nat (length (snd_buf k))"
    using assms by (simp_all add: snd_order_def)
  have dist: "distinct (map seg_sn (snd_buf k))"
    using ws by (rule window_sorted_distinct)
  show ?thesis
  proof (cases "outside_flight sn k")
    case True
    then have "\<forall>s\<in>set (snd_buf k). seg_sn s \<noteq> sn"
      using ws outside_flight_iff [OF fl] by (force simp: window_sorted_def)
    then have "filter (\<lambda>s. seg_sn s \<noteq> sn) (snd_buf k) = snd_buf k" by simp
    with True n show ?thesis by (simp add: ikcp_parse_ack_def)
  next
    case False
    then have "unat (sn - snd_una k) < half32"
      using fl outside_flight_iff [OF fl] by simp
    moreover have "window_sorted (snd_una k) half32 (map seg_sn (snd_buf k))"
      using ws fl by (auto intro: window_sorted_mono)
    moreover have "(if sn \<in> seg_sn ` set (snd_buf k) then of_nat (length (snd_buf k)) - 1
        else of_nat (length (snd_buf k))) =
      (of_nat (length (filter (\<lambda>s. seg_sn s \<noteq> sn) (snd_buf k))) :: u32)"
      using dist by (rule of_nat_length_filter_neq)
    ultimately show ?thesis
      using False n by (simp add: ikcp_parse_ack_def parse_ack_loop_eq)
  qed
qed

lemma window_sorted_map_filter:
  "window_sorted base n (map f p) \<Longrightarrow> window_sorted base n (map f (filter P p))"
  by (induction p) (auto simp: window_sorted_Cons)

lemma snd_order_parse_ack: "snd_order k \<Longrightarrow> snd_order (ikcp_parse_ack sn k)"
  by (simp add: ikcp_parse_ack_eq snd_order_def flight_def window_sorted_map_filter)

section \<open>Fast acknowledgements\<close>

lemma parse_fastack_loop_eq:
  assumes "window_sorted base half32 (map seg_sn p)" and "unat (sn - base) < half32"
  shows "parse_fastack_loop sn p =
    map (\<lambda>s. if unat (seg_sn s - base) < unat (sn - base)
              then s\<lparr>seg_fastack := seg_fastack s + 1\<rparr> else s) p"
  using assms
proof (induction sn p rule: parse_fastack_loop.induct)
  case (1 sn)
  then show ?case by simp
next
  case (2 sn seg p)
  have ws: "window_sorted base half32 (map seg_sn p)"
    and seg: "unat (seg_sn seg - base) < half32"
    and above: "\<forall>t\<in>set p. unat (seg_sn seg - base) < unat (seg_sn t - base)"
    using "2.prems"(1) by (auto simp: window_sorted_Cons)
  have cmp: "itimediff sn (seg_sn seg) < 0 \<longleftrightarrow> unat (sn - base) < unat (seg_sn seg - base)"
    using "2.prems"(2) seg by (intro itimediff_less_0_iff)
  show ?case
  proof (cases "unat (sn - base) < unat (seg_sn seg - base)")
    case True
    then have "\<forall>t\<in>set p. \<not> unat (seg_sn t - base) < unat (sn - base)"
      using above by force
    then have "map (\<lambda>s. if unat (seg_sn s - base) < unat (sn - base)
              then s\<lparr>seg_fastack := seg_fastack s + 1\<rparr> else s) p = p"
      by (intro map_idI) auto
    with True cmp show ?thesis by simp
  next
    case False
    with cmp 2 ws serial_eq_iff [of sn base "seg_sn seg"] show ?thesis
      by (cases "sn = seg_sn seg") auto
  qed
qed

lemma ikcp_parse_fastack_eq:
  assumes "snd_order k"
  shows "ikcp_parse_fastack sn ts k =
    (if unat (sn - snd_una k) < flight k
     then k\<lparr>snd_buf := map (\<lambda>s. if unat (seg_sn s - snd_una k) < unat (sn - snd_una k)
              then s\<lparr>seg_fastack := seg_fastack s + 1\<rparr> else s) (snd_buf k)\<rparr>
     else k)"
proof (cases "outside_flight sn k")
  case True
  then show ?thesis
    using assms outside_flight_iff [of k sn] by (simp add: ikcp_parse_fastack_def snd_order_def)
next
  case False
  then have "unat (sn - snd_una k) < flight k"
    using assms outside_flight_iff [of k sn] by (simp add: snd_order_def)
  moreover have "window_sorted (snd_una k) half32 (map seg_sn (snd_buf k))"
    using assms by (auto simp: snd_order_def intro: window_sorted_mono)
  ultimately show ?thesis
    using False assms by (simp add: ikcp_parse_fastack_def parse_fastack_loop_eq snd_order_def)
qed

section \<open>Preservation of \<open>snd_inv\<close>\<close>

lemma snd_una_shrink: "snd_una (ikcp_shrink_buf k) = first_sn (ikcp_shrink_buf k)"
  by (simp add: ikcp_shrink_buf_eq first_sn_def)

lemma snd_inv_shrink_una [wf_intros]:
  assumes "snd_inv k"
  shows "snd_inv (ikcp_shrink_buf (ikcp_parse_una una k))"
  using assms snd_order_shrink(1) [OF snd_order_parse_una [of k una]]
  by (simp add: snd_inv_def snd_una_shrink)
    (simp add: ikcp_shrink_buf_eq ikcp_parse_una_def split_beta)

lemma snd_inv_shrink_ack [wf_intros]:
  assumes "snd_inv k"
  shows "snd_inv (ikcp_shrink_buf (ikcp_parse_ack sn k))"
  using assms snd_order_shrink(1) [OF snd_order_parse_ack [of k sn]]
  by (simp add: snd_inv_def snd_una_shrink)
    (simp add: ikcp_shrink_buf_eq ikcp_parse_ack_def split_beta)

lemma map_seg_sn_fastack [simp]: "map seg_sn (parse_fastack_loop sn p) = map seg_sn p"
  by (induction sn p rule: parse_fastack_loop.induct) auto

lemma snd_inv_fastack [simp]: "snd_inv (ikcp_parse_fastack sn ts k) = snd_inv k"
  by (rule snd_inv_cong) (simp_all add: ikcp_parse_fastack_def)

lemma ikcp_update_ack_frame:
  "\<exists>a b c. ikcp_update_ack rtt k =
     k\<lparr>rx_srtt := a, rx_rttval := b, rx_rto := ibound (rx_minrto k) c 60000\<rparr>"
  by (cases k) (auto simp: ikcp_update_ack_def Let_def)

lemma snd_inv_update_ack [simp]: "snd_inv (ikcp_update_ack rtt k) = snd_inv k"
proof -
  obtain a b c where "ikcp_update_ack rtt k =
      k\<lparr>rx_srtt := a, rx_rttval := b, rx_rto := ibound (rx_minrto k) c 60000\<rparr>"
    using ikcp_update_ack_frame by blast
  then show ?thesis
    by (intro snd_inv_cong) simp_all
qed

section \<open>The round trip estimator\<close>

text \<open>Whatever the samples are, even out of range, the timeout stays between its limits.\<close>

lemma rx_rto_bounds:
  assumes "unat (rx_minrto k) \<le> 60000"
  shows "rx_minrto k \<le> rx_rto (ikcp_update_ack rtt k)"
    and "unat (rx_rto (ikcp_update_ack rtt k)) \<le> 60000"
proof -
  have le: "rx_minrto k \<le> 60000"
    using assms by (simp add: word_le_nat_alt)
  obtain m where "rx_rto (ikcp_update_ack rtt k) = ibound (rx_minrto k) m 60000"
    using ikcp_update_ack_frame [of rtt k] by auto
  with ibound_bounds [OF le, of m] show "rx_minrto k \<le> rx_rto (ikcp_update_ack rtt k)"
    and "unat (rx_rto (ikcp_update_ack rtt k)) \<le> 60000"
    by (simp_all add: word_le_nat_alt)
qed

text \<open>
  For samples and estimates below \<open>2^28\<close> milliseconds (three days) no operation overflows, and
  the estimator computes its textbook averages.
\<close>

definition smooth_rtt :: "nat \<Rightarrow> nat \<Rightarrow> nat" where
  "smooth_rtt s r = (if s = 0 then r else max 1 ((7 * s + r) div 8))"

definition smooth_var :: "nat \<Rightarrow> nat \<Rightarrow> nat \<Rightarrow> nat" where
  "smooth_var s v r = (if s = 0 then r div 2 else (3 * v + nat \<bar>int r - int s\<bar>) div 4)"

lemma ikcp_update_ack_smooth:
  assumes k: "rx_srtt k = of_nat s" "rx_rttval k = of_nat v"
    and small: "s < 2 ^ 28" "v < 2 ^ 28" "r < 2 ^ 28"
  shows "rx_srtt (ikcp_update_ack (int r) k) = of_nat (smooth_rtt s r)"
    and "rx_rttval (ikcp_update_ack (int r) k) = of_nat (smooth_var s v r)"
    and "rx_rto (ikcp_update_ack (int r) k) =
      ibound (rx_minrto k)
        (of_nat (smooth_rtt s r) + imax (interval k) (4 * of_nat (smooth_var s v r))) 60000"
proof -
  have s0: "(of_nat s :: u32) = 0 \<longleftrightarrow> s = 0"
    using small(1) unat_of_nat_u32 [of s] by (cases "s = 0") auto
  have rtt2: "(word_of_int (sint (of_nat r :: u32) sdiv 2) :: u32) = of_nat (r div 2)"
    using small(3) sdiv_of_nat [of r 2] by (simp add: sint_of_nat_u32)
  have srtt: "(word_of_int (sint (7 * of_nat s + of_nat r :: u32) sdiv 8) :: u32)
      = of_nat ((7 * s + r) div 8)"
  proof -
    have "(7 * of_nat s + of_nat r :: u32) = of_nat (7 * s + r)" by simp
    then have "sint (7 * of_nat s + of_nat r :: u32) = int (7 * s + r)"
      using small sint_of_nat_u32 [of "7 * s + r"] by simp
    then show ?thesis
      using sdiv_of_nat [of "7 * s + r" 8] by (metis of_int_of_nat_eq of_nat_numeral)
  qed
  have var: "(word_of_int ((sint (3 * of_nat v :: u32) +
        \<bar>sint (of_nat r - of_nat s :: u32)\<bar>) sdiv 4) :: u32)
      = of_nat ((3 * v + nat \<bar>int r - int s\<bar>) div 4)"
  proof -
    have "(3 * of_nat v :: u32) = of_nat (3 * v)" by simp
    then have "sint (3 * of_nat v :: u32) = int (3 * v)"
      using small sint_of_nat_u32 [of "3 * v"] by simp
    moreover have "sint (of_nat r - of_nat s :: u32) = int r - int s"
      using small by (intro sint_of_nat_diff_u32) auto
    ultimately have "sint (3 * of_nat v :: u32) + \<bar>sint (of_nat r - of_nat s :: u32)\<bar>
        = int (3 * v + nat \<bar>int r - int s\<bar>)"
      by simp
    then show ?thesis
      using sdiv_of_nat [of "3 * v + nat \<bar>int r - int s\<bar>" 4]
      by (metis of_int_of_nat_eq of_nat_numeral)
  qed
  have one: "sint (of_nat ((7 * s + r) div 8) :: u32) < 1 \<longleftrightarrow> (7 * s + r) div 8 = 0"
    using small sint_of_nat_u32 [of "(7 * s + r) div 8"] by simp
  show "rx_srtt (ikcp_update_ack (int r) k) = of_nat (smooth_rtt s r)"
    and "rx_rttval (ikcp_update_ack (int r) k) = of_nat (smooth_var s v r)"
    and "rx_rto (ikcp_update_ack (int r) k) =
      ibound (rx_minrto k)
        (of_nat (smooth_rtt s r) + imax (interval k) (4 * of_nat (smooth_var s v r))) 60000"
    using k s0 rtt2 srtt var one
    by (auto simp: ikcp_update_ack_def Let_def smooth_rtt_def smooth_var_def abs_if max_def)
qed

section \<open>The acknowledgement list\<close>

fun ack_pairs :: "u32 list \<Rightarrow> (u32 \<times> u32) list" where
  "ack_pairs (sn # ts # r) = (sn, ts) # ack_pairs r"
| "ack_pairs _ = []"

text \<open>The pairs the array holds, oldest first.\<close>

definition acks :: "ikcpcb \<Rightarrow> (u32 \<times> u32) list" where
  "acks k = ack_pairs (take (2 * unat (ackcount k)) (acklist k))"

definition ack_inv :: "ikcpcb \<Rightarrow> bool" where
  "ack_inv k \<longleftrightarrow>
     2 * unat (ackcount k) \<le> length (acklist k) \<and> length (acklist k) \<le> 2 * unat (ackblock k)"

lemma grow_block_ge: "0 < newblock \<Longrightarrow> newsize \<le> grow_block newsize newblock"
proof (induction newsize newblock rule: grow_block.induct)
  case (1 newsize newblock)
  then show ?case by (cases "newblock < newsize") (simp_all add: grow_block.simps [of newsize newblock])
qed

lemma grow_block_le: "grow_block newsize newblock \<le> max newblock (2 * newsize)"
proof (induction newsize newblock rule: grow_block.induct)
  case (1 newsize newblock)
  then show ?case
    by (cases "newblock < newsize \<and> 0 < newblock")
      (auto simp: grow_block.simps [of newsize newblock] max_def split: if_splits)
qed

lemma ack_pairs_append:
  "even (length xs) \<Longrightarrow> ack_pairs (xs @ ys) = ack_pairs xs @ ack_pairs ys"
  by (induction xs rule: ack_pairs.induct) simp_all

lemma length_ack_pairs: "length (ack_pairs xs) = length xs div 2"
  by (induction xs rule: ack_pairs.induct) simp_all

lemma ack_pairs_nth:
  "2 * i + 1 < length xs \<Longrightarrow> ack_pairs xs ! i = (xs ! (2 * i), xs ! (2 * i + 1))"
proof (induction xs arbitrary: i rule: ack_pairs.induct)
  case (1 sn ts r)
  then show ?case by (cases i) simp_all
qed simp_all

lemma length_acks: "ack_inv k \<Longrightarrow> length (acks k) = unat (ackcount k)"
  by (simp add: acks_def length_ack_pairs ack_inv_def)

lemma ikcp_ack_get_eq:
  assumes "ack_inv k" and "p < unat (ackcount k)"
  shows "ikcp_ack_get k p = acks k ! p"
  using assms ack_pairs_nth [of p "take (2 * unat (ackcount k)) (acklist k)"]
  by (simp add: ikcp_ack_get_def acks_def ack_inv_def mult.commute)

lemma take_array_put2:
  assumes "n \<le> length xs"
  shows "take (n + 2) (array_put (array_put xs n a) (n + 1) b) = take n xs @ [a, b]"
proof -
  consider "n = length xs" | "n + 1 = length xs" | "n + 1 < length xs"
    using assms by linarith
  then show ?thesis
  proof cases
    case 1
    then show ?thesis by (simp add: array_put_def)
  next
    case 2
    then show ?thesis
      by (simp add: array_put_def take_Suc_conv_app_nth list_update_append)
        (metis append_take_drop_id list_update_length take_all_iff upd_conv_take_nth_drop
          Suc_n_not_le_n append_eq_conv_conj drop_eq_Nil le_refl lessI less_eq_Suc_le)
  next
    case 3
    then show ?thesis
      by (simp add: array_put_def take_Suc_conv_app_nth nth_list_update)
  qed
qed

lemma length_array_put: "n \<le> length xs \<Longrightarrow> length (array_put xs n v) = max (length xs) (n + 1)"
  by (auto simp: array_put_def)

text \<open>Making room keeps the pairs and leaves place for one more.\<close>

definition ack_reserve :: "ikcpcb \<Rightarrow> ikcpcb" where
  "ack_reserve k =
     (if unat (ackcount k + 1) > unat (ackblock k)
      then k\<lparr>acklist := take (unat (ackcount k) * 2) (acklist k),
             ackblock := of_nat (grow_block (unat (ackcount k + 1)) 8)\<rparr>
      else k)"

lemma ikcp_ack_push_reserve:
  "ikcp_ack_push sn ts k =
     (let k' = ack_reserve k; ptr = unat (ackcount k * 2)
      in k'\<lparr>acklist := array_put (array_put (acklist k') ptr sn) (ptr + 1) ts,
            ackcount := ackcount k + 1\<rparr>)"
  by (simp add: ikcp_ack_push_def ack_reserve_def Let_def)

lemma ack_reserve:
  assumes "ack_inv k" and "unat (ackcount k) < 1073741824"
  shows "ack_inv (ack_reserve k)"
    and "unat (ackcount k) + 1 \<le> unat (ackblock (ack_reserve k))"
    and "ackcount (ack_reserve k) = ackcount k"
    and "take (2 * unat (ackcount k)) (acklist (ack_reserve k)) =
      take (2 * unat (ackcount k)) (acklist k)"
proof -
  let ?c = "unat (ackcount k)"
  have c1: "unat (ackcount k + 1) = ?c + 1"
    using assms(2) by (simp add: unat_word_ariths)
  have grow: "unat (of_nat (grow_block (?c + 1) 8) :: u32) = grow_block (?c + 1) 8"
    using grow_block_le [of "?c + 1" 8] assms(2) by (intro unat_of_nat_u32) (auto simp: max_def split: if_splits)
  have ge: "?c + 1 \<le> grow_block (?c + 1) 8"
    by (rule grow_block_ge) simp
  show "ack_inv (ack_reserve k)"
    and "unat (ackcount k) + 1 \<le> unat (ackblock (ack_reserve k))"
    and "ackcount (ack_reserve k) = ackcount k"
    and "take (2 * unat (ackcount k)) (acklist (ack_reserve k)) =
      take (2 * unat (ackcount k)) (acklist k)"
    using assms(1) c1 grow ge by (auto simp: ack_reserve_def ack_inv_def mult.commute)
qed

lemma ikcp_ack_push_refines:
  assumes "ack_inv k" and "unat (ackcount k) < 1073741824"
  shows "acks (ikcp_ack_push sn ts k) = acks k @ [(sn, ts)]"
    and "ack_inv (ikcp_ack_push sn ts k)"
    and "unat (ackcount (ikcp_ack_push sn ts k)) = unat (ackcount k) + 1"
proof -
  let ?c = "unat (ackcount k)" and ?k = "ack_reserve k"
  let ?xs = "array_put (array_put (acklist ?k) (2 * ?c) sn) (2 * ?c + 1) ts"
  note r = ack_reserve [OF assms]
  have words: "unat (ackcount k + 1) = ?c + 1" "unat (ackcount k * 2) = 2 * ?c"
    using assms(2) by (simp_all add: unat_word_ariths mult.commute)
  have le: "2 * ?c \<le> length (acklist ?k)"
    using r(1,3) by (simp add: ack_inv_def)
  have push: "ikcp_ack_push sn ts k = ?k\<lparr>acklist := ?xs, ackcount := ackcount k + 1\<rparr>"
    by (simp add: ikcp_ack_push_reserve words Let_def)
  have "take (2 * ?c + 2) ?xs = take (2 * ?c) (acklist k) @ [sn, ts]"
    using take_array_put2 [OF le] r(4) by simp
  moreover have "length (take (2 * ?c) (acklist k)) = 2 * ?c"
    using assms(1) by (simp add: ack_inv_def)
  ultimately show "acks (ikcp_ack_push sn ts k) = acks k @ [(sn, ts)]"
    by (simp add: acks_def push words ack_pairs_append)
  have "length ?xs = max (length (acklist ?k)) (2 * ?c + 2)"
    using le by (simp add: length_array_put)
  then show "ack_inv (ikcp_ack_push sn ts k)"
    using r(1,2) words by (simp add: ack_inv_def push)
  show "unat (ackcount (ikcp_ack_push sn ts k)) = ?c + 1"
    by (simp add: push words)
qed

section \<open>Properties\<close>

text \<open>
  C26 (acknowledged segments leave, the others stay). A cumulative acknowledgement \<open>una\<close> inside the
  flight removes from the send buffer exactly the segments before it; a selective one removes
  exactly the segment with its number; both keep the invariant once \<open>snd_una\<close> is updated.
\<close>

theorem acknowledged_segments_leave:
  assumes "snd_inv k"
  shows "snd_inv (ikcp_shrink_buf (ikcp_parse_una una k)) \<and>
    snd_inv (ikcp_shrink_buf (ikcp_parse_ack sn k)) \<and>
    snd_buf (ikcp_parse_ack sn k) = filter (\<lambda>s. seg_sn s \<noteq> sn) (snd_buf k) \<and>
    (unat (una - snd_una k) \<le> flight k \<longrightarrow>
      snd_buf (ikcp_parse_una una k) =
        filter (\<lambda>s. unat (una - snd_una k) \<le> unat (seg_sn s - snd_una k)) (snd_buf k))"
proof -
  have ord: "snd_order k" using assms by (simp add: snd_inv_def)
  show ?thesis
    using snd_inv_shrink_una [OF assms] snd_inv_shrink_ack [OF assms] ikcp_parse_una_eq [OF ord]
    by (simp del: not_le) (simp add: ikcp_parse_ack_eq [OF ord])
qed

lemma snd_inv_fresh: "snd_inv (kcp_fresh cv)"
  by (simp add: kcp_fresh_def ikcp_create_def snd_inv_def snd_order_def flight_def first_sn_def
      window_sorted_Nil)

definition two_in_flight :: ikcpcb where
  "two_in_flight = kcp_fresh 9
     \<lparr>snd_buf := [ikcp_segment_zero\<lparr>seg_sn := 0\<rparr>, ikcp_segment_zero\<lparr>seg_sn := 1\<rparr>],
      nsnd_buf := 2, snd_nxt := 2\<rparr>"

lemma snd_inv_two: "snd_inv two_in_flight" "flight two_in_flight = 2"
  by (simp_all add: two_in_flight_def kcp_fresh_def ikcp_create_def snd_inv_def snd_order_def
      flight_def first_sn_def window_sorted_Nil window_sorted_Cons ikcp_segment_zero_def)

theorem acknowledged_segments_leave_witness:
  "map seg_sn (snd_buf (ikcp_parse_una 1 two_in_flight)) = [1] \<and>
   map seg_sn (snd_buf (ikcp_parse_ack 1 two_in_flight)) = [0]"
  using acknowledged_segments_leave [OF snd_inv_two(1), of 1 1] snd_inv_two(2)
  by (simp add: two_in_flight_def kcp_fresh_def ikcp_create_def ikcp_segment_zero_def)

text \<open>
  When the largest number acknowledged in a datagram is in
  flight, the counters of exactly the segments before it go up by one, and nothing else changes;
  when it is not in flight nothing changes.
\<close>

theorem fastack_counts_skipped:
  assumes "snd_inv k"
  shows "ikcp_parse_fastack sn ts k =
    (if unat (sn - snd_una k) < flight k
     then k\<lparr>snd_buf := map (\<lambda>s. if unat (seg_sn s - snd_una k) < unat (sn - snd_una k)
              then s\<lparr>seg_fastack := seg_fastack s + 1\<rparr> else s) (snd_buf k)\<rparr>
     else k)"
  using assms by (intro ikcp_parse_fastack_eq) (simp add: snd_inv_def)

theorem fastack_counts_skipped_witness:
  "map seg_fastack (snd_buf (ikcp_parse_fastack 1 0 two_in_flight)) = [1, 0]"
  using fastack_counts_skipped [OF snd_inv_two(1), of 1 0] snd_inv_two(2)
  by (simp add: two_in_flight_def kcp_fresh_def ikcp_create_def ikcp_segment_zero_def)

text \<open>
  C30 (the retransmission timeout is bounded). Whatever round trip time is measured, negative or
  overflowing samples included, the timeout stays between the minimum and 60 seconds.
\<close>

theorem rto_always_bounded:
  assumes "unat (rx_minrto k) \<le> 60000"
  shows "rx_minrto k \<le> rx_rto (ikcp_update_ack rtt k) \<and>
    unat (rx_rto (ikcp_update_ack rtt k)) \<le> 60000"
  using rx_rto_bounds [OF assms] by blast

theorem rto_always_bounded_witness:
  "100 \<le> rx_rto (ikcp_update_ack (- 2147483648) (kcp_fresh 9))"
  using rto_always_bounded [of "kcp_fresh 9" "- 2147483648"]
  by (simp add: kcp_fresh_def ikcp_create_def)

text \<open>
  For samples and estimates below \<open>2^28\<close> milliseconds the fixed
  width arithmetic computes the smoothed averages: 7/8 of the old mean and 1/8 of the sample, 3/4
  of the old deviation and 1/4 of the new one, and the timeout is the mean plus the larger of the
  update interval and four deviations, within its bounds.
\<close>

theorem rtt_estimator:
  assumes "rx_srtt k = of_nat s" "rx_rttval k = of_nat v"
    and "s < 2 ^ 28" "v < 2 ^ 28" "r < 2 ^ 28"
  shows "rx_srtt (ikcp_update_ack (int r) k) = of_nat (smooth_rtt s r) \<and>
    rx_rttval (ikcp_update_ack (int r) k) = of_nat (smooth_var s v r) \<and>
    rx_rto (ikcp_update_ack (int r) k) =
      ibound (rx_minrto k)
        (of_nat (smooth_rtt s r) + imax (interval k) (4 * of_nat (smooth_var s v r))) 60000"
  using ikcp_update_ack_smooth [OF assms] by blast

theorem rtt_estimator_witness:
  "rx_srtt (ikcp_update_ack 80 (kcp_fresh 9)) = 80 \<and> rx_rttval (ikcp_update_ack 80 (kcp_fresh 9)) = 40"
  using rtt_estimator [of "kcp_fresh 9" 0 0 80]
  by (simp add: kcp_fresh_def ikcp_create_def smooth_rtt_def smooth_var_def)

text \<open>
  C29 (the acknowledgement array is a list). Pushing onto the array, growing it when it is full,
  appends to the list of pending acknowledgements, and \<open>ikcp_ack_get\<close> reads the list by position.
\<close>

theorem ack_array_refines_list:
  assumes "ack_inv k" and "unat (ackcount k) < 1073741824"
  shows "ack_inv (ikcp_ack_push sn ts k) \<and> acks (ikcp_ack_push sn ts k) = acks k @ [(sn, ts)] \<and>
    (\<forall>p < unat (ackcount k). ikcp_ack_get (ikcp_ack_push sn ts k) p = acks k ! p) \<and>
    ikcp_ack_get (ikcp_ack_push sn ts k) (unat (ackcount k)) = (sn, ts)"
  using ikcp_ack_push_refines [OF assms, of sn ts] length_acks [OF assms(1)]
  by (simp add: ikcp_ack_get_eq nth_append)

theorem ack_array_refines_list_witness:
  "acks (ikcp_ack_push 5 6 (kcp_fresh 9)) = [(5, 6)]"
  using ack_array_refines_list [of "kcp_fresh 9" 5 6]
  by (simp add: kcp_fresh_def ikcp_create_def ack_inv_def acks_def)

end
