(* ===== verification/Kcp_Input.thy ===== *)
theory Kcp_Input
  imports Kcp_Recv Kcp_Ack "HOL-Library.Sublist"
begin

text \<open>
  \<open>ikcp_input\<close>: a datagram from the network is a sequence of segments, each a 24 byte header and
  its payload. The loop decodes and processes one segment per iteration; an error returns from
  the function at once, with the effects of the segments before it. After the loop the
  duplicate acks are counted and the congestion window grows.

  The loop is a recursion on the rest of the datagram. Its result is \<^const>\<open>Inl\<close> for an early
  return (the code and the state) and \<^const>\<open>Inr\<close> when the loop ends, with the three local
  variables \<open>flag\<close>, \<open>maxack\<close>, \<open>latest_ts\<close>.

  \<open>kcp_inv\<close> is the invariant of the whole control block; \<open>ikcp_input_inv\<close> is robustness: no
  datagram, whatever its bytes, can break it.
\<close>

section \<open>Operations\<close>

definition input_ack ::
  "u32 \<Rightarrow> u32 \<Rightarrow> bool \<Rightarrow> u32 \<Rightarrow> u32 \<Rightarrow> ikcpcb \<Rightarrow> bool \<times> u32 \<times> u32 \<times> ikcpcb" where
  "input_ack sn ts flag maxack latest_ts k =
     (let k = (if itimediff (current k) ts \<ge> 0
               then ikcp_update_ack (itimediff (current k) ts) k else k);
          k = ikcp_parse_ack sn k;
          k = ikcp_shrink_buf k
      in if \<not> flag then (True, sn, ts, k)
         else if itimediff sn maxack > 0 then (flag, sn, ts, k)
         else (flag, maxack, latest_ts, k))"

definition input_push ::
  "u8 \<Rightarrow> u8 \<Rightarrow> u16 \<Rightarrow> u32 \<Rightarrow> u32 \<Rightarrow> u32 \<Rightarrow> u32 \<Rightarrow> u8 list \<Rightarrow> ikcpcb \<Rightarrow> ikcpcb" where
  "input_push cmd frg wnd ts sn una len data k =
     (if itimediff sn (rcv_nxt k + rcv_wnd k) < 0 then
        let k = ikcp_ack_push sn ts k
        in if itimediff sn (rcv_nxt k) \<ge> 0 then
             let seg = ikcp_segment_zero
                   \<lparr>seg_conv := conv k, seg_cmd := ucast cmd, seg_frg := ucast frg,
                    seg_wnd := ucast wnd, seg_ts := ts, seg_sn := sn, seg_una := una,
                    seg_len := len, seg_data := take (unat len) data\<rparr>
             in ikcp_parse_data seg k
           else k
      else k)"

text \<open>What one accepted segment does: the header fields that concern the sender, then its command.\<close>

definition input_segment ::
  "u8 \<Rightarrow> u8 \<Rightarrow> u16 \<Rightarrow> u32 \<Rightarrow> u32 \<Rightarrow> u32 \<Rightarrow> u32 \<Rightarrow> u8 list \<Rightarrow> bool \<Rightarrow> u32 \<Rightarrow> u32 \<Rightarrow> ikcpcb \<Rightarrow>
   bool \<times> u32 \<times> u32 \<times> ikcpcb" where
  "input_segment cmd frg wnd ts sn una len data flag maxack latest_ts k =
     (let k = k\<lparr>rmt_wnd := ucast wnd\<rparr>;
          k = ikcp_parse_una una k;
          k = ikcp_shrink_buf k
      in if ucast cmd = IKCP_CMD_ACK then input_ack sn ts flag maxack latest_ts k
         else if ucast cmd = IKCP_CMD_PUSH
         then (flag, maxack, latest_ts, input_push cmd frg wnd ts sn una len data k)
         else if ucast cmd = IKCP_CMD_WASK
         then (flag, maxack, latest_ts, k\<lparr>probe := probe k OR IKCP_ASK_TELL\<rparr>)
         else (flag, maxack, latest_ts, k))"

function ikcp_input_loop ::
  "u8 list \<Rightarrow> bool \<Rightarrow> u32 \<Rightarrow> u32 \<Rightarrow> ikcpcb \<Rightarrow> (int \<times> ikcpcb) + (bool \<times> u32 \<times> u32 \<times> ikcpcb)" where
  "ikcp_input_loop data flag maxack latest_ts k =
     (if length data < unat IKCP_OVERHEAD then Inr (flag, maxack, latest_ts, k)
      else
        let (cv, p) = ikcp_decode32u data
        in if cv \<noteq> conv k then Inl (-2, k)
           else
             let (cmd, p) = ikcp_decode8u p;
                 (frg, p) = ikcp_decode8u p;
                 (wnd, p) = ikcp_decode16u p;
                 (ts, p) = ikcp_decode32u p;
                 (sn, p) = ikcp_decode32u p;
                 (una, p) = ikcp_decode32u p;
                 (len, p) = ikcp_decode32u p
             in if length data - unat IKCP_OVERHEAD < unat len \<or> sint len < 0 then Inl (-2, k)
                else if ucast cmd \<noteq> IKCP_CMD_PUSH \<and> ucast cmd \<noteq> IKCP_CMD_ACK \<and>
                        ucast cmd \<noteq> IKCP_CMD_WASK \<and> ucast cmd \<noteq> IKCP_CMD_WINS
                then Inl (-3, k)
                else
                  let (flag, maxack, latest_ts, k) =
                        input_segment cmd frg wnd ts sn una len p flag maxack latest_ts k
                  in ikcp_input_loop (drop (unat len) (drop (unat IKCP_OVERHEAD) data))
                       flag maxack latest_ts k)"
  by pat_completeness auto
termination
  by (relation "measure (\<lambda>(data, _). length data)") auto

declare ikcp_input_loop.simps [simp del]

definition input_cwnd :: "ikcpcb \<Rightarrow> ikcpcb" where
  "input_cwnd k =
     (if cwnd k < rmt_wnd k then
        let m = mss k;
            k = (if cwnd k < ssthresh k
                 then k\<lparr>cwnd := cwnd k + 1, incr := incr k + m\<rparr>
                 else
                   let k = (if incr k < m then k\<lparr>incr := m\<rparr> else k);
                       k = k\<lparr>incr := incr k + ((m * m) div incr k + m div 16)\<rparr>
                   in if (cwnd k + 1) * m \<le> incr k then k\<lparr>cwnd := cwnd k + 1\<rparr> else k)
        in if cwnd k > rmt_wnd k
           then k\<lparr>cwnd := rmt_wnd k, incr := rmt_wnd k * m\<rparr> else k
      else k)"

definition ikcp_input :: "u8 list option \<Rightarrow> ikcpcb \<Rightarrow> int \<times> ikcpcb" where
  "ikcp_input data_opt k =
     (let prev_una = snd_una k
      in case data_opt of
           None \<Rightarrow> (-1, k)
         | Some data \<Rightarrow>
             if length data < unat IKCP_OVERHEAD then (-1, k)
             else
               (case ikcp_input_loop data False 0 0 k of
                  Inl (ret, k) \<Rightarrow> (ret, k)
                | Inr (flag, maxack, latest_ts, k) \<Rightarrow>
                    let k = (if flag then ikcp_parse_fastack maxack latest_ts k else k);
                        k = (if itimediff (snd_una k) prev_una > 0 then input_cwnd k else k)
                    in (0, k)))"

section \<open>The invariant of the control block\<close>

definition cfg_inv :: "ikcpcb \<Rightarrow> bool" where
  "cfg_inv k \<longleftrightarrow>
     50 \<le> unat (mtu k) \<and> unat (mtu k) < half32 \<and> mss k = mtu k - 24 \<and>
     (rx_minrto k = IKCP_RTO_NDL \<or> rx_minrto k = IKCP_RTO_MIN) \<and>
     30 \<le> unat (rx_rto k) \<and> unat (rx_rto k) \<le> 60000 \<and>
     10 \<le> unat (interval k) \<and> unat (interval k) \<le> 5000"

definition kcp_inv :: "ikcpcb \<Rightarrow> bool" where
  "kcp_inv k \<longleftrightarrow> rcv_inv k \<and> snd_inv k \<and> cfg_inv k"

lemma rcv_inv_cong:
  assumes "rcv_wnd k' = rcv_wnd k" "rcv_nxt k' = rcv_nxt k" "rcv_buf k' = rcv_buf k"
    "rcv_queue k' = rcv_queue k" "nrcv_buf k' = nrcv_buf k" "nrcv_que k' = nrcv_que k"
  shows "rcv_inv k' = rcv_inv k"
  using assms by (simp add: rcv_inv_def)

lemma cfg_inv_cong:
  assumes "mtu k' = mtu k" "mss k' = mss k" "rx_minrto k' = rx_minrto k"
    "rx_rto k' = rx_rto k" "interval k' = interval k"
  shows "cfg_inv k' = cfg_inv k"
  using assms by (simp add: cfg_inv_def)

text \<open>Each step rewrites only the fields of its own part.\<close>

lemma ack_push_fields [frame_simps]:
  "rcv_wnd (ikcp_ack_push sn ts k) = rcv_wnd k" "rcv_nxt (ikcp_ack_push sn ts k) = rcv_nxt k"
  "rcv_buf (ikcp_ack_push sn ts k) = rcv_buf k" "rcv_queue (ikcp_ack_push sn ts k) = rcv_queue k"
  "nrcv_buf (ikcp_ack_push sn ts k) = nrcv_buf k" "nrcv_que (ikcp_ack_push sn ts k) = nrcv_que k"
  "snd_nxt (ikcp_ack_push sn ts k) = snd_nxt k" "snd_una (ikcp_ack_push sn ts k) = snd_una k"
  "snd_buf (ikcp_ack_push sn ts k) = snd_buf k" "nsnd_buf (ikcp_ack_push sn ts k) = nsnd_buf k"
  "snd_queue (ikcp_ack_push sn ts k) = snd_queue k" "nsnd_que (ikcp_ack_push sn ts k) = nsnd_que k"
  "snd_wnd (ikcp_ack_push sn ts k) = snd_wnd k" "mtu (ikcp_ack_push sn ts k) = mtu k"
  "mss (ikcp_ack_push sn ts k) = mss k" "rx_minrto (ikcp_ack_push sn ts k) = rx_minrto k"
  "rx_rto (ikcp_ack_push sn ts k) = rx_rto k" "interval (ikcp_ack_push sn ts k) = interval k"
  "conv (ikcp_ack_push sn ts k) = conv k" "rmt_wnd (ikcp_ack_push sn ts k) = rmt_wnd k"
  "cwnd (ikcp_ack_push sn ts k) = cwnd k"
  by (simp_all add: ikcp_ack_push_def Let_def)

lemma parse_data_fields [frame_simps]:
  "snd_nxt (ikcp_parse_data s k) = snd_nxt k" "snd_una (ikcp_parse_data s k) = snd_una k"
  "snd_buf (ikcp_parse_data s k) = snd_buf k" "nsnd_buf (ikcp_parse_data s k) = nsnd_buf k"
  "snd_queue (ikcp_parse_data s k) = snd_queue k" "nsnd_que (ikcp_parse_data s k) = nsnd_que k"
  "snd_wnd (ikcp_parse_data s k) = snd_wnd k" "mtu (ikcp_parse_data s k) = mtu k"
  "mss (ikcp_parse_data s k) = mss k" "rx_minrto (ikcp_parse_data s k) = rx_minrto k"
  "rx_rto (ikcp_parse_data s k) = rx_rto k" "interval (ikcp_parse_data s k) = interval k"
  "conv (ikcp_parse_data s k) = conv k" "rmt_wnd (ikcp_parse_data s k) = rmt_wnd k"
  "cwnd (ikcp_parse_data s k) = cwnd k" "rcv_wnd (ikcp_parse_data s k) = rcv_wnd k"
  "acklist (ikcp_parse_data s k) = acklist k" "ackcount (ikcp_parse_data s k) = ackcount k"
  "ackblock (ikcp_parse_data s k) = ackblock k"
  by (simp_all add: ikcp_parse_data_def ikcp_move_ready_eq take_ready_def Let_def split: option.split)

lemma rcv_inv_steps [simp]:
  "rcv_inv (ikcp_parse_una una k) = rcv_inv k"
  "rcv_inv (ikcp_parse_ack sn k) = rcv_inv k"
  "rcv_inv (ikcp_shrink_buf k) = rcv_inv k"
  "rcv_inv (ikcp_parse_fastack sn ts k) = rcv_inv k"
  "rcv_inv (ikcp_ack_push sn ts k) = rcv_inv k"
  "rcv_inv (ikcp_update_ack rtt k) = rcv_inv k"
  "rcv_inv (input_cwnd k) = rcv_inv k"
  "rcv_inv (k\<lparr>rmt_wnd := w\<rparr>) = rcv_inv k"
  by (rule rcv_inv_cong; simp add: ikcp_parse_una_def ikcp_parse_ack_def ikcp_shrink_buf_eq
      ikcp_parse_fastack_def ikcp_update_ack_def input_cwnd_def Let_def split_beta frame_simps)+

lemma snd_inv_steps [simp]:
  "snd_inv (ikcp_ack_push sn ts k) = snd_inv k"
  "snd_inv (ikcp_parse_data s k) = snd_inv k"
  "snd_inv (input_cwnd k) = snd_inv k"
  "snd_inv (k\<lparr>rmt_wnd := w\<rparr>) = snd_inv k"
  "snd_inv (k\<lparr>probe := p\<rparr>) = snd_inv k"
  by (rule snd_inv_cong; simp add: input_cwnd_def Let_def frame_simps)+

lemma cfg_inv_steps [simp]:
  "cfg_inv (ikcp_parse_una una k) = cfg_inv k"
  "cfg_inv (ikcp_parse_ack sn k) = cfg_inv k"
  "cfg_inv (ikcp_shrink_buf k) = cfg_inv k"
  "cfg_inv (ikcp_parse_fastack sn ts k) = cfg_inv k"
  "cfg_inv (ikcp_ack_push sn ts k) = cfg_inv k"
  "cfg_inv (ikcp_parse_data s k) = cfg_inv k"
  "cfg_inv (input_cwnd k) = cfg_inv k"
  "cfg_inv (k\<lparr>rmt_wnd := w\<rparr>) = cfg_inv k"
  "cfg_inv (k\<lparr>probe := p\<rparr>) = cfg_inv k"
  by (rule cfg_inv_cong; simp add: ikcp_parse_una_def ikcp_parse_ack_def ikcp_shrink_buf_eq
      ikcp_parse_fastack_def input_cwnd_def Let_def split_beta frame_simps)+

lemma cfg_inv_update_ack [wf_intros]:
  assumes "cfg_inv k"
  shows "cfg_inv (ikcp_update_ack rtt k)"
proof -
  obtain a b c where u: "ikcp_update_ack rtt k =
      k\<lparr>rx_srtt := a, rx_rttval := b, rx_rto := ibound (rx_minrto k) c 60000\<rparr>"
    using ikcp_update_ack_frame by blast
  have "30 \<le> unat (rx_minrto k)" "unat (rx_minrto k) \<le> 60000"
    using assms by (auto simp: cfg_inv_def)
  with rx_rto_bounds [of k rtt] have "30 \<le> unat (rx_rto (ikcp_update_ack rtt k))"
    "unat (rx_rto (ikcp_update_ack rtt k)) \<le> 60000"
    by (auto simp: word_le_nat_alt)
  with assms u show ?thesis
    by (simp add: cfg_inv_def)
qed

section \<open>No datagram breaks the invariant\<close>

lemma kcp_inv_una [wf_intros]: "kcp_inv k \<Longrightarrow> kcp_inv (ikcp_shrink_buf (ikcp_parse_una una k))"
  by (simp add: kcp_inv_def snd_inv_shrink_una)

lemma kcp_inv_input_ack [wf_intros]:
  "kcp_inv k \<Longrightarrow> input_ack sn ts flag maxack latest_ts k = (f, m, l, k') \<Longrightarrow> kcp_inv k'"
  by (auto simp: kcp_inv_def input_ack_def Let_def cfg_inv_update_ack snd_inv_shrink_ack
      split: if_splits)

lemma kcp_inv_input_push [wf_intros]:
  assumes "kcp_inv k" and "unat len \<le> length data"
  shows "kcp_inv (input_push cmd frg wnd ts sn una len data k)"
  using assms
  by (auto simp: kcp_inv_def input_push_def Let_def seg_ok_def ikcp_segment_zero_def
      intro!: ikcp_parse_data_inv)

lemma kcp_inv_fields [simp]:
  "kcp_inv (k\<lparr>rmt_wnd := w\<rparr>) = kcp_inv k"
  "kcp_inv (k\<lparr>probe := p\<rparr>) = kcp_inv k"
  "kcp_inv (ikcp_parse_fastack sn ts k) = kcp_inv k"
  "kcp_inv (input_cwnd k) = kcp_inv k"
  by (simp_all add: kcp_inv_def)

lemma kcp_inv_input_segment [wf_intros]:
  assumes "kcp_inv k" and "unat len \<le> length data"
    and "input_segment cmd frg wnd ts sn una len data flag maxack latest_ts k = (f, m, l, k')"
  shows "kcp_inv k'"
proof -
  let ?k = "ikcp_shrink_buf (ikcp_parse_una una (k\<lparr>rmt_wnd := ucast wnd\<rparr>))"
  have inv: "kcp_inv ?k"
    using assms(1) by (simp add: kcp_inv_una)
  note seg = assms(3) [unfolded input_segment_def Let_def]
  show ?thesis
  proof (cases "ucast cmd = IKCP_CMD_ACK")
    case True
    show ?thesis
      using seg [unfolded if_P [OF True]] by (rule kcp_inv_input_ack [OF inv])
  next
    case ack: False
    show ?thesis
    proof (cases "ucast cmd = IKCP_CMD_PUSH")
      case True
      then show ?thesis
        using seg [unfolded if_not_P [OF ack] if_P [OF True]]
          kcp_inv_input_push [OF inv assms(2)]
        by (simp only: prod.inject) blast
    next
      case False
      show ?thesis
        using seg [unfolded if_not_P [OF ack] if_not_P [OF False]] inv
        by (auto simp only: prod.inject kcp_inv_fields split: if_split_asm)
    qed
  qed
qed

text \<open>The header at the front of a datagram, field by field, and the loop in terms of it.\<close>

lemma decode_rest:
  "snd (ikcp_decode8u p) = drop 1 p" "snd (ikcp_decode16u p) = drop 2 p"
  "snd (ikcp_decode32u p) = drop 4 p" "fst (ikcp_decode8u p) = p ! 0"
  by (simp_all add: ikcp_decode8u_def ikcp_decode16u_def ikcp_decode32u_def Let_def)

lemma unat_overhead: "unat IKCP_OVERHEAD = 24"
  by simp

lemma ikcp_input_loop_step:
  assumes "24 \<le> length data"
  shows "ikcp_input_loop data flag maxack latest_ts k =
    (let cv = fst (ikcp_decode32u data);
         cmd = data ! 4; frg = data ! 5; wnd = fst (ikcp_decode16u (drop 6 data));
         ts = fst (ikcp_decode32u (drop 8 data)); sn = fst (ikcp_decode32u (drop 12 data));
         una = fst (ikcp_decode32u (drop 16 data)); len = fst (ikcp_decode32u (drop 20 data))
     in if cv \<noteq> conv k then Inl (-2, k)
        else if length data - 24 < unat len \<or> sint len < 0 then Inl (-2, k)
        else if ucast cmd \<notin> {IKCP_CMD_PUSH, IKCP_CMD_ACK, IKCP_CMD_WASK, IKCP_CMD_WINS}
        then Inl (-3, k)
        else case input_segment cmd frg wnd ts sn una len (drop 24 data) flag maxack latest_ts k of
          (flag, maxack, latest_ts, k) \<Rightarrow>
            ikcp_input_loop (drop (24 + unat len) data) flag maxack latest_ts k)"
  using assms
  by (subst ikcp_input_loop.simps)
    (simp add: decode_rest Let_def split_beta add.commute unat_overhead
      del: IKCP_OVERHEAD_def unat_numeral)

definition loop_state :: "(int \<times> ikcpcb) + (bool \<times> u32 \<times> u32 \<times> ikcpcb) \<Rightarrow> ikcpcb" where
  "loop_state r = (case r of Inl (_, k) \<Rightarrow> k | Inr (_, _, _, k) \<Rightarrow> k)"

text \<open>An induction for the loop: what every accepted segment keeps, the loop keeps.\<close>

lemma ikcp_input_loop_keeps:
  assumes "P k"
    and "\<And>cmd frg wnd ts sn una len p flag maxack latest_ts k f m l k'.
      P k \<Longrightarrow> unat len \<le> length p \<Longrightarrow>
      input_segment cmd frg wnd ts sn una len p flag maxack latest_ts k = (f, m, l, k') \<Longrightarrow> P k'"
  shows "P (loop_state (ikcp_input_loop data flag maxack latest_ts k))"
  using assms(1)
proof (induction "length data" arbitrary: data flag maxack latest_ts k rule: less_induct)
  case less
  show ?case
  proof (cases "length data < 24")
    case True
    with less.prems show ?thesis
      by (simp add: ikcp_input_loop.simps [of data] loop_state_def)
  next
    case False
    then have len: "24 \<le> length data" by simp
    let ?len = "fst (ikcp_decode32u (drop 20 data))"
    obtain f m l k' where seg: "input_segment (data ! 4) (data ! 5) (fst (ikcp_decode16u (drop 6 data)))
        (fst (ikcp_decode32u (drop 8 data))) (fst (ikcp_decode32u (drop 12 data)))
        (fst (ikcp_decode32u (drop 16 data))) ?len (drop 24 data) flag maxack latest_ts k =
        (f, m, l, k')"
      by (rule prod_cases4)
    show ?thesis
    proof (cases "length data - 24 < unat ?len")
      case True
      with less.prems show ?thesis
        by (simp add: ikcp_input_loop_step [OF len] Let_def loop_state_def)
    next
      case False
      then have "P k'"
        using assms(2) [OF less.prems _ seg] by simp
      moreover have "length (drop (24 + unat ?len) data) < length data"
        using len by simp
      ultimately have "P (loop_state (ikcp_input_loop (drop (24 + unat ?len) data) f m l k'))"
        using less.hyps by blast
      with less.prems False show ?thesis
        by (auto simp: ikcp_input_loop_step [OF len] Let_def seg) (auto simp: loop_state_def)
    qed
  qed
qed

lemma ikcp_input_inv [wf_intros]:
  assumes "kcp_inv k"
  shows "kcp_inv (snd (ikcp_input data k))"
proof (cases data)
  case None
  with assms show ?thesis by (simp add: ikcp_input_def)
next
  case (Some bytes)
  have "kcp_inv (loop_state (ikcp_input_loop bytes False 0 0 k))"
    using assms by (rule ikcp_input_loop_keeps) (rule kcp_inv_input_segment)
  with assms Some show ?thesis
    by (auto simp: ikcp_input_def loop_state_def Let_def split: sum.split prod.split)
qed

section \<open>What a datagram may change\<close>

text \<open>
  \<open>input_effect\<close> relates the control block before and after any accepted segment: the queue the
  application reads grows at its end, by segments that continue the serial numbers; from
  the segments in flight some are removed, the others stay as they are, in order, apart from
  their duplicate-ack counters; everything the application configures or queued stays.
\<close>

definition unmarked :: "ikcpseg \<Rightarrow> ikcpseg" where
  "unmarked s = s\<lparr>seg_fastack := 0\<rparr>"

definition input_effect :: "ikcpcb \<Rightarrow> ikcpcb \<Rightarrow> bool" where
  "input_effect k k' \<longleftrightarrow>
     (\<exists>ms. rcv_queue k' = rcv_queue k @ ms \<and> rcv_nxt k' = rcv_nxt k + of_nat (length ms)) \<and>
     subseq (map unmarked (snd_buf k')) (map unmarked (snd_buf k)) \<and>
     flight k' \<le> flight k \<and> snd_nxt k' = snd_nxt k \<and> snd_queue k' = snd_queue k \<and>
     conv k' = conv k \<and> mtu k' = mtu k \<and> mss k' = mss k \<and>
     snd_wnd k' = snd_wnd k \<and> rcv_wnd k' = rcv_wnd k"

lemma input_effect_refl [simp]: "input_effect k k"
  by (simp add: input_effect_def)

lemma input_effect_trans [trans]:
  "input_effect k k' \<Longrightarrow> input_effect k' k'' \<Longrightarrow> input_effect k k''"
  unfolding input_effect_def by (auto intro: subseq_order.trans)

text \<open>A step that leaves both buffers and the queue alone, and one that only shrinks the flight.\<close>

lemma input_effect_frame:
  assumes "rcv_queue k' = rcv_queue k" "rcv_nxt k' = rcv_nxt k"
    and "map unmarked (snd_buf k') = map unmarked (snd_buf k)"
    and "snd_una k' = snd_una k" "snd_nxt k' = snd_nxt k" "snd_queue k' = snd_queue k"
    and "conv k' = conv k" "mtu k' = mtu k" "mss k' = mss k"
    and "snd_wnd k' = snd_wnd k" "rcv_wnd k' = rcv_wnd k"
  shows "input_effect k k'"
  using assms by (simp add: input_effect_def flight_def)

lemma input_effect_una:
  assumes "snd_inv k"
  shows "input_effect k (ikcp_shrink_buf (ikcp_parse_una una k))"
proof -
  have "subseq (snd_buf (ikcp_parse_una una k)) (snd_buf k)"
    by (simp add: ikcp_parse_una_def parse_una_loop_eq split_beta suffix_dropWhile
        suffix_imp_subseq)
  moreover have "flight (ikcp_shrink_buf (ikcp_parse_una una k)) \<le> flight k"
    using assms snd_order_shrink(2) [OF snd_order_parse_una [of k una]]
    by (simp add: snd_inv_def flight_def ikcp_parse_una_def split_beta)
  ultimately show ?thesis
    unfolding input_effect_def
    by (simp add: ikcp_shrink_buf_eq subseq_map) (simp add: ikcp_parse_una_def split_beta)
qed

lemma input_effect_ack:
  assumes "snd_inv k"
  shows "input_effect k (ikcp_shrink_buf (ikcp_parse_ack sn k))"
proof -
  have eq: "ikcp_parse_ack sn k = k\<lparr>snd_buf := filter (\<lambda>s. seg_sn s \<noteq> sn) (snd_buf k),
      nsnd_buf := of_nat (length (filter (\<lambda>s. seg_sn s \<noteq> sn) (snd_buf k)))\<rparr>"
    using assms by (simp add: ikcp_parse_ack_eq snd_inv_def)
  have "flight (ikcp_shrink_buf (ikcp_parse_ack sn k)) \<le> flight k"
    using assms snd_order_shrink(2) [OF snd_order_parse_ack [of k sn]]
    by (simp add: snd_inv_def) (simp add: eq flight_def)
  then show ?thesis
    unfolding input_effect_def
    by (simp add: ikcp_shrink_buf_eq subseq_map) (simp add: eq subseq_map)
qed

lemma input_effect_update_ack: "input_effect k (ikcp_update_ack rtt k)"
proof -
  obtain a b c where "ikcp_update_ack rtt k =
      k\<lparr>rx_srtt := a, rx_rttval := b, rx_rto := ibound (rx_minrto k) c 60000\<rparr>"
    using ikcp_update_ack_frame by blast
  then show ?thesis
    by (intro input_effect_frame) simp_all
qed

lemma input_effect_parse_data:
  "input_effect k (ikcp_parse_data s k)"
  by (auto simp: input_effect_def flight_def frame_simps)
    (auto simp: ikcp_parse_data_def ikcp_move_ready_eq take_ready_def Let_def
      min_absorb2 length_ready_le split: option.split)

lemma map_unmarked_fastack [simp]:
  "map unmarked (parse_fastack_loop sn p) = map unmarked p"
  by (induction sn p rule: parse_fastack_loop.induct) (auto simp: unmarked_def)

lemma input_effect_fastack: "input_effect k (ikcp_parse_fastack sn ts k)"
  by (rule input_effect_frame) (simp_all add: ikcp_parse_fastack_def)

lemma input_effect_cwnd: "input_effect k (input_cwnd k)"
  by (rule input_effect_frame) (simp_all add: input_cwnd_def Let_def)

lemma input_effect_ack_push: "input_effect k (ikcp_ack_push sn ts k)"
  by (rule input_effect_frame) (simp_all add: frame_simps)

lemma input_effect_push: "input_effect k (input_push cmd frg wnd ts sn una len data k)"
  unfolding input_push_def Let_def
  by (auto intro: input_effect_ack_push input_effect_parse_data
      input_effect_trans [OF input_effect_ack_push input_effect_parse_data])

lemma input_effect_input_ack:
  assumes "kcp_inv k" and "input_ack sn ts flag maxack latest_ts k = (f, m, l, k')"
  shows "input_effect k k'"
proof -
  let ?k = "if itimediff (current k) ts \<ge> 0
      then ikcp_update_ack (itimediff (current k) ts) k else k"
  have "snd_inv ?k" and "input_effect k ?k"
    using assms(1) by (simp_all add: kcp_inv_def input_effect_update_ack)
  moreover have "k' = ikcp_shrink_buf (ikcp_parse_ack sn ?k)"
    using assms(2) unfolding input_ack_def Let_def by (auto split: if_split_asm)
  ultimately show ?thesis
    using input_effect_ack input_effect_trans by blast
qed

lemma input_effect_segment:
  assumes "kcp_inv k"
    and "input_segment cmd frg wnd ts sn una len data flag maxack latest_ts k = (f, m, l, k')"
  shows "input_effect k k'"
proof -
  let ?w = "k\<lparr>rmt_wnd := ucast wnd\<rparr>"
  let ?k = "ikcp_shrink_buf (ikcp_parse_una una ?w)"
  have inv: "kcp_inv ?k"
    using assms(1) by (simp add: kcp_inv_una)
  have "input_effect k ?w"
    by (rule input_effect_frame) simp_all
  also have "input_effect ?w ?k"
    using assms(1) by (intro input_effect_una) (simp add: kcp_inv_def)
  finally have base: "input_effect k ?k" .
  have probe: "input_effect ?k (?k\<lparr>probe := p\<rparr>)" for p
    by (rule input_effect_frame) simp_all
  note seg = assms(2) [unfolded input_segment_def Let_def]
  show ?thesis
  proof (cases "ucast cmd = IKCP_CMD_ACK")
    case True
    from seg [unfolded if_P [OF True]] show ?thesis
      by (rule input_effect_trans [OF base input_effect_input_ack [OF inv]])
  next
    case False
    from seg [unfolded if_not_P [OF False]] show ?thesis
      using base input_effect_trans [OF base input_effect_push] input_effect_trans [OF base probe]
      by (auto simp only: prod.inject split: if_split_asm)
  qed
qed

lemma ikcp_input_effect:
  assumes "kcp_inv k"
  shows "input_effect k (snd (ikcp_input data k))"
proof (cases data)
  case None
  then show ?thesis by (simp add: ikcp_input_def)
next
  case (Some bytes)
  have "kcp_inv (loop_state (ikcp_input_loop bytes False 0 0 k)) \<and>
      input_effect k (loop_state (ikcp_input_loop bytes False 0 0 k))"
    by (rule ikcp_input_loop_keeps [where P = "\<lambda>k'. kcp_inv k' \<and> input_effect k k'"])
      (use assms in \<open>auto intro: kcp_inv_input_segment
        input_effect_trans [OF _ input_effect_segment]\<close>)
  then have effect: "input_effect k (loop_state (ikcp_input_loop bytes False 0 0 k))" ..
  show ?thesis
  proof (cases "ikcp_input_loop bytes False 0 0 k")
    case (Inl r)
    with effect Some show ?thesis
      by (cases r) (simp add: ikcp_input_def loop_state_def)
  next
    case (Inr r)
    obtain f m l k' where r: "r = (f, m, l, k')" by (rule prod_cases4)
    let ?k = "if f then ikcp_parse_fastack m l k' else k'"
    have "input_effect k ?k"
      using effect Inr r
      by (auto simp: loop_state_def intro: input_effect_trans [OF _ input_effect_fastack])
    then have "input_effect k (if itimediff (snd_una ?k) (snd_una k) > 0 then input_cwnd ?k else ?k)"
      using input_effect_trans [OF _ input_effect_cwnd] by (simp split: if_split)
    with Some Inr r show ?thesis
      by (simp add: ikcp_input_def Let_def)
  qed
qed

section \<open>Return codes\<close>

lemma ikcp_input_loop_ret:
  "ikcp_input_loop data flag maxack latest_ts k = Inl (ret, k') \<Longrightarrow> ret = -2 \<or> ret = -3"
proof (induction "length data" arbitrary: data flag maxack latest_ts k rule: less_induct)
  case less
  show ?case
  proof (cases "length data < 24")
    case True
    with less.prems show ?thesis by (simp add: ikcp_input_loop.simps [of data])
  next
    case False
    then have len: "24 \<le> length data" by simp
    note hyp = less.hyps [of "drop (24 + n) data" for n]
    have "length (drop (24 + n) data) < length data" for n using len by simp
    from hyp [OF this] less.prems show ?thesis
      unfolding ikcp_input_loop_step [OF len] Let_def
      by (simp split: if_split_asm prod.split_asm)
  qed
qed

lemma ikcp_input_codes: "fst (ikcp_input data k) \<in> {0, -1, -2, -3}"
  by (auto simp: ikcp_input_def Let_def dest: ikcp_input_loop_ret
      split: option.split sum.split prod.split)

lemma ikcp_input_rejects_short:
  "fst (ikcp_input data k) = -1 \<longleftrightarrow> (case data of None \<Rightarrow> True | Some bytes \<Rightarrow> length bytes < 24)"
  by (auto simp: ikcp_input_def Let_def dest: ikcp_input_loop_ret
      split: option.split sum.split prod.split)

lemma ikcp_input_short_unchanged: "fst (ikcp_input data k) = -1 \<Longrightarrow> snd (ikcp_input data k) = k"
  using ikcp_input_rejects_short [of data k]
  by (auto simp: ikcp_input_def split: option.split_asm)

lemma ikcp_input_wrong_conv:
  assumes "24 \<le> length bytes" and "ikcp_getconv bytes \<noteq> conv k"
  shows "ikcp_input (Some bytes) k = (-2, k)"
  using assms
  by (simp add: ikcp_input_def ikcp_input_loop_step ikcp_getconv_def Let_def)

section \<open>Properties\<close>

text \<open>
  C16 (no datagram breaks the control block). From any state that satisfies the invariants,
  \<open>ikcp_input\<close> on any bytes, well formed or not, ends in a state that satisfies them. The
  queue of the application only grows at its end and continues the serial numbers; segments in
  flight are only removed, never reordered or altered apart from their duplicate-ack counters;
  what the application queued and configured stays.
\<close>

theorem input_robust:
  assumes "kcp_inv k"
  shows "kcp_inv (snd (ikcp_input data k)) \<and> input_effect k (snd (ikcp_input data k))"
  using assms ikcp_input_inv ikcp_input_effect by blast

lemma cfg_inv_fresh: "cfg_inv (kcp_fresh cv)"
  by (simp add: kcp_fresh_def ikcp_create_def cfg_inv_def)

lemma kcp_inv_fresh: "kcp_inv (kcp_fresh cv)"
  by (simp add: kcp_inv_def rcv_inv_fresh snd_inv_fresh cfg_inv_fresh)

theorem input_robust_witness:
  "kcp_inv (snd (ikcp_input (Some [1, 2, 3]) (kcp_fresh 9)))"
  using input_robust [OF kcp_inv_fresh] by blast

text \<open>
  The result is 0, -1, -2 or -3. It is -1 exactly for a null pointer
  or a datagram shorter than a header, and then nothing changes; a datagram whose first segment
  has another conversation id gives -2 and nothing changes.
\<close>

theorem input_error_codes:
  "fst (ikcp_input data k) \<in> {0, -1, -2, -3} \<and>
   (fst (ikcp_input data k) = -1 \<longleftrightarrow> (\<forall>bytes. data = Some bytes \<longrightarrow> length bytes < 24)) \<and>
   (fst (ikcp_input data k) = -1 \<longrightarrow> snd (ikcp_input data k) = k) \<and>
   (\<forall>bytes. data = Some bytes \<and> 24 \<le> length bytes \<and> ikcp_getconv bytes \<noteq> conv k \<longrightarrow>
     ikcp_input data k = (-2, k))"
  using ikcp_input_codes [of data k] ikcp_input_rejects_short [of data k]
    ikcp_input_short_unchanged [of data k] ikcp_input_wrong_conv [of _ k]
  by (auto split: option.splits)

theorem input_error_codes_witness:
  "ikcp_input (Some (replicate 30 1)) (kcp_fresh 9) = (-2, kcp_fresh 9)"
proof -
  have "ikcp_getconv (replicate 30 1) \<noteq> conv (kcp_fresh 9)"
    by (simp add: ikcp_getconv_def ikcp_decode32u_def kcp_fresh_def ikcp_create_def)
  then show ?thesis
    using input_error_codes [of "Some (replicate 30 1)" "kcp_fresh 9"] by simp
qed

end
