(* ===== verification/Kcp_Send.thy ===== *)
theory Kcp_Send
  imports Kcp_Recv
begin

text \<open>
  \<open>ikcp_send\<close>: the user's bytes are cut into segments of at most \<open>mss\<close> bytes and appended to
  \<open>snd_queue\<close>; in stream mode the last queued segment is topped up first.

  The buffer is \<^term>\<open>None\<close> for a null pointer. \<open>mem i\<close> says whether the \<open>i\<close>-th allocation of the
  call succeeds (the one for the topped-up segment has number 0); a failed one violates
  \<open>assert(seg)\<close>, and \<^term>\<open>None\<close> as the result is a failed assertion.

  \<open>chunks\<close> is the specification of the cutting, \<open>ikcp_send_message\<close> and \<open>ikcp_send_stream\<close>
  say what the two modes queue.
\<close>

abbreviation mem_ok :: "nat \<Rightarrow> bool" where
  "mem_ok \<equiv> \<lambda>_. True"

definition new_fragment :: "int \<Rightarrow> u8 list \<Rightarrow> u32 \<Rightarrow> ikcpseg" where
  "new_fragment sz bytes frg =
     ikcp_segment_zero\<lparr>seg_data := bytes, seg_len := word_of_int sz, seg_frg := frg\<rparr>"

text \<open>The fragment loop, with \<open>n\<close> iterations left; \<open>i = cnt - n\<close>.\<close>

fun send_fragments ::
  "(nat \<Rightarrow> bool) \<Rightarrow> nat \<Rightarrow> nat \<Rightarrow> int \<Rightarrow> u8 list option \<Rightarrow> ikcpcb \<Rightarrow> ikcpcb option" where
  "send_fragments mem cnt 0 len buf k = Some k"
| "send_fragments mem cnt (Suc n) len buf k =
     (let i = cnt - Suc n;
          sz = (if len > sint (mss k) then sint (mss k) else len)
      in if \<not> mem (Suc i) then None
         else
           let bytes = (case buf of Some b \<Rightarrow> if len > 0 then take (nat sz) b else []
                        | None \<Rightarrow> []);
               frg = (if stream k = 0 then of_nat (cnt - i - 1) else 0);
               k = k\<lparr>snd_queue := snd_queue k @ [new_fragment sz bytes frg],
                     nsnd_que := nsnd_que k + 1\<rparr>
           in send_fragments mem cnt n (len - sz) (map_option (drop (nat sz)) buf) k)"

text \<open>Streaming mode: append to the last queued segment; the rest of the buffer is left over.\<close>

definition send_extend ::
  "(nat \<Rightarrow> bool) \<Rightarrow> u8 list option \<Rightarrow> int \<Rightarrow> ikcpcb \<Rightarrow> (u8 list option \<times> int \<times> ikcpcb) option" where
  "send_extend mem buf len k =
     (if snd_queue k = [] then Some (buf, len, k)
      else
        let old = last (snd_queue k)
        in if seg_len old < mss k then
             let capacity = sint (mss k - seg_len old);
                 extend = (if len < capacity then len else capacity)
             in if \<not> mem 0 then None
                else
                  let bytes = seg_data old @
                        (case buf of Some b \<Rightarrow> take (nat extend) b | None \<Rightarrow> []);
                      seg = ikcp_segment_zero\<lparr>seg_data := bytes,
                              seg_len := seg_len old + word_of_int extend, seg_frg := 0\<rparr>
                  in Some (map_option (drop (nat extend)) buf, len - extend,
                           k\<lparr>snd_queue := butlast (snd_queue k) @ [seg]\<rparr>)
           else Some (buf, len, k))"

definition fragment_count :: "int \<Rightarrow> u32 \<Rightarrow> int" where
  "fragment_count len m =
     (let cnt = (if len \<le> sint m then 1 else sint ((word_of_int len + m - 1) div m))
      in cnt)"

definition send_queue ::
  "(nat \<Rightarrow> bool) \<Rightarrow> u8 list option \<Rightarrow> int \<Rightarrow> ikcpcb \<Rightarrow> (int \<times> ikcpcb) option" where
  "send_queue mem buf len k =
     (let cnt = fragment_count len (mss k)
      in if cnt \<ge> sint IKCP_WND_RCV then Some (-2, k)
         else
           let cnt = (if cnt = 0 then 1 else cnt)
           in map_option (\<lambda>k. (0, k)) (send_fragments mem (nat cnt) (nat cnt) len buf k))"

definition ikcp_send ::
  "(nat \<Rightarrow> bool) \<Rightarrow> u8 list option \<Rightarrow> int \<Rightarrow> ikcpcb \<Rightarrow> (int \<times> ikcpcb) option" where
  "ikcp_send mem buf len k =
     (if \<not> mss k > 0 then None
      else if len < 0 then Some (-1, k)
      else if stream k \<noteq> 0 then
        (case send_extend mem buf len k of
           None \<Rightarrow> None
         | Some (buf, len, k) \<Rightarrow> if len \<le> 0 then Some (0, k) else send_queue mem buf len k)
      else send_queue mem buf len k)"

section \<open>Cutting bytes into chunks\<close>

function chunks :: "nat \<Rightarrow> u8 list \<Rightarrow> u8 list list" where
  "chunks m b = (if m = 0 \<or> length b \<le> m then [b] else take m b # chunks m (drop m b))"
  by pat_completeness auto
termination
  by (relation "measure (\<lambda>(m, b). length b)") auto

declare chunks.simps [simp del]

lemma chunks_short: "length b \<le> m \<Longrightarrow> chunks m b = [b]"
  by (simp add: chunks.simps)

lemma chunks_long: "0 < m \<Longrightarrow> m < length b \<Longrightarrow> chunks m b = take m b # chunks m (drop m b)"
  by (subst chunks.simps) simp

lemma chunks_not_Nil [simp]: "chunks m b \<noteq> []"
  by (subst chunks.simps) simp

lemma concat_chunks [simp]: "concat (chunks m b) = b"
  by (induction m b rule: chunks.induct) (subst chunks.simps, simp)

lemma length_in_chunks: "0 < m \<Longrightarrow> c \<in> set (chunks m b) \<Longrightarrow> length c \<le> m"
proof (induction m b rule: chunks.induct)
  case (1 m b)
  then show ?case
    by (cases "length b \<le> m") (auto simp: chunks_short chunks_long not_le)
qed

lemma length_chunks:
  assumes "0 < m"
  shows "length (chunks m b) = (if length b \<le> m then 1 else (length b + m - 1) div m)"
  using assms
proof (induction m b rule: chunks.induct)
  case (1 m b)
  show ?case
  proof (cases "length b \<le> m")
    case True
    then show ?thesis by (simp add: chunks_short)
  next
    case False
    then have "length (chunks m b) = Suc (length (chunks m (drop m b)))"
      using "1.prems" by (simp add: chunks_long)
    also have "length (chunks m (drop m b)) = (length b - 1) div m"
    proof (cases "length b - m \<le> m")
      case True
      then have "(length b - 1) div m = 1"
        using False by (intro div_nat_eqI) auto
      with True show ?thesis by (simp add: chunks_short)
    next
      case nle: False
      with 1 False show ?thesis by simp
    qed
    also have "Suc ((length b - 1) div m) = (length b - 1 + m) div m"
      using div_add_self2 [of m "length b - 1"] "1.prems" by simp
    also have "\<dots> = (length b + m - 1) div m"
      using False by (simp add: not_le)
    finally show ?thesis using False by simp
  qed
qed

section \<open>What \<open>ikcp_send\<close> queues\<close>

text \<open>
  The segments made from chunks: in message mode (\<open>stream = 0\<close>) each one counts the fragments
  that follow it.
\<close>

fun fragment_segs :: "int \<Rightarrow> u8 list list \<Rightarrow> ikcpseg list" where
  "fragment_segs st [] = []"
| "fragment_segs st (c # cs) =
     new_fragment (int (length c)) c (if st = 0 then of_nat (length cs) else 0) #
     fragment_segs st cs"

definition enqueue :: "ikcpseg list \<Rightarrow> ikcpcb \<Rightarrow> ikcpcb" where
  "enqueue segs k =
     k\<lparr>snd_queue := snd_queue k @ segs, nsnd_que := nsnd_que k + of_nat (length segs)\<rparr>"

lemma length_fragment_segs [simp]: "length (fragment_segs st cs) = length cs"
  by (induction cs) simp_all

lemma enqueue_Nil [simp]: "enqueue [] k = k"
  by (simp add: enqueue_def)

lemma enqueue_enqueue: "enqueue t (enqueue s k) = enqueue (s @ t) k"
  by (simp add: enqueue_def algebra_simps)

lemma send_fragments_eq:
  assumes "sint (mss k) = int m" and "0 < m"
    and "n = length (chunks m b)" and "n \<le> cnt"
  shows "send_fragments mem_ok cnt n (int (length b)) (Some b) k =
    Some (enqueue (fragment_segs (stream k) (chunks m b)) k)"
  using assms
proof (induction m b arbitrary: k n rule: chunks.induct)
  case (1 m b)
  show ?case
  proof (cases "length b \<le> m")
    case True
    then have "n = Suc 0"
      using "1.prems" by (simp add: chunks_short)
    with True "1.prems" show ?thesis
      by (auto simp: chunks_short enqueue_def Let_def)
  next
    case False
    then obtain n' where n': "n = Suc n'" "n' = length (chunks m (drop m b))"
      using "1.prems" by (simp add: chunks_long)
    let ?s = "new_fragment (int m) (take m b) (if stream k = 0 then of_nat n' else 0)"
    have sz: "(if int (length b) > sint (mss k) then sint (mss k) else int (length b)) = int m"
      using False "1.prems"(1) by simp
    have i: "cnt - (cnt - Suc n') - 1 = n'"
      using "1.prems"(4) n'(1) by simp
    have rest: "int (length b) - int m = int (length (drop m b))"
      using False by simp
    have "send_fragments mem_ok cnt n (int (length b)) (Some b) k =
      send_fragments mem_ok cnt n' (int (length (drop m b))) (Some (drop m b)) (enqueue [?s] k)"
      using False unfolding n'(1) send_fragments.simps Let_def sz i rest
      by (simp add: enqueue_def not_le)
    also have "\<dots> = Some (enqueue (fragment_segs (stream k) (chunks m (drop m b))) (enqueue [?s] k))"
    proof -
      have "\<not> (m = 0 \<or> length b \<le> m)"
        using False "1.prems"(2) by simp
      moreover have "sint (mss (enqueue [?s] k)) = int m" "n' \<le> cnt"
        using "1.prems" n'(1) by (simp_all add: enqueue_def)
      ultimately show ?thesis
        using "1.IH" [of "enqueue [?s] k" n'] "1.prems"(2) n'(2) by (simp add: enqueue_def)
    qed
    also have "\<dots> = Some (enqueue (fragment_segs (stream k) (chunks m b)) k)"
      using False "1.prems"(2) n'(2) by (simp add: chunks_long enqueue_enqueue)
    finally show ?thesis .
  qed
qed

lemma fragment_count_eq:
  assumes "0 < unat m" and "unat m < half32" and "length b < half32"
  shows "fragment_count (int (length b)) m = int (length (chunks (unat m) b))"
proof (cases "length b \<le> unat m")
  case True
  then have "int (length b) \<le> sint m"
    using sint_u32_small [OF assms(2)] by linarith
  with True show ?thesis
    by (simp add: fragment_count_def chunks_short)
next
  case False
  let ?n = "length b + unat m - 1"
  have "unat (of_nat (length b) + m - 1) = ?n"
  proof -
    have "unat (of_nat (length b) + m :: u32) = length b + unat m"
      using assms by (simp add: unat_word_ariths unat_of_nat)
    moreover from this have "of_nat (length b) + m \<noteq> (0 :: u32)"
      using assms(1) by (metis add_is_0 less_numeral_extra(3) unat_0)
    ultimately show ?thesis
      by (simp add: unat_minus_one)
  qed
  then have div: "unat ((of_nat (length b) + m - 1) div m) = ?n div unat m"
    by (simp add: unat_div)
  have "?n div unat m \<le> length b"
  proof -
    have "?n \<le> length b * unat m + (unat m - 1)"
      using assms(1) by (cases "unat m") auto
    then have "?n div unat m \<le> (length b * unat m + (unat m - 1)) div unat m"
      by (rule div_le_mono)
    also have "\<dots> = length b"
      using assms(1) by (intro div_nat_eqI) (auto simp: mult.commute)
    finally show ?thesis .
  qed
  then have "sint ((of_nat (length b) + m - 1) div m) = int (?n div unat m)"
    using sint_u32_small [of "(of_nat (length b) + m - 1) div m"] div assms(3) by simp
  moreover have "\<not> int (length b) \<le> sint m"
    using False sint_u32_small [OF assms(2)] by linarith
  ultimately show ?thesis
    using False assms(1) by (simp add: fragment_count_def length_chunks)
qed

lemma send_queue_eq:
  assumes "0 < unat (mss k)" and "unat (mss k) < half32" and "length b < half32"
  shows "send_queue mem_ok (Some b) (int (length b)) k =
    (if 128 \<le> length (chunks (unat (mss k)) b) then Some (-2, k)
     else Some (0, enqueue (fragment_segs (stream k) (chunks (unat (mss k)) b)) k))"
proof -
  have "sint (mss k) = int (unat (mss k))"
    by (rule sint_u32_small [OF assms(2)])
  from send_fragments_eq [OF this assms(1) refl order_refl]
  show ?thesis
    by (simp add: send_queue_def fragment_count_eq [OF assms] nat_eq_iff)
qed

text \<open>Message mode.\<close>

lemma ikcp_send_message:
  assumes "stream k = 0" and "0 < unat (mss k)" and "unat (mss k) < half32"
    and "length b < half32"
  shows "ikcp_send mem_ok (Some b) (int (length b)) k =
    (if 128 \<le> length (chunks (unat (mss k)) b) then Some (-2, k)
     else Some (0, enqueue (fragment_segs 0 (chunks (unat (mss k)) b)) k))"
  using assms send_queue_eq [OF assms(2-4)]
  by (simp add: ikcp_send_def word_less_nat_alt)

lemma ikcp_send_negative: "0 < mss k \<Longrightarrow> len < 0 \<Longrightarrow> ikcp_send mem buf len k = Some (-1, k)"
  by (simp add: ikcp_send_def)

lemma seg_data_fragment_segs: "map seg_data (fragment_segs st cs) = cs"
  by (induction cs) (simp_all add: new_fragment_def)

lemma seg_len_fragment_segs:
  "\<forall>c\<in>set cs. length c < 4294967296 \<Longrightarrow>
   map (\<lambda>s. unat (seg_len s)) (fragment_segs st cs) = map length cs"
  by (induction cs) (simp_all add: new_fragment_def unat_of_nat_u32)

lemma payload_len_fragment_segs:
  "\<forall>c\<in>set cs. length c < 4294967296 \<Longrightarrow>
   payload_len (fragment_segs st cs) = length (concat cs)"
  by (simp add: payload_len_def seg_len_fragment_segs length_concat)

lemma seg_ok_fragment_segs:
  "\<forall>c\<in>set cs. length c < 4294967296 \<Longrightarrow> s \<in> set (fragment_segs st cs) \<Longrightarrow> seg_ok s"
  by (induction cs) (auto simp: seg_ok_def new_fragment_def unat_of_nat_u32)

lemma seg_frg_fragment_segs:
  "length cs \<le> 256 \<Longrightarrow> s \<in> set (fragment_segs st cs) \<Longrightarrow> unat (seg_frg s) < 256"
  by (induction cs) (auto simp: new_fragment_def unat_of_nat_u32 ikcp_segment_zero_def)

lemma complete_message_fragment_segs:
  "cs \<noteq> [] \<Longrightarrow> length cs < 4294967296 \<Longrightarrow> complete_message (fragment_segs 0 cs)"
proof (induction cs)
  case Nil
  then show ?case by simp
next
  case (Cons c cs)
  then show ?case
    by (cases cs) (auto simp: new_fragment_def ikcp_segment_zero_def unat_of_nat_u32
        simp del: of_nat_Suc)
qed

text \<open>Stream mode: the bytes queued so far are followed by the new ones, whatever the cuts.\<close>

definition queued_bytes :: "ikcpcb \<Rightarrow> u8 list" where
  "queued_bytes k = concat (map seg_data (snd_queue k))"

lemma queued_bytes_enqueue:
  "queued_bytes (enqueue (fragment_segs st (chunks m b)) k) = queued_bytes k @ b"
  by (simp add: queued_bytes_def enqueue_def seg_data_fragment_segs)

lemma queued_bytes_snoc:
  "snd_queue k = q @ [s] \<Longrightarrow> queued_bytes k = concat (map seg_data q) @ seg_data s"
  by (simp add: queued_bytes_def)

lemma send_extend_bytes:
  assumes "send_extend mem_ok (Some b) (int (length b)) k = Some (buf, len, k')"
    and "unat (mss k) < half32" and "length b < half32"
  shows "\<exists>n \<le> length b. buf = Some (drop n b) \<and> len = int (length (drop n b)) \<and>
    queued_bytes k' = queued_bytes k @ take n b \<and> mss k' = mss k \<and> stream k' = stream k"
proof (cases "snd_queue k \<noteq> [] \<and> seg_len (last (snd_queue k)) < mss k")
  case False
  with assms(1) have "buf = Some b" "len = int (length b)" "k' = k"
    by (auto simp: send_extend_def Let_def split: if_splits)
  then show ?thesis
    by (intro exI [of _ 0]) simp
next
  case True
  then obtain q old where q: "snd_queue k = q @ [old]" and old: "seg_len old < mss k"
    by (metis append_butlast_last_id)
  define cap where "cap = unat (mss k) - unat (seg_len old)"
  have "unat (mss k - seg_len old) = cap"
    using old by (simp add: cap_def unat_sub less_imp_le)
  then have "sint (mss k - seg_len old) = int cap"
    using assms(2) by (subst sint_u32_small) (auto simp: cap_def)
  then have res: "buf = Some (drop (min (length b) cap) b) \<and>
      len = int (length b) - int (min (length b) cap) \<and>
      queued_bytes k' = queued_bytes k @ take (min (length b) cap) b \<and>
      mss k' = mss k \<and> stream k' = stream k"
    using assms(1) q old
    by (auto simp: send_extend_def Let_def queued_bytes_snoc min_def split: if_splits)
  then show ?thesis
    by (intro exI [of _ "min (length b) cap"]) auto
qed

lemma ikcp_send_stream:
  assumes "stream k \<noteq> 0" and "0 < unat (mss k)" and "unat (mss k) < half32"
    and "length b < half32"
    and "ikcp_send mem_ok (Some b) (int (length b)) k = Some (0, k')"
  shows "queued_bytes k' = queued_bytes k @ b"
proof -
  obtain buf len k1 where e: "send_extend mem_ok (Some b) (int (length b)) k = Some (buf, len, k1)"
    using assms(5) by (auto simp: ikcp_send_def word_less_nat_alt assms(1,2) split: option.splits if_splits)
  from send_extend_bytes [OF this assms(3,4)] obtain n where
    n: "n \<le> length b" "buf = Some (drop n b)" "len = int (length (drop n b))"
      "queued_bytes k1 = queued_bytes k @ take n b" "mss k1 = mss k" "stream k1 = stream k"
    by blast
  show ?thesis
  proof (cases "n = length b")
    case True
    with e n assms show ?thesis by (simp add: ikcp_send_def word_less_nat_alt)
  next
    case False
    then have "send_queue mem_ok buf len k1 = Some (0, k')"
      using e n assms by (simp add: ikcp_send_def word_less_nat_alt split: if_splits)
    moreover have "length (drop n b) < half32"
      using assms(4) by simp
    ultimately have "k' = enqueue (fragment_segs (stream k) (chunks (unat (mss k)) (drop n b))) k1"
      using n(5,6) assms(2-4) send_queue_eq [of k1 "drop n b"] unfolding n(2,3)
      by (simp split: if_splits del: length_drop)
    with n show ?thesis by (simp add: queued_bytes_enqueue)
  qed
qed

text \<open>Whether segments form a message depends on their fragment numbers only.\<close>

lemma complete_message_cong: "map seg_frg p = map seg_frg q \<Longrightarrow> complete_message p = complete_message q"
proof (induction p arbitrary: q)
  case (Cons s p)
  then obtain t q' where q: "q = t # q'" "seg_frg s = seg_frg t" "map seg_frg p = map seg_frg q'"
    by (cases q) auto
  moreover from q(3) have "length p = length q'" by (metis length_map)
  ultimately show ?case using Cons.IH [of q'] by (auto simp: length_0_conv [symmetric] simp del: length_0_conv)
qed simp

lemma recv_fragments:
  assumes "length (chunks m b) < 128" and "length b < half32" and "rcv_inv r" and "rcv_queue r = got @ rest"
    and same: "map (\<lambda>s. (seg_frg s, seg_data s)) got = map (\<lambda>s. (seg_frg s, seg_data s)) (fragment_segs 0 (chunks m b))"
    and "int (length b) \<le> len"
  shows "\<exists>r'. ikcp_recv True len r = Some (int (length b), b, r') \<and> rcv_inv r'"
proof -
  have frg: "map seg_frg got = map seg_frg (fragment_segs 0 (chunks m b))" and data: "map seg_data got = chunks m b"
    using arg_cong [OF same, of "map fst"] arg_cong [OF same, of "map snd"]
    by (simp_all add: comp_def seg_data_fragment_segs)
  have "complete_message got"
    unfolding complete_message_cong [OF frg] using assms(1) by (intro complete_message_fragment_segs) auto
  moreover have "\<forall>s\<in>set got. seg_ok s" using assms(3,4) by (auto simp: rcv_inv_def)
  then have "payload_len got = length (concat (map seg_data got))"
    by (simp add: payload_len_def length_concat seg_ok_def comp_def cong: map_cong)
  then have "payload_len got = length b" using data by simp
  ultimately show ?thesis
    using ikcp_recv_complete [OF assms(3,4), of len] assms(2,6) data by force
qed

section \<open>Properties\<close>

text \<open>
  C27 (cutting a message). In message mode \<open>ikcp_send\<close> refuses a message of 128 fragments or more
  and then changes nothing; otherwise it appends segments whose data, one after the other, are
  the bytes of the message, each at most \<open>mss\<close> long, and which form one complete message
  for the receiver: the fragment numbers cnt down to 0.
\<close>

theorem send_message_fragments:
  assumes "stream k = 0" and "0 < unat (mss k)" and "unat (mss k) < half32"
    and "length b < half32"
  shows "if (if length b \<le> unat (mss k) then 1 else (length b + unat (mss k) - 1) div unat (mss k)) \<ge> 128
    then ikcp_send mem_ok (Some b) (int (length b)) k = Some (-2, k)
    else \<exists>segs. ikcp_send mem_ok (Some b) (int (length b)) k = Some (0, enqueue segs k) \<and>
      concat (map seg_data segs) = b \<and> complete_message segs \<and>
      (\<forall>s\<in>set segs. seg_ok s \<and> length (seg_data s) \<le> unat (mss k))"
proof (cases "128 \<le> length (chunks (unat (mss k)) b)")
  case True
  with assms show ?thesis
    by (simp add: ikcp_send_message length_chunks [OF assms(2)] split: if_splits)
next
  case False
  let ?cs = "chunks (unat (mss k)) b"
  let ?segs = "fragment_segs 0 ?cs"
  have small: "\<forall>c\<in>set ?cs. length c \<le> unat (mss k)"
    using length_in_chunks [OF assms(2)] by blast
  then have "\<forall>c\<in>set ?cs. length c < 4294967296"
    using unat_u32_less [of "mss k"] by (meson le_less_trans)
  then have "\<forall>s\<in>set ?segs. seg_ok s"
    using seg_ok_fragment_segs by blast
  moreover have "seg_data ` set ?segs = set ?cs"
    by (metis list.set_map seg_data_fragment_segs)
  then have "\<forall>s\<in>set ?segs. length (seg_data s) \<le> unat (mss k)"
    using small by (metis imageI)
  moreover have "complete_message ?segs"
    using False by (intro complete_message_fragment_segs) auto
  moreover have "concat (map seg_data ?segs) = b"
    by (simp add: seg_data_fragment_segs)
  ultimately have "\<exists>segs. ikcp_send mem_ok (Some b) (int (length b)) k = Some (0, enqueue segs k) \<and>
      concat (map seg_data segs) = b \<and> complete_message segs \<and>
      (\<forall>s\<in>set segs. seg_ok s \<and> length (seg_data s) \<le> unat (mss k))"
    using ikcp_send_message [OF assms] False by (intro exI [of _ ?segs]) simp
  moreover have "(if length b \<le> unat (mss k) then 1
      else (length b + unat (mss k) - 1) div unat (mss k)) = length ?cs"
    using length_chunks [OF assms(2)] by simp
  ultimately show ?thesis
    using False by simp
qed

lemma kcp_fresh_send_fields:
  "stream (kcp_fresh cv) = 0" "mss (kcp_fresh cv) = 1376" "snd_queue (kcp_fresh cv) = []"
  by (simp_all add: kcp_fresh_def ikcp_create_def)

theorem send_message_fragments_witness:
  "\<exists>segs. ikcp_send mem_ok (Some [1, 2, 3]) 3 (kcp_fresh 9) = Some (0, enqueue segs (kcp_fresh 9)) \<and>
    concat (map seg_data segs) = [1, 2, 3]"
  using send_message_fragments [of "kcp_fresh 9" "[1, 2, 3]"]
  by (auto simp: kcp_fresh_send_fields)

text \<open>
  When \<open>ikcp_send\<close> returns 0 in stream mode, the bytes queued for sending are
  the ones queued before followed by the new ones, whether or not the last segment had room.
\<close>

theorem send_stream_appends:
  assumes "stream k \<noteq> 0" and "0 < unat (mss k)" and "unat (mss k) < half32"
    and "length b < half32"
    and "ikcp_send mem_ok (Some b) (int (length b)) k = Some (0, k')"
  shows "queued_bytes k' = queued_bytes k @ b"
  using assms by (rule ikcp_send_stream)

theorem send_stream_appends_witness:
  "\<exists>k'. ikcp_send mem_ok (Some [1, 2, 3]) 3 (kcp_fresh 9\<lparr>stream := 1\<rparr>) = Some (0, k') \<and>
    queued_bytes k' = [1, 2, 3]"
proof -
  let ?k = "kcp_fresh 9\<lparr>stream := 1\<rparr>"
  have "send_queue mem_ok (Some [1, 2, 3]) (int (length [1, 2, 3 :: u8])) ?k =
      Some (0, enqueue (fragment_segs 1 (chunks 1376 [1, 2, 3])) ?k)"
    using send_queue_eq [of ?k "[1, 2, 3]"] by (simp add: kcp_fresh_send_fields chunks_short)
  then have send: "ikcp_send mem_ok (Some [1, 2, 3]) (int (length [1, 2, 3 :: u8])) ?k =
      Some (0, enqueue (fragment_segs 1 (chunks 1376 [1, 2, 3])) ?k)"
    by (simp add: ikcp_send_def send_extend_def kcp_fresh_send_fields)
  from send_stream_appends [OF _ _ _ _ this] send show ?thesis
    by (auto simp: kcp_fresh_send_fields queued_bytes_def)
qed

text \<open>
  C18 (send and receive are inverse). Let \<open>ikcp_send\<close> queue the message \<open>b\<close>. A receiver whose queue
  starts with segments that carry the fragment numbers and data of the queued ones, in
  order, gets exactly \<open>b\<close> from one \<open>ikcp_recv\<close> with a large enough buffer.
\<close>

theorem send_recv_roundtrip:
  assumes "stream k = 0" and "0 < unat (mss k)" and "unat (mss k) < half32"
    and "length b < half32"
    and "ikcp_send mem_ok (Some b) (int (length b)) k = Some (0, k')"
    and "snd_queue k' = snd_queue k @ segs"
    and "rcv_inv r" and "rcv_queue r = got @ rest"
    and "map (\<lambda>s. (seg_frg s, seg_data s)) got = map (\<lambda>s. (seg_frg s, seg_data s)) segs"
    and "int (length b) \<le> len"
  shows "\<exists>r'. ikcp_recv True len r = Some (int (length b), b, r') \<and> rcv_inv r'"
proof -
  let ?cs = "chunks (unat (mss k)) b"
  have few: "length ?cs < 128"
    using assms(5) ikcp_send_message [OF assms(1-4)] by (simp split: if_splits)
  have "segs = fragment_segs 0 ?cs"
    using assms(5,6) ikcp_send_message [OF assms(1-4)] by (auto simp: enqueue_def split: if_splits)
  then show ?thesis using recv_fragments [OF few assms(4,7,8) _ assms(10)] assms(9) by simp
qed

theorem send_recv_roundtrip_witness:
  "\<exists>r'. ikcp_recv True 10 (ikcp_parse_data (sample_seg 0 [7, 8]) (kcp_fresh 9)) = Some (2, [7, 8], r')"
proof -
  let ?k = "kcp_fresh 9" and ?r = "ikcp_parse_data (sample_seg 0 [7, 8]) (kcp_fresh 9)"
  let ?segs = "[new_fragment 2 [7, 8] 0]"
  have send: "ikcp_send mem_ok (Some [7, 8]) (int (length [7, 8 :: u8])) ?k =
      Some (0, enqueue ?segs ?k)"
    using ikcp_send_message [of ?k "[7, 8]"] by (simp add: kcp_fresh_send_fields chunks_short)
  have q: "rcv_queue ?r = [sample_seg 0 [7, 8]] @ []" by code_simp
  have inv: "rcv_inv ?r"
    by (simp add: ikcp_parse_data_inv rcv_inv_fresh seg_ok_sample)
  have "snd_queue (enqueue ?segs ?k) = snd_queue ?k @ ?segs"
    by (simp add: enqueue_def)
  moreover have "map (\<lambda>s. (seg_frg s, seg_data s)) [sample_seg 0 [7, 8]] =
      map (\<lambda>s. (seg_frg s, seg_data s)) ?segs"
    by (simp add: sample_seg_def new_fragment_def ikcp_segment_zero_def)
  ultimately show ?thesis
    using send_recv_roundtrip [OF _ _ _ _ send _ inv q, of ?segs 10]
    by (auto simp: kcp_fresh_send_fields)
qed

end
