(* ===== verification/Kcp_Flush.thy ===== *)
theory Kcp_Flush
  imports Kcp_Input Kcp_Send
begin

text \<open>
  \<open>ikcp_flush\<close> of \<open>lib/kcp/source/ikcp.c\<close>.

  The output callback is not part of the engine; the model collects what it is called with, in
  order. An \<open>outbuf\<close> is the pair of the bytes between \<open>buffer\<close> and \<open>ptr\<close> and of the datagrams
  already given to the callback. The function is split at its comments: acknowledgements, the
  probe timer, the probe commands, the window, the move from \<open>snd_queue\<close> to \<open>snd_buf\<close>, the
  transmission of \<open>snd_buf\<close>, the congestion control at the end.
\<close>

section \<open>Output\<close>

definition ikcp_encode_seg :: "ikcpseg \<Rightarrow> u8 list" where
  "ikcp_encode_seg seg =
     ikcp_encode32u (seg_conv seg) @ ikcp_encode8u (ucast (seg_cmd seg)) @
     ikcp_encode8u (ucast (seg_frg seg)) @ ikcp_encode16u (ucast (seg_wnd seg)) @
     ikcp_encode32u (seg_ts seg) @ ikcp_encode32u (seg_sn seg) @
     ikcp_encode32u (seg_una seg) @ ikcp_encode32u (seg_len seg)"

definition ikcp_wnd_unused :: "ikcpcb \<Rightarrow> int" where
  "ikcp_wnd_unused k = (if nrcv_que k < rcv_wnd k then sint (rcv_wnd k - nrcv_que k) else 0)"

type_synonym outbuf = "u8 list \<times> u8 list list"

definition ikcp_output :: "outbuf \<Rightarrow> u8 list list" where
  "ikcp_output b = (case b of (buf, out) \<Rightarrow> if buf = [] then out else out @ [buf])"

text \<open>\<open>if (size + need > (int)kcp->mtu)\<close>: send what is in the buffer, and start again at its front.\<close>

definition flush_room :: "u32 \<Rightarrow> int \<Rightarrow> outbuf \<Rightarrow> outbuf" where
  "flush_room mt need b =
     (if int (length (fst b)) + need > sint mt then ([], ikcp_output b) else b)"

definition flush_put :: "u32 \<Rightarrow> ikcpseg \<Rightarrow> outbuf \<Rightarrow> outbuf" where
  "flush_put mt seg b =
     (let b = flush_room mt (sint IKCP_OVERHEAD) b
      in (fst b @ ikcp_encode_seg seg, snd b))"

section \<open>The steps of \<open>ikcp_flush\<close>\<close>

definition flush_template :: "ikcpcb \<Rightarrow> ikcpseg" where
  "flush_template k =
     ikcp_segment_zero\<lparr>seg_conv := conv k, seg_cmd := IKCP_CMD_ACK, seg_frg := 0,
       seg_wnd := word_of_int (ikcp_wnd_unused k), seg_una := rcv_nxt k,
       seg_len := 0, seg_sn := 0, seg_ts := 0\<rparr>"

fun flush_acks :: "ikcpcb \<Rightarrow> nat list \<Rightarrow> ikcpseg \<Rightarrow> outbuf \<Rightarrow> ikcpseg \<times> outbuf" where
  "flush_acks k [] seg b = (seg, b)"
| "flush_acks k (i # is) seg b =
     (let b = flush_room (mtu k) (sint IKCP_OVERHEAD) b;
          (sn, ts) = ikcp_ack_get k i;
          seg = seg\<lparr>seg_sn := sn, seg_ts := ts\<rparr>
      in flush_acks k is seg (fst b @ ikcp_encode_seg seg, snd b))"

definition flush_probe_timer :: "ikcpcb \<Rightarrow> ikcpcb" where
  "flush_probe_timer k =
     (if rmt_wnd k = 0 then
        if probe_wait k = 0 then
          let k = k\<lparr>probe_wait := IKCP_PROBE_INIT\<rparr>
          in k\<lparr>ts_probe := current k + probe_wait k\<rparr>
        else if itimediff (current k) (ts_probe k) \<ge> 0 then
          let k = (if probe_wait k < IKCP_PROBE_INIT then k\<lparr>probe_wait := IKCP_PROBE_INIT\<rparr> else k);
              k = k\<lparr>probe_wait := probe_wait k + probe_wait k div 2\<rparr>;
              k = (if probe_wait k > IKCP_PROBE_LIMIT then k\<lparr>probe_wait := IKCP_PROBE_LIMIT\<rparr> else k);
              k = k\<lparr>ts_probe := current k + probe_wait k\<rparr>
          in k\<lparr>probe := probe k OR IKCP_ASK_SEND\<rparr>
        else k
      else k\<lparr>ts_probe := 0, probe_wait := 0\<rparr>)"

definition flush_probe :: "u32 \<Rightarrow> u32 \<Rightarrow> ikcpcb \<Rightarrow> ikcpseg \<times> outbuf \<Rightarrow> ikcpseg \<times> outbuf" where
  "flush_probe flag cmd k sb =
     (if probe k AND flag \<noteq> 0
      then let seg = (fst sb)\<lparr>seg_cmd := cmd\<rparr> in (seg, flush_put (mtu k) seg (snd sb))
      else sb)"

definition flush_cwnd :: "ikcpcb \<Rightarrow> u32" where
  "flush_cwnd k =
     (let w = imin (snd_wnd k) (rmt_wnd k)
      in if nocwnd k = 0 then imin (cwnd k) w else w)"

function flush_move :: "u32 \<Rightarrow> u32 \<Rightarrow> ikcpcb \<Rightarrow> ikcpcb" where
  "flush_move w wnd k =
     (if itimediff (snd_nxt k) (snd_una k + w) < 0 then
        case snd_queue k of
          [] \<Rightarrow> k
        | newseg # rest \<Rightarrow>
            flush_move w wnd
              (k\<lparr>snd_queue := rest,
                 snd_buf := snd_buf k @
                   [newseg\<lparr>seg_conv := conv k, seg_cmd := IKCP_CMD_PUSH, seg_wnd := wnd,
                           seg_ts := current k, seg_sn := snd_nxt k, seg_una := rcv_nxt k,
                           seg_resendts := current k, seg_rto := rx_rto k,
                           seg_fastack := 0, seg_xmit := 0\<rparr>],
                 nsnd_que := nsnd_que k - 1, nsnd_buf := nsnd_buf k + 1,
                 snd_nxt := snd_nxt k + 1\<rparr>)
      else k)"
  by pat_completeness auto
termination
  by (relation "measure (\<lambda>(w, wnd, k). length (snd_queue k))") auto

declare flush_move.simps [simp del]

text \<open>
  One turn of the transmission loop decides on a segment (\<open>flush_mark\<close>: whether it is sent, the
  segment, \<open>kcp->xmit\<close>, and whether \<open>change\<close> and \<open>lost\<close> are raised), and sends it
  (\<open>flush_segments\<close>). The locals of the loop are the counter \<open>change\<close> and the flag \<open>lost\<close>.
\<close>

definition flush_mark ::
  "u32 \<Rightarrow> u32 \<Rightarrow> ikcpcb \<Rightarrow> ikcpseg \<Rightarrow> bool \<times> ikcpseg \<times> u32 \<times> bool \<times> bool" where
  "flush_mark resent rtomin k segment =
     (if seg_xmit segment = 0 then
        (True,
         segment\<lparr>seg_xmit := seg_xmit segment + 1, seg_rto := rx_rto k,
                 seg_resendts := current k + rx_rto k + rtomin\<rparr>, xmit k, False, False)
      else if itimediff (current k) (seg_resendts segment) \<ge> 0 then
        let rto = (if nodelay k = 0 then seg_rto segment + rx_rto k
                   else seg_rto segment + word_of_int (sint (rx_rto k) sdiv 2))
        in (True,
            segment\<lparr>seg_xmit := seg_xmit segment + 1, seg_rto := rto,
                    seg_resendts := current k + rto\<rparr>, xmit k + 1, False, True)
      else if seg_fastack segment \<ge> resent \<and>
              (sint (seg_xmit segment) \<le> fastlimit k \<or> fastlimit k \<le> 0) then
        (True,
         segment\<lparr>seg_xmit := seg_xmit segment + 1, seg_fastack := 0,
                 seg_resendts := current k + seg_rto segment\<rparr>, xmit k, True, False)
      else (False, segment, xmit k, False, False))"

fun flush_segments ::
  "u32 \<Rightarrow> u32 \<Rightarrow> u32 \<Rightarrow> ikcpseg list \<Rightarrow> ikcpcb \<Rightarrow> outbuf \<Rightarrow> nat \<Rightarrow> bool \<Rightarrow>
   ikcpseg list \<times> ikcpcb \<times> outbuf \<times> nat \<times> bool" where
  "flush_segments resent rtomin wnd [] k b change lost = ([], k, b, change, lost)"
| "flush_segments resent rtomin wnd (segment # p) k b change lost =
     (let (needsend, segment, xm, ch, lo) = flush_mark resent rtomin k segment;
          k = k\<lparr>xmit := xm\<rparr>;
          change = (if ch then change + 1 else change);
          lost = (lost \<or> lo);
          (segment, k, b) =
            (if needsend then
               let segment = segment\<lparr>seg_ts := current k, seg_wnd := wnd, seg_una := rcv_nxt k\<rparr>;
                   need = sint (IKCP_OVERHEAD + seg_len segment);
                   b = flush_room (mtu k) need b;
                   b = (fst b @ ikcp_encode_seg segment, snd b);
                   b = (if seg_len segment > 0
                        then (fst b @ take (unat (seg_len segment)) (seg_data segment), snd b) else b);
                   k = (if seg_xmit segment \<ge> dead_link k then k\<lparr>state := -1\<rparr> else k)
               in (segment, k, b)
             else (segment, k, b));
          (p, k, b, change, lost) = flush_segments resent rtomin wnd p k b change lost
      in (segment # p, k, b, change, lost))"

definition congestion_change :: "u32 \<Rightarrow> ikcpcb \<Rightarrow> ikcpcb" where
  "congestion_change resent k =
     (let inflight = snd_nxt k - snd_una k;
          k = k\<lparr>ssthresh := inflight div 2\<rparr>;
          k = (if ssthresh k < IKCP_THRESH_MIN then k\<lparr>ssthresh := IKCP_THRESH_MIN\<rparr> else k);
          k = k\<lparr>cwnd := ssthresh k + resent\<rparr>
      in k\<lparr>incr := cwnd k * mss k\<rparr>)"

definition congestion_lost :: "u32 \<Rightarrow> ikcpcb \<Rightarrow> ikcpcb" where
  "congestion_lost w k =
     (let k = k\<lparr>ssthresh := w div 2\<rparr>;
          k = (if ssthresh k < IKCP_THRESH_MIN then k\<lparr>ssthresh := IKCP_THRESH_MIN\<rparr> else k)
      in k\<lparr>cwnd := 1, incr := mss k\<rparr>)"

definition flush_congestion :: "u32 \<Rightarrow> u32 \<Rightarrow> nat \<Rightarrow> bool \<Rightarrow> ikcpcb \<Rightarrow> ikcpcb" where
  "flush_congestion w resent change lost k =
     (let k = (if change \<noteq> 0 then congestion_change resent k else k);
          k = (if lost then congestion_lost w k else k)
      in if cwnd k < 1 then k\<lparr>cwnd := 1, incr := mss k\<rparr> else k)"

text \<open>
  The whole function: the new control block and the datagrams, in the order they are sent. Its
  first part writes what the receiver side owes the peer, its second part sends the data.
\<close>

definition flush_owed :: "ikcpcb \<Rightarrow> ikcpcb \<times> ikcpseg \<times> outbuf" where
  "flush_owed k =
     (let sb = flush_acks k [0..<nat (sint (ackcount k))] (flush_template k) ([], []);
          k = k\<lparr>ackcount := 0\<rparr>;
          k = flush_probe_timer k;
          sb = flush_probe IKCP_ASK_SEND IKCP_CMD_WASK k sb;
          sb = flush_probe IKCP_ASK_TELL IKCP_CMD_WINS k sb
      in (k\<lparr>probe := 0\<rparr>, sb))"

definition flush_send :: "u32 \<Rightarrow> u32 \<Rightarrow> ikcpcb \<Rightarrow> outbuf \<Rightarrow> ikcpcb \<times> u8 list list" where
  "flush_send w wnd k b =
     (let resent = (if fastresend k > 0 then word_of_int (fastresend k) else 0xffffffff);
          rtomin = (if nodelay k = 0 then signed_drop_bit 3 (rx_rto k) else 0);
          (buf, k, b, change, lost) = flush_segments resent rtomin wnd (snd_buf k) k b 0 False;
          k = k\<lparr>snd_buf := buf\<rparr>;
          out = (if length (fst b) > 0 then ikcp_output b else snd b)
      in (flush_congestion w resent change lost k, out))"

definition ikcp_flush :: "ikcpcb \<Rightarrow> ikcpcb \<times> u8 list list" where
  "ikcp_flush k =
     (if updated k = 0 then (k, [])
      else
        let (k, seg, b) = flush_owed k;
            w = flush_cwnd k;
            k = flush_move w (seg_wnd seg) k
        in flush_send w (seg_wnd seg) k b)"

section \<open>The move to \<open>snd_buf\<close>\<close>

text \<open>The loop in closed form: it moves as many segments as the window leaves room for.\<close>

definition stamp :: "ikcpcb \<Rightarrow> u32 \<Rightarrow> u32 \<Rightarrow> ikcpseg \<Rightarrow> ikcpseg" where
  "stamp k wnd sn s =
     s\<lparr>seg_conv := conv k, seg_cmd := IKCP_CMD_PUSH, seg_wnd := wnd, seg_ts := current k,
       seg_sn := sn, seg_una := rcv_nxt k, seg_resendts := current k,
       seg_rto := rx_rto k, seg_fastack := 0, seg_xmit := 0\<rparr>"

fun stamp_all :: "ikcpcb \<Rightarrow> u32 \<Rightarrow> u32 \<Rightarrow> ikcpseg list \<Rightarrow> ikcpseg list" where
  "stamp_all k wnd sn [] = []"
| "stamp_all k wnd sn (s # q) = stamp k wnd sn s # stamp_all k wnd (sn + 1) q"

definition move_out :: "nat \<Rightarrow> u32 \<Rightarrow> ikcpcb \<Rightarrow> ikcpcb" where
  "move_out n wnd k =
     k\<lparr>snd_queue := drop n (snd_queue k),
       snd_buf := snd_buf k @ stamp_all k wnd (snd_nxt k) (take n (snd_queue k)),
       nsnd_que := nsnd_que k - of_nat n, nsnd_buf := nsnd_buf k + of_nat n,
       snd_nxt := snd_nxt k + of_nat n\<rparr>"

lemma window_room:
  assumes "flight k < half32" and "unat w < half32"
  shows "itimediff (snd_nxt k) (snd_una k + w) < 0 \<longleftrightarrow> flight k < unat w"
  using itimediff_less_0_iff [of "snd_nxt k" "snd_una k" "snd_una k + w"] assms
  by (simp add: flight_def)

lemma move_out_0 [simp]: "move_out 0 wnd k = k"
  by (simp add: move_out_def)

lemma stamp_all_cong:
  assumes "conv k' = conv k" "current k' = current k" "rcv_nxt k' = rcv_nxt k" "rx_rto k' = rx_rto k"
  shows "stamp_all k' wnd sn q = stamp_all k wnd sn q"
  using assms by (induction q arbitrary: sn) (simp_all add: stamp_def)

lemma length_stamp_all [simp]: "length (stamp_all k wnd sn q) = length q"
  by (induction q arbitrary: sn) simp_all

definition move_one :: "ikcpseg \<Rightarrow> ikcpseg list \<Rightarrow> u32 \<Rightarrow> ikcpcb \<Rightarrow> ikcpcb" where
  "move_one s q wnd k =
     k\<lparr>snd_queue := q, snd_buf := snd_buf k @ [stamp k wnd (snd_nxt k) s],
       nsnd_que := nsnd_que k - 1, nsnd_buf := nsnd_buf k + 1, snd_nxt := snd_nxt k + 1\<rparr>"

lemma flight_move_one:
  assumes "flight k < half32"
  shows "flight (move_one s q wnd k) = Suc (flight k)"
proof -
  have "flight (move_one s q wnd k) = unat (snd_nxt k - snd_una k + 1)"
    by (simp add: flight_def move_one_def algebra_simps)
  also have "\<dots> = Suc (unat (snd_nxt k - snd_una k))"
    using assms unat_u32_Suc [of "snd_nxt k - snd_una k" 0 half32] by (simp add: flight_def)
  finally show ?thesis by (simp add: flight_def)
qed

lemma move_out_Suc:
  assumes "snd_queue k = s # q"
  shows "move_out n wnd (move_one s q wnd k) = move_out (Suc n) wnd k"
proof -
  have "stamp_all (move_one s q wnd k) wnd sn p = stamp_all k wnd sn p" for sn p
    by (rule stamp_all_cong) (simp_all add: move_one_def)
  with assms show ?thesis
    by (simp add: move_out_def) (simp add: move_one_def)
qed

lemma flush_move_step:
  assumes "snd_queue k = s # q" and "itimediff (snd_nxt k) (snd_una k + w) < 0"
  shows "flush_move w wnd k = flush_move w wnd (move_one s q wnd k)"
  using assms by (subst flush_move.simps) (simp add: move_one_def stamp_def)

lemma flush_move_eq:
  assumes "flight k < half32" and "unat w < half32"
  shows "flush_move w wnd k =
    move_out (min (length (snd_queue k)) (unat w - flight k)) wnd k"
  using assms
proof (induction "snd_queue k" arbitrary: k)
  case Nil
  then have q: "snd_queue k = []" by simp
  show ?case by (simp add: flush_move.simps [of w wnd k] q)
next
  case (Cons s q)
  then have q: "snd_queue k = s # q" by simp
  show ?case
  proof (cases "flight k < unat w")
    case False
    with Cons.prems show ?thesis
      by (simp add: flush_move.simps [of w wnd k] window_room)
  next
    case True
    let ?k = "move_one s q wnd k" and ?n = "min (length q) (unat w - Suc (flight k))"
    have fl: "flight ?k = Suc (flight k)"
      using Cons.prems(1) by (rule flight_move_one)
    have sq: "snd_queue ?k = q" by (simp add: move_one_def)
    have "flush_move w wnd k = flush_move w wnd ?k"
      using q True Cons.prems by (intro flush_move_step) (simp_all add: window_room)
    also have "\<dots> = move_out ?n wnd ?k"
      using Cons.hyps(1) [of ?k] fl sq True Cons.prems by simp
    also have "\<dots> = move_out (Suc ?n) wnd k"
      using q by (rule move_out_Suc)
    also have "Suc ?n = min (length (snd_queue k)) (unat w - flight k)"
      using True q by simp
    finally show ?thesis .
  qed
qed

lemma map_sn_stamp_all: "map seg_sn (stamp_all k wnd sn q) = map (\<lambda>i. sn + of_nat i) [0..<length q]"
proof (induction q arbitrary: sn)
  case Nil
  then show ?case by simp
next
  case (Cons s q)
  have "map (\<lambda>i. sn + of_nat i) [0..<length (s # q)] =
      sn # map (\<lambda>i. (sn + 1) + of_nat i) [0..<length q]"
    unfolding length_Cons upt_conv_Cons [OF zero_less_Suc] map_Suc_upt [symmetric]
    by (simp add: algebra_simps)
  with Cons show ?case by (simp add: stamp_def)
qed

lemma unat_u32_offset:
  fixes sn base :: u32
  assumes "unat (sn - base) + i < 4294967296"
  shows "unat (sn + of_nat i - base) = unat (sn - base) + i"
proof -
  have "sn + of_nat i - base = of_nat (unat (sn - base) + i)"
    by simp
  with assms show ?thesis
    by (simp only: unat_of_nat_u32)
qed

lemma window_sorted_upt:
  assumes "unat (sn - base) + n \<le> half32"
  shows "window_sorted base (unat (sn - base) + n) (map (\<lambda>i. sn + of_nat i) [0..<n])"
  unfolding window_sorted_def using assms
  by (auto simp: sorted_wrt_iff_nth_less unat_u32_offset)

lemma snd_inv_move_out [wf_intros]:
  assumes inv: "snd_inv k" and n: "n \<le> length (snd_queue k)" and room: "flight k + n < half32"
  shows "snd_inv (move_out n wnd k)" and "flight (move_out n wnd k) = flight k + n"
proof -
  let ?new = "stamp_all k wnd (snd_nxt k) (take n (snd_queue k))"
  have "snd_nxt k + of_nat n - snd_una k = of_nat n + (snd_nxt k - snd_una k)" by simp
  then show fl: "flight (move_out n wnd k) = flight k + n"
    using room unat_u32_offset [of "snd_nxt k" "snd_una k" n]
    by (simp add: flight_def [of "move_out n wnd k"] move_out_def) (simp add: flight_def)
  have sns: "map seg_sn ?new = map (\<lambda>i. snd_nxt k + of_nat i) [0..<n]"
    using n by (simp add: map_sn_stamp_all min_absorb2)
  have new: "window_sorted (snd_una k) (flight k + n) (map seg_sn ?new)"
    using room window_sorted_upt [of "snd_nxt k" "snd_una k" n] by (simp add: sns flight_def)
  have old: "window_sorted (snd_una k) (flight k) (map seg_sn (snd_buf k))"
    using inv unfolding snd_inv_def snd_order_def by blast
  have ge: "flight k \<le> unat (y - snd_una k)" if "y \<in> set (map seg_sn ?new)" for y
    using that room unat_u32_offset [of "snd_nxt k" "snd_una k"] unfolding sns flight_def by auto
  have "\<forall>v\<in>set (map seg_sn (snd_buf k)). \<forall>w\<in>set (map seg_sn ?new).
      unat (v - snd_una k) < unat (w - snd_una k)"
    using old ge unfolding window_sorted_def by (blast intro: less_le_trans)
  then have "window_sorted (snd_una k) (flight k + n) (map seg_sn (snd_buf k) @ map seg_sn ?new)"
    using new window_sorted_mono [OF old, of "flight k + n"] unfolding window_sorted_append
    by (intro conjI) simp_all
  moreover have "first_sn (move_out n wnd k) = snd_una k"
  proof (cases "snd_buf k")
    case Nil
    then have "snd_una k = snd_nxt k"
      using inv by (simp add: snd_inv_def first_sn_def)
    with Nil n sns show ?thesis
      by (cases n) (simp_all add: first_sn_def move_out_def upt_conv_Cons del: upt_Suc)
  next
    case (Cons s p)
    with inv show ?thesis by (simp add: snd_inv_def first_sn_def move_out_def)
  qed
  ultimately show "snd_inv (move_out n wnd k)"
    using inv n room fl
    by (simp add: snd_inv_def snd_order_def) (simp add: move_out_def min_absorb2 of_nat_diff)
qed

section \<open>Packing segments into datagrams\<close>

text \<open>
  Everything the function writes is a whole segment: make room for it, append it. So its
  output is a greedy packing of a list of segments into datagrams.
\<close>

definition flush_emit :: "u32 \<Rightarrow> u8 list \<Rightarrow> outbuf \<Rightarrow> outbuf" where
  "flush_emit mt c b = (let b = flush_room mt (int (length c)) b in (fst b @ c, snd b))"

definition pack :: "u32 \<Rightarrow> u8 list list \<Rightarrow> u8 list list" where
  "pack mt cs = ikcp_output (fold (flush_emit mt) cs ([], []))"

definition wire :: "ikcpseg \<Rightarrow> u8 list" where
  "wire s = ikcp_encode_seg s @ seg_data s"

lemma length_encode_seg [simp]: "length (ikcp_encode_seg s) = 24"
  by (simp add: ikcp_encode_seg_def)

lemma encode_seg_not_Nil [simp]: "ikcp_encode_seg s \<noteq> []"
  using length_encode_seg [of s] by force

lemma wire_not_Nil [simp]: "wire s \<noteq> []"
  by (simp add: wire_def)

lemma flush_put_eq: "flush_put mt seg b = flush_emit mt (ikcp_encode_seg seg) b"
  by (simp add: flush_put_def flush_emit_def)

text \<open>\<open>packed\<close>: the datagrams so far and the buffer are groups of whole chunks, each within \<open>m\<close>.\<close>

definition packed :: "int \<Rightarrow> u8 list list \<Rightarrow> outbuf \<Rightarrow> bool" where
  "packed m cs b \<longleftrightarrow>
     (\<exists>gs g. snd b = map concat gs \<and> fst b = concat g \<and> concat gs @ g = cs \<and>
       (\<forall>h\<in>set gs. h \<noteq> [] \<and> int (length (concat h)) \<le> m) \<and> int (length (concat g)) \<le> m)"

lemma packed_Nil: "0 \<le> m \<Longrightarrow> packed m [] ([], [])"
  unfolding packed_def by (intro exI [of _ "[]"]) simp

lemma packed_emit:
  assumes "packed (sint mt) cs b" and "int (length c) \<le> sint mt"
  shows "packed (sint mt) (cs @ [c]) (flush_emit mt c b)"
proof -
  obtain gs g where b: "snd b = map concat gs" "fst b = concat g" "concat gs @ g = cs"
    and gs: "\<forall>h\<in>set gs. h \<noteq> [] \<and> int (length (concat h)) \<le> sint mt"
    and g: "int (length (concat g)) \<le> sint mt"
    using assms(1) unfolding packed_def by blast
  show ?thesis
  proof (cases "int (length (fst b)) + int (length c) > sint mt")
    case False
    with b gs show ?thesis
      unfolding packed_def flush_emit_def flush_room_def
      by (intro exI [of _ gs] exI [of _ "g @ [c]"]) auto
  next
    case full: True
    show ?thesis
    proof (cases "concat g = []")
      case True
      with full assms(2) b show ?thesis by simp
    next
      case False
      then have "g \<noteq> []" by auto
      with False full b gs g assms(2) show ?thesis
        unfolding packed_def flush_emit_def flush_room_def ikcp_output_def
        by (intro exI [of _ "gs @ [g]"] exI [of _ "[c]"]) (auto simp: split_beta)
    qed
  qed
qed

lemma packed_fold:
  "packed (sint mt) cs b \<Longrightarrow> \<forall>c\<in>set ds. int (length c) \<le> sint mt \<Longrightarrow>
   packed (sint mt) (cs @ ds) (fold (flush_emit mt) ds b)"
proof (induction ds arbitrary: cs b)
  case Nil
  then show ?case by simp
next
  case (Cons d ds)
  from Cons.IH [OF packed_emit [OF Cons.prems(1), of d]] Cons.prems(2) show ?case by simp
qed

lemma pack_groups:
  assumes "\<forall>c\<in>set cs. c \<noteq> [] \<and> int (length c) \<le> sint mt" and "0 \<le> sint mt"
  shows "\<exists>gs. pack mt cs = map concat gs \<and> concat gs = cs \<and>
    (\<forall>g\<in>set gs. g \<noteq> [] \<and> int (length (concat g)) \<le> sint mt)"
proof -
  have "packed (sint mt) ([] @ cs) (fold (flush_emit mt) cs ([], []))"
    using assms by (intro packed_fold packed_Nil) auto
  then obtain gs g where b: "fold (flush_emit mt) cs ([], []) = (concat g, map concat gs)"
      "concat gs @ g = cs"
    and gs: "\<forall>h\<in>set gs. h \<noteq> [] \<and> int (length (concat h)) \<le> sint mt"
    and g: "int (length (concat g)) \<le> sint mt"
    unfolding packed_def by (auto simp: prod_eq_iff)
  show ?thesis
  proof (cases "g = []")
    case True
    with b gs show ?thesis
      by (intro exI [of _ gs]) (auto simp: pack_def ikcp_output_def)
  next
    case False
    have "set g \<subseteq> set cs" using b(2) by auto
    with False assms(1) have "concat g \<noteq> []"
      by (cases g) auto
    with False b gs g show ?thesis
      by (intro exI [of _ "gs @ [g]"]) (auto simp: pack_def ikcp_output_def)
  qed
qed

section \<open>What is transmitted\<close>

definition first_send :: "ikcpseg \<Rightarrow> bool" where
  "first_send s \<longleftrightarrow> seg_xmit s = 0"

definition timed_out :: "u32 \<Rightarrow> ikcpseg \<Rightarrow> bool" where
  "timed_out cur s \<longleftrightarrow> seg_xmit s \<noteq> 0 \<and> itimediff cur (seg_resendts s) \<ge> 0"

definition fast_resend :: "u32 \<Rightarrow> int \<Rightarrow> u32 \<Rightarrow> ikcpseg \<Rightarrow> bool" where
  "fast_resend resent limit cur s \<longleftrightarrow>
     seg_xmit s \<noteq> 0 \<and> itimediff cur (seg_resendts s) < 0 \<and> resent \<le> seg_fastack s \<and>
     (sint (seg_xmit s) \<le> limit \<or> limit \<le> 0)"

definition due :: "u32 \<Rightarrow> ikcpcb \<Rightarrow> ikcpseg \<Rightarrow> bool" where
  "due resent k s \<longleftrightarrow> first_send s \<or> timed_out (current k) s \<or>
     fast_resend resent (fastlimit k) (current k) s"

definition transmitted :: "u32 \<Rightarrow> u32 \<Rightarrow> u32 \<Rightarrow> ikcpcb \<Rightarrow> ikcpseg \<Rightarrow> ikcpseg" where
  "transmitted resent rtomin wnd k s =
     (let s' = fst (snd (flush_mark resent rtomin k s))
      in if due resent k s then s'\<lparr>seg_ts := current k, seg_wnd := wnd, seg_una := rcv_nxt k\<rparr>
         else s)"

lemma flush_mark_cases:
  "flush_mark resent rtomin k s =
     (due resent k s, fst (snd (flush_mark resent rtomin k s)),
      xmit k + (if timed_out (current k) s then 1 else 0),
      fast_resend resent (fastlimit k) (current k) s, timed_out (current k) s)"
  by (auto simp: flush_mark_def due_def first_send_def timed_out_def fast_resend_def Let_def)

lemma flush_mark_cong:
  assumes "current k' = current k" "rx_rto k' = rx_rto k" "nodelay k' = nodelay k"
    "fastlimit k' = fastlimit k"
  shows "fst (snd (flush_mark resent rtomin k' s)) = fst (snd (flush_mark resent rtomin k s))"
    and "due resent k' s = due resent k s"
  using assms by (auto simp: flush_mark_def due_def Let_def)

lemma transmitted_cong:
  assumes "current k' = current k" "rx_rto k' = rx_rto k" "nodelay k' = nodelay k"
    "fastlimit k' = fastlimit k" "rcv_nxt k' = rcv_nxt k"
  shows "transmitted resent rtomin wnd k' = transmitted resent rtomin wnd k"
  using assms flush_mark_cong [of k' k] by (intro ext) (simp add: transmitted_def)

lemma flush_mark_not_due: "\<not> due resent k s \<Longrightarrow> fst (snd (flush_mark resent rtomin k s)) = s"
  by (auto simp: flush_mark_def due_def first_send_def timed_out_def fast_resend_def Let_def)

text \<open>A transmission changes the bookkeeping of a segment, never its number, place or payload.\<close>

lemma flush_mark_frame:
  "\<exists>x r t f. fst (snd (flush_mark resent rtomin k s)) =
     s\<lparr>seg_xmit := x, seg_rto := r, seg_resendts := t, seg_fastack := f\<rparr>"
  by (cases s) (auto simp: flush_mark_def Let_def)

lemma transmitted_frame:
  "\<exists>x r t f a w u. transmitted resent rtomin wnd k s =
     s\<lparr>seg_xmit := x, seg_rto := r, seg_resendts := t, seg_fastack := f,
       seg_ts := a, seg_wnd := w, seg_una := u\<rparr>"
proof -
  obtain x r t f where "fst (snd (flush_mark resent rtomin k s)) =
      s\<lparr>seg_xmit := x, seg_rto := r, seg_resendts := t, seg_fastack := f\<rparr>"
    using flush_mark_frame by blast
  then show ?thesis
    by (cases s) (auto simp: transmitted_def Let_def)
qed

lemma transmitted_fields [simp]:
  "seg_sn (transmitted resent rtomin wnd k s) = seg_sn s"
  "seg_frg (transmitted resent rtomin wnd k s) = seg_frg s"
  "seg_cmd (transmitted resent rtomin wnd k s) = seg_cmd s"
  "seg_conv (transmitted resent rtomin wnd k s) = seg_conv s"
  "seg_len (transmitted resent rtomin wnd k s) = seg_len s"
  "seg_data (transmitted resent rtomin wnd k s) = seg_data s"
  using transmitted_frame [of resent rtomin wnd k s] by auto

text \<open>A segment that fits a datagram: its length is that of its payload, and the header fits too.\<close>

definition seg_fits :: "ikcpseg \<Rightarrow> bool" where
  "seg_fits s \<longleftrightarrow> seg_ok s \<and> unat (seg_len s) + 24 < half32"

lemma seg_fits_transmitted [simp]: "seg_fits (transmitted resent rtomin wnd k s) = seg_fits s"
  by (simp add: seg_fits_def seg_ok_def)

lemma emit_segment:
  assumes "seg_fits s"
  shows "(let b = flush_room mt (sint (IKCP_OVERHEAD + seg_len s)) b;
              b = (fst b @ ikcp_encode_seg s, snd b)
          in if seg_len s > 0 then (fst b @ take (unat (seg_len s)) (seg_data s), snd b) else b) =
    flush_emit mt (wire s) b"
proof -
  have "unat (24 + seg_len s) = 24 + unat (seg_len s)"
    using assms by (simp add: seg_fits_def unat_word_ariths)
  then have need: "sint (IKCP_OVERHEAD + seg_len s) = int (length (wire s))"
    using assms sint_u32_small [of "24 + seg_len s"]
    by (simp add: wire_def seg_fits_def seg_ok_def)
  show ?thesis
    unfolding need using assms
    by (auto simp: flush_emit_def Let_def wire_def seg_fits_def seg_ok_def word_gt_0)
qed

definition dead :: "u32 \<Rightarrow> ikcpseg \<Rightarrow> bool" where
  "dead limit s \<longleftrightarrow> limit \<le> seg_xmit s"

text \<open>One turn of the loop, and the loop in closed form.\<close>

definition after_mark :: "u32 \<Rightarrow> u32 \<Rightarrow> u32 \<Rightarrow> ikcpseg \<Rightarrow> ikcpcb \<Rightarrow> ikcpcb" where
  "after_mark resent rtomin wnd s k =
     k\<lparr>xmit := xmit k + (if timed_out (current k) s then 1 else 0),
       state := (if due resent k s \<and> dead (dead_link k) (transmitted resent rtomin wnd k s)
                 then -1 else state k)\<rparr>"

lemma flush_segments_step:
  assumes "seg_fits s"
  shows "flush_segments resent rtomin wnd (s # p) k b change lost =
    (case flush_segments resent rtomin wnd p (after_mark resent rtomin wnd s k)
        (if due resent k s then flush_emit (mtu k) (wire (transmitted resent rtomin wnd k s)) b
         else b)
        (change + (if fast_resend resent (fastlimit k) (current k) s then 1 else 0))
        (lost \<or> timed_out (current k) s) of
      (p, k', b, change, lost) \<Rightarrow> (transmitted resent rtomin wnd k s # p, k', b, change, lost))"
proof -
  let ?t = "transmitted resent rtomin wnd k s"
  obtain m where mark: "flush_mark resent rtomin k s = (due resent k s, m,
      xmit k + (if timed_out (current k) s then 1 else 0),
      fast_resend resent (fastlimit k) (current k) s, timed_out (current k) s)"
    and m: "fst (snd (flush_mark resent rtomin k s)) = m"
    using flush_mark_cases by blast
  show ?thesis
  proof (cases "due resent k s")
    case False
    then have "\<not> timed_out (current k) s" "\<not> fast_resend resent (fastlimit k) (current k) s"
      and "m = s" and "?t = s"
      using m by (auto simp: due_def transmitted_def flush_mark_not_due)
    with False show ?thesis
      by (simp add: mark after_mark_def)
  next
    case True
    have t: "m\<lparr>seg_ts := current k, seg_wnd := wnd, seg_una := rcv_nxt k\<rparr> = ?t"
      using True m by (simp add: transmitted_def)
    have x: "seg_xmit m = seg_xmit ?t" and l: "seg_len m = seg_len s" and d: "seg_data m = seg_data s"
      using transmitted_fields(5,6) [of resent rtomin wnd k s] unfolding t [symmetric] by simp_all
    have "seg_fits ?t" using assms by simp
    note emit = emit_segment [OF this, of "mtu k" b, simplified Let_def, simplified, symmetric]
    show ?thesis
      using True
      by (simp add: mark t x l d after_mark_def dead_def Let_def emit)
  qed
qed

definition transmissions :: "u32 \<Rightarrow> u32 \<Rightarrow> u32 \<Rightarrow> ikcpcb \<Rightarrow> ikcpseg list \<Rightarrow> ikcpseg list" where
  "transmissions resent rtomin wnd k p =
     map (transmitted resent rtomin wnd k) (filter (due resent k) p)"

definition after_marks :: "u32 \<Rightarrow> u32 \<Rightarrow> u32 \<Rightarrow> ikcpseg list \<Rightarrow> ikcpcb \<Rightarrow> ikcpcb" where
  "after_marks resent rtomin wnd p k =
     k\<lparr>xmit := xmit k + of_nat (length (filter (timed_out (current k)) p)),
       state := (if \<exists>s\<in>set (transmissions resent rtomin wnd k p). dead (dead_link k) s
                 then -1 else state k)\<rparr>"

lemma after_marks_Nil [simp]: "after_marks resent rtomin wnd [] k = k"
  by (simp add: after_marks_def transmissions_def)

lemma after_mark_cong:
  "transmitted resent rtomin wnd (after_mark resent rtomin wnd s k) = transmitted resent rtomin wnd k"
  "due resent (after_mark resent rtomin wnd s k) = due resent k"
  "transmissions resent rtomin wnd (after_mark resent rtomin wnd s k) = transmissions resent rtomin wnd k"
proof -
  let ?k = "after_mark resent rtomin wnd s k"
  show t: "transmitted resent rtomin wnd ?k = transmitted resent rtomin wnd k"
    by (rule transmitted_cong) (simp_all add: after_mark_def)
  show d: "due resent ?k = due resent k"
    by (rule ext, rule flush_mark_cong) (simp_all add: after_mark_def)
  show "transmissions resent rtomin wnd ?k = transmissions resent rtomin wnd k"
    by (rule ext) (simp add: transmissions_def t d)
qed

lemma after_mark_fields [simp]:
  "mtu (after_mark resent rtomin wnd s k) = mtu k"
  "current (after_mark resent rtomin wnd s k) = current k"
  "fastlimit (after_mark resent rtomin wnd s k) = fastlimit k"
  "dead_link (after_mark resent rtomin wnd s k) = dead_link k"
  by (simp_all add: after_mark_def)

lemma after_marks_Cons:
  "after_marks resent rtomin wnd p (after_mark resent rtomin wnd s k) =
   after_marks resent rtomin wnd (s # p) k"
  by (simp add: after_marks_def after_mark_cong)
    (auto simp: after_mark_def transmissions_def algebra_simps)

lemma flush_segments_eq:
  assumes "\<forall>s\<in>set p. seg_fits s"
  shows "flush_segments resent rtomin wnd p k b change lost =
    (map (transmitted resent rtomin wnd k) p, after_marks resent rtomin wnd p k,
     fold (flush_emit (mtu k)) (map wire (transmissions resent rtomin wnd k p)) b,
     change + length (filter (fast_resend resent (fastlimit k) (current k)) p),
     lost \<or> (\<exists>s\<in>set p. timed_out (current k) s))"
  using assms
proof (induction p arbitrary: k b change lost)
  case Nil
  then show ?case by (simp add: transmissions_def)
next
  case (Cons s p)
  then have s: "seg_fits s" and p: "\<forall>s\<in>set p. seg_fits s" by simp_all
  show ?case
    unfolding flush_segments_step [OF s] Cons.IH [OF p] prod.case after_mark_cong after_marks_Cons
      after_mark_fields
    by (simp add: transmissions_def)
qed

section \<open>The whole function\<close>

text \<open>The segments a flush writes, in order: acknowledgements, probes, data.\<close>

definition ack_segments :: "ikcpcb \<Rightarrow> ikcpseg list" where
  "ack_segments k =
     map (\<lambda>i. (flush_template k)\<lparr>seg_sn := fst (ikcp_ack_get k i), seg_ts := snd (ikcp_ack_get k i)\<rparr>)
       [0..<nat (sint (ackcount k))]"

lemma flush_acks_eq:
  "flush_acks k is seg b =
    (let segs = map (\<lambda>i. seg\<lparr>seg_sn := fst (ikcp_ack_get k i), seg_ts := snd (ikcp_ack_get k i)\<rparr>) is
     in (last (seg # segs), fold (flush_emit (mtu k)) (map ikcp_encode_seg segs) b))"
proof (induction "is" arbitrary: seg b)
  case Nil
  then show ?case by simp
next
  case (Cons i "is")
  then show ?case
    by (simp add: split_beta Let_def flush_emit_def)
qed

definition probe_segments :: "ikcpcb \<Rightarrow> ikcpseg \<Rightarrow> ikcpseg list" where
  "probe_segments k seg =
     (if probe k AND IKCP_ASK_SEND \<noteq> 0 then [seg\<lparr>seg_cmd := IKCP_CMD_WASK\<rparr>] else []) @
     (if probe k AND IKCP_ASK_TELL \<noteq> 0 then [seg\<lparr>seg_cmd := IKCP_CMD_WINS\<rparr>] else [])"

definition flush_control :: "ikcpcb \<Rightarrow> ikcpseg list" where
  "flush_control k =
     ack_segments k @
     probe_segments (flush_probe_timer (k\<lparr>ackcount := 0\<rparr>)) (last (flush_template k # ack_segments k))"

definition flush_wnd :: "ikcpcb \<Rightarrow> u32" where
  "flush_wnd k = word_of_int (ikcp_wnd_unused k)"

definition flush_moved :: "ikcpcb \<Rightarrow> nat" where
  "flush_moved k = min (length (snd_queue k)) (unat (flush_cwnd k) - flight k)"

definition flush_ready :: "ikcpcb \<Rightarrow> ikcpcb" where
  "flush_ready k =
     move_out (flush_moved k) (flush_wnd k) ((flush_probe_timer (k\<lparr>ackcount := 0\<rparr>))\<lparr>probe := 0\<rparr>)"

definition flush_resent :: "ikcpcb \<Rightarrow> u32" where
  "flush_resent k = (if fastresend k > 0 then word_of_int (fastresend k) else 0xffffffff)"

definition flush_rtomin :: "ikcpcb \<Rightarrow> u32" where
  "flush_rtomin k = (if nodelay k = 0 then signed_drop_bit 3 (rx_rto k) else 0)"

definition flush_data :: "ikcpcb \<Rightarrow> ikcpseg list" where
  "flush_data k =
     transmissions (flush_resent k) (flush_rtomin k) (flush_wnd k) (flush_ready k) (snd_buf (flush_ready k))"

definition flush_marked :: "ikcpcb \<Rightarrow> ikcpcb" where
  "flush_marked k =
     (let r = flush_ready k
      in (after_marks (flush_resent k) (flush_rtomin k) (flush_wnd k) (snd_buf r) r)
           \<lparr>snd_buf := map (transmitted (flush_resent k) (flush_rtomin k) (flush_wnd k) r) (snd_buf r)\<rparr>)"

definition flush_state :: "ikcpcb \<Rightarrow> ikcpcb" where
  "flush_state k =
     (let r = flush_ready k
      in flush_congestion (flush_cwnd k) (flush_resent k)
           (length (filter (fast_resend (flush_resent k) (fastlimit k) (current k)) (snd_buf r)))
           (\<exists>s\<in>set (snd_buf r). timed_out (current k) s) (flush_marked k))"

text \<open>The probe timer and the move touch few fields.\<close>

lemma flush_probe_timer_frame:
  "\<exists>p t w. flush_probe_timer k = k\<lparr>probe := p, ts_probe := t, probe_wait := w\<rparr>"
  by (cases k) (auto simp: flush_probe_timer_def Let_def)

lemma flush_ready_fields [simp]:
  "mtu (flush_ready k) = mtu k" "mss (flush_ready k) = mss k" "conv (flush_ready k) = conv k"
  "current (flush_ready k) = current k" "fastlimit (flush_ready k) = fastlimit k"
  "fastresend (flush_ready k) = fastresend k" "nodelay (flush_ready k) = nodelay k"
  "rx_rto (flush_ready k) = rx_rto k" "rcv_nxt (flush_ready k) = rcv_nxt k"
  "snd_una (flush_ready k) = snd_una k" "snd_wnd (flush_ready k) = snd_wnd k"
  "rcv_wnd (flush_ready k) = rcv_wnd k" "rcv_buf (flush_ready k) = rcv_buf k"
  "rcv_queue (flush_ready k) = rcv_queue k" "nrcv_buf (flush_ready k) = nrcv_buf k"
  "nrcv_que (flush_ready k) = nrcv_que k" "rx_minrto (flush_ready k) = rx_minrto k"
  "interval (flush_ready k) = interval k" "ackcount (flush_ready k) = 0"
  "probe (flush_ready k) = 0" "dead_link (flush_ready k) = dead_link k"
  "state (flush_ready k) = state k" "updated (flush_ready k) = updated k"
  "cwnd (flush_ready k) = cwnd k" "ssthresh (flush_ready k) = ssthresh k"
  "ts_flush (flush_ready k) = ts_flush k"
proof -
  obtain p t w where "flush_probe_timer (k\<lparr>ackcount := 0\<rparr>) =
      k\<lparr>ackcount := 0, probe := p, ts_probe := t, probe_wait := w\<rparr>"
    using flush_probe_timer_frame by blast
  then have eq: "flush_ready k = move_out (flush_moved k) (flush_wnd k)
      (k\<lparr>ackcount := 0, probe := p, ts_probe := t, probe_wait := w\<rparr>\<lparr>probe := 0\<rparr>)"
    unfolding flush_ready_def by simp
  show "mtu (flush_ready k) = mtu k" "mss (flush_ready k) = mss k" "conv (flush_ready k) = conv k"
    "current (flush_ready k) = current k" "fastlimit (flush_ready k) = fastlimit k"
    "fastresend (flush_ready k) = fastresend k" "nodelay (flush_ready k) = nodelay k"
    "rx_rto (flush_ready k) = rx_rto k" "rcv_nxt (flush_ready k) = rcv_nxt k"
    "snd_una (flush_ready k) = snd_una k" "snd_wnd (flush_ready k) = snd_wnd k"
    "rcv_wnd (flush_ready k) = rcv_wnd k" "rcv_buf (flush_ready k) = rcv_buf k"
    "rcv_queue (flush_ready k) = rcv_queue k" "nrcv_buf (flush_ready k) = nrcv_buf k"
    "nrcv_que (flush_ready k) = nrcv_que k" "rx_minrto (flush_ready k) = rx_minrto k"
    "interval (flush_ready k) = interval k" "ackcount (flush_ready k) = 0"
    "probe (flush_ready k) = 0" "dead_link (flush_ready k) = dead_link k"
    "state (flush_ready k) = state k" "updated (flush_ready k) = updated k"
    "cwnd (flush_ready k) = cwnd k" "ssthresh (flush_ready k) = ssthresh k"
    "ts_flush (flush_ready k) = ts_flush k"
    by (simp_all add: eq move_out_def)
qed

lemma flush_ready_queues:
  "snd_queue (flush_ready k) = drop (flush_moved k) (snd_queue k)"
  "snd_buf (flush_ready k) = snd_buf k @
     stamp_all k (flush_wnd k) (snd_nxt k) (take (flush_moved k) (snd_queue k))"
  "snd_nxt (flush_ready k) = snd_nxt k + of_nat (flush_moved k)"
proof -
  obtain p t w where "flush_probe_timer (k\<lparr>ackcount := 0\<rparr>) =
      k\<lparr>ackcount := 0, probe := p, ts_probe := t, probe_wait := w\<rparr>"
    using flush_probe_timer_frame by blast
  then have eq: "flush_ready k = move_out (flush_moved k) (flush_wnd k)
      (k\<lparr>ackcount := 0, probe := p, ts_probe := t, probe_wait := w\<rparr>\<lparr>probe := 0\<rparr>)"
    unfolding flush_ready_def by simp
  have "stamp_all (k\<lparr>ackcount := 0, probe := p, ts_probe := t, probe_wait := w\<rparr>\<lparr>probe := 0\<rparr>)
      wnd sn q = stamp_all k wnd sn q" for wnd sn q
    by (rule stamp_all_cong) simp_all
  then show "snd_queue (flush_ready k) = drop (flush_moved k) (snd_queue k)"
    "snd_buf (flush_ready k) = snd_buf k @
      stamp_all k (flush_wnd k) (snd_nxt k) (take (flush_moved k) (snd_queue k))"
    "snd_nxt (flush_ready k) = snd_nxt k + of_nat (flush_moved k)"
    unfolding eq by (simp_all add: move_out_def)
qed

lemma unat_flush_cwnd:
  "unat (flush_cwnd k) \<le> unat (snd_wnd k)"
  by (auto simp: flush_cwnd_def unat_imin Let_def)

lemma flush_probe_eq:
  "flush_probe IKCP_ASK_TELL IKCP_CMD_WINS k (flush_probe IKCP_ASK_SEND IKCP_CMD_WASK k (seg, b)) =
    (last (seg # probe_segments k seg),
     fold (flush_emit (mtu k)) (map ikcp_encode_seg (probe_segments k seg)) b)"
  by (auto simp: flush_probe_def probe_segments_def flush_put_eq Let_def)

lemma seg_wnd_probe_segments: "seg_wnd (last (seg # probe_segments k seg)) = seg_wnd seg"
  by (auto simp: probe_segments_def)

lemma seg_wnd_ack_segments: "seg_wnd (last (flush_template k # ack_segments k)) = flush_wnd k"
  by (auto simp: ack_segments_def last_map flush_template_def flush_wnd_def)

lemma control_no_data: "s \<in> set (flush_control k) \<Longrightarrow> seg_data s = [] \<and> seg_len s = 0"
  by (auto simp: flush_control_def ack_segments_def probe_segments_def flush_template_def
      ikcp_segment_zero_def last_map split: if_splits)

lemma wire_control: "map wire (flush_control k) = map ikcp_encode_seg (flush_control k)"
  by (intro map_cong refl) (simp add: wire_def control_no_data)

lemma stamp_all_fits: "\<forall>s\<in>set q. seg_fits s \<Longrightarrow> \<forall>s\<in>set (stamp_all k wnd sn q). seg_fits s"
proof (induction q arbitrary: sn)
  case Nil
  then show ?case by simp
next
  case (Cons s q)
  have "seg_fits (stamp k wnd sn s) = seg_fits s"
    by (simp add: stamp_def seg_fits_def seg_ok_def)
  with Cons.prems Cons.IH [of "sn + 1"] show ?case by simp
qed

lemma flush_ready_fits:
  assumes "\<forall>s\<in>set (snd_buf k) \<union> set (snd_queue k). seg_fits s"
  shows "\<forall>s\<in>set (snd_buf (flush_ready k)). seg_fits s"
proof
  fix s assume "s \<in> set (snd_buf (flush_ready k))"
  then consider "s \<in> set (snd_buf k)"
    | "s \<in> set (stamp_all k (flush_wnd k) (snd_nxt k) (take (flush_moved k) (snd_queue k)))"
    unfolding flush_ready_queues set_append by blast
  then show "seg_fits s"
  proof cases
    case 1
    with assms show ?thesis by blast
  next
    case 2
    have "\<forall>s\<in>set (take (flush_moved k) (snd_queue k)). seg_fits s"
      by (intro ballI bspec [OF assms] UnI2) (rule in_set_takeD)
    from bspec [OF stamp_all_fits [OF this] 2] show ?thesis .
  qed
qed

lemma flush_send_eq:
  assumes "\<forall>s\<in>set (snd_buf k) \<union> set (snd_queue k). seg_fits s"
  shows "flush_send (flush_cwnd k) (flush_wnd k) (flush_ready k)
      (fold (flush_emit (mtu k)) (map ikcp_encode_seg (flush_control k)) ([], [])) =
    (flush_state k, pack (mtu k) (map wire (flush_control k @ flush_data k)))"
proof -
  let ?b = "fold (flush_emit (mtu k)) (map ikcp_encode_seg (flush_control k)) ([], [])"
  have resent: "(if fastresend (flush_ready k) > 0 then word_of_int (fastresend (flush_ready k))
      else 0xffffffff) = flush_resent k"
    and rtomin: "(if nodelay (flush_ready k) = 0 then signed_drop_bit 3 (rx_rto (flush_ready k))
      else 0) = flush_rtomin k"
    by (simp_all add: flush_resent_def flush_rtomin_def)
  have out: "(if length (fst b) > 0 then ikcp_output b else snd b) = ikcp_output b" for b
    by (simp add: ikcp_output_def split_beta)
  have "fold (flush_emit (mtu k)) (map wire (flush_data k)) ?b =
      fold (flush_emit (mtu k)) (map wire (flush_control k @ flush_data k)) ([], [])"
    by (simp add: wire_control)
  then show ?thesis
    unfolding flush_send_def resent rtomin flush_segments_eq [OF flush_ready_fits [OF assms]]
      flush_data_def [symmetric]
    by (simp only: Let_def prod.case out flush_ready_fields pack_def)
      (simp add: flush_state_def flush_marked_def Let_def flush_data_def)
qed

lemma ikcp_flush_eq:
  assumes inv: "snd_inv k" and fits: "\<forall>s\<in>set (snd_buf k) \<union> set (snd_queue k). seg_fits s"
  shows "ikcp_flush k =
    (if updated k = 0 then (k, [])
     else (flush_state k, pack (mtu k) (map wire (flush_control k @ flush_data k))))"
proof (cases "updated k = 0")
  case True
  then show ?thesis by (simp add: ikcp_flush_def)
next
  case False
  let ?a = "k\<lparr>ackcount := 0\<rparr>" and ?t = "last (flush_template k # ack_segments k)"
  let ?p = "flush_probe_timer ?a"
  let ?b = "fold (flush_emit (mtu k)) (map ikcp_encode_seg (flush_control k)) ([], [])"
  obtain p t w where pt: "?p = ?a\<lparr>probe := p, ts_probe := t, probe_wait := w\<rparr>"
    using flush_probe_timer_frame by blast
  have acks: "flush_acks k [0..<nat (sint (ackcount k))] (flush_template k) ([], []) =
      (?t, fold (flush_emit (mtu k)) (map ikcp_encode_seg (ack_segments k)) ([], []))"
    by (simp add: flush_acks_eq Let_def ack_segments_def)
  have mp: "mtu ?p = mtu k" by (simp add: pt)
  let ?k = "?p\<lparr>probe := 0\<rparr>" and ?seg = "last (?t # probe_segments ?p ?t)"
  have owed: "flush_owed k = (?k, ?seg, ?b)"
    unfolding flush_owed_def acks Let_def flush_probe_eq mp by (simp add: flush_control_def)
  have wnd: "seg_wnd ?seg = flush_wnd k"
    by (simp only: seg_wnd_probe_segments seg_wnd_ack_segments)
  have cw: "flush_cwnd ?k = flush_cwnd k"
    by (simp add: flush_cwnd_def pt Let_def)
  have "flight k < half32" "unat (flush_cwnd k) < half32"
    using inv unat_flush_cwnd [of k] unfolding snd_inv_def snd_order_def by linarith+
  moreover have "flight ?k = flight k" "snd_queue ?k = snd_queue k"
    by (simp_all add: flight_def pt)
  ultimately have move: "flush_move (flush_cwnd k) (flush_wnd k) ?k = flush_ready k"
    by (simp add: flush_move_eq flush_ready_def flush_moved_def)
  have "ikcp_flush k = flush_send (flush_cwnd k) (flush_wnd k) (flush_ready k) ?b"
    using False by (simp only: ikcp_flush_def owed wnd cw move Let_def prod.case if_False)
  also have "\<dots> = (flush_state k, pack (mtu k) (map wire (flush_control k @ flush_data k)))"
    using fits by (rule flush_send_eq)
  finally show ?thesis using False by simp
qed

section \<open>What a flush changes\<close>

lemma congestion_frame:
  "\<exists>a b c. congestion_change resent k = k\<lparr>ssthresh := a, cwnd := b, incr := c\<rparr>"
  "\<exists>a b c. congestion_lost w k = k\<lparr>ssthresh := a, cwnd := b, incr := c\<rparr>"
  by (auto simp: congestion_change_def congestion_lost_def Let_def)

definition recongested :: "ikcpcb \<Rightarrow> ikcpcb \<Rightarrow> bool" where
  "recongested k k' \<longleftrightarrow> (\<exists>a b c. k' = k\<lparr>ssthresh := a, cwnd := b, incr := c\<rparr>)"

lemma recongested_refl: "recongested k k"
  unfolding recongested_def by (intro exI [of _ "ssthresh k"] exI [of _ "cwnd k"] exI [of _ "incr k"]) simp

lemma recongested_trans: "recongested k k' \<Longrightarrow> recongested k' k'' \<Longrightarrow> recongested k k''"
  unfolding recongested_def by (elim exE) (simp, blast)

lemma recongested_cwnd: "recongested k (if P then k\<lparr>cwnd := b, incr := c\<rparr> else k)"
proof -
  have "k\<lparr>cwnd := b, incr := c\<rparr> = k\<lparr>ssthresh := ssthresh k, cwnd := b, incr := c\<rparr>"
    by simp
  then show ?thesis
    using recongested_refl unfolding recongested_def by (metis (full_types))
qed

lemma flush_congestion_frame:
  "\<exists>a b c. flush_congestion w resent change lost k = k\<lparr>ssthresh := a, cwnd := b, incr := c\<rparr>"
proof -
  let ?k1 = "if change \<noteq> 0 then congestion_change resent k else k"
  let ?k2 = "if lost then congestion_lost w ?k1 else ?k1"
  have "recongested k ?k1"
    using congestion_frame(1) recongested_refl by (simp add: recongested_def)
  moreover have "recongested ?k1 ?k2"
    using congestion_frame(2) recongested_refl by (simp add: recongested_def)
  moreover have "recongested ?k2 (if cwnd ?k2 < 1 then ?k2\<lparr>cwnd := 1, incr := mss ?k2\<rparr> else ?k2)"
    by (rule recongested_cwnd)
  ultimately show ?thesis
    unfolding flush_congestion_def Let_def recongested_def [symmetric]
    by (blast intro: recongested_trans)
qed

lemma flush_state_frame:
  "\<exists>a b c x d. flush_state k = (flush_ready k)
     \<lparr>ssthresh := a, cwnd := b, incr := c, xmit := x, state := d,
      snd_buf := map (transmitted (flush_resent k) (flush_rtomin k) (flush_wnd k) (flush_ready k))
        (snd_buf (flush_ready k))\<rparr>"
proof -
  obtain a b c where "flush_state k = (flush_marked k)\<lparr>ssthresh := a, cwnd := b, incr := c\<rparr>"
    using flush_congestion_frame unfolding flush_state_def Let_def by blast
  then show ?thesis
    by (cases "flush_ready k") (auto simp: flush_marked_def after_marks_def Let_def)
qed

lemma flush_state_fields [simp]:
  "mtu (flush_state k) = mtu k" "mss (flush_state k) = mss k" "conv (flush_state k) = conv k"
  "current (flush_state k) = current k" "rx_rto (flush_state k) = rx_rto k"
  "rcv_nxt (flush_state k) = rcv_nxt k" "snd_una (flush_state k) = snd_una k"
  "snd_wnd (flush_state k) = snd_wnd k" "rcv_wnd (flush_state k) = rcv_wnd k"
  "rcv_buf (flush_state k) = rcv_buf k" "rcv_queue (flush_state k) = rcv_queue k"
  "nrcv_buf (flush_state k) = nrcv_buf k" "nrcv_que (flush_state k) = nrcv_que k"
  "rx_minrto (flush_state k) = rx_minrto k" "interval (flush_state k) = interval k"
  "ackcount (flush_state k) = 0" "probe (flush_state k) = 0" "updated (flush_state k) = updated k"
  "ts_flush (flush_state k) = ts_flush k"
  "snd_nxt (flush_state k) = snd_nxt (flush_ready k)"
  "snd_queue (flush_state k) = snd_queue (flush_ready k)"
  "nsnd_que (flush_state k) = nsnd_que (flush_ready k)"
  "nsnd_buf (flush_state k) = nsnd_buf (flush_ready k)"
  "snd_buf (flush_state k) =
     map (transmitted (flush_resent k) (flush_rtomin k) (flush_wnd k) (flush_ready k))
       (snd_buf (flush_ready k))"
proof -
  obtain a b c x d where eq: "flush_state k = (flush_ready k)
     \<lparr>ssthresh := a, cwnd := b, incr := c, xmit := x, state := d,
      snd_buf := map (transmitted (flush_resent k) (flush_rtomin k) (flush_wnd k) (flush_ready k))
        (snd_buf (flush_ready k))\<rparr>"
    using flush_state_frame by blast
  show "mtu (flush_state k) = mtu k" "mss (flush_state k) = mss k" "conv (flush_state k) = conv k"
    "current (flush_state k) = current k" "rx_rto (flush_state k) = rx_rto k"
    "rcv_nxt (flush_state k) = rcv_nxt k" "snd_una (flush_state k) = snd_una k"
    "snd_wnd (flush_state k) = snd_wnd k" "rcv_wnd (flush_state k) = rcv_wnd k"
    "rcv_buf (flush_state k) = rcv_buf k" "rcv_queue (flush_state k) = rcv_queue k"
    "nrcv_buf (flush_state k) = nrcv_buf k" "nrcv_que (flush_state k) = nrcv_que k"
    "rx_minrto (flush_state k) = rx_minrto k" "interval (flush_state k) = interval k"
    "ackcount (flush_state k) = 0" "probe (flush_state k) = 0" "updated (flush_state k) = updated k"
    "ts_flush (flush_state k) = ts_flush k"
    "snd_nxt (flush_state k) = snd_nxt (flush_ready k)"
    "snd_queue (flush_state k) = snd_queue (flush_ready k)"
    "nsnd_que (flush_state k) = nsnd_que (flush_ready k)"
    "nsnd_buf (flush_state k) = nsnd_buf (flush_ready k)"
    "snd_buf (flush_state k) =
       map (transmitted (flush_resent k) (flush_rtomin k) (flush_wnd k) (flush_ready k))
         (snd_buf (flush_ready k))"
    unfolding eq by simp_all
qed

lemma flush_room_left:
  assumes "snd_inv k"
  shows "flight k + flush_moved k \<le> max (flight k) (unat (flush_cwnd k))"
    and "flight k + flush_moved k < half32"
proof -
  show le: "flight k + flush_moved k \<le> max (flight k) (unat (flush_cwnd k))"
    by (simp add: flush_moved_def)
  then show "flight k + flush_moved k < half32"
    using assms unat_flush_cwnd [of k] unfolding snd_inv_def snd_order_def by linarith
qed

lemma snd_inv_flush_ready:
  assumes "snd_inv k"
  shows "snd_inv (flush_ready k)" and "flight (flush_ready k) = flight k + flush_moved k"
proof -
  obtain p t w where "flush_probe_timer (k\<lparr>ackcount := 0\<rparr>) =
      k\<lparr>ackcount := 0, probe := p, ts_probe := t, probe_wait := w\<rparr>"
    using flush_probe_timer_frame by blast
  moreover define k0 where "k0 = k\<lparr>ackcount := 0, probe := p, ts_probe := t, probe_wait := w\<rparr>\<lparr>probe := 0\<rparr>"
  ultimately have eq: "flush_ready k = move_out (flush_moved k) (flush_wnd k) k0"
    unfolding flush_ready_def by simp
  have "snd_inv k0 = snd_inv k"
    by (rule snd_inv_cong) (simp_all add: k0_def)
  moreover have f: "flight k0 = flight k" and q: "snd_queue k0 = snd_queue k"
    by (simp_all add: k0_def flight_def)
  moreover have "flush_moved k \<le> length (snd_queue k)" by (simp add: flush_moved_def)
  ultimately have "snd_inv (move_out (flush_moved k) (flush_wnd k) k0) \<and>
      flight (move_out (flush_moved k) (flush_wnd k) k0) = flight k0 + flush_moved k"
    using assms flush_room_left(2) [OF assms] by (intro conjI snd_inv_move_out) simp_all
  then show "snd_inv (flush_ready k)" and "flight (flush_ready k) = flight k + flush_moved k"
    unfolding eq f by simp_all
qed

lemma kcp_inv_flush_state:
  assumes "kcp_inv k"
  shows "kcp_inv (flush_state k)"
proof -
  have "rcv_inv (flush_state k) = rcv_inv k"
    by (rule rcv_inv_cong) simp_all
  moreover have "cfg_inv (flush_state k) = cfg_inv k"
    by (rule cfg_inv_cong) simp_all
  moreover have "snd_inv (flush_state k) = snd_inv (flush_ready k)"
    by (rule snd_inv_cong) (simp_all add: o_def)
  ultimately show ?thesis
    using assms snd_inv_flush_ready by (simp add: kcp_inv_def)
qed

text \<open>
  Segments that fit the mtu: the invariant of the send side that \<open>ikcp_send\<close> establishes, as
  long as the mtu is not lowered below what is queued.
\<close>

definition seg_sized :: "u32 \<Rightarrow> ikcpseg \<Rightarrow> bool" where
  "seg_sized m s \<longleftrightarrow> seg_ok s \<and> seg_len s \<le> m \<and> unat (seg_frg s) < 256"

definition snd_sized :: "ikcpcb \<Rightarrow> bool" where
  "snd_sized k \<longleftrightarrow> (\<forall>s\<in>set (snd_buf k) \<union> set (snd_queue k). seg_sized (mss k) s)"

lemma unat_mss: "cfg_inv k \<Longrightarrow> unat (mss k) + 24 = unat (mtu k)"
  by (auto simp: cfg_inv_def unat_u32_diff)

lemma seg_sized_fits:
  assumes "cfg_inv k" and "seg_sized (mss k) s"
  shows "seg_fits s" and "int (length (wire s)) \<le> sint (mtu k)"
proof -
  have "unat (seg_len s) + 24 \<le> unat (mtu k)"
    using assms unat_mss [OF assms(1)] by (simp add: seg_sized_def word_le_nat_alt)
  moreover have "sint (mtu k) = int (unat (mtu k))" "unat (mtu k) < half32"
    using assms(1) sint_u32_small unfolding cfg_inv_def by blast+
  moreover have len: "length (wire s) = 24 + unat (seg_len s)" "seg_ok s"
    using assms(2) by (simp_all add: seg_sized_def wire_def seg_ok_def)
  ultimately show "seg_fits s" and "int (length (wire s)) \<le> sint (mtu k)"
    unfolding seg_fits_def by linarith+
qed

lemma snd_sized_fits:
  "cfg_inv k \<Longrightarrow> snd_sized k \<Longrightarrow> \<forall>s\<in>set (snd_buf k) \<union> set (snd_queue k). seg_fits s"
  using seg_sized_fits(1) unfolding snd_sized_def by blast

end
