(* ===== verification/Kcp_Clock.thy ===== *)
theory Kcp_Clock
  imports Kcp_Flush
begin

text \<open>
  The clock of the kcp engine: \<open>ikcp_update\<close>, which the application calls every 10 to 100
  milliseconds and which flushes when the flush time has come, and \<open>ikcp_check\<close>, which tells
  when the next call is due. Times are serial numbers modulo 2 to the power of 32.

  The lemmas show that the flush time stays at most one interval ahead of the clock, that a
  flush happens exactly when it is due, and that \<open>ikcp_check\<close> names a time that is not in the
  past, at most one interval ahead, before which nothing is due.
\<close>

section \<open>Operations\<close>

definition ikcp_update :: "u32 \<Rightarrow> ikcpcb \<Rightarrow> ikcpcb \<times> u8 list list" where
  "ikcp_update cur k =
     (let k = k\<lparr>current := cur\<rparr>;
          k = (if updated k = 0 then k\<lparr>updated := 1, ts_flush := current k\<rparr> else k);
          slap = itimediff (current k) (ts_flush k);
          (k, slap) = (if slap \<ge> 10000 \<or> slap < -10000
                       then (k\<lparr>ts_flush := current k\<rparr>, 0) else (k, slap))
      in if slap \<ge> 0 then
           let k = k\<lparr>ts_flush := ts_flush k + interval k\<rparr>;
               k = (if itimediff (current k) (ts_flush k) \<ge> 0
                    then k\<lparr>ts_flush := current k + interval k\<rparr> else k)
           in ikcp_flush k
         else (k, []))"

fun check_packets :: "u32 \<Rightarrow> ikcpseg list \<Rightarrow> int \<Rightarrow> int option" where
  "check_packets cur [] tm_packet = Some tm_packet"
| "check_packets cur (seg # p) tm_packet =
     (let diff = itimediff (seg_resendts seg) cur
      in if diff \<le> 0 then None
         else check_packets cur p (if diff < tm_packet then diff else tm_packet))"

definition ikcp_check :: "ikcpcb \<Rightarrow> u32 \<Rightarrow> u32" where
  "ikcp_check k cur =
     (if updated k = 0 then cur
      else
        let ts = ts_flush k;
            ts = (if itimediff cur ts \<ge> 10000 \<or> itimediff cur ts < -10000 then cur else ts)
        in if itimediff cur ts \<ge> 0 then cur
           else
             let tm_flush = itimediff ts cur
             in case check_packets cur (snd_buf k) 0x7fffffff of
                  None \<Rightarrow> cur
                | Some tm_packet \<Rightarrow>
                    let minimal = word_of_int (if tm_packet < tm_flush then tm_packet else tm_flush);
                        minimal = (if minimal \<ge> interval k then interval k else minimal)
                    in cur + minimal)"

section \<open>Time differences\<close>

lemma itimediff_bounds: "-2147483648 \<le> itimediff a b" "itimediff a b < 2147483648"
proof -
  show "-2147483648 \<le> itimediff a b" "itimediff a b < 2147483648"
    using sint_lt [of "a - b"] sint_ge [of "a - b"] by (simp_all add: itimediff_def)
qed

lemma sint_word_of_int_u32:
  "-2147483648 \<le> i \<Longrightarrow> i < 2147483648 \<Longrightarrow> sint (word_of_int i :: u32) = i"
  by (simp add: int_word_sint)

lemma itimediff_add: "unat d < half32 \<Longrightarrow> itimediff (a + d) a = int (unat d)"
  unfolding itimediff_def using sint_u32_small [of d] by simp

text \<open>Moving the clock by \<open>d\<close> moves a difference by \<open>d\<close>, as long as it does not overflow.\<close>

lemma itimediff_shift:
  assumes "-2147483648 \<le> itimediff a b - int d" and "itimediff a b - int d < 2147483648"
  shows "itimediff a (b + of_nat d) = itimediff a b - int d"
proof -
  have "a - (b + of_nat d) = word_of_int (sint (a - b) - int d)"
    by simp
  with assms show ?thesis
    unfolding itimediff_def by (metis sint_word_of_int_u32)
qed

lemma itimediff_neg:
  assumes "- 2147483648 < itimediff a b"
  shows "itimediff b a = - itimediff a b"
proof -
  have "b - a = word_of_int (- sint (a - b))"
    by simp
  moreover have "- 2147483648 \<le> - sint (a - b)" "- sint (a - b) < 2147483648"
    using assms itimediff_bounds(2) [of a b] unfolding itimediff_def by linarith+
  ultimately show ?thesis
    unfolding itimediff_def by (metis sint_word_of_int_u32)
qed

section \<open>The flush clock\<close>

definition flush_due :: "u32 \<Rightarrow> ikcpcb \<Rightarrow> bool" where
  "flush_due cur k \<longleftrightarrow> updated k = 0 \<or>
     itimediff cur (ts_flush k) \<ge> 0 \<or> itimediff cur (ts_flush k) < -10000"

definition next_flush :: "u32 \<Rightarrow> ikcpcb \<Rightarrow> u32" where
  "next_flush cur k =
     (let slap = itimediff cur (ts_flush k);
          ts = (if updated k = 0 \<or> slap \<ge> 10000 \<or> slap < -10000 then cur else ts_flush k) + interval k
      in if itimediff cur ts \<ge> 0 then cur + interval k else ts)"

lemma ikcp_update_eq:
  "ikcp_update cur k =
    (if flush_due cur k
     then ikcp_flush (k\<lparr>current := cur, updated := (if updated k = 0 then 1 else updated k),
            ts_flush := next_flush cur k\<rparr>)
     else (k\<lparr>current := cur\<rparr>, []))"
proof (cases "updated k = 0")
  case True
  then show ?thesis
    by (simp add: ikcp_update_def flush_due_def next_flush_def Let_def)
next
  case False
  show ?thesis
  proof (cases "itimediff cur (ts_flush k) \<ge> 10000 \<or> itimediff cur (ts_flush k) < -10000")
    case True
    with False show ?thesis
      by (auto simp: ikcp_update_def flush_due_def next_flush_def Let_def)
  next
    case inside: False
    with False show ?thesis
      by (auto simp: ikcp_update_def flush_due_def next_flush_def Let_def)
  qed
qed

text \<open>After an update that flushes, the next flush is at most one interval ahead.\<close>

lemma next_flush_ahead:
  assumes "cfg_inv k" and "flush_due cur k"
  shows "0 < itimediff (next_flush cur k) cur"
    and "itimediff (next_flush cur k) cur \<le> int (unat (interval k))"
proof -
  have iv: "10 \<le> unat (interval k)" "unat (interval k) \<le> 5000"
    using assms(1) by (simp_all add: cfg_inv_def)
  have plain: "itimediff (cur + interval k) cur = int (unat (interval k))"
    using iv by (intro itimediff_add) linarith
  have ahead: "0 < itimediff (next_flush cur k) cur \<and>
      itimediff (next_flush cur k) cur \<le> int (unat (interval k))"
  proof (cases "updated k = 0 \<or> itimediff cur (ts_flush k) \<ge> 10000 \<or> itimediff cur (ts_flush k) < -10000")
    case True
    then have nf: "next_flush cur k = cur + interval k"
      by (simp add: next_flush_def Let_def)
    show ?thesis
      unfolding nf plain using iv by linarith
  next
    case False
    let ?ts = "ts_flush k + of_nat (unat (interval k))"
    have slap: "0 \<le> itimediff cur (ts_flush k)" "itimediff cur (ts_flush k) < 10000"
      using False assms(2) by (auto simp: flush_due_def)
    have nf: "next_flush cur k = (if itimediff cur ?ts \<ge> 0 then cur + interval k else ?ts)"
      using False by (simp add: next_flush_def Let_def)
    have d: "itimediff cur ?ts = itimediff cur (ts_flush k) - int (unat (interval k))"
      using slap iv by (intro itimediff_shift) linarith+
    then have ahead: "itimediff ?ts cur = int (unat (interval k)) - itimediff cur (ts_flush k)"
      using itimediff_neg [of cur ?ts] slap iv by linarith
    show ?thesis
    proof (cases "itimediff cur ?ts \<ge> 0")
      case True
      then have eq: "next_flush cur k = cur + interval k" using nf by simp
      show ?thesis unfolding eq plain using iv by linarith
    next
      case False
      then have eq: "next_flush cur k = ?ts" using nf by simp
      show ?thesis
        unfolding eq using False d ahead slap by linarith
    qed
  qed
  then show "0 < itimediff (next_flush cur k) cur"
    and "itimediff (next_flush cur k) cur \<le> int (unat (interval k))" by simp_all
qed

section \<open>When the next call is due\<close>

lemma check_packets_None:
  "check_packets cur p t = None \<longleftrightarrow> (\<exists>s\<in>set p. itimediff (seg_resendts s) cur \<le> 0)"
  by (induction cur p t rule: check_packets.induct) (auto simp: Let_def)

lemma check_packets_Some:
  assumes "check_packets cur p t = Some m"
  shows "m \<le> t \<and> (\<forall>s\<in>set p. m \<le> itimediff (seg_resendts s) cur) \<and> (0 < t \<longrightarrow> 0 < m)"
  using assms
proof (induction p arbitrary: t)
  case Nil
  then show ?case by simp
next
  case (Cons s p)
  let ?d = "itimediff (seg_resendts s) cur"
  from Cons.prems have "0 < ?d" and "check_packets cur p (if ?d < t then ?d else t) = Some m"
    by (simp_all add: Let_def split: if_splits)
  with Cons.IH [OF this(2)] show ?case by (auto split: if_splits)
qed

definition due_now :: "u32 \<Rightarrow> ikcpcb \<Rightarrow> bool" where
  "due_now cur k \<longleftrightarrow> updated k = 0 \<or>
     itimediff cur (ts_flush k) \<ge> 0 \<or> itimediff cur (ts_flush k) < -10000 \<or>
     (\<exists>s\<in>set (snd_buf k). itimediff (seg_resendts s) cur \<le> 0)"

lemma not_due_now:
  assumes "\<not> due_now cur k"
  shows "updated k \<noteq> 0" "itimediff cur (ts_flush k) < 0" "-10000 \<le> itimediff cur (ts_flush k)"
  using assms by (simp_all add: due_now_def)

lemma ikcp_check_due:
  assumes "due_now cur k"
  shows "ikcp_check k cur = cur"
proof -
  consider "updated k = 0" | "itimediff cur (ts_flush k) \<ge> 0 \<or> itimediff cur (ts_flush k) < -10000"
    | "check_packets cur (snd_buf k) 0x7fffffff = None"
    using assms unfolding due_now_def check_packets_None by blast
  then show ?thesis
    by cases (auto simp: ikcp_check_def Let_def)
qed

text \<open>
  Otherwise the answer is the nearest of the flush time, the first retransmission time and
  one interval from now.
\<close>

lemma ikcp_check_wait:
  assumes "cfg_inv k" and "\<not> due_now cur k"
  shows "\<exists>d. ikcp_check k cur = cur + of_nat d \<and> 0 < d \<and> d \<le> unat (interval k) \<and>
    int d \<le> itimediff (ts_flush k) cur \<and>
    (\<forall>s\<in>set (snd_buf k). int d \<le> itimediff (seg_resendts s) cur)"
proof -
  have upd: "updated k \<noteq> 0" and slap: "itimediff cur (ts_flush k) < 0" "-10000 \<le> itimediff cur (ts_flush k)"
    using not_due_now [OF assms(2)] by simp_all
  let ?tm = "itimediff (ts_flush k) cur"
  have tm: "?tm = - itimediff cur (ts_flush k)"
    using slap by (intro itimediff_neg) linarith
  obtain m where m: "check_packets cur (snd_buf k) 0x7fffffff = Some m"
    using assms(2) check_packets_None [of cur "snd_buf k" "0x7fffffff"]
    by (auto simp: due_now_def)
  note ms = check_packets_Some [OF m]
  define n where "n = (if m < ?tm then m else ?tm)"
  have n: "0 < n" "n \<le> m" "n \<le> ?tm" "n \<le> 10000"
    using ms slap tm by (auto simp: n_def)
  have un: "unat (word_of_int n :: u32) = nat n"
    using n by (simp add: unat_eq_nat_uint uint_word_of_int)
  define w where "w = (if word_of_int n \<ge> interval k then interval k else word_of_int n)"
  have chk: "ikcp_check k cur = cur + w"
    using upd slap m unfolding ikcp_check_def w_def n_def by (simp add: Let_def)
  have iv: "10 \<le> unat (interval k)" using assms(1) by (simp add: cfg_inv_def)
  have w: "unat w \<le> unat (interval k)" "unat w \<le> nat n" "0 < unat w"
    using un n(1) iv by (auto simp: w_def word_le_nat_alt)
  have "int (unat w) \<le> n" using w(2) n(1) by linarith
  then have "int (unat w) \<le> ?tm" "\<forall>s\<in>set (snd_buf k). int (unat w) \<le> itimediff (seg_resendts s) cur"
    using n ms by force+
  moreover have "ikcp_check k cur = cur + of_nat (unat w)"
    using chk by simp
  ultimately show ?thesis
    using w by blast
qed

text \<open>Before the time \<open>ikcp_check\<close> names, an update only sets the clock: nothing is missed by waiting.\<close>

lemma ikcp_check_no_flush_before:
  assumes "cfg_inv k" and "\<not> due_now cur k"
    and "ikcp_check k cur = cur + of_nat d" and "d \<le> unat (interval k)" and "t < d"
  shows "ikcp_update (cur + of_nat t) k = (k\<lparr>current := cur + of_nat t\<rparr>, [])"
proof -
  obtain e where e: "ikcp_check k cur = cur + of_nat e" "e \<le> unat (interval k)"
      "int e \<le> itimediff (ts_flush k) cur"
    using ikcp_check_wait [OF assms(1,2)] by blast
  have iv: "unat (interval k) \<le> 5000" using assms(1) by (simp add: cfg_inv_def)
  have "(of_nat d :: u32) = of_nat e"
    using e(1) assms(3) by simp
  moreover have "unat (of_nat d :: u32) = d" "unat (of_nat e :: u32) = e"
    using e(2) assms(4) iv by (intro unat_of_nat_u32; linarith)+
  ultimately have "d = e" by metis
  then have te: "int t < itimediff (ts_flush k) cur" "t \<le> 5000"
    using e assms(4,5) iv by linarith+
  note upd = not_due_now(1) [OF assms(2)] and slap = not_due_now(2,3) [OF assms(2)]
  have tm: "itimediff (ts_flush k) cur = - itimediff cur (ts_flush k)"
    using slap by (intro itimediff_neg) linarith
  have "itimediff (ts_flush k) (cur + of_nat t) = itimediff (ts_flush k) cur - int t"
    using te slap tm by (intro itimediff_shift) linarith+
  then have "itimediff (cur + of_nat t) (ts_flush k) = int t - itimediff (ts_flush k) cur"
    using itimediff_neg [of "ts_flush k" "cur + of_nat t"] te slap tm by linarith
  then have "\<not> flush_due (cur + of_nat t) k"
    using te slap tm upd unfolding flush_due_def by linarith
  then show ?thesis
    by (simp add: ikcp_update_eq)
qed

section \<open>Properties\<close>

text \<open>
  C25 (the flush clock). When \<open>ikcp_update\<close> flushes, the next flush time it sets is after the clock
  and at most one interval ahead of it; when nothing is due it only sets the clock.
\<close>

theorem update_schedules_next_flush:
  assumes "cfg_inv k"
  shows "(flush_due cur k \<longrightarrow>
      0 < itimediff (next_flush cur k) cur \<and>
      itimediff (next_flush cur k) cur \<le> int (unat (interval k)) \<and>
      ikcp_update cur k = ikcp_flush (k\<lparr>current := cur,
        updated := (if updated k = 0 then 1 else updated k), ts_flush := next_flush cur k\<rparr>)) \<and>
    (\<not> flush_due cur k \<longrightarrow> ikcp_update cur k = (k\<lparr>current := cur\<rparr>, []))"
  using next_flush_ahead [OF assms] by (simp add: ikcp_update_eq)

theorem update_schedules_next_flush_witness:
  "0 < itimediff (next_flush 500 (kcp_fresh 9)) 500"
  using update_schedules_next_flush [OF cfg_inv_fresh, of 500 9]
  by (simp add: flush_due_def kcp_fresh_def ikcp_create_def)

text \<open>
  It answers with the present exactly when something is due, and
  otherwise with a time in the future, at most one interval ahead, before which no update flushes
  and no segment is to be retransmitted.
\<close>

theorem check_names_next_event:
  assumes "cfg_inv k"
  shows "(due_now cur k \<longrightarrow> ikcp_check k cur = cur) \<and>
    (\<not> due_now cur k \<longrightarrow>
      (\<exists>d. ikcp_check k cur = cur + of_nat d \<and> 0 < d \<and> d \<le> unat (interval k) \<and>
        (\<forall>s\<in>set (snd_buf k). int d \<le> itimediff (seg_resendts s) cur) \<and>
        (\<forall>t<d. ikcp_update (cur + of_nat t) k = (k\<lparr>current := cur + of_nat t\<rparr>, []))))"
proof (cases "due_now cur k")
  case True
  then show ?thesis by (simp add: ikcp_check_due)
next
  case False
  from ikcp_check_wait [OF assms False] obtain d where d: "ikcp_check k cur = cur + of_nat d" "0 < d"
    "d \<le> unat (interval k)" "\<forall>s\<in>set (snd_buf k). int d \<le> itimediff (seg_resendts s) cur" by blast
  with ikcp_check_no_flush_before [OF assms False d(1,3)] False show ?thesis by blast
qed

definition waiting_block :: ikcpcb where
  "waiting_block = kcp_fresh 9\<lparr>updated := 1, ts_flush := 60\<rparr>"

theorem check_names_next_event_witness:
  "\<exists>d. ikcp_check waiting_block 50 = 50 + of_nat d \<and> 0 < d \<and> d \<le> 100"
proof -
  have "cfg_inv waiting_block" "\<not> due_now 50 waiting_block" "unat (interval waiting_block) = 100"
    by (simp_all add: waiting_block_def cfg_inv_def due_now_def kcp_fresh_def ikcp_create_def
        itimediff_def)
  then show ?thesis
    using check_names_next_event [of waiting_block 50] by force
qed

end
