(* ===== verification/Kcp_Wire.thy ===== *)
theory Kcp_Wire
  imports Kcp_Flush
begin

text \<open>
  What goes over the wire: the datagrams that \<open>ikcp_flush\<close> hands to the output callback, and how
  the \<open>ikcp_input\<close> of a peer reads them.

  \<^item> Every datagram is non-empty and within the mtu, and is a sequence of whole segments
    (\<open>ikcp_flush_datagrams\<close>).
  \<^item> Flushing neither loses, reorders nor alters what the application queued
    (\<open>ikcp_flush_payload\<close>).
  \<^item> A peer with the same conversation id parses such a datagram segment by segment
    (\<open>ikcp_input_wire\<close>) and accepts it (\<open>ikcp_input_flushed\<close>).
\<close>

section \<open>Datagrams\<close>

lemma stamp_all_sized:
  "\<forall>t\<in>set q. seg_sized m t \<Longrightarrow> \<forall>t\<in>set (stamp_all k wnd sn q). seg_sized m t"
proof (induction q arbitrary: sn)
  case Nil
  then show ?case by simp
next
  case (Cons t q)
  have "seg_sized m (stamp k wnd sn t) = seg_sized m t"
    by (simp add: stamp_def seg_sized_def seg_ok_def)
  with Cons.prems Cons.IH [of "sn + 1"] show ?case by simp
qed

lemma snd_sized_ready:
  assumes "snd_sized k"
  shows "snd_sized (flush_ready k)"
proof -
  have "\<forall>t\<in>set (take n (snd_queue k)). seg_sized (mss k) t" for n
    using assms unfolding snd_sized_def by (meson UnI2 in_set_takeD)
  from stamp_all_sized [OF this]
  have "\<forall>t\<in>set (stamp_all k (flush_wnd k) (snd_nxt k) (take (flush_moved k) (snd_queue k))).
      seg_sized (mss k) t" .
  moreover have "\<forall>t\<in>set (drop (flush_moved k) (snd_queue k)). seg_sized (mss k) t"
    using assms unfolding snd_sized_def by (meson UnI2 in_set_dropD)
  ultimately show ?thesis
    using assms unfolding snd_sized_def flush_ready_queues set_append flush_ready_fields by blast
qed

lemma seg_sized_transmitted [simp]: "seg_sized m (transmitted resent rtomin wnd k s) = seg_sized m s"
  by (simp add: seg_sized_def seg_ok_def)

lemma snd_sized_flush_state:
  assumes "snd_sized k"
  shows "snd_sized (flush_state k)"
  using snd_sized_ready [OF assms] by (auto simp: snd_sized_def)

lemma flush_data_sized:
  assumes "snd_sized k" and "s \<in> set (flush_data k)"
  shows "seg_sized (mss k) s"
  using snd_sized_ready [OF assms(1)] assms(2)
  by (auto simp: flush_data_def transmissions_def snd_sized_def)

lemma flush_control_sized:
  assumes "s \<in> set (flush_control k)"
  shows "seg_sized (mss k) s"
proof -
  have "seg_frg s = 0"
    using assms by (auto simp: flush_control_def ack_segments_def probe_segments_def
        flush_template_def last_map split: if_splits)
  with control_no_data [OF assms] show ?thesis
    by (simp add: seg_sized_def seg_ok_def)
qed

lemma ikcp_flush_sized:
  assumes "kcp_inv k" and "snd_sized k"
  shows "kcp_inv (fst (ikcp_flush k))" and "snd_sized (fst (ikcp_flush k))"
proof -
  have "snd_inv k" "\<forall>s\<in>set (snd_buf k) \<union> set (snd_queue k). seg_fits s"
    using assms snd_sized_fits by (auto simp: kcp_inv_def)
  from ikcp_flush_eq [OF this] assms
  show "kcp_inv (fst (ikcp_flush k))" and "snd_sized (fst (ikcp_flush k))"
    by (simp_all add: kcp_inv_flush_state snd_sized_flush_state)
qed

lemma ikcp_flush_sent:
  assumes "kcp_inv k" and "snd_sized k" and "updated k \<noteq> 0"
  shows "ikcp_flush k = (flush_state k, pack (mtu k) (map wire (flush_control k @ flush_data k)))"
proof -
  have "snd_inv k" "\<forall>s\<in>set (snd_buf k) \<union> set (snd_queue k). seg_fits s"
    using assms snd_sized_fits by (auto simp: kcp_inv_def)
  from ikcp_flush_eq [OF this] assms(3) show ?thesis by simp
qed

lemma map_eq_groups:
  "map f xs = concat gs \<Longrightarrow> \<exists>hs. gs = map (map f) hs \<and> concat hs = xs"
proof (induction gs arbitrary: xs)
  case Nil
  then show ?case by (intro exI [of _ "[]"]) simp
next
  case (Cons g gs)
  let ?n = "length g"
  have "map f (take ?n xs) = g" and "map f (drop ?n xs) = concat gs"
    using Cons.prems by (simp_all flip: take_map drop_map)
  moreover from Cons.IH [OF this(2)] obtain hs where "gs = map (map f) hs" "concat hs = drop ?n xs"
    by blast
  ultimately show ?case
    by (intro exI [of _ "take ?n xs # hs"]) simp
qed

text \<open>The datagrams of a flush, as groups of the segments it writes.\<close>

lemma ikcp_flush_groups:
  assumes inv: "kcp_inv k" and sized: "snd_sized k" and upd: "updated k \<noteq> 0"
  shows "\<exists>gs. snd (ikcp_flush k) = map (\<lambda>g. concat (map wire g)) gs \<and>
    concat gs = flush_control k @ flush_data k \<and>
    (\<forall>g\<in>set gs. g \<noteq> [] \<and> length (concat (map wire g)) \<le> unat (mtu k))"
proof -
  let ?segs = "flush_control k @ flush_data k"
  have cfg: "cfg_inv k" using inv by (simp add: kcp_inv_def)
  then have mtu: "sint (mtu k) = int (unat (mtu k))"
    using sint_u32_small unfolding cfg_inv_def by blast
  have "seg_sized (mss k) s" if "s \<in> set ?segs" for s
    using that flush_control_sized flush_data_sized [OF sized] by auto
  then have "\<forall>c\<in>set (map wire ?segs). c \<noteq> [] \<and> int (length c) \<le> sint (mtu k)"
    using seg_sized_fits(2) [OF cfg] unfolding set_map by auto
  moreover have "0 \<le> sint (mtu k)" using mtu by simp
  ultimately obtain gs where gs: "pack (mtu k) (map wire ?segs) = map concat gs"
      "concat gs = map wire ?segs"
    and ok: "\<forall>g\<in>set gs. g \<noteq> [] \<and> int (length (concat g)) \<le> sint (mtu k)"
    using pack_groups by blast
  from map_eq_groups [OF gs(2) [symmetric]] obtain hs
    where hs: "gs = map (map wire) hs" "concat hs = ?segs" by blast
  have "snd (ikcp_flush k) = map concat gs"
    using ikcp_flush_sent [OF assms] gs(1) by simp
  then have "snd (ikcp_flush k) = map (\<lambda>g. concat (map wire g)) hs"
    unfolding hs(1) by (simp add: comp_def)
  moreover have "\<forall>g\<in>set hs. g \<noteq> [] \<and> length (concat (map wire g)) \<le> unat (mtu k)"
  proof
    fix h assume "h \<in> set hs"
    then have "h \<noteq> []" "int (length (concat (map wire h))) \<le> sint (mtu k)"
      using ok unfolding hs(1) by auto
    with mtu show "h \<noteq> [] \<and> length (concat (map wire h)) \<le> unat (mtu k)"
      by linarith
  qed
  ultimately show ?thesis
    using hs(2) by blast
qed

lemma ikcp_flush_datagrams:
  assumes "kcp_inv k" and "snd_sized k" and "d \<in> set (snd (ikcp_flush k))"
  shows "d \<noteq> [] \<and> length d \<le> unat (mtu k)"
proof (cases "updated k = 0")
  case True
  with assms(3) show ?thesis by (simp add: ikcp_flush_def)
next
  case False
  from ikcp_flush_groups [OF assms(1,2) this] obtain gs
    where "snd (ikcp_flush k) = map (\<lambda>g. concat (map wire g)) gs"
      and "\<forall>g\<in>set gs. g \<noteq> [] \<and> length (concat (map wire g)) \<le> unat (mtu k)" by blast
  moreover have "concat (map wire g) \<noteq> []" if "g \<noteq> []" for g
    using that by (cases g) auto
  ultimately show ?thesis using assms(3) by auto
qed

section \<open>Conservation\<close>

definition payload :: "ikcpseg \<Rightarrow> u32 \<times> u8 list" where
  "payload s = (seg_frg s, seg_data s)"

lemma payload_stamp_all [simp]: "map payload (stamp_all k wnd sn q) = map payload q"
  by (induction q arbitrary: sn) (simp_all add: stamp_def payload_def)

lemma payload_transmitted [simp]: "payload (transmitted resent rtomin wnd k s) = payload s"
  by (simp add: payload_def)

lemma flush_state_payload:
  "map payload (snd_buf (flush_state k)) = map payload (snd_buf k @ take (flush_moved k) (snd_queue k))"
  "snd_queue (flush_state k) = drop (flush_moved k) (snd_queue k)"
  by (simp_all add: flush_ready_queues comp_def)

lemma flush_state_sns:
  "map seg_sn (snd_buf (flush_state k)) =
     map seg_sn (snd_buf k) @ map (\<lambda>i. snd_nxt k + of_nat i) [0..<flush_moved k]"
  by (simp add: flush_ready_queues comp_def map_sn_stamp_all flush_moved_def)

lemma ikcp_flush_payload:
  assumes "kcp_inv k" and "snd_sized k"
  shows "map payload (snd_buf (fst (ikcp_flush k)) @ snd_queue (fst (ikcp_flush k))) =
    map payload (snd_buf k @ snd_queue k)"
proof (cases "updated k = 0")
  case True
  then show ?thesis by (simp add: ikcp_flush_def)
next
  case False
  have "map payload (snd_buf (flush_state k) @ snd_queue (flush_state k)) =
      map payload (snd_buf k) @ map payload (take (flush_moved k) (snd_queue k) @ drop (flush_moved k) (snd_queue k))"
    by (simp only: map_append flush_state_payload append_assoc)
  with ikcp_flush_sent [OF assms False] show ?thesis
    by simp
qed

section \<open>What a peer makes of a datagram\<close>

text \<open>
  A segment that can be sent: its header fields are in range. The window is not among them:
  the header carries its low 16 bits.
\<close>

definition wire_ok :: "u32 \<Rightarrow> ikcpseg \<Rightarrow> bool" where
  "wire_ok cv s \<longleftrightarrow>
     seg_conv s = cv \<and> seg_ok s \<and> unat (seg_len s) < half32 \<and>
     seg_cmd s \<in> {IKCP_CMD_PUSH, IKCP_CMD_ACK, IKCP_CMD_WASK, IKCP_CMD_WINS} \<and>
     unat (seg_frg s) < 256"

type_synonym input_locals = "bool \<times> u32 \<times> u32 \<times> ikcpcb"

definition receive :: "ikcpseg \<Rightarrow> input_locals \<Rightarrow> input_locals" where
  "receive s st =
     (case st of (flag, maxack, latest_ts, k) \<Rightarrow>
        input_segment (ucast (seg_cmd s)) (ucast (seg_frg s)) (ucast (seg_wnd s)) (seg_ts s)
          (seg_sn s) (seg_una s) (seg_len s) (seg_data s) flag maxack latest_ts k)"

lemma input_push_data:
  "seg_ok s \<Longrightarrow> input_push cmd frg wnd ts sn una (seg_len s) (seg_data s @ rest) k =
    input_push cmd frg wnd ts sn una (seg_len s) (seg_data s) k"
proof -
  assume "seg_ok s"
  then have "take (unat (seg_len s)) (seg_data s @ rest) = take (unat (seg_len s)) (seg_data s)"
    by (simp add: seg_ok_def)
  then show ?thesis
    by (simp only: input_push_def)
qed

lemma input_segment_data:
  "seg_ok s \<Longrightarrow>
   input_segment cmd frg wnd ts sn una (seg_len s) (seg_data s @ rest) flag maxack latest_ts k =
   input_segment cmd frg wnd ts sn una (seg_len s) (seg_data s) flag maxack latest_ts k"
  by (simp only: input_segment_def input_push_data Let_def)

lemma ucast_ucast_small: "unat (w :: u32) < 256 \<Longrightarrow> ucast (ucast w :: u8) = w"
  by (rule word_unat_eq_iff [THEN iffD2]) (simp add: unsigned_ucast_eq take_bit_eq_mod unat_mod_distrib)

lemma ikcp_input_loop_wire:
  assumes ok: "wire_ok (conv k) s"
  shows "ikcp_input_loop (wire s @ rest) flag maxack latest_ts k =
    (case receive s (flag, maxack, latest_ts, k) of
      (flag, maxack, latest_ts, k) \<Rightarrow> ikcp_input_loop rest flag maxack latest_ts k)"
proof -
  have len: "length (seg_data s) = unat (seg_len s)" "\<not> sint (seg_len s) < 0"
    using ok sint_u32_less_0 [of "seg_len s"] by (auto simp: wire_ok_def seg_ok_def)
  have cmd: "ucast (ucast (seg_cmd s) :: u8) = seg_cmd s"
    using ok by (intro ucast_ucast_small) (auto simp: wire_ok_def)
  have sok: "seg_ok s" and cv: "seg_conv s = conv k"
    and cmds: "seg_cmd s \<in> {IKCP_CMD_PUSH, IKCP_CMD_ACK, IKCP_CMD_WASK, IKCP_CMD_WINS}"
    using ok by (simp_all add: wire_ok_def)
  have h: "drop 24 (wire s @ rest) = seg_data s @ rest"
    "drop (unat (seg_len s)) (seg_data s @ rest) = rest"
    using len by (simp_all add: wire_def)
  let ?r = "input_segment (ucast (seg_cmd s)) (ucast (seg_frg s)) (ucast (seg_wnd s)) (seg_ts s)
      (seg_sn s) (seg_una s) (seg_len s) (seg_data s) flag maxack latest_ts k"
  have "ikcp_input_loop (wire s @ rest) flag maxack latest_ts k =
      (case ?r of (flag, maxack, latest_ts, k) \<Rightarrow>
        ikcp_input_loop (drop (unat (seg_len s)) (drop 24 (wire s @ rest))) flag maxack latest_ts k)"
    using len cmd cmds cv input_segment_data [OF sok]
    by (subst ikcp_input_loop.simps)
      (auto simp: unat_overhead wire_def ikcp_encode_seg_def Let_def simp del: IKCP_OVERHEAD_def unat_numeral)
  then show ?thesis
    unfolding h by (simp only: receive_def prod.case)
qed

lemma input_segment_conv:
  "input_segment cmd frg wnd ts sn una len data flag maxack latest_ts k = (f, m, l, k') \<Longrightarrow>
   conv k' = conv k"
proof -
  let ?k = "ikcp_shrink_buf (ikcp_parse_una una (k\<lparr>rmt_wnd := ucast wnd\<rparr>))"
  have shrink: "conv (ikcp_shrink_buf k) = conv k" for k
    by (simp add: ikcp_shrink_buf_eq)
  have una: "conv (ikcp_parse_una una k) = conv k" for una k
    by (simp add: ikcp_parse_una_def split_beta)
  have sel: "conv (ikcp_parse_ack sn k) = conv k" for sn k
    by (simp add: ikcp_parse_ack_def split_beta)
  have base: "conv ?k = conv k"
    by (simp add: shrink una)
  have upd: "conv (ikcp_update_ack rtt k) = conv k" for rtt k
    using ikcp_update_ack_frame [of rtt k] by auto
  have ack: "conv (snd (snd (snd (input_ack sn ts flag maxack latest_ts ?k)))) = conv k"
    by (simp add: input_ack_def Let_def shrink sel upd una)
  have push: "conv (input_push cmd frg wnd ts sn una len data ?k) = conv k"
    by (simp add: input_push_def Let_def frame_simps base)
  have probe: "conv (k\<lparr>probe := p\<rparr>) = conv k" for k p
    by simp
  assume "input_segment cmd frg wnd ts sn una len data flag maxack latest_ts k = (f, m, l, k')"
  then show "conv k' = conv k"
    using ack push base unfolding input_segment_def Let_def
    by (auto simp only: prod.inject snd_conv probe split: if_split_asm)
qed

lemma receive_conv:
  "conv (snd (snd (snd (receive s (flag, maxack, latest_ts, k))))) = conv k"
  by (cases "receive s (flag, maxack, latest_ts, k)" rule: prod_cases4)
    (simp add: receive_def input_segment_conv)

definition receive_all :: "ikcpseg list \<Rightarrow> input_locals \<Rightarrow> input_locals" where
  "receive_all segs st = fold receive segs st"

lemma ikcp_input_loop_wires:
  assumes "\<forall>s\<in>set segs. wire_ok (conv k) s"
  shows "ikcp_input_loop (concat (map wire segs)) flag maxack latest_ts k =
    Inr (receive_all segs (flag, maxack, latest_ts, k))"
  using assms
proof (induction segs arbitrary: flag maxack latest_ts k)
  case Nil
  then show ?case by (simp add: receive_all_def ikcp_input_loop.simps)
next
  case (Cons s segs)
  obtain f m l k' where r: "receive s (flag, maxack, latest_ts, k) = (f, m, l, k')"
    by (rule prod_cases4)
  then have "conv k' = conv k"
    using receive_conv [of s flag maxack latest_ts k] by simp
  with Cons.IH [of k' f m l] Cons.prems r show ?case
    by (simp add: ikcp_input_loop_wire receive_all_def)
qed

definition input_end :: "u32 \<Rightarrow> input_locals \<Rightarrow> ikcpcb" where
  "input_end prev_una st =
     (case st of (flag, maxack, latest_ts, k) \<Rightarrow>
        let k = (if flag then ikcp_parse_fastack maxack latest_ts k else k)
        in if itimediff (snd_una k) prev_una > 0 then input_cwnd k else k)"

lemma length_wires_ge: "segs \<noteq> [] \<Longrightarrow> 24 \<le> length (concat (map wire segs))"
  by (cases segs) (simp_all add: wire_def)

text \<open>A datagram of well-formed segments is accepted, and processed segment by segment.\<close>

lemma ikcp_input_wire:
  assumes "segs \<noteq> []" and "\<forall>s\<in>set segs. wire_ok (conv k) s"
  shows "ikcp_input (Some (concat (map wire segs))) k =
    (0, input_end (snd_una k) (receive_all segs (False, 0, 0, k)))"
  using length_wires_ge [OF assms(1)] ikcp_input_loop_wires [OF assms(2), of False 0 0]
  by (simp add: ikcp_input_def input_end_def Let_def split: prod.split)

section \<open>Everything a flush sends is accepted\<close>

text \<open>The data segments in \<open>snd_buf\<close> carry the conversation id and the push command.\<close>

definition snd_stamped :: "ikcpcb \<Rightarrow> bool" where
  "snd_stamped k \<longleftrightarrow> (\<forall>s\<in>set (snd_buf k). seg_conv s = conv k \<and> seg_cmd s = IKCP_CMD_PUSH)"

lemma stamp_all_stamped:
  "s \<in> set (stamp_all k wnd sn q) \<Longrightarrow> seg_conv s = conv k \<and> seg_cmd s = IKCP_CMD_PUSH"
  by (induction q arbitrary: sn) (auto simp: stamp_def)

lemma snd_stamped_ready:
  assumes "snd_stamped k"
  shows "snd_stamped (flush_ready k)"
  using assms stamp_all_stamped
  unfolding snd_stamped_def flush_ready_queues set_append flush_ready_fields by blast

lemma snd_stamped_flush_state:
  "snd_stamped k \<Longrightarrow> snd_stamped (flush_state k)"
  using snd_stamped_ready [of k] by (auto simp: snd_stamped_def)

lemma flush_written_ok:
  assumes "kcp_inv k" and "snd_sized k" and "snd_stamped k"
    and "s \<in> set (flush_control k @ flush_data k)"
  shows "wire_ok (conv k) s"
proof -
  have cfg: "cfg_inv k" using assms(1) by (simp add: kcp_inv_def)
  from assms(4) consider "s \<in> set (flush_control k)" | "s \<in> set (flush_data k)" by auto
  then show ?thesis
  proof cases
    case 1
    then have "seg_conv s = conv k"
      "seg_cmd s \<in> {IKCP_CMD_PUSH, IKCP_CMD_ACK, IKCP_CMD_WASK, IKCP_CMD_WINS}"
      by (auto simp: flush_control_def ack_segments_def probe_segments_def flush_template_def
          last_map split: if_splits)
    with flush_control_sized [OF 1] control_no_data [OF 1] show ?thesis
      by (simp add: wire_ok_def seg_sized_def)
  next
    case 2
    then have "seg_conv s = conv k" "seg_cmd s = IKCP_CMD_PUSH"
      using snd_stamped_ready [OF assms(3)]
      by (auto simp: flush_data_def transmissions_def snd_stamped_def)
    moreover have sized: "seg_sized (mss k) s"
      using assms(2) 2 by (rule flush_data_sized)
    moreover have "unat (seg_len s) < half32"
      using seg_sized_fits(1) [OF cfg sized] unfolding seg_fits_def by linarith
    ultimately show ?thesis
      by (simp add: wire_ok_def seg_sized_def)
  qed
qed

lemma ikcp_input_flushed:
  assumes "kcp_inv k" and "snd_sized k" and "snd_stamped k"
    and "d \<in> set (snd (ikcp_flush k))" and "conv peer = conv k"
  shows "fst (ikcp_input (Some d) peer) = 0"
proof -
  have "updated k \<noteq> 0"
    using assms(4) by (auto simp: ikcp_flush_def)
  from ikcp_flush_groups [OF assms(1,2) this] obtain gs
    where out: "snd (ikcp_flush k) = map (\<lambda>g. concat (map wire g)) gs"
      and all: "concat gs = flush_control k @ flush_data k"
      and ne: "\<forall>g\<in>set gs. g \<noteq> []" by blast
  then obtain g where d: "d = concat (map wire g)" and g: "g \<in> set gs"
    using assms(4) by auto
  have "set g \<subseteq> set (concat gs)" using g by auto
  then have "\<forall>s\<in>set g. wire_ok (conv peer) s"
    using flush_written_ok [OF assms(1-3)] assms(5) unfolding all by auto
  from ikcp_input_wire [OF _ this] ne g show ?thesis
    by (simp add: d)
qed

section \<open>Properties\<close>

lemma kcp_inv_flushed_window:
  assumes "kcp_inv k" and "snd_sized k"
  shows "flight (fst (ikcp_flush k)) \<le> max (flight k) (unat (imin (snd_wnd k) (rmt_wnd k)))"
proof (cases "updated k = 0")
  case True
  then show ?thesis by (simp add: ikcp_flush_def)
next
  case False
  have inv: "snd_inv k" using assms(1) by (simp add: kcp_inv_def)
  have "flight (flush_state k) = flight (flush_ready k)"
    by (simp add: flight_def)
  also have "\<dots> \<le> max (flight k) (unat (flush_cwnd k))"
    using snd_inv_flush_ready(2) [OF inv] flush_room_left(1) [OF inv] by simp
  also have "unat (flush_cwnd k) \<le> unat (imin (snd_wnd k) (rmt_wnd k))"
    by (auto simp: flush_cwnd_def unat_imin Let_def)
  then have "max (flight k) (unat (flush_cwnd k)) \<le> max (flight k) (unat (imin (snd_wnd k) (rmt_wnd k)))"
    by (rule max.mono [OF order_refl])
  finally show ?thesis
    using ikcp_flush_sent [OF assms False] by simp
qed

text \<open>
  C23 (datagrams fit the mtu). Every datagram \<open>ikcp_flush\<close> hands to the output callback is
  non-empty and at most \<open>mtu\<close> bytes, and the datagrams together are the acknowledgements, the
  window probes and the due data segments, each whole and in this order.
\<close>

theorem flush_datagrams_fit:
  assumes "kcp_inv k" and "snd_sized k" and "updated k \<noteq> 0"
  shows "(\<forall>d\<in>set (snd (ikcp_flush k)). d \<noteq> [] \<and> length d \<le> unat (mtu k)) \<and>
    (\<exists>gs. snd (ikcp_flush k) = map (\<lambda>g. concat (map wire g)) gs \<and>
      concat gs = flush_control k @ flush_data k)"
  using ikcp_flush_groups [OF assms] ikcp_flush_datagrams [OF assms(1,2)] by blast

definition ready_to_send :: ikcpcb where
  "ready_to_send = kcp_fresh 9
     \<lparr>updated := 1, cwnd := 4, snd_queue := [sample_seg 0 [7, 8]], nsnd_que := 1\<rparr>"

lemma ready_to_send_inv: "kcp_inv ready_to_send" "snd_sized ready_to_send" "snd_stamped ready_to_send"
  "updated ready_to_send \<noteq> 0"
  by (simp_all add: ready_to_send_def kcp_inv_def kcp_fresh_def ikcp_create_def rcv_inv_def snd_inv_def
      snd_order_def flight_def first_sn_def cfg_inv_def window_sorted_Nil snd_sized_def
      seg_sized_def seg_ok_def sample_seg_def ikcp_segment_zero_def snd_stamped_def)

lemma ready_to_send_flush: "length (snd (ikcp_flush ready_to_send)) = 1"
  by code_simp

theorem flush_datagrams_fit_witness:
  "\<exists>d. snd (ikcp_flush ready_to_send) = [d] \<and> d \<noteq> [] \<and> length d \<le> 1400"
proof -
  obtain d where d: "snd (ikcp_flush ready_to_send) = [d]"
    using ready_to_send_flush by (auto simp: length_Suc_conv)
  moreover have "unat (mtu ready_to_send) = 1400"
    by (simp add: ready_to_send_def kcp_fresh_def ikcp_create_def)
  ultimately show ?thesis
    using flush_datagrams_fit [OF ready_to_send_inv(1,2,4)] by simp
qed

text \<open>
  C20 (flushing conserves the data). Fragment numbers and bytes of the segments in flight and
  waiting are the same before and after, in the same order; the invariants are kept; and the
  number of segments in flight stays within the send window and the window of the peer, unless
  it was already beyond it.
\<close>

theorem flush_conserves_data:
  assumes "kcp_inv k" and "snd_sized k"
  shows "map payload (snd_buf (fst (ikcp_flush k)) @ snd_queue (fst (ikcp_flush k))) =
      map payload (snd_buf k @ snd_queue k) \<and>
    kcp_inv (fst (ikcp_flush k)) \<and> snd_sized (fst (ikcp_flush k)) \<and>
    flight (fst (ikcp_flush k)) \<le> max (flight k) (unat (imin (snd_wnd k) (rmt_wnd k)))"
  using assms ikcp_flush_payload ikcp_flush_sized kcp_inv_flushed_window by blast

theorem flush_conserves_data_witness:
  "map payload (snd_buf (fst (ikcp_flush ready_to_send)) @ snd_queue (fst (ikcp_flush ready_to_send))) =
   [(0, [7, 8])]"
  using flush_conserves_data [OF ready_to_send_inv(1,2)]
  by (simp add: ready_to_send_def kcp_fresh_def ikcp_create_def payload_def sample_seg_def
      ikcp_segment_zero_def)

text \<open>
  Every datagram of a flush is accepted by the \<open>ikcp_input\<close> of
  any control block with the same conversation id, in whatever state it is.
\<close>

theorem flushed_datagrams_accepted:
  assumes "kcp_inv k" and "snd_sized k" and "snd_stamped k"
    and "d \<in> set (snd (ikcp_flush k))" and "conv peer = conv k"
  shows "fst (ikcp_input (Some d) peer) = 0"
  using assms by (rule ikcp_input_flushed)

theorem flushed_datagrams_accepted_witness:
  "\<exists>d. snd (ikcp_flush ready_to_send) = [d] \<and> fst (ikcp_input (Some d) (kcp_fresh 9)) = 0"
proof -
  obtain d where d: "snd (ikcp_flush ready_to_send) = [d]"
    using ready_to_send_flush by (auto simp: length_Suc_conv)
  have "conv (kcp_fresh 9) = conv ready_to_send"
    by (simp add: ready_to_send_def)
  from flushed_datagrams_accepted [OF ready_to_send_inv(1-3) _ this] d show ?thesis by simp
qed

text \<open>
  C24 (a datagram is processed segment by segment). The bytes of a sequence of well-formed segments
  of the conversation are parsed back into these segments: \<open>ikcp_input\<close> processes each with the
  header fields and data it was built from, in order, and then does its work at the end.
\<close>

theorem input_parses_segments:
  assumes "segs \<noteq> []" and "\<forall>s\<in>set segs. wire_ok (conv k) s"
  shows "ikcp_input (Some (concat (map wire segs))) k =
    (0, input_end (snd_una k) (receive_all segs (False, 0, 0, k)))"
  using assms by (rule ikcp_input_wire)

theorem input_parses_segments_witness:
  "fst (ikcp_input (Some (wire ((sample_seg 0 [7])\<lparr>seg_conv := 9, seg_cmd := 81\<rparr>))) (kcp_fresh 9)) = 0"
  using input_parses_segments [of "[(sample_seg 0 [7])\<lparr>seg_conv := 9, seg_cmd := 81\<rparr>]" "kcp_fresh 9"]
  by (simp add: wire_ok_def seg_ok_def sample_seg_def ikcp_segment_zero_def kcp_fresh_def ikcp_create_def)

end
