(* ===== verification/Kcp_Endpoint.thy ===== *)
theory Kcp_Endpoint
  imports Kcp_Clock Kcp_Wire
begin

text \<open>
  An endpoint: a control block with the operations an application may call on it, in any order.

  \<open>endpoint_step\<close> is one call, with the datagrams it hands to the output callback;
  \<open>endpoint_run\<close> is any sequence of permitted calls on a block fresh from \<open>ikcp_create\<close>. The invariant
  \<open>endpoint_inv\<close> holds at the end of every run, whatever arrives from the network, and every
  datagram sent on the way is within the mtu.

  The permitted calls: \<open>ikcp_send\<close> and \<open>ikcp_recv\<close> get a buffer, \<open>ikcp_send\<close> with its length, less than 2 GB;
  windows and the mtu are less than \<open>2 ^ 31\<close>; the mtu is not lowered while segments wait to be sent or
  acknowledged. The last restriction is not one the code makes, and the invariant needs it:
  \<open>lowered_mtu_exceeded\<close> shows a datagram longer than the mtu, and than the output buffer, after a
  call that breaks it. A call that fails an assertion for want of memory is not a step; allocations of
  \<open>ikcp_input\<close> succeed (\<open>Kcp_Lifetime\<close> has the ones that fail).
\<close>

definition endpoint_inv :: "ikcpcb \<Rightarrow> bool" where
  "endpoint_inv k \<longleftrightarrow> kcp_inv k \<and> snd_sized k \<and> snd_stamped k"

section \<open>Creation\<close>

lemma endpoint_inv_create:
  assumes "ikcp_create mk mb cv = Some k"
  shows "endpoint_inv k"
  using assms
  by (auto simp: ikcp_create_def endpoint_inv_def kcp_inv_def rcv_inv_def snd_inv_def snd_order_def
      cfg_inv_def flight_def first_sn_def snd_sized_def snd_stamped_def window_sorted_Nil
      split: if_splits)

section \<open>Sending\<close>

text \<open>A call that returns had all its allocations succeed.\<close>

lemma send_fragments_mono:
  "send_fragments mem cnt n len buf k = Some k' \<Longrightarrow>
   send_fragments mem_ok cnt n len buf k = Some k'"
proof (induction n arbitrary: len buf k)
  case 0
  then show ?case by simp
next
  case (Suc n)
  show ?case
  proof (cases "mem (Suc (cnt - Suc n))")
    case True
    from Suc.prems show ?thesis
      by (simp only: send_fragments.simps Let_def True if_False not_True_eq_False) (rule Suc.IH)
  next
    case False
    with Suc.prems show ?thesis
      by (simp only: send_fragments.simps Let_def if_True not_False_eq_True option.distinct)
  qed
qed

lemma send_queue_mono:
  assumes "send_queue mem buf len k = Some r"
  shows "send_queue mem_ok buf len k = Some r"
proof -
  let ?c = "fragment_count len (mss k)"
  let ?n = "nat (if ?c = 0 then 1 else ?c)"
  show ?thesis
  proof (cases "?c \<ge> sint IKCP_WND_RCV")
    case True
    with assms show ?thesis by (simp only: send_queue_def Let_def if_True)
  next
    case False
    with assms obtain k' where "send_fragments mem ?n ?n len buf k = Some k'" and r: "r = (0, k')"
      unfolding send_queue_def Let_def if_not_P [OF False] map_option_eq_Some by blast
    from send_fragments_mono [OF this(1)] r show ?thesis
      unfolding send_queue_def Let_def if_not_P [OF False] map_option_eq_Some by blast
  qed
qed

lemma guard_mono:
  "(if a then x else if b then (if \<not> c then None else y) else z) = Some r \<Longrightarrow>
   (if a then x else if b then (if \<not> True then None else y) else z) = Some r"
  by (simp split: if_splits)

lemma send_extend_mono:
  "send_extend mem buf len k = Some r \<Longrightarrow> send_extend mem_ok buf len k = Some r"
  unfolding send_extend_def Let_def by (rule guard_mono)

lemma ikcp_send_mono:
  assumes "ikcp_send mem buf len k = Some r"
  shows "ikcp_send mem_ok buf len k = Some r"
proof (cases "mss k > 0 \<and> \<not> len < 0")
  case False
  with assms show ?thesis by (simp add: ikcp_send_def split: if_splits)
next
  case pos: True
  show ?thesis
  proof (cases "stream k \<noteq> 0")
    case False
    with assms pos send_queue_mono [of mem buf len k r] show ?thesis
      by (simp add: ikcp_send_def)
  next
    case True
    then obtain buf' len' k' where e: "send_extend mem buf len k = Some (buf', len', k')"
      using assms pos by (auto simp: ikcp_send_def split: option.splits)
    with send_extend_mono [OF e] assms pos True send_queue_mono [of mem buf' len' k' r] show ?thesis
      by (simp add: ikcp_send_def split: if_splits)
  qed
qed

lemma cfg_inv_mss:
  "cfg_inv k \<Longrightarrow> 0 < unat (mss k)" "cfg_inv k \<Longrightarrow> unat (mss k) < half32"
  using unat_mss [of k] by (auto simp: cfg_inv_def)

lemma fragment_segs_sized:
  assumes "0 < unat m" and "length (chunks (unat m) b) < 256" and "unat m < half32"
  shows "\<forall>s\<in>set (fragment_segs st (chunks (unat m) b)). seg_sized m s"
proof -
  have "seg_sized m s" if "s \<in> set (fragment_segs st cs)" "\<forall>c\<in>set cs. length c \<le> unat m"
    "length cs < 256" for s cs
    using that assms(3)
    by (induction cs)
      (auto simp: seg_sized_def seg_ok_def new_fragment_def ikcp_segment_zero_def
        unat_of_nat_u32 word_le_nat_alt)
  then show ?thesis
    using length_in_chunks [OF assms(1)] assms(2) by blast
qed

lemma endpoint_inv_enqueue:
  assumes "endpoint_inv k" and "\<forall>s\<in>set segs. seg_sized (mss k) s"
  shows "endpoint_inv (enqueue segs k)"
proof -
  have "rcv_inv (enqueue segs k) = rcv_inv k"
    by (rule rcv_inv_cong) (simp_all add: enqueue_def)
  moreover have "cfg_inv (enqueue segs k) = cfg_inv k"
    by (rule cfg_inv_cong) (simp_all add: enqueue_def)
  ultimately show ?thesis
    using assms
    by (auto simp: endpoint_inv_def kcp_inv_def)
      (auto simp: enqueue_def snd_inv_def snd_order_def flight_def first_sn_def snd_sized_def
        snd_stamped_def)
qed

lemma endpoint_inv_send_queue:
  assumes inv: "endpoint_inv k" and "length b < half32"
    and "send_queue mem_ok (Some b) (int (length b)) k = Some (ret, k')"
  shows "endpoint_inv k'"
proof -
  have m: "0 < unat (mss k)" "unat (mss k) < half32"
    using inv cfg_inv_mss by (auto simp: endpoint_inv_def kcp_inv_def)
  show ?thesis
  proof (cases "128 \<le> length (chunks (unat (mss k)) b)")
    case True
    with assms send_queue_eq [OF m assms(2)] show ?thesis by simp
  next
    case False
    with assms send_queue_eq [OF m assms(2)]
    have "k' = enqueue (fragment_segs (stream k) (chunks (unat (mss k)) b)) k" by simp
    moreover have "\<forall>s\<in>set (fragment_segs (stream k) (chunks (unat (mss k)) b)). seg_sized (mss k) s"
      using m False by (intro fragment_segs_sized) auto
    ultimately show ?thesis
      using inv endpoint_inv_enqueue by simp
  qed
qed

lemma endpoint_inv_replace_last:
  assumes "endpoint_inv k" and "snd_queue k = q @ [old]" and "seg_sized (mss k) s"
  shows "endpoint_inv (k\<lparr>snd_queue := q @ [s]\<rparr>)"
proof -
  let ?k = "k\<lparr>snd_queue := q @ [s]\<rparr>"
  have "rcv_inv ?k = rcv_inv k" by (rule rcv_inv_cong) simp_all
  moreover have "cfg_inv ?k = cfg_inv k" by (rule cfg_inv_cong) simp_all
  moreover have "snd_inv ?k = snd_inv k" by (rule snd_inv_cong) (simp_all add: assms(2))
  ultimately show ?thesis
    using assms by (auto simp: endpoint_inv_def kcp_inv_def snd_sized_def snd_stamped_def)
qed

lemma endpoint_inv_send_extend:
  assumes inv: "endpoint_inv k" and "length b < half32"
    and ext: "send_extend mem_ok (Some b) (int (length b)) k = Some (buf, len, k')"
  shows "endpoint_inv k'"
proof (cases "snd_queue k \<noteq> [] \<and> seg_len (last (snd_queue k)) < mss k")
  case False
  with ext have "k' = k"
    by (auto simp: send_extend_def Let_def split: if_splits)
  with inv show ?thesis by simp
next
  case True
  then obtain q old where q: "snd_queue k = q @ [old]" and old: "seg_len old < mss k"
    by (metis append_butlast_last_id)
  define cap where "cap = unat (mss k) - unat (seg_len old)"
  define n where "n = min (length b) cap"
  have mss: "unat (mss k) < half32"
    using inv cfg_inv_mss by (auto simp: endpoint_inv_def kcp_inv_def)
  have lt: "unat (seg_len old) < unat (mss k)" using old by (simp add: word_less_nat_alt)
  have "unat (mss k - seg_len old) = cap"
    using old by (simp add: cap_def unat_sub less_imp_le)
  then have c: "sint (mss k - seg_len old) = int cap"
    using mss by (subst sint_u32_small) (auto simp: cap_def)
  let ?s = "ikcp_segment_zero\<lparr>seg_data := seg_data old @ take n b,
    seg_len := seg_len old + word_of_int (int n), seg_frg := 0\<rparr>"
  have "k' = k\<lparr>snd_queue := q @ [?s]\<rparr>"
    using ext q old c
    by (auto simp: send_extend_def Let_def n_def min_def split: if_splits)
  moreover have "seg_sized (mss k) ?s"
  proof -
    have "seg_ok old" using inv q by (simp add: endpoint_inv_def snd_sized_def seg_sized_def)
    moreover have "unat (seg_len old + of_nat n) = unat (seg_len old) + n"
      using unat_u32_offset [of "seg_len old" 0 n] mss lt by (simp add: n_def cap_def)
    moreover have "n \<le> length b" "unat (seg_len old) + n \<le> unat (mss k)"
      using lt by (simp_all add: n_def cap_def)
    ultimately show ?thesis
      by (simp add: seg_sized_def seg_ok_def word_le_nat_alt min_absorb2)
  qed
  ultimately show ?thesis
    using endpoint_inv_replace_last [OF inv q] by simp
qed

lemma endpoint_inv_send [wf_intros]:
  assumes inv: "endpoint_inv k" and len: "length b < half32"
    and send: "ikcp_send mem (Some b) (int (length b)) k = Some (ret, k')"
  shows "endpoint_inv k'"
proof -
  have mss: "0 < mss k" "unat (mss k) < half32"
    using inv cfg_inv_mss by (auto simp: endpoint_inv_def kcp_inv_def word_less_nat_alt)
  note ok = ikcp_send_mono [OF send]
  show ?thesis
  proof (cases "stream k = 0")
    case True
    with ok mss have "send_queue mem_ok (Some b) (int (length b)) k = Some (ret, k')"
      by (simp add: ikcp_send_def)
    with inv len show ?thesis by (rule endpoint_inv_send_queue)
  next
    case False
    with ok mss obtain buf len' k1
      where e: "send_extend mem_ok (Some b) (int (length b)) k = Some (buf, len', k1)"
        and r: "(if len' \<le> 0 then Some (0, k1) else send_queue mem_ok buf len' k1) = Some (ret, k')"
      by (auto simp: ikcp_send_def split: option.splits)
    from send_extend_bytes [OF e mss(2) len] obtain n
      where n: "buf = Some (drop n b)" "len' = int (length (drop n b))" by blast
    have inv1: "endpoint_inv k1"
      using inv len e by (rule endpoint_inv_send_extend)
    show ?thesis
    proof (cases "len' \<le> 0")
      case True
      with r inv1 show ?thesis by simp
    next
      case False
      then have "send_queue mem_ok (Some (drop n b)) (int (length (drop n b))) k1 = Some (ret, k')"
        using r n by simp
      moreover have "length (drop n b) < half32" using len by simp
      ultimately show ?thesis
        using endpoint_inv_send_queue [OF inv1] by blast
    qed
  qed
qed

section \<open>The other calls\<close>

lemma seg_sized_unmarked: "seg_sized m (unmarked s) = seg_sized m s"
  by (simp add: seg_sized_def seg_ok_def unmarked_def)

lemma subseq_set: "subseq xs ys \<Longrightarrow> set xs \<subseteq> set ys"
  by (induction rule: list_emb.induct) auto

lemma endpoint_inv_input [wf_intros]:
  assumes inv: "endpoint_inv k"
  shows "endpoint_inv (snd (ikcp_input data k))"
proof -
  let ?k = "snd (ikcp_input data k)"
  have kcp: "kcp_inv k" using inv by (simp add: endpoint_inv_def)
  from ikcp_input_effect [OF kcp, of data]
  have sub: "set (map unmarked (snd_buf ?k)) \<subseteq> set (map unmarked (snd_buf k))"
    and q: "snd_queue ?k = snd_queue k" and m: "mss ?k = mss k" and cv: "conv ?k = conv k"
    unfolding input_effect_def by (blast dest: subseq_set)+
  have old: "\<exists>t\<in>set (snd_buf k). unmarked s = unmarked t" if "s \<in> set (snd_buf ?k)" for s
    using sub that by auto
  have "seg_sized (mss k) s" if "s \<in> set (snd_buf ?k)" for s
    using old [OF that] inv unfolding endpoint_inv_def snd_sized_def
    by (metis UnI1 seg_sized_unmarked)
  moreover have "seg_conv s = conv k \<and> seg_cmd s = IKCP_CMD_PUSH" if in_buf: "s \<in> set (snd_buf ?k)" for s
  proof -
    obtain t where "t \<in> set (snd_buf k)" "unmarked s = unmarked t"
      using old [OF in_buf] by blast
    moreover from this(2) have "seg_conv s = seg_conv t" "seg_cmd s = seg_cmd t"
      unfolding unmarked_def by (metis ikcpseg.ext_inject ikcpseg.surjective ikcpseg.update_convs(11))+
    ultimately show ?thesis
      using inv by (simp add: endpoint_inv_def snd_stamped_def)
  qed
  ultimately show ?thesis
    using inv ikcp_input_inv [OF kcp, of data] q m cv
    by (auto simp: endpoint_inv_def snd_sized_def snd_stamped_def)
qed

lemma move_ready_fields:
  "\<exists>b nb q nq n. ikcp_move_ready k =
     k\<lparr>rcv_buf := b, nrcv_buf := nb, rcv_queue := q, nrcv_que := nq, rcv_nxt := n\<rparr>"
  unfolding ikcp_move_ready_eq take_ready_def by blast

text \<open>A call that leaves the send side and its configuration alone keeps the invariant.\<close>

definition same_send :: "ikcpcb \<Rightarrow> ikcpcb \<Rightarrow> bool" where
  "same_send k k' \<longleftrightarrow>
     snd_nxt k' = snd_nxt k \<and> snd_una k' = snd_una k \<and> snd_buf k' = snd_buf k \<and>
     nsnd_buf k' = nsnd_buf k \<and> snd_queue k' = snd_queue k \<and> nsnd_que k' = nsnd_que k \<and>
     conv k' = conv k"

lemma endpoint_inv_frame:
  assumes inv: "endpoint_inv k" and "rcv_inv k'" and "cfg_inv k'" and same: "same_send k k'"
    and wnd: "0 < unat (snd_wnd k')" "unat (snd_wnd k') < half32"
    and fit: "\<And>s. s \<in> set (snd_buf k) \<union> set (snd_queue k) \<Longrightarrow> seg_sized (mss k) s \<Longrightarrow> seg_sized (mss k') s"
  shows "endpoint_inv k'"
proof -
  have eqs: "snd_nxt k' = snd_nxt k" "snd_una k' = snd_una k" "snd_buf k' = snd_buf k"
    "nsnd_buf k' = nsnd_buf k" "snd_queue k' = snd_queue k" "nsnd_que k' = nsnd_que k"
    "conv k' = conv k"
    using same by (simp_all add: same_send_def)
  have "snd_order k' = snd_order k" "first_sn k' = first_sn k"
    by (simp_all add: snd_order_def flight_def first_sn_def eqs)
  then have "snd_inv k'"
    using inv wnd eqs unfolding endpoint_inv_def kcp_inv_def snd_inv_def by metis
  moreover have "snd_sized k'"
    using inv fit unfolding endpoint_inv_def snd_sized_def eqs by blast
  moreover have "snd_stamped k'"
    using inv unfolding endpoint_inv_def snd_stamped_def eqs by blast
  ultimately show ?thesis
    using assms(2,3) by (simp add: endpoint_inv_def kcp_inv_def)
qed

definition recv_keeps :: "ikcpcb \<Rightarrow> ikcpcb \<Rightarrow> bool" where
  "recv_keeps k k' \<longleftrightarrow> same_send k k' \<and> mtu k' = mtu k \<and> mss k' = mss k \<and> snd_wnd k' = snd_wnd k \<and>
     rx_minrto k' = rx_minrto k \<and> rx_rto k' = rx_rto k \<and> interval k' = interval k"

lemma recv_keeps_refl: "recv_keeps k k"
  by (simp add: recv_keeps_def same_send_def)

lemma recv_keeps_trans: "recv_keeps k k' \<Longrightarrow> recv_keeps k' k'' \<Longrightarrow> recv_keeps k k''"
  by (simp add: recv_keeps_def same_send_def)

lemma recv_keeps_steps:
  "recv_keeps k (ikcp_move_ready k)" "recv_keeps k (drop_front n k)" "recv_keeps k (k\<lparr>probe := p\<rparr>)"
  by (simp_all add: recv_keeps_def same_send_def ikcp_move_ready_eq take_ready_def drop_front_def)

lemma recv_result_cases:
  "(if a then Some (x1, y1, k) else if b then Some (x2, y2, k) else if c then Some (x3, y3, k)
    else Some (x4, y4, if d then k1 else k2)) = Some (ret, out, k') \<Longrightarrow>
   k' = k \<or> k' = k2 \<or> k' = k1"
  by (simp split: if_splits)

lemma ikcp_recv_keeps:
  assumes "ikcp_recv has_buffer len k = Some (ret, out, k')"
  shows "recv_keeps k k'"
proof -
  let ?k = "if len < 0 then k else drop_front (length (first_message (rcv_queue k))) k"
  let ?m = "ikcp_move_ready ?k"
  have "recv_keeps k ?k"
    using recv_keeps_refl recv_keeps_steps(2) by simp
  then have m: "recv_keeps k ?m"
    using recv_keeps_steps(1) recv_keeps_trans by blast
  have "k' = k \<or> k' = ?m \<or> k' = ?m\<lparr>probe := probe ?m OR IKCP_ASK_TELL\<rparr>"
    using assms unfolding ikcp_recv_eq Let_def by (rule recv_result_cases)
  then show ?thesis
    using m recv_keeps_refl recv_keeps_steps(3) recv_keeps_trans by blast
qed

lemma endpoint_inv_recv [wf_intros]:
  assumes inv: "endpoint_inv k" and recv: "ikcp_recv has_buffer len k = Some (ret, out, k')"
  shows "endpoint_inv k'"
proof -
  have keeps: "recv_keeps k k'" using recv by (rule ikcp_recv_keeps)
  show ?thesis
  proof (rule endpoint_inv_frame [OF inv])
    show "rcv_inv k'"
      using inv recv ikcp_recv_inv by (auto simp: endpoint_inv_def kcp_inv_def)
    have "cfg_inv k' = cfg_inv k"
      using keeps by (intro cfg_inv_cong) (simp_all add: recv_keeps_def)
    then show "cfg_inv k'" using inv by (simp add: endpoint_inv_def kcp_inv_def)
    show "same_send k k'" using keeps by (simp add: recv_keeps_def)
    have "snd_wnd k' = snd_wnd k" "mss k' = mss k" using keeps by (simp_all add: recv_keeps_def)
    then show "0 < unat (snd_wnd k')" "unat (snd_wnd k') < half32"
      and "\<And>s. seg_sized (mss k) s \<Longrightarrow> seg_sized (mss k') s"
      using inv by (simp_all add: endpoint_inv_def kcp_inv_def snd_inv_def)
  qed
qed

lemma endpoint_inv_flush [wf_intros]:
  assumes "endpoint_inv k"
  shows "endpoint_inv (fst (ikcp_flush k))"
proof (cases "updated k = 0")
  case True
  with assms show ?thesis by (simp add: ikcp_flush_def)
next
  case False
  with assms ikcp_flush_sized [of k] ikcp_flush_sent [of k] snd_stamped_flush_state [of k]
  show ?thesis by (simp add: endpoint_inv_def)
qed

text \<open>Fields that no part of the invariant reads.\<close>

lemma endpoint_inv_clock [simp]:
  "endpoint_inv (k\<lparr>current := c\<rparr>) = endpoint_inv k"
  "endpoint_inv (k\<lparr>current := c, updated := u, ts_flush := t\<rparr>) = endpoint_inv k"
  "endpoint_inv (k\<lparr>stream := m\<rparr>) = endpoint_inv k"
  by (simp_all add: endpoint_inv_def kcp_inv_def rcv_inv_def snd_inv_def snd_order_def flight_def
      first_sn_def cfg_inv_def snd_sized_def snd_stamped_def)

lemma endpoint_inv_update [wf_intros]:
  "endpoint_inv k \<Longrightarrow> endpoint_inv (fst (ikcp_update cur k))"
  unfolding ikcp_update_eq by (simp add: endpoint_inv_flush)

lemma clamp_interval_bounds: "10 \<le> clamp_interval iv" "clamp_interval iv \<le> 5000"
  by (simp_all add: clamp_interval_def)

lemma unat_clamp_interval: "unat (word_of_int (clamp_interval iv) :: u32) = nat (clamp_interval iv)"
  using clamp_interval_bounds [of iv] by (simp add: unat_eq_nat_uint uint_word_of_int)

lemma cfg_inv_interval [simp]:
  "cfg_inv (k\<lparr>interval := word_of_int (clamp_interval iv)\<rparr>) \<longleftrightarrow>
   cfg_inv (k\<lparr>interval := 10\<rparr>)"
proof -
  have "10 \<le> nat (clamp_interval iv)" "nat (clamp_interval iv) \<le> 5000"
    using clamp_interval_bounds [of iv] by linarith+
  then show ?thesis by (simp add: cfg_inv_def unat_clamp_interval)
qed

lemma cfg_inv_some_interval: "cfg_inv k \<Longrightarrow> cfg_inv (k\<lparr>interval := 10\<rparr>)"
  by (simp add: cfg_inv_def)

lemma endpoint_inv_params [simp]:
  "endpoint_inv (k\<lparr>fastresend := r\<rparr>) = endpoint_inv k"
  "endpoint_inv (k\<lparr>nocwnd := c\<rparr>) = endpoint_inv k"
  "endpoint_inv (k\<lparr>nodelay := d\<rparr>) = endpoint_inv k"
  by (simp_all add: endpoint_inv_def kcp_inv_def rcv_inv_def snd_inv_def snd_order_def flight_def
      first_sn_def cfg_inv_def snd_sized_def snd_stamped_def)

lemma endpoint_inv_minrto:
  "endpoint_inv k \<Longrightarrow> r = IKCP_RTO_NDL \<or> r = IKCP_RTO_MIN \<Longrightarrow> endpoint_inv (k\<lparr>rx_minrto := r\<rparr>)"
  by (auto simp: endpoint_inv_def kcp_inv_def rcv_inv_def snd_inv_def snd_order_def flight_def
      first_sn_def cfg_inv_def snd_sized_def snd_stamped_def)

lemma endpoint_inv_set_interval:
  assumes "endpoint_inv k"
  shows "endpoint_inv (k\<lparr>interval := word_of_int (clamp_interval iv)\<rparr>)"
proof (rule endpoint_inv_frame [OF assms])
  let ?k = "k\<lparr>interval := word_of_int (clamp_interval iv)\<rparr>"
  have "rcv_inv ?k = rcv_inv k" by (rule rcv_inv_cong) simp_all
  then show "rcv_inv ?k" using assms by (simp add: endpoint_inv_def kcp_inv_def)
  show "cfg_inv ?k" using assms by (simp add: endpoint_inv_def kcp_inv_def cfg_inv_some_interval)
  show "same_send k ?k" by (simp add: same_send_def)
qed (use assms in \<open>simp_all add: endpoint_inv_def kcp_inv_def snd_inv_def\<close>)

lemma endpoint_inv_interval [wf_intros]:
  "endpoint_inv k \<Longrightarrow> endpoint_inv (snd (ikcp_interval iv k))"
  by (simp add: ikcp_interval_def endpoint_inv_set_interval)

lemma endpoint_inv_nodelay [wf_intros]:
  assumes "endpoint_inv k"
  shows "endpoint_inv (snd (ikcp_nodelay nd iv resend nc k))"
proof -
  let ?k1 = "if nd \<ge> 0 then
      (let k = k\<lparr>nodelay := word_of_int nd\<rparr>
       in if nd \<noteq> 0 then k\<lparr>rx_minrto := IKCP_RTO_NDL\<rparr> else k\<lparr>rx_minrto := IKCP_RTO_MIN\<rparr>)
      else k"
  let ?k2 = "if iv \<ge> 0 then ?k1\<lparr>interval := word_of_int (clamp_interval iv)\<rparr> else ?k1"
  let ?k3 = "if resend \<ge> 0 then ?k2\<lparr>fastresend := resend\<rparr> else ?k2"
  have "endpoint_inv ?k1"
    using assms endpoint_inv_minrto [of "k\<lparr>nodelay := word_of_int nd\<rparr>" IKCP_RTO_NDL]
      endpoint_inv_minrto [of "k\<lparr>nodelay := word_of_int nd\<rparr>" IKCP_RTO_MIN]
    by (cases "nd = 0") (simp_all add: Let_def)
  then have "endpoint_inv ?k2"
    using endpoint_inv_set_interval [of ?k1 iv] by (simp only: split: if_split) simp
  then have "endpoint_inv ?k3"
    by (simp only: endpoint_inv_params split: if_split) simp
  then have "endpoint_inv (if nc \<ge> 0 then ?k3\<lparr>nocwnd := nc\<rparr> else ?k3)"
    by (simp only: endpoint_inv_params split: if_split) simp
  then show ?thesis
    unfolding ikcp_nodelay_def Let_def snd_conv .
qed

lemma unat_word_of_int_u32: "0 \<le> i \<Longrightarrow> i < 4294967296 \<Longrightarrow> unat (word_of_int i :: u32) = nat i"
  by (simp add: unat_eq_nat_uint uint_word_of_int)

lemma endpoint_inv_wndsize [wf_intros]:
  assumes inv: "endpoint_inv k" and sw: "sw < 2147483648" and rw: "rw < 2147483648"
  shows "endpoint_inv (snd (ikcp_wndsize sw rw k))"
proof -
  let ?k1 = "if sw > 0 then k\<lparr>snd_wnd := word_of_int sw\<rparr> else k"
  have inv1: "endpoint_inv ?k1"
  proof (cases "sw > 0")
    case True
    let ?k = "k\<lparr>snd_wnd := word_of_int sw\<rparr>"
    have r: "rcv_inv ?k = rcv_inv k" and c: "cfg_inv ?k = cfg_inv k"
      by (rule rcv_inv_cong cfg_inv_cong; simp)+
    have "endpoint_inv ?k"
      by (rule endpoint_inv_frame [OF inv])
        (use inv True sw r c in \<open>simp_all add: endpoint_inv_def kcp_inv_def same_send_def
          unat_word_of_int_u32\<close>)
    with True show ?thesis by simp
  next
    case False
    with inv show ?thesis by simp
  qed
  have "endpoint_inv (if rw > 0 then ?k1\<lparr>rcv_wnd := imax (word_of_int rw) IKCP_WND_RCV\<rparr> else ?k1)"
  proof (cases "rw > 0")
    case True
    let ?w = "imax (word_of_int rw) IKCP_WND_RCV"
    have w: "128 \<le> unat ?w" "unat ?w < half32"
      using True rw by (simp_all add: unat_imax unat_word_of_int_u32)
    let ?k = "?k1\<lparr>rcv_wnd := ?w\<rparr>"
    have c: "cfg_inv ?k = cfg_inv ?k1"
      by (rule cfg_inv_cong; simp)
    have "rcv_inv ?k1" using inv1 by (simp add: endpoint_inv_def kcp_inv_def)
    with w have r: "rcv_inv ?k"
      unfolding rcv_inv_def by simp
    have "endpoint_inv ?k"
      by (rule endpoint_inv_frame [OF inv1])
        (use inv1 r c in \<open>simp_all add: endpoint_inv_def kcp_inv_def same_send_def snd_inv_def\<close>)
    with True show ?thesis by simp
  next
    case False
    with inv1 show ?thesis by simp
  qed
  then show ?thesis
    unfolding ikcp_wndsize_def Let_def snd_conv .
qed

lemma seg_sized_mono: "seg_sized m s \<Longrightarrow> m \<le> n \<Longrightarrow> seg_sized n s"
  by (auto simp: seg_sized_def)

lemma endpoint_inv_setmtu [wf_intros]:
  assumes inv: "endpoint_inv k" and mt: "mt < 2147483648"
    and raise: "int (unat (mtu k)) \<le> mt \<or> snd_buf k = [] \<and> snd_queue k = []"
  shows "endpoint_inv (snd (ikcp_setmtu mem mt k))"
proof (cases "mt < 50 \<or> \<not> mem")
  case True
  with inv show ?thesis by (auto simp: ikcp_setmtu_def)
next
  case False
  let ?k = "k\<lparr>mtu := word_of_int mt, mss := word_of_int mt - IKCP_OVERHEAD,
    buffer := (word_of_int mt + IKCP_OVERHEAD) * 3\<rparr>"
  have cfg: "cfg_inv k" using inv by (simp add: endpoint_inv_def kcp_inv_def)
  have un: "unat (word_of_int mt :: u32) = nat mt"
    using False mt by (intro unat_word_of_int_u32) simp_all
  have "50 \<le> nat mt" "nat mt < half32" using False mt by linarith+
  then have c: "cfg_inv ?k"
    using cfg un by (simp add: cfg_inv_def)
  have r: "rcv_inv ?k = rcv_inv k" by (rule rcv_inv_cong; simp)
  have fit: "seg_sized (mss ?k) s"
    if "s \<in> set (snd_buf k) \<union> set (snd_queue k)" "seg_sized (mss k) s" for s
  proof -
    have "int (unat (mtu k)) \<le> mt" using that(1) raise by auto
    then have "unat (mtu k) \<le> nat mt" by linarith
    then have "unat (mtu k) \<le> unat (mtu ?k)" using un by simp
    then have "mss k \<le> mss ?k"
      using unat_mss [OF cfg] unat_mss [OF c] unfolding word_le_nat_alt by linarith
    with that(2) show ?thesis by (rule seg_sized_mono)
  qed
  have "endpoint_inv ?k"
    by (rule endpoint_inv_frame [OF inv _ c])
      (use inv r fit in \<open>simp_all add: endpoint_inv_def kcp_inv_def same_send_def snd_inv_def\<close>)
  with False show ?thesis by (simp add: ikcp_setmtu_def)
qed

section \<open>Runs\<close>

datatype kcp_call =
    Call_send "u8 list"
  | Call_recv int
  | Call_input "u8 list option"
  | Call_update u32
  | Call_flush
  | Call_nodelay int int int int
  | Call_interval int
  | Call_wndsize int int
  | Call_setmtu int
  | Call_stream int

inductive endpoint_step :: "ikcpcb \<Rightarrow> kcp_call \<Rightarrow> u8 list list \<Rightarrow> ikcpcb \<Rightarrow> bool" where
  step_send: "length b < half32 \<Longrightarrow> ikcp_send mem (Some b) (int (length b)) k = Some (ret, k') \<Longrightarrow>
    endpoint_step k (Call_send b) [] k'"
| step_recv: "ikcp_recv True len k = Some (ret, out, k') \<Longrightarrow> endpoint_step k (Call_recv len) [] k'"
| step_input: "endpoint_step k (Call_input data) [] (snd (ikcp_input data k))"
| step_update: "endpoint_step k (Call_update cur) (snd (ikcp_update cur k)) (fst (ikcp_update cur k))"
| step_flush: "endpoint_step k Call_flush (snd (ikcp_flush k)) (fst (ikcp_flush k))"
| step_nodelay: "endpoint_step k (Call_nodelay nd iv resend nc) [] (snd (ikcp_nodelay nd iv resend nc k))"
| step_interval: "endpoint_step k (Call_interval iv) [] (snd (ikcp_interval iv k))"
| step_wndsize: "sw < 2147483648 \<Longrightarrow> rw < 2147483648 \<Longrightarrow>
    endpoint_step k (Call_wndsize sw rw) [] (snd (ikcp_wndsize sw rw k))"
| step_setmtu: "mt < 2147483648 \<Longrightarrow>
    int (unat (mtu k)) \<le> mt \<or> snd_buf k = [] \<and> snd_queue k = [] \<Longrightarrow>
    endpoint_step k (Call_setmtu mt) [] (snd (ikcp_setmtu mem mt k))"
| step_stream: "endpoint_step k (Call_stream m) [] (k\<lparr>stream := m\<rparr>)"

inductive_cases endpoint_step_sendE: "endpoint_step k (Call_send b) out k'"
inductive_cases endpoint_step_updateE: "endpoint_step k (Call_update cur) out k'"
inductive_simps endpoint_step_input: "endpoint_step k (Call_input data) out k'"
inductive_simps endpoint_step_flush: "endpoint_step k Call_flush out k'"

inductive endpoint_run :: "u32 \<Rightarrow> ikcpcb \<Rightarrow> bool" for cv where
  run_create: "ikcp_create True True cv = Some k \<Longrightarrow> endpoint_run cv k"
| run_step: "endpoint_run cv k \<Longrightarrow> endpoint_step k call out k' \<Longrightarrow> endpoint_run cv k'"

lemma endpoint_step_inv:
  assumes "endpoint_step k call out k'" and "endpoint_inv k"
  shows "endpoint_inv k'"
  using assms
  by (cases rule: endpoint_step.cases)
    (auto intro: endpoint_inv_send endpoint_inv_recv endpoint_inv_input endpoint_inv_update
      endpoint_inv_flush endpoint_inv_nodelay endpoint_inv_interval endpoint_inv_wndsize
      endpoint_inv_setmtu)

lemma endpoint_run_inv: "endpoint_run cv k \<Longrightarrow> endpoint_inv k"
  by (induction rule: endpoint_run.induct) (auto intro: endpoint_inv_create endpoint_step_inv)

lemma endpoint_inv_flush_datagrams:
  assumes "endpoint_inv k"
  shows "\<forall>d\<in>set (snd (ikcp_flush k)). d \<noteq> [] \<and> length d \<le> unat (mtu k)"
  using assms ikcp_flush_datagrams [of k] by (simp add: endpoint_inv_def)

lemma endpoint_inv_update_datagrams:
  assumes "endpoint_inv k"
  shows "\<forall>d\<in>set (snd (ikcp_update cur k)). d \<noteq> [] \<and> length d \<le> unat (mtu k)"
proof (cases "flush_due cur k")
  case False
  then show ?thesis by (simp add: ikcp_update_eq)
next
  case True
  then show ?thesis
    using assms endpoint_inv_flush_datagrams [of "k\<lparr>current := cur,
      updated := (if updated k = 0 then 1 else updated k), ts_flush := next_flush cur k\<rparr>"]
    by (simp add: ikcp_update_eq)
qed

lemma endpoint_step_datagrams:
  assumes "endpoint_step k call out k'" and "endpoint_inv k" and "d \<in> set out"
  shows "d \<noteq> [] \<and> length d \<le> unat (mtu k)"
  using assms(1)
proof (cases rule: endpoint_step.cases)
  case (step_update cur)
  with assms(2,3) endpoint_inv_update_datagrams [of k cur] show ?thesis by simp
next
  case step_flush
  with assms(2,3) endpoint_inv_flush_datagrams [of k] show ?thesis by simp
qed (use assms(3) in simp_all)

section \<open>Lowering the mtu\<close>

text \<open>
  What \<open>endpoint_step\<close> leaves out: the mtu is lowered to 50 while a segment of 300 bytes waits. The flush builds a datagram
  that is longer than the mtu and than the output buffer of \<open>(50 + 24) * 3\<close> bytes.
\<close>

definition lowered_mtu :: ikcpcb where
  "lowered_mtu =
     (case ikcp_send mem_ok (Some (replicate 300 7)) 300 (snd (ikcp_nodelay 0 10 0 1 (kcp_fresh 9))) of
        Some (ret, k) \<Rightarrow> snd (ikcp_setmtu True 50 k)
      | None \<Rightarrow> kcp_fresh 9)"

lemma lowered_mtu_exceeded:
  "mtu lowered_mtu = 50" "buffer lowered_mtu = 222" "map length (snd (ikcp_update 100 lowered_mtu)) = [324]"
  by code_simp+

lemma lowered_mtu_breaks_size: "\<not> snd_sized lowered_mtu"
proof
  assume "snd_sized lowered_mtu"
  then have "\<forall>s\<in>set (snd_queue lowered_mtu). \<not> mss lowered_mtu < seg_len s"
    by (simp add: snd_sized_def seg_sized_def not_less)
  moreover have "list_ex (\<lambda>s. mss lowered_mtu < seg_len s) (snd_queue lowered_mtu)" by code_simp
  ultimately show False by (simp add: list_ex_iff)
qed

section \<open>Properties\<close>

text \<open>
  C2 (every run keeps the invariants). After any sequence of permitted calls on a block from \<open>ikcp_create\<close>,
  with any datagrams, well formed or not, arriving at any moment, all invariants hold: both
  buffers are ordered inside their windows, the counters are the lengths, the queue of the
  application is consecutive, every queued segment fits the mtu, the configuration is in range.
  Permitted (\<open>endpoint_step\<close>) are calls with buffers that are not null and their lengths, less than 2 GB, windows and
  an mtu below \<open>2 ^ 31\<close>, and an \<open>ikcp_setmtu\<close> that does not lower the mtu while segments wait to be
  sent or acknowledged; without the last the segments no longer fit (\<open>lowered_mtu_exceeded\<close>). A
  step is a call that returns: no allocation that is asserted or made by \<open>ikcp_input\<close> fails.
\<close>

theorem every_run_keeps_invariants:
  assumes "endpoint_run cv k"
  shows "rcv_inv k \<and> snd_inv k \<and> cfg_inv k \<and> snd_sized k \<and> snd_stamped k"
  using endpoint_run_inv [OF assms] by (simp add: endpoint_inv_def kcp_inv_def)

lemma run_fresh: "endpoint_run cv (kcp_fresh cv)"
  by (rule run_create) (simp add: kcp_fresh_def ikcp_create_def)

theorem every_run_keeps_invariants_witness:
  "rcv_inv (snd (ikcp_input (Some [1, 2, 3]) (kcp_fresh 9)))"
  using every_run_keeps_invariants [OF run_step [OF run_fresh step_input]] by blast

text \<open>
  Every datagram that any call of any run hands to the output
  callback is non-empty and fits the mtu of that moment.
\<close>

theorem every_run_fits_mtu:
  assumes "endpoint_run cv k" and "endpoint_step k call out k'" and "d \<in> set out"
  shows "d \<noteq> [] \<and> length d \<le> unat (mtu k)"
  using assms(2) endpoint_run_inv [OF assms(1)] assms(3) by (rule endpoint_step_datagrams)

definition push_datagram :: "u8 list" where
  "push_datagram = wire ((sample_seg 0 [7])\<lparr>seg_conv := 9, seg_cmd := IKCP_CMD_PUSH\<rparr>)"

theorem every_run_fits_mtu_witness:
  "\<exists>d. snd (ikcp_update 100 (snd (ikcp_input (Some push_datagram) (kcp_fresh 9)))) = [d] \<and>
    length d \<le> 1400"
proof -
  let ?k = "snd (ikcp_input (Some push_datagram) (kcp_fresh 9))"
  have "length (snd (ikcp_update 100 ?k)) = 1" by code_simp
  then obtain d where d: "snd (ikcp_update 100 ?k) = [d]"
    by (auto simp: length_Suc_conv)
  have "mtu ?k = 1400" by code_simp
  then have "unat (mtu ?k) = 1400" by simp
  moreover have "endpoint_run 9 ?k"
    using run_step [OF run_fresh step_input] by blast
  ultimately show ?thesis
    using every_run_fits_mtu [OF _ step_update, of 9 ?k d 100] d by simp
qed

end
