(* ===== verification/Gf_Field.thy ===== *)
theory Gf_Field
  imports Prelude
begin

text \<open>
  The field with 256 elements, the specification of the tables of \<open>fec.c\<close>: bytes under
  exclusive or, with the multiplication of polynomials modulo the primitive polynomial
  \<open>1 + x^2 + x^3 + x^4 + x^8\<close>. \<open>xtime\<close> multiplies by the generator; its order is exactly 255,
  so every non-zero byte is one of its powers (\<open>xshift_surj\<close>), and the field laws follow
  from those of the exponents. The type \<open>gf256\<close> is an instance of the class
  \<open>field\<close>, so that the sums, products and simplification procedures of the library apply
  to the matrices of the code.
\<close>

type_synonym gf = u8

definition xtime :: "gf \<Rightarrow> gf" where
  "xtime x = push_bit 1 x XOR (if bit x 7 then 29 else 0)"

lemma xtime_xor: "xtime (x XOR y) = xtime x XOR xtime y"
  by (auto simp: xtime_def push_bit_xor bit_xor_iff ac_simps)

lemma xtime_0 [simp]: "xtime 0 = 0"
  by (simp add: xtime_def)

lemma bit_7_iff: "bit (x :: gf) 7 \<longleftrightarrow> x \<ge> 128"
proof -
  have lt: "unat x < 256" using unsigned_less [of x, where ?'a = nat] by simp
  have "bit x 7 \<longleftrightarrow> bit (unat x) 7" by (simp add: bit_unsigned_iff)
  also have "\<dots> \<longleftrightarrow> odd (unat x div 128)" by (simp add: bit_iff_odd)
  also have "\<dots> \<longleftrightarrow> unat x \<ge> 128"
  proof (cases "unat x \<ge> 128")
    case True
    then have "unat x div 128 = 1" using lt by (intro div_nat_eqI) simp_all
    with True show ?thesis by simp
  qed simp
  finally show ?thesis by (simp add: word_le_nat_alt)
qed

lemma xtime_cond:
  "xtime x = (if x \<ge> 128 then 29 XOR push_bit 1 (x XOR 128) else push_bit 1 x)"
proof -
  have "push_bit 1 (128 :: gf) = 0" by simp
  then have "push_bit 1 (x XOR 128) = push_bit 1 x"
    by (simp only: push_bit_xor xor.right_neutral)
  then show ?thesis by (simp add: xtime_def bit_7_iff ac_simps)
qed

lemma xtime_eq_0_iff [simp]: "xtime x = 0 \<longleftrightarrow> x = 0"
proof
  assume x0: "xtime x = 0"
  have low: "bit (xtime x) 0 \<longleftrightarrow> bit x 7"
    unfolding xtime_def bit_xor_iff bit_push_bit_iff by simp
  with x0 have top: "\<not> bit x 7" by simp
  with x0 have "push_bit 1 x = 0" by (simp only: xtime_def if_False xor.right_neutral)
  then have shifted: "\<not> bit x n" if "n < 7" for n
    using that bit_push_bit_iff [of 1 x "Suc n"] by auto
  show "x = 0"
  proof (rule bit_word_eqI)
    fix n assume "n < LENGTH(8)"
    then have "n < 7 \<or> n = 7" by auto
    with shifted top show "bit x n = bit (0 :: gf) n" by auto
  qed
qed (simp add: xtime_def)

lemma xtime_inject [simp]: "xtime x = xtime y \<longleftrightarrow> x = y"
proof
  assume "xtime x = xtime y"
  then have "xtime (x XOR y) = 0" by (simp add: xtime_xor)
  then have "x XOR y = 0" by (simp only: xtime_eq_0_iff)
  then have "(x XOR y) XOR y = 0 XOR y" by (simp only:)
  then show "x = y" by (simp only: xor.assoc xor_self_eq xor.right_neutral xor.left_neutral)
qed simp

text \<open>Powers of the generator: \<open>alpha ^ i\<close> is \<open>i\<close> steps of \<open>xtime\<close>.\<close>

definition xshift :: "nat \<Rightarrow> gf \<Rightarrow> gf" where
  "xshift i = xtime ^^ i"

lemma xshift_0 [simp]: "xshift 0 x = x"
  by (simp add: xshift_def)

lemma xshift_Suc [simp]: "xshift (Suc i) x = xtime (xshift i x)"
  by (simp add: xshift_def)

lemma xshift_add: "xshift (i + j) x = xshift i (xshift j x)"
  by (simp add: xshift_def funpow_add)

lemma xshift_xor: "xshift i (x XOR y) = xshift i x XOR xshift i y"
  by (induction i) (simp_all add: xtime_xor)

lemma xshift_eq_0_iff [simp]: "xshift i x = 0 \<longleftrightarrow> x = 0"
  by (induction i) simp_all

lemma xshift_inject [simp]: "xshift i x = xshift i y \<longleftrightarrow> x = y"
  by (induction i) simp_all

lemma xshift_comm: "xshift i (xshift j x) = xshift j (xshift i x)"
  by (metis add.commute xshift_add)

lemma xshift_mult: "xshift i 1 = 1 \<Longrightarrow> xshift (i * m) 1 = 1"
  by (induction m) (simp_all add: xshift_add)




text \<open>The same step on the eight bits, most significant first, for evaluation.\<close>

type_synonym bits8 = "bool \<times> bool \<times> bool \<times> bool \<times> bool \<times> bool \<times> bool \<times> bool"

definition bits_of :: "gf \<Rightarrow> bits8" where
  "bits_of x = (bit x 7, bit x 6, bit x 5, bit x 4, bit x 3, bit x 2, bit x 1, bit x 0)"

fun bits_steps :: "nat \<Rightarrow> bits8 \<Rightarrow> bits8" where
  "bits_steps 0 b = b"
| "bits_steps (Suc n) (b7, b6, b5, b4, b3, b2, b1, b0) =
     bits_steps n (b6, b5, b4, b3 \<noteq> b7, b2 \<noteq> b7, b1 \<noteq> b7, b0, b7)"

lemma bits_of_inject: "bits_of x = bits_of y \<longleftrightarrow> x = y"
proof
  assume eq: "bits_of x = bits_of y"
  show "x = y"
  proof (rule bit_word_eqI)
    fix n assume "n < LENGTH(8)"
    then have "n \<in> {0, 1, 2, 3, 4, 5, 6, 7}" by auto
    with eq show "bit x n = bit y n" by (auto simp: bits_of_def)
  qed
qed simp

lemma bits_of_xtime:
  "bits_of (xtime x) =
     (bit x 6, bit x 5, bit x 4, bit x 3 \<noteq> bit x 7, bit x 2 \<noteq> bit x 7, bit x 1 \<noteq> bit x 7,
      bit x 0, bit x 7)"
  unfolding bits_of_def xtime_def bit_xor_iff bit_push_bit_iff by simp

lemma bits_of_xshift: "bits_of (xshift n x) = bits_steps n (bits_of x)"
proof (induction n arbitrary: x)
  case 0
  show ?case by simp
next
  case (Suc n)
  have "bits_of (xshift (Suc n) x) = bits_of (xshift n (xtime x))"
    by (metis xshift_Suc xshift_add Suc_eq_plus1 One_nat_def xshift_0)
  also have "\<dots> = bits_steps n (bits_of (xtime x))" by (rule Suc.IH)
  also have "\<dots> = bits_steps (Suc n) (bits_of x)"
    unfolding bits_of_xtime by (simp add: bits_of_def)
  finally show ?case .
qed

lemma xshift_eq_iff: "xshift n x = y \<longleftrightarrow> bits_steps n (bits_of x) = bits_of y"
  by (simp flip: bits_of_inject add: bits_of_xshift)

lemma xshift_order_steps:
  "xshift 15 1 \<noteq> 1" "xshift 51 1 \<noteq> 1" "xshift 85 1 \<noteq> 1" "xshift 255 1 = 1"
  unfolding xshift_eq_iff by code_simp+


lemma xshift_diff_eq_1:
  assumes "xshift i 1 = xshift j 1" and "i \<le> j"
  shows "xshift (j - i) 1 = 1"
proof -
  have "xshift i (xshift (j - i) 1) = xshift i 1"
    using assms by (simp flip: xshift_add)
  then show ?thesis by simp
qed

lemma xshift_gcd:
  assumes "xshift m 1 = 1" and "xshift n 1 = 1"
  shows "xshift (gcd m n) 1 = 1"
  using assms
proof (induction m n rule: gcd_nat_induct)
  case (step m n)
  have "xshift m 1 = xshift (m mod n + n * (m div n)) 1" by (simp only: mod_mult_div_eq)
  also have "\<dots> = xshift (m mod n) (xshift (n * (m div n)) 1)" by (rule xshift_add)
  also have "xshift (n * (m div n)) 1 = 1" using step.prems(2) by (rule xshift_mult)
  finally have "xshift (m mod n) 1 = 1" using step.prems(1) by (simp only:)
  with step.prems(2) have "xshift (gcd n (m mod n)) 1 = 1" by (rule step.IH)
  then show ?case by (simp only: gcd_red_nat [of m n])
qed simp

lemma xshift_dvd: "xshift m 1 = 1 \<Longrightarrow> m dvd n \<Longrightarrow> xshift n 1 = 1"
  by (auto elim!: dvdE intro: xshift_mult)

text \<open>The order of the generator is exactly 255.\<close>

lemma divisor_of_255: "(d :: nat) dvd 255 \<Longrightarrow> d = 255 \<or> d dvd 15 \<or> d dvd 51 \<or> d dvd 85"
proof -
  assume "d dvd 255"
  then have "d \<le> 255" and "255 mod d = 0" by (auto dest: dvd_imp_le)
  then have "d \<in> set (filter (\<lambda>d. 255 mod d = 0) [0..<256])" by simp
  also have "filter (\<lambda>d. 255 mod d = 0) [0..<256] = [1, 3, 5, 15, 17, 51, 85, 255 :: nat]"
    by code_simp
  finally show ?thesis by auto
qed

lemma xshift_eq_1_iff: "0 < d \<Longrightarrow> d < 255 \<Longrightarrow> xshift d 1 \<noteq> 1"
proof
  assume d: "0 < d" "d < 255" and "xshift d 1 = 1"
  define g where "g = gcd d 255"
  have g1: "xshift g 1 = 1"
    unfolding g_def using \<open>xshift d 1 = 1\<close> xshift_order_steps(4) by (rule xshift_gcd)
  have "g dvd d" by (simp add: g_def)
  then have "g \<noteq> 255" using d by (auto dest: dvd_imp_le)
  moreover have "g dvd 255" by (simp add: g_def)
  ultimately have "g dvd 15 \<or> g dvd 51 \<or> g dvd 85" using divisor_of_255 by blast
  with g1 xshift_order_steps show False using xshift_dvd by blast
qed

lemma xshift_inj: "inj_on (\<lambda>i. xshift i 1) {0..<255}"
proof (rule linorder_inj_onI)
  fix i j assume "i < j" and "i \<in> {0..<255}" "j \<in> {0..<255 :: nat}"
  show "xshift i 1 \<noteq> xshift j 1"
  proof
    assume "xshift i 1 = xshift j 1"
    then have "xshift (j - i) 1 = 1" using \<open>i < j\<close> by (intro xshift_diff_eq_1) simp_all
    moreover have "0 < j - i" "j - i < 255" using \<open>i < j\<close> \<open>j \<in> {0..<255}\<close> by auto
    ultimately show False using xshift_eq_1_iff by blast
  qed
qed auto

lemma xshift_surj: "x \<noteq> 0 \<Longrightarrow> \<exists>i<255. x = xshift i 1"
proof -
  assume "x \<noteq> 0"
  have fin: "finite (UNIV - {0 :: gf})" by simp
  have "(\<lambda>i. xshift i 1) ` {0..<255} = UNIV - {0 :: gf}"
  proof (rule card_seteq [OF fin])
    show "(\<lambda>i. xshift i 1) ` {0..<255} \<subseteq> UNIV - {0 :: gf}" by auto
    show "card (UNIV - {0 :: gf}) \<le> card ((\<lambda>i. xshift i 1) ` {0..<255})"
      by (simp add: card_image [OF xshift_inj] card_Diff_singleton card_word)
  qed
  then have "x \<in> (\<lambda>i. xshift i 1) ` {0..<255}" using \<open>x \<noteq> 0\<close> by simp
  then show ?thesis by auto
qed

text \<open>
  The product of two polynomials over the two-element field, reduced by the primitive
  polynomial \<open>1 + x^2 + x^3 + x^4 + x^8\<close>: shift and add.
\<close>

definition pick :: "bool \<Rightarrow> gf \<Rightarrow> gf" where
  "pick b y = (if b then y else 0)"

definition pmul :: "gf \<Rightarrow> gf \<Rightarrow> gf" where
  "pmul x y =
     pick (bit x 0) y XOR pick (bit x 1) (xshift 1 y) XOR pick (bit x 2) (xshift 2 y) XOR
     pick (bit x 3) (xshift 3 y) XOR pick (bit x 4) (xshift 4 y) XOR
     pick (bit x 5) (xshift 5 y) XOR pick (bit x 6) (xshift 6 y) XOR
     pick (bit x 7) (xshift 7 y)"

lemma pick_neq: "pick (a \<noteq> b) y = pick a y XOR pick b y"
  by (simp add: pick_def)

lemma pick_xor: "pick b (y XOR z) = pick b y XOR pick b z"
  by (simp add: pick_def)

lemma xtime_pick: "xtime (pick b y) = pick b (xtime y)"
  by (simp add: pick_def)

lemma pmul_1: "pmul 1 y = y"
  by (simp add: pmul_def pick_def bit_1_iff)

lemma pmul_xor_right: "pmul x (y XOR z) = pmul x y XOR pmul x z"
  by (simp only: pmul_def xshift_xor pick_xor xor.assoc xor.commute xor.left_commute)

lemma pmul_0_left: "pmul 0 y = 0"
  by (simp add: pmul_def pick_def)

lemma xshift_small: "xshift 2 1 = 4" "xshift 3 1 = 8" "xshift 4 1 = 16" "xshift 8 1 = 29"
  unfolding xshift_eq_iff by code_simp+

lemma xshift_8_1: "xshift 8 1 = 1 XOR xshift 2 1 XOR xshift 3 1 XOR xshift 4 1"
  unfolding xshift_small by simp

lemma xshift_8: "xshift 8 y = y XOR xshift 2 y XOR xshift 3 y XOR xshift 4 y"
proof (cases "y = 0")
  case False
  then obtain i where y: "y = xshift i 1" using xshift_surj by blast
  have "xshift 8 y = xshift i (xshift 8 1)" unfolding y by (rule xshift_comm)
  also have "\<dots> = xshift i 1 XOR xshift i (xshift 2 1) XOR xshift i (xshift 3 1)
      XOR xshift i (xshift 4 1)"
    unfolding xshift_8_1 by (simp only: xshift_xor)
  finally show ?thesis unfolding y by (simp only: xshift_comm [of i])
next
  case True
  have "xshift n 0 = 0" for n by (simp only: xshift_eq_0_iff)
  then show ?thesis unfolding True by (simp only: xor.right_neutral)
qed

lemma bit_xtime:
  "bit (xtime x) 0 = bit x 7" "bit (xtime x) 1 = bit x 0" "bit (xtime x) 2 = (bit x 1 \<noteq> bit x 7)"
  "bit (xtime x) 3 = (bit x 2 \<noteq> bit x 7)" "bit (xtime x) 4 = (bit x 3 \<noteq> bit x 7)"
  "bit (xtime x) 5 = bit x 4" "bit (xtime x) 6 = bit x 5" "bit (xtime x) 7 = bit x 6"
  using bits_of_xtime [of x] unfolding bits_of_def prod.inject by blast+

lemma pmul_xtime: "pmul (xtime x) y = xtime (pmul x y)"
proof -
  have shifts: "xtime y = xshift 1 y" "xtime (xshift 1 y) = xshift 2 y"
    "xtime (xshift 2 y) = xshift 3 y" "xtime (xshift 3 y) = xshift 4 y"
    "xtime (xshift 4 y) = xshift 5 y" "xtime (xshift 5 y) = xshift 6 y"
    "xtime (xshift 6 y) = xshift 7 y" "xtime (xshift 7 y) = xshift 8 y"
    by (simp_all add: numeral_eq_Suc)
  show ?thesis
    unfolding pmul_def bit_xtime xtime_xor xtime_pick shifts pick_neq xshift_8 [of y] pick_xor
    by (simp only: xor.assoc xor.commute xor.left_commute)
qed

lemma pmul_xshift: "pmul (xshift n 1) y = xshift n y"
  by (induction n) (simp_all add: pmul_1 pmul_xtime)

lemma pmul_xshift2: "pmul (xshift m 1) (xshift n 1) = xshift (m + n) 1"
  by (simp add: pmul_xshift xshift_add)

lemma pmul_commute: "pmul x y = pmul y x"
proof (cases "x = 0 \<or> y = 0")
  case True
  have "pmul z 0 = 0" for z
    using pmul_xor_right [of z 0 0] by simp
  with True pmul_0_left show ?thesis by auto
next
  case False
  then obtain m n where "x = xshift m 1" "y = xshift n 1" using xshift_surj by meson
  then show ?thesis by (simp add: pmul_xshift2 add.commute)
qed

lemma pmul_0_right: "pmul x 0 = 0"
  using pmul_commute pmul_0_left by metis

lemma pmul_assoc: "pmul (pmul x y) z = pmul x (pmul y z)"
proof (cases "x = 0 \<or> y = 0 \<or> z = 0")
  case True
  then show ?thesis by (auto simp: pmul_0_left pmul_0_right)
next
  case False
  then obtain l m n where "x = xshift l 1" "y = xshift m 1" "z = xshift n 1"
    using xshift_surj by meson
  then show ?thesis by (simp add: pmul_xshift2 add.assoc)
qed

lemma pmul_eq_0_iff: "pmul x y = 0 \<longleftrightarrow> x = 0 \<or> y = 0"
proof -
  have "pmul x y \<noteq> 0" if nz: "x \<noteq> 0" "y \<noteq> 0"
  proof -
    obtain m where "x = xshift m 1" using nz xshift_surj by blast
    with nz show ?thesis by (simp add: pmul_xshift)
  qed
  then show ?thesis by (auto simp: pmul_0_left pmul_0_right)
qed

definition pinverse :: "gf \<Rightarrow> gf" where
  "pinverse x = (pmul x ^^ 254) 1"

lemma pinverse_xshift: "pinverse (xshift n 1) = xshift (n * 254) 1"
proof -
  have "(pmul (xshift n 1) ^^ m) 1 = xshift (n * m) 1" for m
    by (induction m) (simp_all add: pmul_xshift xshift_add)
  then show ?thesis by (simp add: pinverse_def)
qed

lemma pinverse_left: "x \<noteq> 0 \<Longrightarrow> pmul (pinverse x) x = 1"
proof -
  assume "x \<noteq> 0"
  then obtain n where n: "x = xshift n 1" using xshift_surj by blast
  have "pmul (pinverse x) x = xshift (255 * n) 1"
    unfolding n pinverse_xshift pmul_xshift2 by (simp add: algebra_simps)
  then show ?thesis using xshift_mult [OF xshift_order_steps(4)] by simp
qed

lemma pinverse_0: "pinverse 0 = 0"
proof -
  have "(pmul 0 ^^ Suc 253) 1 = 0" by (simp only: funpow.simps comp_def pmul_0_left)
  then show ?thesis by (simp add: pinverse_def)
qed

text \<open>Bytes as field elements; \<open>Gf\<close> and \<open>byte\<close> translate between code and field.\<close>

datatype gf256 = Gf (byte: gf)

instantiation gf256 :: field
begin

definition zero_gf256 :: gf256 where
  "0 = Gf 0"

definition one_gf256 :: gf256 where
  "1 = Gf 1"

definition plus_gf256 :: "gf256 \<Rightarrow> gf256 \<Rightarrow> gf256" where
  "a + b = Gf (byte a XOR byte b)"

definition minus_gf256 :: "gf256 \<Rightarrow> gf256 \<Rightarrow> gf256" where
  "a - b = Gf (byte a XOR byte b)"

definition uminus_gf256 :: "gf256 \<Rightarrow> gf256" where
  "- a = (a :: gf256)"

definition times_gf256 :: "gf256 \<Rightarrow> gf256 \<Rightarrow> gf256" where
  "a * b = Gf (pmul (byte a) (byte b))"

definition inverse_gf256 :: "gf256 \<Rightarrow> gf256" where
  "inverse a = Gf (pinverse (byte a))"

definition divide_gf256 :: "gf256 \<Rightarrow> gf256 \<Rightarrow> gf256" where
  "a div b = a * inverse (b :: gf256)"

instance
proof
  fix a b c :: gf256
  show "a * b * c = a * (b * c)" by (simp add: times_gf256_def pmul_assoc)
  show "a * b = b * a" by (simp add: times_gf256_def pmul_commute [of "byte a"])
  show "1 * a = a" by (simp add: times_gf256_def one_gf256_def pmul_1)
  show "a + b + c = a + (b + c)" by (simp add: plus_gf256_def xor.assoc)
  show "a + b = b + a" by (simp add: plus_gf256_def xor.commute)
  show "0 + a = a" by (simp add: plus_gf256_def zero_gf256_def)
  show "- a + a = 0" by (simp add: plus_gf256_def uminus_gf256_def zero_gf256_def)
  show "a - b = a + - b" by (simp add: plus_gf256_def minus_gf256_def uminus_gf256_def)
  show "(a + b) * c = a * c + b * c"
    by (simp add: plus_gf256_def times_gf256_def pmul_commute [of _ "byte c"] pmul_xor_right)
  show "(0 :: gf256) \<noteq> 1" by (simp add: zero_gf256_def one_gf256_def)
  show "a \<noteq> 0 \<Longrightarrow> inverse a * a = 1"
    by (cases a) (simp add: zero_gf256_def one_gf256_def inverse_gf256_def times_gf256_def pinverse_left)
  show "a div b = a * inverse b" by (rule divide_gf256_def)
  show "inverse (0 :: gf256) = 0" by (simp add: zero_gf256_def inverse_gf256_def pinverse_0)
qed

end

lemma gf256_uminus [simp]: "- a = (a :: gf256)"
  by (rule uminus_gf256_def)

lemma gf256_minus [simp]: "a - b = a + (b :: gf256)"
  by (simp add: minus_gf256_def plus_gf256_def)

lemma gf256_add_self [simp]: "a + a = (0 :: gf256)"
  by (simp add: plus_gf256_def zero_gf256_def)

lemma gf256_add_self_left [simp]: "a + (a + b) = (b :: gf256)"
  by (simp flip: add.assoc)

lemma Gf_eq_0_iff [simp]: "Gf x = 0 \<longleftrightarrow> x = 0"
  by (simp add: zero_gf256_def)

lemma Gf_eq_1_iff [simp]: "Gf x = 1 \<longleftrightarrow> x = 1"
  by (simp add: one_gf256_def)

lemma byte_0 [simp]: "byte 0 = 0"
  by (simp add: zero_gf256_def)

lemma byte_1 [simp]: "byte 1 = 1"
  by (simp add: one_gf256_def)

lemma Gf_0: "Gf 0 = 0" by simp

lemma Gf_1: "Gf 1 = 1" by simp

lemma Gf_xor: "Gf (x XOR y) = Gf x + Gf y"
  by (simp add: plus_gf256_def)

lemma Gf_pmul: "Gf (pmul x y) = Gf x * Gf y"
  by (simp add: times_gf256_def)

lemma Gf_pinverse: "Gf (pinverse x) = inverse (Gf x)"
  by (simp add: inverse_gf256_def)

definition alpha :: gf256 where
  "alpha = Gf 2"

lemma Gf_xshift: "Gf (xshift n x) = alpha ^ n * Gf x"
proof (induction n)
  case (Suc n)
  have "xtime 1 = 2" by code_simp
  then have "xtime y = pmul 2 y" for y
    using pmul_xshift [of 1 y] by simp
  with Suc show ?case by (simp add: alpha_def Gf_pmul mult.assoc)
qed simp

lemma alpha_power_inject: "i < 255 \<Longrightarrow> j < 255 \<Longrightarrow> alpha ^ i = alpha ^ j \<longleftrightarrow> i = j"
  using inj_onD [OF xshift_inj, of i j] Gf_xshift [of i 1] Gf_xshift [of j 1]
  by (metis atLeastLessThan_iff gf256.inject mult.right_neutral Gf_1 le0)

lemma alpha_power_255: "alpha ^ 255 = 1"
  using Gf_xshift [of 255 1] xshift_order_steps(4) by simp

lemma alpha_nonzero [simp]: "alpha \<noteq> 0"
  by (simp add: alpha_def)

end
