(* ===== verification/Gf.thy ===== *)
theory Gf
  imports Gf_Field
begin

text \<open>
  The tables of \<open>lib/libfec/lib/source/fec.c\<close>, with \<open>GF_BITS\<close> = 8 as the build has it:
  \<open>modnn\<close>, \<open>generate_gf\<close>, \<open>init_mul_table\<close> and \<open>init_fec\<close> as functions on the record of the static
  arrays, and the proof that after \<open>init_fec\<close> they hold the powers, logarithms, inverses and
  products of the field of \<open>Gf_Field\<close> (\<open>gf_ready\<close>).
\<close>

section \<open>The tables of the code\<close>

abbreviation GF_BITS :: nat where
  "GF_BITS \<equiv> 8"

abbreviation GF_SIZE :: nat where
  "GF_SIZE \<equiv> 255"

definition allPp :: "string option list" where
  "allPp =
     [None, None, Some ''111'', Some ''1101'', Some ''11001'', Some ''101001'',
      Some ''1100001'', Some ''10010001'', Some ''101110001'', Some ''1000100001'',
      Some ''10010000001'', Some ''101000000001'', Some ''1100101000001'',
      Some ''11011000000001'', Some ''110000100010001'', Some ''1100000000000001'',
      Some ''11010000000010001'']"

text \<open>
  The static arrays. \<open>inverse_of\<close> is the array \<open>inverse\<close>, \<open>mul_table\<close> the array
  \<open>gf_mul_table\<close>, a list of rows. Before \<open>init_fec\<close> runs they are zero.
\<close>

record gf_tables =
  gf_exp :: "gf list"
  gf_log :: "int list"
  inverse_of :: "gf list"
  mul_table :: "gf list list"

definition gf_static :: gf_tables where
  "gf_static = \<lparr>gf_exp = replicate (2 * GF_SIZE) 0, gf_log = replicate (GF_SIZE + 1) 0,
     inverse_of = replicate (GF_SIZE + 1) 0,
     mul_table = replicate (GF_SIZE + 1) (replicate (GF_SIZE + 1) 0)\<rparr>"

function modnn :: "int \<Rightarrow> gf" where
  "modnn x =
     (if x \<ge> int GF_SIZE
      then let x = x - int GF_SIZE
           in modnn (drop_bit GF_BITS x + (x AND int GF_SIZE))
      else word_of_int x)"
  by pat_completeness auto

lemma modnn_step:
  fixes x :: int
  shows "drop_bit GF_BITS x + (x AND int GF_SIZE) = x - int GF_SIZE * (x div 256)"
proof -
  have "x AND int GF_SIZE = x mod 256"
    using take_bit_eq_mask [of GF_BITS x] by (simp add: take_bit_eq_mod mask_eq_exp_minus_1)
  then show ?thesis
    by (simp add: drop_bit_eq_div minus_mult_div_eq_mod [symmetric])
qed

termination modnn
proof (relation "measure nat", goal_cases)
  case (2 x y)
  then have "drop_bit GF_BITS y + (y AND int GF_SIZE) \<le> y"
    unfolding modnn_step by simp
  with 2 show ?case by simp
qed simp

declare modnn.simps [simp del]

text \<open>\<open>generate_gf\<close>: its first loop works on the pair of the mask and the tables.\<close>

definition gf_low_step :: "string \<Rightarrow> nat \<Rightarrow> gf \<times> gf_tables \<Rightarrow> gf \<times> gf_tables" where
  "gf_low_step Pp i = (\<lambda>(mask, t).
     let t = t\<lparr>gf_exp := (gf_exp t)[i := mask]\<rparr>;
         t = t\<lparr>gf_log := (gf_log t)[unat (gf_exp t ! i) := int i]\<rparr>;
         t = (if Pp ! i = CHR ''1''
              then t\<lparr>gf_exp := (gf_exp t)[GF_BITS := gf_exp t ! GF_BITS XOR mask]\<rparr> else t)
     in (push_bit 1 mask, t))"

definition gf_high_step :: "nat \<Rightarrow> gf_tables \<Rightarrow> gf_tables" where
  "gf_high_step i t =
     (let mask = push_bit (GF_BITS - 1) 1;
          e = (if gf_exp t ! (i - 1) \<ge> mask
               then gf_exp t ! GF_BITS XOR push_bit 1 (gf_exp t ! (i - 1) XOR mask)
               else push_bit 1 (gf_exp t ! (i - 1)));
          t = t\<lparr>gf_exp := (gf_exp t)[i := e]\<rparr>
      in t\<lparr>gf_log := (gf_log t)[unat (gf_exp t ! i) := int i]\<rparr>)"

definition gf_copy_step :: "nat \<Rightarrow> gf_tables \<Rightarrow> gf_tables" where
  "gf_copy_step i t = t\<lparr>gf_exp := (gf_exp t)[i + GF_SIZE := gf_exp t ! i]\<rparr>"

definition gf_inverse_step :: "nat \<Rightarrow> gf_tables \<Rightarrow> gf_tables" where
  "gf_inverse_step i t =
     t\<lparr>inverse_of := (inverse_of t)[i := gf_exp t ! nat (int GF_SIZE - gf_log t ! i)]\<rparr>"

definition generate_gf :: "gf_tables \<Rightarrow> gf_tables" where
  "generate_gf t =
     (let Pp = the (allPp ! GF_BITS);
          t = t\<lparr>gf_exp := (gf_exp t)[GF_BITS := 0]\<rparr>;
          (mask, t) = fold (gf_low_step Pp) [0..<GF_BITS] (1, t);
          t = t\<lparr>gf_log := (gf_log t)[unat (gf_exp t ! GF_BITS) := int GF_BITS]\<rparr>;
          t = fold gf_high_step [GF_BITS + 1..<GF_SIZE] t;
          t = t\<lparr>gf_log := (gf_log t)[0 := int GF_SIZE]\<rparr>;
          t = fold gf_copy_step [0..<GF_SIZE] t;
          t = t\<lparr>inverse_of := (inverse_of t)[0 := 0, 1 := 1]\<rparr>
      in fold gf_inverse_step [2..<GF_SIZE + 1] t)"

definition mul_entry :: "gf_tables \<Rightarrow> nat \<Rightarrow> nat \<Rightarrow> gf" where
  "mul_entry t i j = gf_exp t ! unat (modnn (gf_log t ! i + gf_log t ! j))"

definition table_put :: "'a list list \<Rightarrow> nat \<Rightarrow> nat \<Rightarrow> 'a \<Rightarrow> 'a list list" where
  "table_put m i j x = m[i := (m ! i)[j := x]]"

definition init_mul_table :: "gf_tables \<Rightarrow> gf_tables" where
  "init_mul_table t =
     (let t = fold (\<lambda>i. fold (\<lambda>j t.
            t\<lparr>mul_table := table_put (mul_table t) i j (mul_entry t i j)\<rparr>) [0..<GF_SIZE + 1])
            [0..<GF_SIZE + 1] t
      in fold (\<lambda>j t.
            let t = t\<lparr>mul_table := table_put (mul_table t) j 0 0\<rparr>
            in t\<lparr>mul_table := table_put (mul_table t) 0 j 0\<rparr>) [0..<GF_SIZE + 1] t)"

definition init_fec :: "gf_tables \<Rightarrow> gf_tables" where
  "init_fec t = init_mul_table (generate_gf t)"

definition gf_mul :: "gf_tables \<Rightarrow> gf \<Rightarrow> gf \<Rightarrow> gf" where
  "gf_mul t x y = mul_table t ! unat x ! unat y"

section \<open>What the tables hold\<close>

lemma modnn_mod: "0 \<le> x \<Longrightarrow> modnn x = word_of_int (x mod 255)"
proof (induction x rule: modnn.induct)
  case (1 x)
  show ?case
  proof (cases "x \<ge> 255")
    case True
    define y where "y = x - int GF_SIZE"
    have eq: "drop_bit GF_BITS y + (y AND int GF_SIZE) = y - 255 * (y div 256)"
      unfolding modnn_step by simp
    have "0 \<le> y - 255 * (y div 256)" using True unfolding y_def by simp
    then have "modnn (y - 255 * (y div 256)) = word_of_int ((y - 255 * (y div 256)) mod 255)"
      using 1 True eq y_def by simp
    also have "(y - 255 * (y div 256)) mod 255 = x mod 255"
      unfolding y_def by (simp add: mod_diff_right_eq [symmetric] mod_diff_left_eq [symmetric]) 
    finally show ?thesis
      using True eq unfolding modnn.simps [of x] y_def Let_def by simp
  next
    case False
    with 1 show ?thesis by (simp add: modnn.simps [of x])
  qed
qed

lemma unat_modnn: "0 \<le> x \<Longrightarrow> unat (modnn x) = nat (x mod 255)"
proof -
  assume "0 \<le> x"
  have "0 \<le> x mod 255" "x mod 255 < 255" by simp_all
  with modnn_mod [OF \<open>0 \<le> x\<close>] show ?thesis
    by (simp add: unat_eq_nat_uint uint_word_of_int) 
qed

text \<open>The state of the two generating loops before index \<open>i\<close>.\<close>

definition gf_upto :: "nat \<Rightarrow> gf_tables \<Rightarrow> bool" where
  "gf_upto i t \<longleftrightarrow> length (gf_exp t) = 510 \<and> length (gf_log t) = 256 \<and>
     (\<forall>j<i. gf_exp t ! j = xshift j 1 \<and> gf_log t ! unat (xshift j 1 :: gf) = int j)"

lemma gf_upto_put:
  assumes "gf_upto i t" and "i < 255" and "e = xshift i 1"
  shows "gf_upto (Suc i) (t\<lparr>gf_exp := (gf_exp t)[i := e], gf_log := (gf_log t)[unat e := int i]\<rparr>)"
proof -
  have lt: "unat (x :: gf) < 256" for x using unsigned_less [of x, where ?'a = nat] by simp
  have "unat (xshift i 1 :: gf) \<noteq> unat (xshift j 1 :: gf)" if "j < i" for j
    using inj_onD [OF xshift_inj, of j i] that assms(2) by (auto simp flip: word_unat_eq_iff)
  with assms lt show ?thesis
    unfolding gf_upto_def by (auto simp: less_Suc_eq nth_list_update)
qed

lemma xshift_push_bit: "n < 8 \<Longrightarrow> xshift n 1 = push_bit n 1"
proof (induction n)
  case (Suc n)
  then have "\<not> bit (xshift n 1 :: gf) 7" by (simp only: bit_push_bit_iff bit_1_iff) simp
  with Suc show ?case
    by (simp only: xshift_Suc xtime_def if_False xor.right_neutral push_bit_push_bit) simp
qed simp

lemma take_bit_Suc_xor:
  "i < 8 \<Longrightarrow> take_bit (Suc i) (a :: gf) = (if bit a i then take_bit i a XOR push_bit i 1 else take_bit i a)"
  by (rule bit_word_eqI)
    (auto simp: bit_take_bit_iff bit_xor_iff bit_push_bit_iff bit_1_iff less_Suc_eq simp del: push_bit_of_1)

definition gf_poly :: gf where
  "gf_poly = 29"

definition gf_low_ok :: "nat \<Rightarrow> gf \<times> gf_tables \<Rightarrow> bool" where
  "gf_low_ok i = (\<lambda>(mask, t). mask = push_bit i 1 \<and> gf_upto i t \<and> gf_exp t ! 8 = take_bit i gf_poly)"

lemma gf_low_step_ok:
  assumes "gf_low_ok i (m, t)" and "i < 8"
  shows "gf_low_ok (Suc i) (gf_low_step ''101110001'' i (m, t))"
proof -
  define t' where
    "t' = t\<lparr>gf_exp := (gf_exp t)[i := m], gf_log := (gf_log t)[unat m := int i]\<rparr>"
  have m: "m = xshift i 1" and t: "gf_upto i t" "gf_exp t ! 8 = take_bit i gf_poly"
    using assms by (simp_all add: gf_low_ok_def xshift_push_bit)
  have len: "length (gf_exp t) = 510" using t(1) by (simp add: gf_upto_def)
  have t': "gf_upto (Suc i) t'" "gf_exp t' ! 8 = take_bit i gf_poly"
    unfolding t'_def using gf_upto_put [OF t(1) _ m] t(2) assms(2) by simp_all
  have Pp: "''101110001'' ! i = CHR ''1'' \<longleftrightarrow> bit gf_poly i"
    using assms(2) by (auto simp: gf_poly_def less_Suc_eq numeral_eq_Suc)
  have step: "gf_low_step ''101110001'' i (m, t) = (push_bit 1 m,
      if bit gf_poly i then t'\<lparr>gf_exp := (gf_exp t')[8 := gf_exp t' ! 8 XOR m]\<rparr> else t')"
    using Pp len assms(2) unfolding gf_low_step_def Let_def t'_def by simp
  have sum: "take_bit (Suc i) gf_poly = (if bit gf_poly i then take_bit i gf_poly XOR push_bit i 1 else take_bit i gf_poly)"
    using assms(2) by (rule take_bit_Suc_xor)
  have m_next: "push_bit 1 m = push_bit (Suc i) 1" "m = push_bit i 1"
    using assms(1) by (simp_all add: gf_low_ok_def push_bit_push_bit)
  define t2 where
    "t2 = (if bit gf_poly i then t'\<lparr>gf_exp := (gf_exp t')[8 := gf_exp t' ! 8 XOR m]\<rparr> else t')"
  have len': "length (gf_exp t') = 510" using t'(1) by (simp add: gf_upto_def)
  have "gf_upto (Suc i) t2"
    using t'(1) assms(2) by (auto simp: t2_def gf_upto_def)
  moreover have "gf_exp t2 ! 8 = take_bit (Suc i) gf_poly"
    unfolding t2_def sum m_next(2) [symmetric] using t'(2) len' by simp
  ultimately show ?thesis
    using m_next(1) unfolding step t2_def [symmetric] by (simp add: gf_low_ok_def)
qed

lemma gf_high_step_ok:
  assumes "gf_upto i t" and "9 \<le> i" and "i < 255"
  shows "gf_upto (Suc i) (gf_high_step i t)"
proof -
  have prev: "gf_exp t ! (i - 1) = xshift (i - 1) 1" and eight: "gf_exp t ! 8 = 29"
    and len: "length (gf_exp t) = 510"
    using assms xshift_small(4) by (auto simp: gf_upto_def)
  have "xshift i 1 = xtime (xshift (i - 1) 1 :: gf)"
    using assms(2) xshift_Suc [of "i - 1" 1] by simp
  then have val: "(if xshift (i - 1) 1 \<ge> (128 :: gf) then 29 XOR push_bit 1 (xshift (i - 1) 1 XOR 128)
      else push_bit 1 (xshift (i - 1) 1)) = xshift i 1"
    by (simp only: xtime_cond)
  have m: "push_bit (GF_BITS - 1) 1 = (128 :: gf)" by simp
  show ?thesis
    using gf_upto_put [OF assms(1,3) refl] len assms(3)
    unfolding gf_high_step_def Let_def prev eight m val by simp
qed

text \<open>The tables after \<open>generate_gf\<close>.\<close>

definition gf_generated :: "gf_tables \<Rightarrow> bool" where
  "gf_generated t \<longleftrightarrow>
     (\<forall>i<510. gf_exp t ! i = xshift i 1) \<and>
     (\<forall>i<255. gf_log t ! unat (xshift i 1 :: gf) = int i) \<and>
     gf_log t ! 0 = 255 \<and>
     (\<forall>x. inverse_of t ! unat x = pinverse x)"

lemma xshift_period: "xshift (i + 255) 1 = xshift i 1"
  by (simp only: xshift_add xshift_order_steps)

definition gf_sized :: "gf_tables \<Rightarrow> bool" where
  "gf_sized t \<longleftrightarrow> length (gf_exp t) = 510 \<and> length (gf_log t) = 256 \<and>
     length (inverse_of t) = 256 \<and> length (mul_table t) = 256 \<and>
     (\<forall>r\<in>set (mul_table t). length r = 256)"

lemma gf_static_sized: "gf_sized gf_static"
  by (simp add: gf_sized_def gf_static_def)

definition gf_frame :: "gf_tables \<Rightarrow> gf_tables \<Rightarrow> bool" where
  "gf_frame t u \<longleftrightarrow> length (gf_exp t) = length (gf_exp u) \<and> length (gf_log t) = length (gf_log u) \<and>
     inverse_of t = inverse_of u \<and> mul_table t = mul_table u"

lemma generate_gf_upto_8:
  assumes "gf_sized t"
  shows "case fold (gf_low_step (the (allPp ! GF_BITS))) [0..<GF_BITS]
           (1, t\<lparr>gf_exp := (gf_exp t)[GF_BITS := 0]\<rparr>) of
         (m, u) \<Rightarrow> gf_upto 8 u \<and> gf_exp u ! 8 = 29 \<and> inverse_of u = inverse_of t
                  \<and> mul_table u = mul_table t"
proof -
  let ?t = "t\<lparr>gf_exp := (gf_exp t)[GF_BITS := 0]\<rparr>"
  define P where "P i s \<longleftrightarrow> gf_low_ok i s \<and> inverse_of (snd s) = inverse_of t
      \<and> mul_table (snd s) = mul_table t" for i s
  have Pp: "the (allPp ! GF_BITS) = ''101110001''" by (simp add: allPp_def)
  have start: "P 0 (1, ?t)"
    using assms by (simp add: P_def gf_low_ok_def gf_upto_def gf_sized_def)
  have step: "P (Suc i) (gf_low_step ''101110001'' i s)" if "i < GF_BITS" "P i s" for i s
  proof -
    have "inverse_of (snd (gf_low_step pp i s)) = inverse_of (snd s)"
      "mul_table (snd (gf_low_step pp i s)) = mul_table (snd s)" for pp
      by (cases s; simp add: gf_low_step_def Let_def)+
    then show ?thesis
      using that gf_low_step_ok [of i "fst s" "snd s"] by (simp add: P_def)
  qed
  have "P GF_BITS (fold (gf_low_step ''101110001'') [0..<GF_BITS] (1, ?t))"
    by (rule fold_upt_invariant [where P = P]) (use start step in auto)
  moreover have "take_bit GF_BITS gf_poly = 29" by (simp add: gf_poly_def)
  ultimately show ?thesis
    unfolding Pp by (auto simp: P_def gf_low_ok_def split: prod.split)
qed

lemma gf_frame_trans: "gf_frame t u \<Longrightarrow> gf_frame u v \<Longrightarrow> gf_frame t v"
  by (simp add: gf_frame_def)

lemma generate_gf_high:
  assumes "gf_upto 9 t"
  shows "gf_upto 255 (fold gf_high_step [GF_BITS + 1..<GF_SIZE] t) \<and>
    gf_frame (fold gf_high_step [GF_BITS + 1..<GF_SIZE] t) t"
proof -
  have frame: "gf_frame (gf_high_step i u) u" for i u
    by (simp add: gf_frame_def gf_high_step_def Let_def)
  show ?thesis
    by (rule fold_upt_invariant [where P = "\<lambda>i u. gf_upto i u \<and> gf_frame u t"])
       (use assms gf_high_step_ok frame gf_frame_trans in \<open>auto simp: gf_frame_def\<close>)
qed

lemma generate_gf_copy:
  assumes "gf_upto 255 t"
  shows "let u = fold gf_copy_step [0..<GF_SIZE] t in
    length (gf_exp u) = 510 \<and> (\<forall>i<510. gf_exp u ! i = xshift i 1) \<and>
    gf_log u = gf_log t \<and> inverse_of u = inverse_of t \<and> mul_table u = mul_table t"
proof -
  define P where "P i u \<longleftrightarrow> length (gf_exp u) = 510 \<and> (\<forall>j<255 + i. gf_exp u ! j = xshift j 1) \<and>
    gf_log u = gf_log t \<and> inverse_of u = inverse_of t \<and> mul_table u = mul_table t" for i and u :: gf_tables
  have "P GF_SIZE (fold gf_copy_step [0..<GF_SIZE] t)"
  proof (rule fold_upt_invariant [where P = P])
    show "P 0 t" using assms by (simp add: P_def gf_upto_def)
  next
    fix i u assume "i < GF_SIZE" and P: "P i u"
    then have "gf_exp u ! i = xshift (i + 255) 1"
      unfolding xshift_period by (simp add: P_def)
    with P \<open>i < GF_SIZE\<close> show "P (Suc i) (gf_copy_step i u)"
      unfolding P_def gf_copy_step_def by (auto simp: less_Suc_eq nth_list_update add.commute)
  qed simp
  then show ?thesis by (simp add: P_def Let_def)
qed

lemma pinverse_xshift_sub: "0 < n \<Longrightarrow> n \<le> 255 \<Longrightarrow> pinverse (xshift n 1) = xshift (255 - n) 1"
proof -
  assume n: "0 < n" "n \<le> 255"
  then have "n * 254 = (255 - n) + 255 * (n - 1)"
    by (cases n) simp_all
  then have "xshift (n * 254) 1 = xshift (255 - n) (xshift (255 * (n - 1)) (1 :: gf))"
    by (simp only: xshift_add)
  also have "xshift (255 * (n - 1)) 1 = (1 :: gf)"
    by (rule xshift_mult [OF xshift_order_steps(4)])
  finally show ?thesis by (simp only: pinverse_xshift)
qed

lemma generate_gf_inverse:
  assumes "\<forall>i<510. gf_exp t ! i = xshift i 1"
    and "\<forall>i<255. gf_log t ! unat (xshift i 1 :: gf) = int i"
    and "length (inverse_of t) = 256" "inverse_of t ! 0 = 0" "inverse_of t ! 1 = 1"
  shows "let u = fold gf_inverse_step [2..<GF_SIZE + 1] t in
    gf_exp u = gf_exp t \<and> gf_log u = gf_log t \<and> mul_table u = mul_table t \<and>
    length (inverse_of u) = 256 \<and> (\<forall>i<256. inverse_of u ! i = pinverse (of_nat i))"
proof -
  define P where "P i u \<longleftrightarrow> gf_exp u = gf_exp t \<and> gf_log u = gf_log t \<and> mul_table u = mul_table t \<and>
    length (inverse_of u) = 256 \<and> (\<forall>j<i. inverse_of u ! j = pinverse (of_nat j))" for i and u :: gf_tables
  have "P (GF_SIZE + 1) (fold gf_inverse_step [2..<GF_SIZE + 1] t)"
  proof (rule fold_upt_invariant [where P = P])
    have "pinverse 1 = (1 :: gf)" using pinverse_left [of 1] pmul_commute pmul_1 by simp
    with assms show "P 2 t"
      by (auto simp: P_def less_2_cases_iff pinverse_0)
  next
    fix i u assume i: "2 \<le> i" "i < GF_SIZE + 1" and P: "P i u"
    have "(of_nat i :: gf) \<noteq> 0" and val: "unat (of_nat i :: gf) = i"
      using i by (auto simp: unat_of_nat take_bit_eq_mod of_nat_eq_0_iff word_of_nat_eq_0_iff dest: dvd_imp_le)
    then obtain n where "n < 255" and "of_nat i = (xshift n 1 :: gf)" using xshift_surj by blast
    with val have n: "n < 255" "i = unat (xshift n 1 :: gf)" "xshift n 1 = (of_nat i :: gf)"
      by simp_all
    have "n \<noteq> 0" using n(2) i(1) by (cases "n = 0") simp_all
    have "gf_exp t ! nat (int GF_SIZE - gf_log t ! i) = xshift (255 - n) 1"
    proof -
      have "gf_log t ! i = int n" using assms(2) n(1) unfolding n(2) by blast
      then have "nat (int GF_SIZE - gf_log t ! i) = 255 - n" using n(1) by simp
      then show ?thesis using assms(1) n(1) by simp
    qed
    also have "\<dots> = pinverse (of_nat i)"
      unfolding n(3) [symmetric] using \<open>n \<noteq> 0\<close> n(1) by (intro pinverse_xshift_sub [symmetric]) simp_all
    finally show "P (Suc i) (gf_inverse_step i u)"
      using P i unfolding P_def gf_inverse_step_def by (auto simp: less_Suc_eq)
  qed simp
  then show ?thesis by (simp add: P_def Let_def)
qed

lemma generate_gf_generated:
  assumes "gf_sized t"
  shows "gf_generated (generate_gf t) \<and> mul_table (generate_gf t) = mul_table t"
proof -
  obtain m t1 where t1: "fold (gf_low_step (the (allPp ! GF_BITS))) [0..<GF_BITS]
      (1, t\<lparr>gf_exp := (gf_exp t)[GF_BITS := 0]\<rparr>) = (m, t1)" by force
  have low: "gf_upto 8 t1" "gf_exp t1 ! 8 = 29" "inverse_of t1 = inverse_of t" "mul_table t1 = mul_table t"
    using generate_gf_upto_8 [OF assms] t1 by auto
  define t2 where "t2 = t1\<lparr>gf_log := (gf_log t1)[unat (gf_exp t1 ! GF_BITS) := int GF_BITS]\<rparr>"
  have "gf_upto (Suc 8) (t1\<lparr>gf_exp := (gf_exp t1)[8 := 29], gf_log := (gf_log t1)[unat (29 :: gf) := int 8]\<rparr>)"
    by (rule gf_upto_put [OF low(1)]) (simp_all add: xshift_small)
  moreover have "(gf_exp t1)[8 := 29] = gf_exp t1" using low(2) by (metis list_update_id)
  ultimately have t2: "gf_upto 9 t2" "inverse_of t2 = inverse_of t" "mul_table t2 = mul_table t"
    unfolding t2_def low(2) using low(3,4) by simp_all
  define t3 where "t3 = fold gf_high_step [GF_BITS + 1..<GF_SIZE] t2"
  have t3: "gf_upto 255 t3" "inverse_of t3 = inverse_of t" "mul_table t3 = mul_table t"
    using generate_gf_high [OF t2(1)] t2(2,3) unfolding t3_def gf_frame_def by auto
  define t4 where "t4 = t3\<lparr>gf_log := (gf_log t3)[0 := int GF_SIZE]\<rparr>"
  have nz: "unat (xshift n 1 :: gf) \<noteq> 0" for n by (simp add: unat_eq_zero)
  have t4: "gf_upto 255 t4" "gf_log t4 ! 0 = 255"
    using t3(1) nz by (auto simp: t4_def gf_upto_def)
  define t5 where "t5 = fold gf_copy_step [0..<GF_SIZE] t4"
  have t5: "length (gf_exp t5) = 510" "\<forall>i<510. gf_exp t5 ! i = xshift i 1"
    "gf_log t5 = gf_log t4" "inverse_of t5 = inverse_of t" "mul_table t5 = mul_table t"
    using generate_gf_copy [OF t4(1)] t3(2,3) unfolding t5_def Let_def t4_def by auto
  define t6 where "t6 = t5\<lparr>inverse_of := (inverse_of t5)[0 := 0, 1 := 1]\<rparr>"
  define t7 where "t7 = fold gf_inverse_step [2..<GF_SIZE + 1] t6"
  have logs: "\<forall>i<255. gf_log t6 ! unat (xshift i 1 :: gf) = int i"
    using t4(1) by (simp add: t6_def t5(3) gf_upto_def)
  have inv: "length (inverse_of t6) = 256" "inverse_of t6 ! 0 = 0" "inverse_of t6 ! 1 = 1"
    using assms by (simp_all add: t6_def t5(4) gf_sized_def)
  have exps: "\<forall>i<510. gf_exp t6 ! i = xshift i 1" using t5(2) by (simp add: t6_def)
  have t7: "gf_exp t7 = gf_exp t6" "gf_log t7 = gf_log t6" "mul_table t7 = mul_table t"
    "\<forall>i<256. inverse_of t7 ! i = pinverse (of_nat i)"
    using generate_gf_inverse [OF exps logs inv] t5(5) unfolding t7_def Let_def t6_def by auto
  have "inverse_of t7 ! unat x = pinverse x" for x
    using t7(4) unsigned_less [of x, where ?'a = nat] by simp
  then have "gf_generated t7"
    using exps logs t4(2) t7(1,2) by (simp add: gf_generated_def t6_def t5(3))
  moreover have "generate_gf t = t7"
    unfolding generate_gf_def Let_def t1 prod.case t7_def t6_def t5_def t4_def t3_def t2_def ..
  ultimately show ?thesis using t7(3) by simp
qed

text \<open>The multiplication table: each entry of a doubly nested loop is what the body writes there.\<close>

lemma fold_row:
  assumes "length m = 256" and "i < 256" and "\<forall>r\<in>set m. length r = 256" and "b \<le> 256"
  shows "let u = fold (\<lambda>j m. table_put m i j (f j)) [0..<b] m in
    length u = 256 \<and> (\<forall>r\<in>set u. length r = 256) \<and>
    (\<forall>j<256. u ! i ! j = (if j < b then f j else m ! i ! j)) \<and> (\<forall>k<256. k \<noteq> i \<longrightarrow> u ! k = m ! k)"
  using assms(4)
proof (induction b)
  case 0
  then show ?case using assms by simp
next
  case (Suc b)
  define u where "u = fold (\<lambda>j m. table_put m i j (f j)) [0..<b] m"
  have u: "length u = 256" "\<forall>r\<in>set u. length r = 256"
    "\<forall>j<256. u ! i ! j = (if j < b then f j else m ! i ! j)" "\<forall>k<256. k \<noteq> i \<longrightarrow> u ! k = m ! k"
    using Suc by (simp_all add: u_def Let_def)
  have row: "length (u ! i) = 256" using u(1,2) assms(2) by simp
  have "fold (\<lambda>j m. table_put m i j (f j)) [0..<Suc b] m = u[i := (u ! i)[b := f b]]"
    by (simp add: u_def table_put_def)
  then show ?case
    using u row assms(2) Suc.prems
    by (auto simp: Let_def nth_list_update less_Suc_eq dest!: subsetD [OF set_update_subset_insert])
qed

lemma fold_mul_table:
  assumes "length m = 256" and "\<forall>r\<in>set m. length r = 256" and "a \<le> 256"
  shows "let u = fold (\<lambda>i. fold (\<lambda>j m. table_put m i j (f i j)) [0..<256]) [0..<a] m in
    length u = 256 \<and> (\<forall>r\<in>set u. length r = 256) \<and>
    (\<forall>i<a. \<forall>j<256. u ! i ! j = f i j)"
  using assms(3)
proof (induction a)
  case 0
  then show ?case using assms by simp
next
  case (Suc a)
  define u where "u = fold (\<lambda>i. fold (\<lambda>j m. table_put m i j (f i j)) [0..<256]) [0..<a] m"
  have u: "length u = 256" "\<forall>r\<in>set u. length r = 256" "\<forall>i<a. \<forall>j<256. u ! i ! j = f i j"
    using Suc by (simp_all add: u_def Let_def)
  have a: "a < 256" using Suc.prems by simp
  define v where "v = fold (\<lambda>j m. table_put m a j (f a j)) [0..<256] u"
  have v: "length v = 256" "\<forall>r\<in>set v. length r = 256" "\<forall>j<256. v ! a ! j = f a j"
    "\<forall>k<256. k \<noteq> a \<longrightarrow> v ! k = u ! k"
    using fold_row [OF u(1) a u(2), of 256 "f a"] unfolding v_def Let_def by auto
  have "fold (\<lambda>i. fold (\<lambda>j m. table_put m i j (f i j)) [0..<256]) [0..<Suc a] m = v"
    by (simp add: u_def v_def)
  then show ?case
    using v u(3) a unfolding Let_def by (auto simp: less_Suc_eq)
qed

lemma fold_mul_table_record:
  "fold (\<lambda>i. fold (\<lambda>j t. t\<lparr>mul_table := table_put (mul_table t) i j (mul_entry t i j)\<rparr>) js) is t
   = t\<lparr>mul_table := fold (\<lambda>i. fold (\<lambda>j m. table_put m i j (mul_entry t i j)) js) is (mul_table t)\<rparr>"
proof -
  have entry: "mul_entry (u\<lparr>mul_table := m\<rparr>) i j = mul_entry u i j" for u m i j
    by (simp add: mul_entry_def)
  have row: "fold (\<lambda>j t. t\<lparr>mul_table := table_put (mul_table t) i j (mul_entry t i j)\<rparr>) js u
      = u\<lparr>mul_table := fold (\<lambda>j m. table_put m i j (mul_entry u i j)) js (mul_table u)\<rparr>" for i u
    by (induction js arbitrary: u) (simp_all add: entry)
  show ?thesis
    unfolding row by (induction "is" arbitrary: t) (simp_all add: entry)
qed

lemma fold_zero_borders:
  assumes "length m = 256" and "\<forall>r\<in>set m. length r = 256" and "b \<le> 256"
  shows "let u = fold (\<lambda>j m. table_put (table_put m j 0 0) 0 j 0) [0..<b] m in
    length u = 256 \<and> (\<forall>r\<in>set u. length r = 256) \<and>
    (\<forall>i<256. \<forall>j<256. u ! i ! j = (if (i = 0 \<and> j < b) \<or> (j = 0 \<and> i < b) then 0 else m ! i ! j))"
  using assms(3)
proof (induction b)
  case 0
  then show ?case using assms by simp
next
  case (Suc b)
  define u where "u = fold (\<lambda>j m. table_put (table_put m j 0 (0 :: 'a)) 0 j 0) [0..<b] m"
  have u: "length u = 256" "\<forall>r\<in>set u. length r = 256"
    "\<forall>i<256. \<forall>j<256. u ! i ! j = (if (i = 0 \<and> j < b) \<or> (j = 0 \<and> i < b) then 0 else m ! i ! j)"
    using Suc by (simp_all add: u_def Let_def)
  have put: "length (table_put w i j x) = 256 \<and> (\<forall>r\<in>set (table_put w i j x). length r = 256) \<and>
      (\<forall>k<256. \<forall>l<256. table_put w i j x ! k ! l = (if k = i \<and> l = j then x else w ! k ! l))"
    if "length w = 256" "\<forall>r\<in>set w. length r = 256" "i < 256" "j < 256" for w :: "'a list list" and i j x
    using that by (auto simp: table_put_def nth_list_update dest!: subsetD [OF set_update_subset_insert])
  define v where "v = table_put u b 0 0"
  have v: "length v = 256" "\<forall>r\<in>set v. length r = 256"
    "\<forall>k<256. \<forall>l<256. v ! k ! l = (if k = b \<and> l = 0 then 0 else u ! k ! l)"
    using put [OF u(1,2), of b 0 0] Suc.prems unfolding v_def by auto
  have step: "fold (\<lambda>j m. table_put (table_put m j 0 0) 0 j 0) [0..<Suc b] m = table_put v 0 b 0"
    by (simp add: u_def v_def)
  show ?case
    unfolding step Let_def using put [OF v(1,2), of 0 b 0] v(3) u(3) Suc.prems
    by (auto simp: less_Suc_eq)
qed

lemma fold_borders_record:
  "fold (\<lambda>j t. t\<lparr>mul_table := table_put (mul_table t) j 0 0,
        mul_table := table_put (mul_table (t\<lparr>mul_table := table_put (mul_table t) j 0 0\<rparr>)) 0 j 0\<rparr>) js t
   = t\<lparr>mul_table := fold (\<lambda>j m. table_put (table_put m j 0 0) 0 j 0) js (mul_table t)\<rparr>"
  by (induction js arbitrary: t) simp_all

lemma mul_entry_pmul:
  assumes "gf_generated t" and "x \<noteq> 0" and "y \<noteq> 0"
  shows "mul_entry t (unat x) (unat y) = pmul x y"
proof -
  obtain m n where m: "m < 255" "x = xshift m 1" and n: "n < 255" "y = xshift n 1"
    using assms(2,3) xshift_surj by metis
  have "unat (modnn (int m + int n)) = (m + n) mod 255"
    by (simp add: unat_modnn nat_mod_distrib nat_add_distrib)
  then have "mul_entry t (unat x) (unat y) = xshift ((m + n) mod 255) 1"
    using assms(1) m n by (simp add: mul_entry_def gf_generated_def)
  also have "\<dots> = xshift ((m + n) mod 255) (xshift (255 * ((m + n) div 255)) 1)"
    by (simp only: xshift_mult [OF xshift_order_steps(4)])
  also have "\<dots> = xshift (m + n) 1"
    by (simp only: xshift_add [symmetric] mod_mult_div_eq)
  finally show ?thesis using m n by (simp only: pmul_xshift2)
qed

definition gf_ready :: "gf_tables \<Rightarrow> bool" where
  "gf_ready t \<longleftrightarrow> gf_generated t \<and> (\<forall>x y. gf_mul t x y = pmul x y)"

lemma init_fec_ready:
  assumes "gf_sized t"
  shows "gf_ready (init_fec t)"
proof -
  define g where "g = generate_gf t"
  have g: "gf_generated g" and tab: "mul_table g = mul_table t"
    using generate_gf_generated [OF assms] by (simp_all add: g_def)
  define m where "m = fold (\<lambda>i. fold (\<lambda>j m. table_put m i j (mul_entry g i j)) [0..<256]) [0..<256] (mul_table g)"
  have m: "length m = 256" "\<forall>r\<in>set m. length r = 256"
    "\<forall>i<256. \<forall>j<256. m ! i ! j = mul_entry g i j"
    using fold_mul_table [of "mul_table g" 256 "mul_entry g"] assms
    unfolding m_def Let_def tab gf_sized_def by auto
  define z where "z = fold (\<lambda>j m. table_put (table_put m j 0 0) 0 j 0) [0..<256] m"
  have z: "\<forall>i<256. \<forall>j<256. z ! i ! j = (if i = 0 \<or> j = 0 then 0 else mul_entry g i j)"
    using fold_zero_borders [OF m(1,2), of 256] m(3) unfolding z_def Let_def by auto
  have eq: "init_fec t = g\<lparr>mul_table := z\<rparr>"
    unfolding init_fec_def init_mul_table_def g_def [symmetric] fold_mul_table_record Let_def
      fold_borders_record z_def m_def by simp
  have "z ! unat x ! unat y = pmul x y" for x y :: gf
    using z unsigned_less [of x, where ?'a = nat] unsigned_less [of y, where ?'a = nat]
      mul_entry_pmul [OF g, of x y]
    by (auto simp: unat_eq_zero pmul_0_left pmul_0_right)
  with g show ?thesis
    unfolding eq gf_ready_def gf_mul_def gf_generated_def by simp
qed

lemma gf_mul_field: "gf_ready t \<Longrightarrow> Gf (gf_mul t x y) = Gf x * Gf y"
  by (simp add: gf_ready_def Gf_pmul)

lemma gf_inverse_field: "gf_ready t \<Longrightarrow> Gf (inverse_of t ! unat x) = inverse (Gf x)"
  by (simp add: gf_ready_def gf_generated_def Gf_pinverse)

lemma gf_exp_field: "gf_ready t \<Longrightarrow> i < 510 \<Longrightarrow> Gf (gf_exp t ! i) = alpha ^ i"
  by (simp add: gf_ready_def gf_generated_def Gf_xshift)

lemma gf_mul_1_0:
  assumes "gf_ready t"
  shows "gf_mul t 1 x = x" and "gf_mul t 0 x = 0" and "gf_mul t x 0 = 0"
  using assms by (simp_all add: gf_ready_def pmul_1 pmul_0_left pmul_0_right)

text \<open>
  \<open>modnn\<close>, the loop of shifts and masks, returns the remainder
  modulo \<open>GF_SIZE\<close> of every non-negative number, as its comment says.
\<close>

theorem modnn_is_remainder:
  assumes "0 \<le> x"
  shows "int (unat (modnn x)) = x mod int GF_SIZE"
  using unat_modnn [OF assms] by simp

theorem modnn_is_remainder_witness: "int (unat (modnn 65025)) = 65025 mod int GF_SIZE"
  by (rule modnn_is_remainder) simp

text \<open>
  C32 (the field tables). After \<open>init_fec\<close> on the zeroed static arrays, \<open>gf_mul\<close> is for every
  pair of bytes the product of polynomials modulo \<open>1 + x^2 + x^3 + x^4 + x^8\<close>, and \<open>inverse\<close> holds the
  multiplicative inverses; \<open>gf_exp\<close> holds the powers of the generator up to 509, \<open>gf_log\<close> inverts
  it on the first 255, and \<open>gf_log[0]\<close> is \<open>GF_SIZE\<close>.
\<close>

theorem init_fec_tables:
  "(\<forall>x y. Gf (gf_mul (init_fec gf_static) x y) = Gf x * Gf y) \<and>
   (\<forall>x. Gf (inverse_of (init_fec gf_static) ! unat x) = inverse (Gf x)) \<and>
   map (\<lambda>i. Gf (gf_exp (init_fec gf_static) ! i)) [0..<510] = map (\<lambda>i. Gf 2 ^ i) [0..<510] \<and>
   map (\<lambda>i. gf_log (init_fec gf_static) ! unat (gf_exp (init_fec gf_static) ! i)) [0..<255] = [0..254] \<and>
   gf_log (init_fec gf_static) ! 0 = 255"
proof -
  let ?t = "init_fec gf_static"
  have t: "gf_ready ?t" by (rule init_fec_ready [OF gf_static_sized])
  have g: "gf_generated ?t" using t by (simp add: gf_ready_def)
  have logs: "gf_log ?t ! unat (gf_exp ?t ! i) = int i" if "i < 255" for i
    using g that by (simp add: gf_generated_def)
  have "map (\<lambda>i. gf_log ?t ! unat (gf_exp ?t ! i)) [0..<255] = map int [0..<255]"
    using logs by simp
  also have "\<dots> = [0..254]"
    by (rule nth_equalityI) simp_all
  finally have "map (\<lambda>i. gf_log ?t ! unat (gf_exp ?t ! i)) [0..<255] = [0..254]" .
  moreover have "map (\<lambda>i. Gf (gf_exp ?t ! i)) [0..<510] = map (\<lambda>i. Gf 2 ^ i) [0..<510]"
    using gf_exp_field [OF t] by (intro map_cong) (simp_all add: alpha_def)
  ultimately show ?thesis
    using gf_mul_field [OF t] gf_inverse_field [OF t] g unfolding gf_generated_def by blast
qed

end
