(* ===== verification/Fec_Matrix.thy ===== *)
theory Fec_Matrix
  imports Gf
begin

text \<open>
  The linear algebra of \<open>lib/libfec/lib/source/fec.c\<close>: \<open>addmul1\<close> with its loop unrolled by 16,
  \<open>matmul\<close>, and the in-place Gauss-Jordan inversion \<open>invert_mat\<close> with its pivot search, row
  exchanges and final column exchanges. Matrices are flat arrays, row after row, as in the code;
  \<open>&a[r * k]\<close> with its \<open>k\<close> entries is \<open>row_of k r a\<close>, and writing through that pointer is
  \<open>put_row\<close>. \<open>entry k a i j\<close> reads an array as a matrix over \<open>gf256\<close>.

  The correctness of \<open>invert_mat\<close> is stated on the linear relation \<open>y = A x\<close> (\<open>lin\<close>): a pivot step
  exchanges one unknown with one right-hand side, so after all columns the array relates the
  right-hand sides to the unknowns, up to the row exchanges that the last loop undoes.
\<close>

section \<open>The code\<close>

definition gf_addmulc :: "gf_tables \<Rightarrow> gf \<Rightarrow> gf list \<Rightarrow> nat \<Rightarrow> gf list \<Rightarrow> gf list" where
  "gf_addmulc t c src i dst = dst[i := dst ! i XOR gf_mul t c (src ! i)]"

abbreviation UNROLL :: nat where
  "UNROLL \<equiv> 16"

text \<open>The two loops of \<open>addmul1\<close>; \<open>i\<close> is the distance of both pointers from their start.\<close>

function addmul_unrolled :: "gf_tables \<Rightarrow> gf \<Rightarrow> gf list \<Rightarrow> nat \<Rightarrow> nat \<Rightarrow> gf list \<Rightarrow> nat \<times> gf list" where
  "addmul_unrolled t c src sz i dst =
     (if int i < int sz - int UNROLL + 1
      then addmul_unrolled t c src sz (i + UNROLL)
             (fold (\<lambda>d. gf_addmulc t c src (i + d))
                [0, 1, 2, 3, 4, 5, 6, 7, 8, 9, 10, 11, 12, 13, 14, 15] dst)
      else (i, dst))"
  by pat_completeness auto
termination
  by (relation "measure (\<lambda>(t, c, src, sz, i, dst). sz - i)") auto

declare addmul_unrolled.simps [simp del]

function addmul_rest :: "gf_tables \<Rightarrow> gf \<Rightarrow> gf list \<Rightarrow> nat \<Rightarrow> nat \<Rightarrow> gf list \<Rightarrow> gf list" where
  "addmul_rest t c src sz i dst =
     (if i < sz then addmul_rest t c src sz (i + 1) (gf_addmulc t c src i dst) else dst)"
  by pat_completeness auto
termination
  by (relation "measure (\<lambda>(t, c, src, sz, i, dst). sz - i)") auto

declare addmul_rest.simps [simp del]

definition addmul1 :: "gf_tables \<Rightarrow> gf list \<Rightarrow> gf list \<Rightarrow> gf \<Rightarrow> nat \<Rightarrow> gf list" where
  "addmul1 t dst src c sz =
     (let (i, dst) = addmul_unrolled t c src sz 0 dst in addmul_rest t c src sz i dst)"

definition addmul :: "gf_tables \<Rightarrow> gf list \<Rightarrow> gf list \<Rightarrow> gf \<Rightarrow> nat \<Rightarrow> gf list" where
  "addmul t dst src c sz = (if c \<noteq> 0 then addmul1 t dst src c sz else dst)"

definition matmul_acc :: "gf_tables \<Rightarrow> gf list \<Rightarrow> gf list \<Rightarrow> nat \<Rightarrow> nat \<Rightarrow> nat \<Rightarrow> nat \<Rightarrow> gf" where
  "matmul_acc t a b k m row col =
     fold (\<lambda>i acc. acc XOR gf_mul t (a ! (row * k + i)) (b ! (col + i * m))) [0..<k] 0"

definition matmul :: "gf_tables \<Rightarrow> gf list \<Rightarrow> gf list \<Rightarrow> gf list \<Rightarrow> nat \<Rightarrow> nat \<Rightarrow> nat \<Rightarrow> gf list" where
  "matmul t a b c n k m =
     fold (\<lambda>row. fold (\<lambda>col c. c[row * m + col := matmul_acc t a b k m row col]) [0..<m]) [0..<n] c"

definition row_of :: "nat \<Rightarrow> nat \<Rightarrow> gf list \<Rightarrow> gf list" where
  "row_of k r a = take k (drop (r * k) a)"

definition put_row :: "nat \<Rightarrow> nat \<Rightarrow> gf list \<Rightarrow> gf list \<Rightarrow> gf list" where
  "put_row k r xs a = take (r * k) a @ xs @ drop (r * k + k) a"

definition swap_at :: "nat \<Rightarrow> nat \<Rightarrow> 'a list \<Rightarrow> 'a list" where
  "swap_at i j xs = xs[i := xs ! j, j := xs ! i]"

datatype pivot = Found nat nat | Singular | Not_found

fun find_ix :: "gf list \<Rightarrow> nat list \<Rightarrow> nat \<Rightarrow> nat \<Rightarrow> nat list \<Rightarrow> pivot" where
  "find_ix src ipiv k row [] = Not_found"
| "find_ix src ipiv k row (ix # ixs) =
     (if ipiv ! ix = 0
      then if src ! (row * k + ix) \<noteq> 0 then Found row ix else find_ix src ipiv k row ixs
      else if ipiv ! ix > 1 then Singular
      else find_ix src ipiv k row ixs)"

fun find_row :: "gf list \<Rightarrow> nat list \<Rightarrow> nat \<Rightarrow> nat list \<Rightarrow> pivot" where
  "find_row src ipiv k [] = Not_found"
| "find_row src ipiv k (row # rows) =
     (if ipiv ! row \<noteq> 1
      then case find_ix src ipiv k row [0..<k] of
             Not_found \<Rightarrow> find_row src ipiv k rows
           | r \<Rightarrow> r
      else find_row src ipiv k rows)"

definition find_pivot :: "gf list \<Rightarrow> nat list \<Rightarrow> nat \<Rightarrow> nat \<Rightarrow> pivot" where
  "find_pivot src ipiv k col =
     (if ipiv ! col \<noteq> 1 \<and> src ! (col * k + col) \<noteq> 0 then Found col col
      else find_row src ipiv k [0..<k])"

definition swap_rows :: "nat \<Rightarrow> nat \<Rightarrow> nat \<Rightarrow> gf list \<Rightarrow> gf list" where
  "swap_rows k irow icol src =
     (if irow \<noteq> icol
      then fold (\<lambda>ix. swap_at (irow * k + ix) (icol * k + ix)) [0..<k] src
      else src)"

definition scale_pivot_row :: "gf_tables \<Rightarrow> nat \<Rightarrow> gf \<Rightarrow> nat \<Rightarrow> gf list \<Rightarrow> gf list" where
  "scale_pivot_row t icol c k pivot_row =
     (if c \<noteq> 1
      then let c = inverse_of t ! unat c;
               pivot_row = pivot_row[icol := 1]
           in fold (\<lambda>ix p. p[ix := gf_mul t c (p ! ix)]) [0..<k] pivot_row
      else pivot_row)"

definition eliminate_row :: "gf_tables \<Rightarrow> nat \<Rightarrow> nat \<Rightarrow> nat \<Rightarrow> gf list \<Rightarrow> gf list" where
  "eliminate_row t k icol ix src =
     (if ix \<noteq> icol
      then let p = row_of k ix src;
               c = p ! icol;
               p = p[icol := 0]
           in put_row k ix (addmul t p (row_of k icol src) c k) src
      else src)"

definition eliminate :: "gf_tables \<Rightarrow> nat \<Rightarrow> nat \<Rightarrow> gf list \<Rightarrow> gf list" where
  "eliminate t k icol src =
     (let id_row = (replicate k 0)[icol := 1]
      in if row_of k icol src \<noteq> id_row
         then fold (eliminate_row t k icol) [0..<k] src
         else src)"

record gj_state =
  gj_src :: "gf list"
  gj_ipiv :: "nat list"
  gj_indxr :: "nat list"
  gj_indxc :: "nat list"

text \<open>One round of the column loop; \<open>Inl\<close> is the jump to \<open>fail\<close> with the array as it is then.\<close>

definition invert_column :: "gf_tables \<Rightarrow> nat \<Rightarrow> nat \<Rightarrow> gj_state \<Rightarrow> gf list + gj_state" where
  "invert_column t k col s =
     (case find_pivot (gj_src s) (gj_ipiv s) k col of
        Singular \<Rightarrow> Inl (gj_src s)
      | Not_found \<Rightarrow> Inl (gj_src s)
      | Found irow icol \<Rightarrow>
          let ipiv = (gj_ipiv s)[icol := gj_ipiv s ! icol + 1];
              src = swap_rows k irow icol (gj_src s);
              indxr = (gj_indxr s)[col := irow];
              indxc = (gj_indxc s)[col := icol];
              c = row_of k icol src ! icol
          in if c = 0 then Inl src
             else let src = put_row k icol (scale_pivot_row t icol c k (row_of k icol src)) src;
                      src = eliminate t k icol src
                  in Inr \<lparr>gj_src = src, gj_ipiv = ipiv, gj_indxr = indxr, gj_indxc = indxc\<rparr>)"

fun invert_columns :: "gf_tables \<Rightarrow> nat \<Rightarrow> nat list \<Rightarrow> gj_state \<Rightarrow> gf list + gj_state" where
  "invert_columns t k [] s = Inr s"
| "invert_columns t k (col # cols) s =
     (case invert_column t k col s of
        Inl src \<Rightarrow> Inl src
      | Inr s' \<Rightarrow> invert_columns t k cols s')"

definition unscramble_column :: "nat \<Rightarrow> nat list \<Rightarrow> nat list \<Rightarrow> nat \<Rightarrow> gf list \<Rightarrow> gf list" where
  "unscramble_column k indxr indxc col src =
     (if indxr ! col \<ge> k then src
      else if indxc ! col \<ge> k then src
      else if indxr ! col \<noteq> indxc ! col
      then fold (\<lambda>row. swap_at (row * k + indxr ! col) (row * k + indxc ! col)) [0..<k] src
      else src)"

text \<open>
  The result is the return value and the array. \<open>indxr\<close> and \<open>indxc\<close> are not initialised by the
  code; entry \<open>col\<close> is written in round \<open>col\<close>, before the last loop reads it.
\<close>

definition invert_mat :: "gf_tables \<Rightarrow> gf list \<Rightarrow> nat \<Rightarrow> int \<times> gf list" where
  "invert_mat t src k =
     (case invert_columns t k [0..<k]
             \<lparr>gj_src = src, gj_ipiv = replicate k 0,
              gj_indxr = replicate k 0, gj_indxc = replicate k 0\<rparr> of
        Inl src \<Rightarrow> (1, src)
      | Inr s \<Rightarrow>
          (0, fold (unscramble_column k (gj_indxr s) (gj_indxc s)) (rev [0..<k]) (gj_src s)))"

section \<open>Entries of flat arrays\<close>

definition entry :: "nat \<Rightarrow> gf list \<Rightarrow> nat \<Rightarrow> nat \<Rightarrow> gf256" where
  "entry k a i j = Gf (a ! (i * k + j))"

lemma flat_index_less: "i < n \<Longrightarrow> j < (k :: nat) \<Longrightarrow> i * k + j < n * k"
proof -
  assume "i < n" "j < k"
  then have "i * k + j < Suc i * k" by simp
  also have "\<dots> \<le> n * k" using \<open>i < n\<close> by (intro mult_le_mono1) simp
  finally show ?thesis .
qed

lemma flat_index_inject [simp]:
  "j < k \<Longrightarrow> j' < k \<Longrightarrow> i * k + j = i' * k + j' \<longleftrightarrow> i = i' \<and> j = (j' :: nat)"
proof
  assume jk: "j < k" "j' < k" and eq: "i * k + j = i' * k + j'"
  have "i = (i * k + j) div k" "i' = (i' * k + j') div k" using jk by simp_all
  with eq have "i = i'" by simp
  with eq show "i = i' \<and> j = j'" by simp
qed auto

lemma length_row_of: "length a = n * k \<Longrightarrow> r < n \<Longrightarrow> length (row_of k r a) = k"
proof -
  assume "length a = n * k" "r < n"
  moreover have "Suc r * k \<le> n * k" using \<open>r < n\<close> by (intro mult_le_mono1) simp
  ultimately show ?thesis by (simp add: row_of_def)
qed

lemma nth_row_of: "length a = n * k \<Longrightarrow> r < n \<Longrightarrow> j < k \<Longrightarrow> row_of k r a ! j = a ! (r * k + j)"
  using flat_index_less [of r n j k] by (simp add: row_of_def)

lemma put_row_props:
  assumes "length a = n * k" and "r < n" and "length xs = k"
  shows "length (put_row k r xs a) = n * k"
    and "i < n \<Longrightarrow> j < k \<Longrightarrow> put_row k r xs a ! (i * k + j) = (if i = r then xs ! j else a ! (i * k + j))"
proof -
  have le: "Suc r * k \<le> n * k" using assms(2) by (intro mult_le_mono1) simp
  show "length (put_row k r xs a) = n * k"
    using assms le by (simp add: put_row_def)
  assume ij: "i < n" "j < k"
  consider "i < r" | "i = r" | "r < i" by linarith
  then show "put_row k r xs a ! (i * k + j) = (if i = r then xs ! j else a ! (i * k + j))"
  proof cases
    case 1
    then have "i * k + j < r * k" using ij(2) flat_index_less by blast
    with 1 le assms show ?thesis by (simp add: put_row_def nth_append)
  next
    case 2
    with ij le assms show ?thesis by (simp add: put_row_def nth_append)
  next
    case 3
    then have "Suc r * k \<le> i * k" by (intro mult_le_mono1) simp
    then have "\<not> i * k + j < r * k" "\<not> i * k + j - r * k < k" by simp_all
    with 3 le assms ij flat_index_less [OF ij] show ?thesis
      by (simp add: put_row_def nth_append)
  qed
qed

section \<open>\<open>addmul\<close> and \<open>matmul\<close>\<close>

lemma addmul_rest_fold:
  "addmul_rest t c src sz i dst = fold (gf_addmulc t c src) [i..<sz] dst"
proof (induction t c src sz i dst rule: addmul_rest.induct)
  case (1 t c src sz i dst)
  then show ?case by (simp add: addmul_rest.simps [of t c src sz i] upt_conv_Cons)
qed

lemma addmul_block_fold:
  "fold (\<lambda>d. gf_addmulc t c src (i + d)) [0, 1, 2, 3, 4, 5, 6, 7, 8, 9, 10, 11, 12, 13, 14, 15] dst
   = fold (gf_addmulc t c src) [i..<i + 16] dst"
proof -
  have "[i..<i + 16] = map (\<lambda>d. i + d) [0..<16]" using map_add_upt [of i 16] by (simp add: add.commute)
  also have "[0..<16] = [0, 1, 2, 3, 4, 5, 6, 7, 8, 9, 10, 11, 12, 13, 14, 15]" by code_simp
  finally show ?thesis by (simp only: fold_map comp_def)
qed

lemma addmul_unrolled_fold:
  "\<exists>j. addmul_unrolled t c src sz i dst = (j, fold (gf_addmulc t c src) [i..<j] dst) \<and> i \<le> j \<and>
    j \<le> max i sz"
proof (induction t c src sz i dst rule: addmul_unrolled.induct)
  case (1 t c src sz i dst)
  show ?case
  proof (cases "int i < int sz - int UNROLL + 1")
    case True
    obtain j where j: "addmul_unrolled t c src sz (i + UNROLL)
        (fold (gf_addmulc t c src) [i..<i + 16] dst) =
        (j, fold (gf_addmulc t c src) [i + 16..<j] (fold (gf_addmulc t c src) [i..<i + 16] dst))"
      "i + UNROLL \<le> j" "j \<le> max (i + UNROLL) sz"
      using 1 [OF True] unfolding addmul_block_fold by blast
    have "[i..<j] = [i..<i + 16] @ [i + 16..<j]"
      using upt_add_eq_append [of i "i + 16" "j - (i + 16)"] j(2) by simp
    with j True show ?thesis
      unfolding addmul_unrolled.simps [of t c src sz i] addmul_block_fold by auto
  next
    case False
    then show ?thesis by (simp add: addmul_unrolled.simps [of t c src sz i])
  qed
qed

lemma addmul1_fold: "addmul1 t dst src c sz = fold (gf_addmulc t c src) [0..<sz] dst"
proof -
  obtain j where j: "addmul_unrolled t c src sz 0 dst = (j, fold (gf_addmulc t c src) [0..<j] dst)" "j \<le> sz"
    using addmul_unrolled_fold [of t c src sz 0 dst] by auto
  have "[0..<sz] = [0..<j] @ [j..<sz]" using upt_add_eq_append [of 0 j "sz - j"] j(2) by simp
  with j show ?thesis by (simp add: addmul1_def addmul_rest_fold)
qed

lemma length_gf_addmulc [simp]: "length (gf_addmulc t c src i dst) = length dst"
  by (simp add: gf_addmulc_def)

lemma addmulc_fold_nth:
  "length (fold (gf_addmulc t c src) [0..<n] dst) = length dst \<and>
   (\<forall>i<length dst. fold (gf_addmulc t c src) [0..<n] dst ! i =
      (if i < n then dst ! i XOR gf_mul t c (src ! i) else dst ! i))"
  by (induction n) (auto simp: gf_addmulc_def nth_list_update less_Suc_eq)

lemma length_addmul [simp]: "length (addmul t dst src c sz) = length dst"
  by (simp add: addmul_def addmul1_fold addmulc_fold_nth)

lemma addmul_field:
  assumes "gf_ready t" and "i < length dst"
  shows "Gf (addmul t dst src c sz ! i) =
    (if i < sz then Gf (dst ! i) + Gf c * Gf (src ! i) else Gf (dst ! i))"
  using assms
  by (simp add: addmul_def addmul1_fold addmulc_fold_nth Gf_xor gf_mul_field gf_mul_1_0)

lemma Gf_sum_loop: "Gf (fold (\<lambda>i acc. acc XOR f i) [0..<k] 0) = (\<Sum>i<k. Gf (f i))"
  by (induction k) (simp_all add: Gf_xor)

lemma matmul_entries:
  assumes "gf_ready t" and "length c = n * m"
  shows "length (matmul t a b c n k m) = n * m"
    and "i < n \<Longrightarrow> j < m \<Longrightarrow>
      entry m (matmul t a b c n k m) i j = (\<Sum>l<k. entry k a i l * entry m b l j)"
proof -
  have row: "let u = fold (\<lambda>col c. c[row * m + col := f row col]) [0..<q] c in length u = length c \<and>
      (\<forall>i<n. \<forall>j<m. u ! (i * m + j) = (if i = row \<and> j < q then f row j else c ! (i * m + j)))"
    if "length c = n * m" "row < n" "q \<le> m" for c :: "gf list" and f row q
    using that(3)
    by (induction q) (use that flat_index_less in \<open>auto simp: Let_def nth_list_update less_Suc_eq\<close>)
  have all: "let u = fold (\<lambda>row. fold (\<lambda>col c. c[row * m + col := f row col]) [0..<m]) [0..<q] c in
      length u = n * m \<and> (\<forall>i<q. \<forall>j<m. u ! (i * m + j) = f i j)" if "q \<le> n" for f q
    using that
  proof (induction q)
    case (Suc q)
    let ?u = "fold (\<lambda>row. fold (\<lambda>col c. c[row * m + col := f row col]) [0..<m]) [0..<q] c"
    have "length ?u = n * m" "\<forall>i<q. \<forall>j<m. ?u ! (i * m + j) = f i j"
      using Suc by (simp_all add: Let_def)
    with row [of ?u q m f] Suc.prems show ?case
      by (auto simp: Let_def less_Suc_eq)
  qed (use assms in simp)
  show "length (matmul t a b c n k m) = n * m"
    using all [of n "matmul_acc t a b k m"] by (simp add: matmul_def Let_def)
  show "i < n \<Longrightarrow> j < m \<Longrightarrow>
      entry m (matmul t a b c n k m) i j = (\<Sum>l<k. entry k a i l * entry m b l j)"
    using all [of n "matmul_acc t a b k m"]
    by (simp add: matmul_def Let_def entry_def matmul_acc_def Gf_sum_loop gf_mul_field assms
        add.commute)
qed

section \<open>One pivot step on the array\<close>

lemma length_swap_at [simp]: "length (swap_at i j xs) = length xs"
  by (simp add: swap_at_def)

lemma nth_swap_at:
  "i < length xs \<Longrightarrow> j < length xs \<Longrightarrow> l < length xs \<Longrightarrow>
    swap_at i j xs ! l = xs ! (if l = i then j else if l = j then i else l)"
  by (simp add: swap_at_def nth_list_update)

abbreviation exchange :: "nat \<Rightarrow> nat \<Rightarrow> nat \<Rightarrow> nat" where
  "exchange p q i \<equiv> if i = p then q else if i = q then p else i"

lemma swap_rows_entries:
  assumes "length src = k * k" and "p < k" and "q < k"
  shows "length (swap_rows k p q src) = k * k \<and>
    (\<forall>i<k. \<forall>j<k. entry k (swap_rows k p q src) i j = entry k src (exchange p q i) j)"
proof (cases "p = q")
  case True
  then show ?thesis using assms by (simp add: swap_rows_def)
next
  case False
  have "let u = fold (\<lambda>ix. swap_at (p * k + ix) (q * k + ix)) [0..<b] src in length u = k * k \<and>
      (\<forall>i<k. \<forall>j<k. u ! (i * k + j) = src ! (if j < b then exchange p q i * k + j else i * k + j))"
    if "b \<le> k" for b
    using that
  proof (induction b)
    case (Suc b)
    then show ?case
      using assms False flat_index_less [of _ k _ k]
      by (auto simp: Let_def nth_swap_at less_Suc_eq)
  qed (use assms in simp)
  from this [of k] False show ?thesis by (simp add: swap_rows_def entry_def Let_def)
qed

lemma scale_pivot_row_entries:
  assumes "gf_ready t" and "length r = k" and "p < k" and "c = r ! p"
  shows "length (scale_pivot_row t p c k r) = k \<and>
    (\<forall>j<k. Gf (scale_pivot_row t p c k r ! j) =
       (if j = p then (if c = 1 then 1 else inverse (Gf c)) else Gf (r ! j) / Gf c))"
proof (cases "c = 1")
  case True
  with assms have "Gf (r ! p) = 1" by simp
  moreover have "Gf c = 1" using True by simp
  ultimately show ?thesis using True assms by (auto simp: scale_pivot_row_def Gf_1)
next
  case False
  have loop: "length (fold (\<lambda>ix p. p[ix := gf_mul t d (p ! ix)]) [0..<b] v) = length v \<and>
      (\<forall>j<length v. fold (\<lambda>ix p. p[ix := gf_mul t d (p ! ix)]) [0..<b] v ! j =
         (if j < b then gf_mul t d (v ! j) else v ! j))" for d b v
    by (induction b) (auto simp: nth_list_update less_Suc_eq)
  show ?thesis
    using False assms loop [of "inverse_of t ! unat c" k "r[p := 1]"]
    by (simp add: scale_pivot_row_def Let_def gf_mul_field gf_inverse_field divide_inverse mult.commute)
qed

text \<open>The array after scaling row \<open>p\<close> and eliminating it from the others.\<close>

definition pivoted :: "(nat \<Rightarrow> nat \<Rightarrow> gf256) \<Rightarrow> nat \<Rightarrow> nat \<Rightarrow> nat \<Rightarrow> gf256" where
  "pivoted S p i j =
     (let row = \<lambda>j. if j = p then inverse (S p p) else S p j / S p p
      in if i = p then row j
         else if j = p then S i p * row p
         else S i j + S i p * row j)"

lemma eliminate_row_entries:
  assumes "gf_ready t" and "length src = k * k" and "p < k" and "ix < k" and "ix \<noteq> p"
  shows "length (eliminate_row t k p ix src) = k * k \<and>
    (\<forall>i<k. \<forall>j<k. entry k (eliminate_row t k p ix src) i j =
      (if i = ix then (if j = p then 0 else entry k src i j) + entry k src i p * entry k src p j
       else entry k src i j))"
proof -
  define r where "r = (row_of k ix src)[p := 0]"
  have r: "length r = k" using assms by (simp add: r_def length_row_of)
  have el: "eliminate_row t k p ix src =
      put_row k ix (addmul t r (row_of k p src) (row_of k ix src ! p) k) src"
    using assms(5) by (simp add: eliminate_row_def Let_def r_def)
  show ?thesis
    unfolding el entry_def using assms r
    by (auto simp: put_row_props [where n = k] addmul_field nth_row_of [where n = k] r_def
        nth_list_update length_row_of [where n = k])
qed

lemma eliminate_loop_entries:
  assumes "gf_ready t" and "length src = k * k" and "p < k" and "b \<le> k"
  shows "length (fold (eliminate_row t k p) [0..<b] src) = k * k \<and>
    (\<forall>i<k. \<forall>j<k. entry k (fold (eliminate_row t k p) [0..<b] src) i j =
      (if i < b \<and> i \<noteq> p then (if j = p then 0 else entry k src i j) + entry k src i p * entry k src p j
       else entry k src i j))"
  using assms(4)
proof (induction b)
  case (Suc b)
  let ?u = "fold (eliminate_row t k p) [0..<b] src"
  show ?case
  proof (cases "b = p")
    case True
    have "eliminate_row t k p b ?u = ?u" using True by (simp add: eliminate_row_def)
    with Suc True show ?thesis by (auto simp: less_Suc_eq)
  next
    case False
    have u: "length ?u = k * k" using Suc by simp
    show ?thesis
      using eliminate_row_entries [OF assms(1) u assms(3), of b] Suc False assms(3)
      by (auto simp: less_Suc_eq)
  qed
qed (use assms in simp)

lemma eliminate_entries:
  assumes "gf_ready t" and "length src = k * k" and "p < k"
  shows "length (eliminate t k p src) = k * k \<and>
    (\<forall>i<k. \<forall>j<k. entry k (eliminate t k p src) i j =
      (if i \<noteq> p then (if j = p then 0 else entry k src i j) + entry k src i p * entry k src p j
       else entry k src i j))"
proof (cases "row_of k p src = (replicate k 0)[p := 1]")
  case True
  have "entry k src p j = (if j = p then 1 else 0)" if "j < k" for j
  proof -
    have "src ! (p * k + j) = (replicate k 0)[p := 1] ! j"
      using nth_row_of [OF assms(2,3) that] True by simp
    also have "\<dots> = (if j = p then 1 else 0)"
      using that assms(3) by (auto simp: nth_list_update)
    finally show ?thesis by (simp add: entry_def)
  qed
  with True assms(2) show ?thesis by (simp add: eliminate_def)
next
  case False
  then have "eliminate t k p src = fold (eliminate_row t k p) [0..<k] src"
    by (simp add: eliminate_def)
  with eliminate_loop_entries [OF assms(1-3), of k] show ?thesis by simp
qed

lemma pivot_step_entries:
  assumes "gf_ready t" and "length src = k * k" and "p < k"
    and c: "c = row_of k p src ! p" "c \<noteq> 0"
    and v: "v = eliminate t k p (put_row k p (scale_pivot_row t p c k (row_of k p src)) src)"
  shows "length v = k * k" and "\<And>i j. i < k \<Longrightarrow> j < k \<Longrightarrow> entry k v i j = pivoted (entry k src) p i j"
proof -
  define w where "w = put_row k p (scale_pivot_row t p c k (row_of k p src)) src"
  have r: "length (row_of k p src) = k" using assms by (simp add: length_row_of)
  have c': "Gf c = entry k src p p" using assms by (simp add: entry_def nth_row_of)
  note scaled = scale_pivot_row_entries [OF assms(1) r assms(3) c(1)]
  have wlen: "length w = k * k" using put_row_props(1) [OF assms(2,3)] scaled unfolding w_def by blast
  have went: "entry k w i j = (if i = p then (if j = p then inverse (Gf c) else entry k src p j / Gf c)
      else entry k src i j)" if ij: "i < k" "j < k" for i j
  proof -
    have "Gf c = 1 \<Longrightarrow> inverse (Gf c) = 1" by simp
    moreover have "w ! (i * k + j) = (if i = p then scale_pivot_row t p c k (row_of k p src) ! j
        else src ! (i * k + j))"
      unfolding w_def using put_row_props(2) [OF assms(2,3)] scaled ij by blast
    ultimately show ?thesis
      using scaled ij assms(2,3) by (simp add: entry_def nth_row_of)
  qed
  show "length v = k * k"
    unfolding v w_def [symmetric] using eliminate_entries [OF assms(1) wlen assms(3)] by blast
  fix i j assume ij: "i < k" "j < k"
  show "entry k v i j = pivoted (entry k src) p i j"
    unfolding v w_def [symmetric]
    using eliminate_entries [OF assms(1) wlen assms(3)] ij went assms(3)
    by (simp add: pivoted_def c')
qed

section \<open>The linear relation\<close>

definition lin :: "nat \<Rightarrow> (nat \<Rightarrow> nat \<Rightarrow> gf256) \<Rightarrow> (nat \<Rightarrow> gf256) \<Rightarrow> (nat \<Rightarrow> gf256) \<Rightarrow> bool" where
  "lin k A x y \<longleftrightarrow> (\<forall>i<k. y i = (\<Sum>j<k. A i j * x j))"

lemma lin_cong:
  assumes "\<And>i j. i < k \<Longrightarrow> j < k \<Longrightarrow> A i j = B i j" and "\<And>j. j < k \<Longrightarrow> x j = x' j"
    and "\<And>i. i < k \<Longrightarrow> y i = y' i"
  shows "lin k A x y = lin k B x' y'"
  unfolding lin_def using assms by (intro all_cong) simp

lemma sum_remove_index:
  fixes f :: "nat \<Rightarrow> gf256"
  assumes "p < k"
  shows "(\<Sum>j<k. f j) = f p + (\<Sum>j\<in>{..<k} - {p}. f j)"
  using assms by (intro sum.remove) simp_all

lemma sum_unit: "q < k \<Longrightarrow> (\<Sum>j<k. f j * (if j = q then 1 else 0)) = (f q :: gf256)" for k :: nat
  by (subst sum_remove_index [of q]) (simp_all add: sum.neutral)

lemma all_remove_index: "p < k \<Longrightarrow> (\<forall>i<k. Q i) \<longleftrightarrow> Q p \<and> (\<forall>i\<in>{..<k} - {p}. Q i)" for k :: nat
  by auto

lemma all_exchange: "p < k \<Longrightarrow> q < k \<Longrightarrow> (\<forall>i<k. Q (exchange p q i)) \<longleftrightarrow> (\<forall>i<k. Q i)"
proof (intro iffI allI impI)
  fix i assume "p < k" "q < k" and all: "\<forall>i<k. Q (exchange p q i)" and "i < k"
  then have "Q (exchange p q (exchange p q i))" by (intro mp [OF spec [OF all]]) simp
  then show "Q i" by (simp split: if_splits)
qed simp

text \<open>A pivot step exchanges unknown \<open>p\<close> with right-hand side \<open>p\<close>.\<close>

lemma lin_pivoted:
  assumes "p < k" and "S p p \<noteq> 0"
  shows "lin k S v u \<longleftrightarrow> lin k (pivoted S p) (v(p := u p)) (u(p := v p))"
proof -
  let ?R = "{..<k} - {p}"
  define d where "d = S p p"
  define T where "T i = (\<Sum>j\<in>?R. S i j * v j)" for i
  have d: "d \<noteq> 0" using assms by (simp add: d_def)
  have lhs: "lin k S v u \<longleftrightarrow> u p = d * v p + T p \<and> (\<forall>i\<in>?R. u i = S i p * v p + T i)"
    unfolding lin_def T_def d_def all_remove_index [OF assms(1)] sum_remove_index [OF assms(1)] ..
  have row: "(\<Sum>j\<in>?R. pivoted S p p j * v j) = T p / d"
    unfolding T_def sum_divide_distrib by (intro sum.cong) (auto simp: pivoted_def d_def)
  have other: "(\<Sum>j\<in>?R. pivoted S p i j * v j) = T i + S i p * (T p / d)" if "i \<noteq> p" for i
  proof -
    have "(\<Sum>j\<in>?R. pivoted S p i j * v j) = (\<Sum>j\<in>?R. S i j * v j + S i p * (S p j * v j / d))"
      using that by (intro sum.cong) (auto simp: pivoted_def d_def Let_def algebra_simps)
    also have "\<dots> = T i + S i p * (T p / d)"
      by (simp add: sum.distrib T_def sum_distrib_left sum_divide_distrib)
    finally show ?thesis .
  qed
  have sums: "(\<Sum>j\<in>?R. pivoted S p i j * (v(p := u p)) j) = (\<Sum>j\<in>?R. pivoted S p i j * v j)" for i
    by (intro sum.cong) auto
  have rhs: "lin k (pivoted S p) (v(p := u p)) (u(p := v p)) \<longleftrightarrow>
      v p = inverse d * u p + T p / d \<and>
      (\<forall>i\<in>?R. u i = S i p * inverse d * u p + (T i + S i p * (T p / d)))"
    unfolding lin_def all_remove_index [OF assms(1)] sum_remove_index [OF assms(1)] sums row
    using other by (auto simp: pivoted_def d_def Let_def mult.assoc)
  have solve: "u p = d * v p + T p \<longleftrightarrow> v p = inverse d * u p + T p / d"
    using d by (auto simp: field_simps)
  have subst: "S i p * inverse d * u p + (T i + S i p * (T p / d)) = S i p * (inverse d * u p + T p / d) + T i" for i
    by (simp add: algebra_simps)
  show ?thesis
    unfolding lhs rhs subst using solve by auto
qed

lemma lin_exchange_rows:
  assumes "p < k" and "q < k"
  shows "lin k S v u \<longleftrightarrow> lin k (\<lambda>i. S (exchange p q i)) v (\<lambda>i. u (exchange p q i))"
  unfolding lin_def
  by (rule all_exchange [OF assms, where Q = "\<lambda>i. u i = (\<Sum>j<k. S i j * v j)", symmetric])

lemma lin_exchange_cols:
  assumes "p < k" and "q < k"
  shows "lin k S (\<lambda>j. v (exchange p q j)) u \<longleftrightarrow> lin k (\<lambda>i j. S i (exchange p q j)) v u"
proof -
  have "(\<Sum>j<k. S i j * v (exchange p q j)) = (\<Sum>j<k. S i (exchange p q j) * v j)" for i
    by (rule sum.reindex_bij_witness [where i = "exchange p q" and j = "exchange p q"])
      (use assms in auto)
  then show ?thesis by (simp add: lin_def)
qed

section \<open>The pivot search\<close>

definition ipiv_of :: "nat \<Rightarrow> nat set \<Rightarrow> nat list \<Rightarrow> bool" where
  "ipiv_of k P ipiv \<longleftrightarrow> length ipiv = k \<and> P \<subseteq> {..<k} \<and> (\<forall>i<k. ipiv ! i = (if i \<in> P then 1 else 0))"

lemma find_ix_cases:
  assumes "ipiv_of k P ipiv" and "set ixs \<subseteq> {..<k}"
  shows "case find_ix src ipiv k row ixs of
      Found r c \<Rightarrow> r = row \<and> c \<in> set ixs \<and> c \<notin> P \<and> src ! (row * k + c) \<noteq> 0
    | Singular \<Rightarrow> False
    | Not_found \<Rightarrow> \<forall>c\<in>set ixs. c \<notin> P \<longrightarrow> src ! (row * k + c) = 0"
  using assms(2)
proof (induction ixs)
  case (Cons ix ixs)
  then have "ipiv ! ix = (if ix \<in> P then 1 else 0)" using assms(1) by (simp add: ipiv_of_def)
  with Cons show ?case by (auto split: pivot.splits)
qed simp

lemma find_row_cases:
  assumes "ipiv_of k P ipiv" and "set rows \<subseteq> {..<k}"
  shows "case find_row src ipiv k rows of
      Found r c \<Rightarrow> r \<in> set rows \<and> c < k \<and> r \<notin> P \<and> c \<notin> P \<and> src ! (r * k + c) \<noteq> 0
    | Singular \<Rightarrow> False
    | Not_found \<Rightarrow> \<forall>r\<in>set rows. \<forall>c<k. r \<notin> P \<longrightarrow> c \<notin> P \<longrightarrow> src ! (r * k + c) = 0"
  using assms(2)
proof (induction rows)
  case (Cons row rows)
  then have "ipiv ! row = (if row \<in> P then 1 else 0)" using assms(1) by (simp add: ipiv_of_def)
  with Cons find_ix_cases [OF assms(1), where ixs = "[0..<k]" and src = src and row = row] show ?case
    by (auto simp: atLeast0LessThan split: pivot.splits)
qed simp

lemma find_pivot_cases:
  assumes "ipiv_of k P ipiv" and "col < k"
  shows "case find_pivot src ipiv k col of
      Found r c \<Rightarrow> r < k \<and> c < k \<and> r \<notin> P \<and> c \<notin> P \<and> src ! (r * k + c) \<noteq> 0
    | Singular \<Rightarrow> False
    | Not_found \<Rightarrow> \<forall>r<k. \<forall>c<k. r \<notin> P \<longrightarrow> c \<notin> P \<longrightarrow> src ! (r * k + c) = 0"
proof (cases "ipiv ! col \<noteq> 1 \<and> src ! (col * k + col) \<noteq> 0")
  case True
  moreover have "col \<notin> P" using True assms by (auto simp: ipiv_of_def)
  ultimately show ?thesis using assms(2) by (simp add: find_pivot_def)
next
  case False
  then have "find_pivot src ipiv k col = find_row src ipiv k [0..<k]" by (auto simp: find_pivot_def)
  with find_row_cases [OF assms(1), where rows = "[0..<k]" and src = src] show ?thesis
    by (auto simp: atLeast0LessThan split: pivot.splits)
qed

section \<open>The column loop\<close>

fun scrambled :: "nat list \<Rightarrow> nat list \<Rightarrow> nat \<Rightarrow> nat \<Rightarrow> nat" where
  "scrambled r c 0 i = i"
| "scrambled r c (Suc n) i = scrambled r c n (exchange (r ! n) (c ! n) i)"

lemma scrambled_cong:
  "(\<And>m. m < n \<Longrightarrow> r ! m = r' ! m \<and> c ! m = c' ! m) \<Longrightarrow> scrambled r c n i = scrambled r' c' n i"
  by (induction n arbitrary: i) auto

definition unknowns :: "nat set \<Rightarrow> (nat \<Rightarrow> nat) \<Rightarrow> (nat \<Rightarrow> gf256) \<Rightarrow> (nat \<Rightarrow> gf256) \<Rightarrow> nat \<Rightarrow> gf256" where
  "unknowns P z x y j = (if j \<in> P then y (z j) else x j)"

definition results :: "nat set \<Rightarrow> (nat \<Rightarrow> nat) \<Rightarrow> (nat \<Rightarrow> gf256) \<Rightarrow> (nat \<Rightarrow> gf256) \<Rightarrow> nat \<Rightarrow> gf256" where
  "results P z x y i = (if i \<in> P then x i else y (z i))"

lemma unknowns_empty: "unknowns {} z x y = x"
  by (simp add: unknowns_def fun_eq_iff)

lemma results_empty: "results {} (scrambled r c 0) x y = y"
  by (simp add: results_def fun_eq_iff)

text \<open>After \<open>n\<close> columns: \<open>P\<close> is the set of pivoted columns.\<close>

definition gj_inv :: "nat \<Rightarrow> (nat \<Rightarrow> nat \<Rightarrow> gf256) \<Rightarrow> nat \<Rightarrow> nat set \<Rightarrow> gj_state \<Rightarrow> bool" where
  "gj_inv k A n P s \<longleftrightarrow>
     length (gj_src s) = k * k \<and> ipiv_of k P (gj_ipiv s) \<and> card P = n \<and>
     length (gj_indxr s) = k \<and> length (gj_indxc s) = k \<and>
     (\<forall>m<n. gj_indxr s ! m < k \<and> gj_indxc s ! m < k) \<and>
     (\<forall>x y. lin k A x y \<longleftrightarrow>
        lin k (entry k (gj_src s)) (unknowns P (scrambled (gj_indxr s) (gj_indxc s) n) x y)
          (results P (scrambled (gj_indxr s) (gj_indxc s) n) x y))"

lemma gj_step_relation:
  assumes "r < k" "c < k" "r \<notin> P" "c \<notin> P" and nz: "S r c \<noteq> 0"
    and z': "\<And>i. z' i = z (exchange r c i)"
  defines "S1 \<equiv> \<lambda>i. S (exchange r c i)"
  shows "lin k S (unknowns P z x y) (results P z x y) \<longleftrightarrow>
    lin k (pivoted S1 c) (unknowns (insert c P) z' x y) (results (insert c P) z' x y)"
proof -
  have same: "unknowns P z x y = unknowns P z' x y"
    using assms(3,4) by (auto simp: unknowns_def z' fun_eq_iff)
  have vals: "(\<lambda>i. results P z x y (exchange r c i)) = results P z' x y"
    using assms(3,4) by (auto simp: results_def z' fun_eq_iff)
  have "lin k S (unknowns P z x y) (results P z x y) \<longleftrightarrow> lin k S1 (unknowns P z' x y) (results P z' x y)"
    unfolding S1_def same lin_exchange_rows [OF assms(1,2), of S "unknowns P z' x y" "results P z x y"]
      vals ..
  also have "\<dots> \<longleftrightarrow> lin k (pivoted S1 c) ((unknowns P z' x y)(c := results P z' x y c))
      ((results P z' x y)(c := unknowns P z' x y c))"
    using assms(2) nz by (intro lin_pivoted) (auto simp: S1_def)
  also have "(unknowns P z' x y)(c := results P z' x y c) = unknowns (insert c P) z' x y"
    using assms(4) by (auto simp: unknowns_def results_def fun_eq_iff)
  also have "(results P z' x y)(c := unknowns P z' x y c) = results (insert c P) z' x y"
    using assms(4) by (auto simp: unknowns_def results_def fun_eq_iff)
  finally show ?thesis .
qed

text \<open>When no pivot is left, the matrix has a non-zero kernel.\<close>

definition singular :: "nat \<Rightarrow> (nat \<Rightarrow> nat \<Rightarrow> gf256) \<Rightarrow> bool" where
  "singular k A \<longleftrightarrow> (\<exists>x. lin k A x (\<lambda>i. 0) \<and> (\<exists>j<k. x j \<noteq> 0))"

lemma gj_stuck_singular:
  assumes inv: "gj_inv k A n P s" and "n < k"
    and none: "\<forall>r<k. \<forall>c<k. r \<notin> P \<longrightarrow> c \<notin> P \<longrightarrow> gj_src s ! (r * k + c) = 0"
  shows "singular k A"
proof -
  have P: "P \<subseteq> {..<k}" "card P = n" using inv by (auto simp: gj_inv_def ipiv_of_def)
  obtain q where q: "q < k" "q \<notin> P"
    using P assms(2) by (metis card_lessThan lessThan_iff less_irrefl subsetI subset_antisym)
  define x where "x j = (if j \<in> P then entry k (gj_src s) j q else if j = q then 1 else 0)" for j
  have unk: "unknowns P z x (\<lambda>i. 0) j = (if j = q then 1 else 0)" for z j
    using q(2) by (auto simp: unknowns_def x_def)
  have "results P z x (\<lambda>i. 0) i = (\<Sum>j<k. entry k (gj_src s) i j * unknowns P z x (\<lambda>i. 0) j)"
    if "i < k" for z i
  proof -
    have "(\<Sum>j<k. entry k (gj_src s) i j * unknowns P z x (\<lambda>i. 0) j) = entry k (gj_src s) i q"
      unfolding unk using q(1) by (rule sum_unit)
    then show ?thesis
      using none that q by (auto simp: results_def x_def entry_def)
  qed
  then have "lin k (entry k (gj_src s)) (unknowns P z x (\<lambda>i. 0)) (results P z x (\<lambda>i. 0))" for z
    by (auto simp: lin_def)
  then have "lin k A x (\<lambda>i. 0)"
    using inv by (simp only: gj_inv_def)
  moreover have "x q \<noteq> 0" using q(2) by (simp add: x_def)
  ultimately show ?thesis using q(1) unfolding singular_def by blast
qed

lemma invert_column_cases:
  assumes "gf_ready t" and inv: "gj_inv k A n P s" and "n < k"
  shows "case invert_column t k n s of
      Inl _ \<Rightarrow> singular k A
    | Inr s' \<Rightarrow> \<exists>P'. gj_inv k A (Suc n) P' s'"
proof -
  have ip: "ipiv_of k P (gj_ipiv s)" and len: "length (gj_src s) = k * k"
    using inv by (auto simp: gj_inv_def)
  note piv = find_pivot_cases [OF ip assms(3), of "gj_src s"]
  show ?thesis
  proof (cases "find_pivot (gj_src s) (gj_ipiv s) k n")
    case Not_found
    with piv have "singular k A" by (intro gj_stuck_singular [OF inv assms(3)]) simp
    with Not_found show ?thesis by (simp add: invert_column_def)
  next
    case Singular
    with piv show ?thesis by simp
  next
    case (Found r c)
    with piv have rc: "r < k" "c < k" "r \<notin> P" "c \<notin> P" "gj_src s ! (r * k + c) \<noteq> 0" by simp_all
    define src1 where "src1 = swap_rows k r c (gj_src s)"
    have src1: "length src1 = k * k"
      "\<And>i j. i < k \<Longrightarrow> j < k \<Longrightarrow> entry k src1 i j = entry k (gj_src s) (exchange r c i) j"
      using swap_rows_entries [OF len rc(1,2)] by (auto simp: src1_def)
    define d where "d = row_of k c src1 ! c"
    have "Gf d = entry k (gj_src s) r c"
      using src1 rc(2) by (simp add: d_def nth_row_of [OF src1(1)] flip: entry_def)
    then have d: "d \<noteq> 0" using rc(5) by (auto simp: entry_def)
    define src2 where
      "src2 = eliminate t k c (put_row k c (scale_pivot_row t c d k (row_of k c src1)) src1)"
    note ent2 = pivot_step_entries [OF assms(1) src1(1) rc(2) d_def d src2_def]
    define s' where "s' = \<lparr>gj_src = src2, gj_ipiv = (gj_ipiv s)[c := gj_ipiv s ! c + 1],
        gj_indxr = (gj_indxr s)[n := r], gj_indxc = (gj_indxc s)[n := c]\<rparr>"
    have step: "invert_column t k n s = Inr s'"
      using d unfolding invert_column_def Found pivot.case Let_def s'_def src2_def d_def src1_def by simp
    define z where "z = scrambled (gj_indxr s) (gj_indxc s) n"
    define z' where "z' = scrambled (gj_indxr s') (gj_indxc s') (Suc n)"
    have lens: "length (gj_indxr s) = k" "length (gj_indxc s) = k" using inv by (auto simp: gj_inv_def)
    have z': "z' i = z (exchange r c i)" for i
      using lens assms(3) unfolding z'_def z_def s'_def
      by (simp add: scrambled_cong [of n "(gj_indxr s)[n := r]" "gj_indxr s" "(gj_indxc s)[n := c]" "gj_indxc s"])
    have rel: "lin k A x y \<longleftrightarrow> lin k (entry k src2) (unknowns (insert c P) z' x y) (results (insert c P) z' x y)" for x y
    proof -
      have "lin k A x y \<longleftrightarrow> lin k (entry k (gj_src s)) (unknowns P z x y) (results P z x y)"
        using inv unfolding gj_inv_def z_def by blast
      also have "\<dots> \<longleftrightarrow> lin k (pivoted (\<lambda>i. entry k (gj_src s) (exchange r c i)) c)
          (unknowns (insert c P) z' x y) (results (insert c P) z' x y)"
        using rc z' by (intro gj_step_relation) (auto simp: entry_def)
      also have "\<dots> \<longleftrightarrow> lin k (entry k src2) (unknowns (insert c P) z' x y) (results (insert c P) z' x y)"
      proof (intro lin_cong refl)
        fix i j assume "i < k" "j < k"
        then show "pivoted (\<lambda>i. entry k (gj_src s) (exchange r c i)) c i j = entry k src2 i j"
          using ent2(2) [of i j] src1(2) rc(2) by (simp add: pivoted_def)
      qed
      finally show ?thesis .
    qed
    have "ipiv_of k (insert c P) (gj_ipiv s')" "card (insert c P) = Suc n"
      using ip inv rc(2,4) finite_subset [of P "{..<k}"]
      by (auto simp: ipiv_of_def s'_def nth_list_update gj_inv_def)
    moreover have "\<forall>m<Suc n. gj_indxr s' ! m < k \<and> gj_indxc s' ! m < k"
      using inv rc(1,2) lens assms(3) by (auto simp: s'_def nth_list_update less_Suc_eq gj_inv_def)
    ultimately have "gj_inv k A (Suc n) (insert c P) s'"
      using ent2(1) lens rel unfolding gj_inv_def z'_def by (simp add: s'_def)
    with step show ?thesis by auto
  qed
qed

lemma invert_columns_cases:
  assumes "gf_ready t" and "gj_inv k A n P s" and "n \<le> k"
  shows "case invert_columns t k [n..<k] s of
      Inl _ \<Rightarrow> singular k A
    | Inr s' \<Rightarrow> \<exists>P'. gj_inv k A k P' s'"
  using assms(2,3)
proof (induction "k - n" arbitrary: n P s)
  case 0
  then show ?case by auto
next
  case (Suc d)
  then have n: "n < k" by simp
  from invert_column_cases [OF assms(1) Suc.prems(1) n] show ?case
  proof (cases "invert_column t k n s")
    case (Inr s')
    with invert_column_cases [OF assms(1) Suc.prems(1) n]
    obtain P' where "gj_inv k A (Suc n) P' s'" by auto
    with Suc.hyps(1) [of "Suc n" P' s'] Suc.hyps(2) n Inr show ?thesis
      by (simp add: upt_conv_Cons)
  qed (simp add: upt_conv_Cons n)
qed

lemma swap_cols_entries:
  assumes "length src = k * k" and "p < k" and "q < k"
  shows "length (fold (\<lambda>row. swap_at (row * k + p) (row * k + q)) [0..<k] src) = k * k \<and>
    (\<forall>i<k. \<forall>j<k. entry k (fold (\<lambda>row. swap_at (row * k + p) (row * k + q)) [0..<k] src) i j =
       entry k src i (exchange p q j))"
proof -
  have "let u = fold (\<lambda>row. swap_at (row * k + p) (row * k + q)) [0..<b] src in length u = k * k \<and>
      (\<forall>i<k. \<forall>j<k. u ! (i * k + j) = src ! (i * k + (if i < b then exchange p q j else j)))"
    if "b \<le> k" for b
    using that
  proof (induction b)
    case (Suc b)
    then show ?case
      using assms flat_index_less [of _ k _ k]
      by (auto simp: Let_def nth_swap_at less_Suc_eq)
  qed (use assms in simp)
  from this [of k] show ?thesis by (simp add: entry_def Let_def)
qed

lemma unscramble_column_entries:
  assumes "length src = k * k" and "r ! col < k" and "c ! col < k"
  shows "length (unscramble_column k r c col src) = k * k \<and>
    (\<forall>i<k. \<forall>j<k. entry k (unscramble_column k r c col src) i j =
       entry k src i (exchange (r ! col) (c ! col) j))"
proof (cases "r ! col = c ! col")
  case True
  then show ?thesis using assms by (simp add: unscramble_column_def)
next
  case False
  then have "unscramble_column k r c col src =
      fold (\<lambda>row. swap_at (row * k + r ! col) (row * k + c ! col)) [0..<k] src"
    using assms by (simp add: unscramble_column_def)
  with swap_cols_entries [OF assms] show ?thesis by simp
qed

lemma unscramble_relation:
  assumes "length src = k * k" and "\<forall>m<n. r ! m < k \<and> c ! m < k"
  shows "length (fold (unscramble_column k r c) (rev [0..<n]) src) = k * k \<and>
    (lin k (entry k src) (\<lambda>j. y (scrambled r c n j)) x \<longleftrightarrow>
     lin k (entry k (fold (unscramble_column k r c) (rev [0..<n]) src)) y x)"
  using assms
proof (induction n arbitrary: src)
  case (Suc n)
  define w where "w = unscramble_column k r c n src"
  have rc: "r ! n < k" "c ! n < k" using Suc.prems(2) by auto
  have w: "length w = k * k"
    "\<And>i j. i < k \<Longrightarrow> j < k \<Longrightarrow> entry k w i j = entry k src i (exchange (r ! n) (c ! n) j)"
    using unscramble_column_entries [OF Suc.prems(1) rc] by (auto simp: w_def)
  have "lin k (entry k src) (\<lambda>j. y (scrambled r c (Suc n) j)) x \<longleftrightarrow>
      lin k (entry k w) (\<lambda>j. y (scrambled r c n j)) x"
    using lin_exchange_cols [OF rc, of "entry k src" "\<lambda>j. y (scrambled r c n j)" x]
      lin_cong [of k "entry k w" "\<lambda>i j. entry k src i (exchange (r ! n) (c ! n) j)"] w(2)
    by simp
  with Suc.IH [OF w(1)] Suc.prems(2) show ?case by (simp add: w_def)
qed simp

text \<open>Inversion succeeds exactly on the matrices with a trivial kernel, and then inverts.\<close>

lemma invert_mat_cases:
  assumes "gf_ready t" and "length src = k * k"
  shows "case invert_mat t src k of (err, minv) \<Rightarrow>
    (err = 1 \<and> singular k (entry k src)) \<or>
    (err = 0 \<and> length minv = k * k \<and>
     (\<forall>x y. lin k (entry k src) x y \<longleftrightarrow> lin k (entry k minv) y x))"
proof -
  define s0 where "s0 = \<lparr>gj_src = src, gj_ipiv = replicate k 0,
      gj_indxr = replicate k 0, gj_indxc = replicate k (0 :: nat)\<rparr>"
  have "gj_inv k (entry k src) 0 {} s0"
    using assms(2) by (simp add: gj_inv_def s0_def ipiv_of_def unknowns_empty results_empty)
  from invert_columns_cases [OF assms(1) this]
  have loop: "case invert_columns t k [0..<k] s0 of Inl _ \<Rightarrow> singular k (entry k src)
      | Inr s' \<Rightarrow> \<exists>P'. gj_inv k (entry k src) k P' s'" by simp
  show ?thesis
  proof (cases "invert_columns t k [0..<k] s0")
    case (Inl a)
    with loop show ?thesis by (simp add: invert_mat_def s0_def)
  next
    case (Inr s)
    with loop obtain P where inv: "gj_inv k (entry k src) k P s" by auto
    define r c where "r = gj_indxr s" and "c = gj_indxc s"
    have P: "P = {..<k}"
      using inv unfolding gj_inv_def ipiv_of_def by (intro card_subset_eq) auto
    have unk: "lin k (entry k (gj_src s)) (unknowns P (scrambled r c k) x y) (results P (scrambled r c k) x y)
        \<longleftrightarrow> lin k (entry k (gj_src s)) (\<lambda>j. y (scrambled r c k j)) x" for x y
      by (rule lin_cong) (simp_all add: P unknowns_def results_def)
    have len: "length (gj_src s) = k * k" and rc: "\<forall>m<k. r ! m < k \<and> c ! m < k"
      using inv by (auto simp: gj_inv_def r_def c_def)
    have rel: "lin k (entry k src) x y \<longleftrightarrow>
        lin k (entry k (fold (unscramble_column k r c) (rev [0..<k]) (gj_src s))) y x" for x y
    proof -
      have "lin k (entry k src) x y \<longleftrightarrow> lin k (entry k (gj_src s)) (\<lambda>j. y (scrambled r c k j)) x"
        using inv unk unfolding gj_inv_def r_def c_def by blast
      then show ?thesis using unscramble_relation [OF len rc, of y x] by blast
    qed
    have "invert_mat t src k = (0, fold (unscramble_column k r c) (rev [0..<k]) (gj_src s))"
      using Inr by (simp add: invert_mat_def s0_def r_def c_def)
    then show ?thesis
      using rel unscramble_relation [OF len rc] by simp
  qed
qed

lemma invert_mat_nonsingular:
  assumes "gf_ready t" and "length src = k * k" and "\<not> singular k (entry k src)"
  obtains minv where "invert_mat t src k = (0, minv)" and "length minv = k * k"
    and "\<And>x y. lin k (entry k src) x y \<Longrightarrow> lin k (entry k minv) y x"
  using invert_mat_cases [OF assms(1,2)] assms(3) by (cases "invert_mat t src k") auto

definition identity_product :: "nat \<Rightarrow> (nat \<Rightarrow> nat \<Rightarrow> gf256) \<Rightarrow> (nat \<Rightarrow> nat \<Rightarrow> gf256) \<Rightarrow> bool" where
  "identity_product k A B \<longleftrightarrow>
     (\<forall>i<k. \<forall>j<k. (\<Sum>l<k. A i l * B l j) = (if i = j then 1 else 0))"

lemma lin_inverse_product:
  assumes "\<And>x y. lin k A x y \<Longrightarrow> lin k B y x"
  shows "identity_product k B A"
  unfolding identity_product_def
proof (intro allI impI)
  fix i j assume ij: "i < k" "j < k"
  have "lin k A (\<lambda>l. if l = j then 1 else 0) (\<lambda>i. A i j)"
    unfolding lin_def using sum_unit [OF ij(2)] by simp
  from assms [OF this] ij show "(\<Sum>l<k. B i l * A l j) = (if i = j then 1 else 0)"
    unfolding lin_def by (simp split: if_splits)
qed

text \<open>
  C21 (inversion of a matrix). For every \<open>k\<close> by \<open>k\<close> array, \<open>invert_mat\<close> either returns 1, and
  the matrix has a non-zero kernel, or returns 0, the kernel is trivial, and the array it leaves
  is the inverse on both sides; so it fails on singular matrices only, whatever pivots and row
  exchanges the search takes.
\<close>

theorem invert_mat_inverts:
  assumes "length src = k * k"
  shows "(fst (invert_mat (init_fec gf_static) src k) = 1 \<and> singular k (entry k src)) \<or>
    (fst (invert_mat (init_fec gf_static) src k) = 0 \<and> \<not> singular k (entry k src) \<and>
     length (snd (invert_mat (init_fec gf_static) src k)) = k * k \<and>
     identity_product k (entry k (snd (invert_mat (init_fec gf_static) src k))) (entry k src) \<and>
     identity_product k (entry k src) (entry k (snd (invert_mat (init_fec gf_static) src k))))"
proof -
  let ?r = "invert_mat (init_fec gf_static) src k"
  have t: "gf_ready (init_fec gf_static)" by (rule init_fec_ready [OF gf_static_sized])
  have ns: "\<not> singular k A" if "\<And>x y. lin k A x y \<longleftrightarrow> lin k B y x" for A B
    unfolding singular_def that by (auto simp: lin_def)
  from invert_mat_cases [OF t assms] ns [of "entry k src" "entry k (snd ?r)"]
    lin_inverse_product [of k "entry k src" "entry k (snd ?r)"]
    lin_inverse_product [of k "entry k (snd ?r)" "entry k src"]
  show ?thesis by (auto split: prod.splits)
qed

theorem invert_mat_inverts_witness:
  "(fst (invert_mat (init_fec gf_static) [0, 1, 1, 0] 2) = 1 \<and> singular 2 (entry 2 [0, 1, 1, 0])) \<or>
   (fst (invert_mat (init_fec gf_static) [0, 1, 1, 0] 2) = 0 \<and> \<not> singular 2 (entry 2 [0, 1, 1, 0]) \<and>
    length (snd (invert_mat (init_fec gf_static) [0, 1, 1, 0] 2)) = 2 * 2 \<and>
    identity_product 2 (entry 2 (snd (invert_mat (init_fec gf_static) [0, 1, 1, 0] 2))) (entry 2 [0, 1, 1, 0]) \<and>
    identity_product 2 (entry 2 [0, 1, 1, 0]) (entry 2 (snd (invert_mat (init_fec gf_static) [0, 1, 1, 0] 2))))"
  by (rule invert_mat_inverts) simp

text \<open>
  C31 (the unrolled loop). \<open>addmul1\<close>, with its body unrolled 16 times and the remainder loop
  after it, does for every length, also below 16 and not a multiple of 16, exactly what one plain
  loop over the entries does.
\<close>

theorem addmul1_plain_loop:
  "addmul1 t dst src c sz =
     fold (\<lambda>i d. d[i := d ! i XOR mul_table t ! unat c ! unat (src ! i)]) [0..<sz] dst"
  by (simp add: addmul1_fold gf_addmulc_def [abs_def] gf_mul_def)

end
