(* ===== verification/Fec_Vdm.thy ===== *)
theory Fec_Vdm
  imports Fec_Matrix
begin

text \<open>
  \<open>invert_vdm\<close> of \<open>lib/libfec/lib/source/fec.c\<close>, the fast inversion of a Vandermonde matrix: the
  coefficients of the polynomial with the nodes as roots (\<open>vdm_coeffs\<close>), and per row the
  synthetic division by one factor (\<open>vdm_divide\<close>). The first section is the code, the second the facts
  on polynomials over the field, given as coefficient functions, and the third the proof: the columns
  written are the Lagrange basis polynomials of the nodes, when the first node is 0.
\<close>

section \<open>The code\<close>

definition vdm_coeff_step :: "gf_tables \<Rightarrow> gf list \<Rightarrow> nat \<Rightarrow> nat \<Rightarrow> gf list \<Rightarrow> gf list" where
  "vdm_coeff_step t p k i c =
     (let p_i = p ! i;
          c = fold (\<lambda>j c. c[j := c ! j XOR gf_mul t p_i (c ! (j + 1))]) [k - 1 - (i - 1)..<k - 1] c
      in c[k - 1 := c ! (k - 1) XOR p_i])"

definition vdm_coeffs :: "gf_tables \<Rightarrow> gf list \<Rightarrow> nat \<Rightarrow> gf list" where
  "vdm_coeffs t p k = fold (vdm_coeff_step t p k) [1..<k] ((replicate k 0)[k - 1 := p ! 0])"

text \<open>One synthetic division: the buffer \<open>b\<close> and the value \<open>t\<close> of the quotient at \<open>xx\<close>.\<close>

definition vdm_divide :: "gf_tables \<Rightarrow> gf list \<Rightarrow> nat \<Rightarrow> gf \<Rightarrow> gf list \<Rightarrow> gf list \<times> gf" where
  "vdm_divide t c k xx b =
     fold (\<lambda>i (b, q).
         let b = b[i := c ! (i + 1) XOR gf_mul t xx (b ! (i + 1))]
         in (b, gf_mul t xx q XOR b ! i))
       (rev [0..<k - 1]) (b[k - 1 := 1], 1)"

definition vdm_row :: "gf_tables \<Rightarrow> gf list \<Rightarrow> gf list \<Rightarrow> nat \<Rightarrow> nat \<Rightarrow> gf list \<times> gf list \<Rightarrow> gf list \<times> gf list" where
  "vdm_row t p c k row = (\<lambda>(b, src).
     let (b, q) = vdm_divide t c k (p ! row) b
     in (b, fold (\<lambda>col src. src[col * k + row := gf_mul t (inverse_of t ! unat q) (b ! col)])
              [0..<k] src))"

definition invert_vdm :: "gf_tables \<Rightarrow> gf list \<Rightarrow> nat \<Rightarrow> int \<times> gf list" where
  "invert_vdm t src k =
     (if k = 1 then (0, src)
      else
        let p = map (\<lambda>i. src ! (1 + i * k)) [0..<k];
            c = vdm_coeffs t p k
        in (0, snd (fold (vdm_row t p c k) [0..<k] (replicate k 0, src))))"

section \<open>Polynomials as coefficient functions\<close>

definition peval :: "nat \<Rightarrow> (nat \<Rightarrow> 'a :: comm_ring_1) \<Rightarrow> 'a \<Rightarrow> 'a" where
  "peval n f x = (\<Sum>j<n. f j * x ^ j)"

lemma peval_Suc: "peval (Suc n) f x = peval n f x + f n * x ^ n"
  by (simp add: peval_def)

lemma peval_cong: "(\<And>j. j < n \<Longrightarrow> f j = g j) \<Longrightarrow> peval n f x = peval n g x"
  by (simp add: peval_def)

lemma peval_add_scale: "peval n f x + a * peval n g x = peval n (\<lambda>m. f m + a * g m) x"
  by (simp add: peval_def sum.distrib sum_distrib_left algebra_simps)

lemma synthetic_division:
  assumes "\<And>j. j < n \<Longrightarrow> g j = f (Suc j) + a * g (Suc j)"
  shows "(x - a) * peval n g x = peval (Suc n) f x - (f 0 + a * g 0) + a * g n * x ^ n"
  using assms
proof (induction n)
  case 0
  then show ?case by (simp add: peval_def)
next
  case (Suc n)
  have "(x - a) * peval (Suc n) g x = (x - a) * peval n g x + (x - a) * (g n * x ^ n)"
    by (simp add: peval_Suc distrib_left)
  also have "(x - a) * peval n g x = peval (Suc n) f x - (f 0 + a * g 0) + a * g n * x ^ n"
    using Suc by simp
  finally have "(x - a) * peval (Suc n) g x
      = peval (Suc n) f x - (f 0 + a * g 0) + g n * x ^ Suc n"
    by (simp add: algebra_simps)
  moreover have "g n = f (Suc n) + a * g (Suc n)" using Suc.prems by simp
  ultimately show ?case
    by (simp add: peval_Suc [of "Suc n"] algebra_simps)
qed

text \<open>A polynomial with as many roots as coefficients is zero.\<close>

lemma peval_roots_zero:
  fixes f :: "nat \<Rightarrow> 'a :: field"
  assumes "card R = n" and "\<And>x. x \<in> R \<Longrightarrow> peval n f x = 0" and "j < n"
  shows "f j = 0"
  using assms
proof (induction n arbitrary: R f j)
  case (Suc n)
  then obtain a where a: "a \<in> R" by (metis card.empty equals0I nat.distinct(1))
  define g where "g i = (\<Sum>l\<in>{Suc i..n}. f l * a ^ (l - Suc i))" for i
  have rec: "g i = f (Suc i) + a * g (Suc i)" if "i < n" for i
  proof -
    have "{Suc i..n} = insert (Suc i) {Suc (Suc i)..n}" using that by auto
    then have "g i = f (Suc i) + (\<Sum>l\<in>{Suc (Suc i)..n}. f l * a ^ (l - Suc i))"
      by (simp add: g_def)
    also have "(\<Sum>l\<in>{Suc (Suc i)..n}. f l * a ^ (l - Suc i)) = a * g (Suc i)"
      unfolding g_def sum_distrib_left
    proof (rule sum.cong)
      fix l assume "l \<in> {Suc (Suc i)..n}"
      then have "l - Suc i = Suc (l - Suc (Suc i))" by auto
      then show "f l * a ^ (l - Suc i) = a * (f l * a ^ (l - Suc (Suc i)))" by simp
    qed simp
    finally show ?thesis .
  qed
  have gn: "g n = 0" by (simp add: g_def)
  have div: "(x - a) * peval n g x = peval (Suc n) f x - (f 0 + a * g 0)" for x
    using synthetic_division [of n g f a x] rec gn by simp
  have "0 = 0 - (f 0 + a * g 0)"
    using div [of a] Suc.prems(2) [OF a] by (simp only: diff_self mult_zero_left)
  then have "0 = f 0 + a * g 0"
    by (simp only: diff_0 neg_0_equal_iff_equal)
  then have fa: "f 0 + a * g 0 = 0"
    by (rule sym)
  have "g i = 0" if "i < n" for i
  proof (rule Suc.IH [OF _ _ that])
    show "card (R - {a}) = n" using a Suc.prems(1) by simp
    show "peval n g x = 0" if "x \<in> R - {a}" for x
      using div [of x] Suc.prems(2) [of x] that fa by simp
  qed
  then have "g i = 0" if "i \<le> n" for i using gn that by (cases "i = n") auto
  note gz = this
  show ?case
  proof (cases j)
    case 0
    with fa gz [of 0] show ?thesis by simp
  next
    case (Suc i)
    then have "i < n" using Suc.prems(3) by simp
    with rec [of i] gz [of i] gz [of "Suc i"] Suc show ?thesis by simp
  qed
qed simp

section \<open>The coefficients of the node polynomial\<close>

definition node_poly :: "(nat \<Rightarrow> gf256) \<Rightarrow> nat \<Rightarrow> gf256 \<Rightarrow> gf256" where
  "node_poly p n x = (\<Prod>i<n. x + p i)"

text \<open>Coefficient \<open>q\<close> of the array \<open>c\<close>, with the leading 1 that the code leaves implicit.\<close>

definition coeff :: "nat \<Rightarrow> gf list \<Rightarrow> nat \<Rightarrow> gf256" where
  "coeff k c q = (if q = k then 1 else Gf (c ! q))"

definition coeffs_inv :: "nat \<Rightarrow> gf list \<Rightarrow> nat \<Rightarrow> gf list \<Rightarrow> bool" where
  "coeffs_inv k p i c \<longleftrightarrow> length c = k \<and> (\<forall>q\<le>k - i. coeff k c q = 0) \<and>
     (\<forall>x. peval (Suc i) (\<lambda>m. coeff k c (k - i + m)) x = node_poly (\<lambda>j. Gf (p ! j)) i x)"

lemma vdm_coeff_loop:
  assumes "length c = k" and "a < k"
  shows "length (fold (\<lambda>j c. c[j := c ! j XOR gf_mul t p_i (c ! (j + 1))]) [a..<b] c) = k \<and>
    (b \<le> k - 1 \<longrightarrow> (\<forall>q<k. fold (\<lambda>j c. c[j := c ! j XOR gf_mul t p_i (c ! (j + 1))]) [a..<b] c ! q =
       (if a \<le> q \<and> q < b then c ! q XOR gf_mul t p_i (c ! (q + 1)) else c ! q)))"
  using assms by (induction b) (auto simp: nth_list_update less_Suc_eq)

lemma vdm_coeff_step_coeffs:
  assumes "gf_ready t" and "length c = k" and "1 \<le> i" and "i < k"
  shows "length (vdm_coeff_step t p k i c) = k" and
    "q < k \<Longrightarrow> coeff k (vdm_coeff_step t p k i c) q =
      (if k - i \<le> q then coeff k c q + Gf (p ! i) * coeff k c (Suc q) else coeff k c q)"
proof -
  define d where
    "d = fold (\<lambda>j c. c[j := c ! j XOR gf_mul t (p ! i) (c ! (j + 1))]) [k - 1 - (i - 1)..<k - 1] c"
  have d: "length d = k"
    "\<And>q. q < k \<Longrightarrow> d ! q = (if k - i \<le> q \<and> q < k - 1 then c ! q XOR gf_mul t (p ! i) (c ! (q + 1)) else c ! q)"
    using vdm_coeff_loop [of c k "k - 1 - (i - 1)" t "p ! i" "k - 1"] assms by (auto simp: d_def)
  have step: "vdm_coeff_step t p k i c = d[k - 1 := d ! (k - 1) XOR p ! i]"
    by (simp add: vdm_coeff_step_def d_def Let_def)
  show "length (vdm_coeff_step t p k i c) = k" using d by (simp add: step)
  show "q < k \<Longrightarrow> coeff k (vdm_coeff_step t p k i c) q =
      (if k - i \<le> q then coeff k c q + Gf (p ! i) * coeff k c (Suc q) else coeff k c q)"
    using d assms by (auto simp: step coeff_def nth_list_update Gf_xor gf_mul_field)
qed

lemma peval_shift: "peval (Suc n) f x = f 0 + x * peval n (\<lambda>m. f (Suc m)) x"
  by (simp add: peval_def sum.lessThan_Suc_shift sum_distrib_left ac_simps del: sum.lessThan_Suc)

lemma coeffs_inv_step:
  assumes "gf_ready t" and "coeffs_inv k p i c" and "1 \<le> i" and "i < k"
  shows "coeffs_inv k p (Suc i) (vdm_coeff_step t p k i c)"
proof -
  let ?c = "vdm_coeff_step t p k i c"
  have len: "length c = k" and zero: "\<forall>q\<le>k - i. coeff k c q = 0"
    and R: "\<And>x. peval (Suc i) (\<lambda>m. coeff k c (k - i + m)) x = node_poly (\<lambda>j. Gf (p ! j)) i x"
    using assms(2) by (auto simp: coeffs_inv_def)
  note new = vdm_coeff_step_coeffs [OF assms(1) len assms(3,4), where p = p]
  have zero': "\<forall>q\<le>k - Suc i. coeff k ?c q = 0"
    using new(2) zero assms(3,4) by auto
  have shift: "k - Suc i + m = q \<Longrightarrow> k - i + m = Suc q" for m q using assms(4) by simp
  have low: "coeff k ?c (k - Suc i + m) = coeff k c (k - Suc i + m) + Gf (p ! i) * coeff k c (k - i + m)"
    if "m < Suc i" for m
  proof (cases m)
    case 0
    have "k - Suc i < k - i" "k - Suc i < k" using assms(4) by simp_all
    then show ?thesis using new(2) [of "k - Suc i"] zero 0 by simp
  next
    case (Suc n)
    have "k - i \<le> k - Suc i + m" "k - Suc i + m < k" "Suc (k - Suc i + m) = k - i + m"
      using Suc that assms(4) by simp_all
    then show ?thesis using new(2) [of "k - Suc i + m"] by (simp only: if_True)
  qed
  have top: "coeff k ?c (k - Suc i + Suc i) = coeff k c (k - Suc i + Suc i)"
    using assms(4) by (simp add: coeff_def)
  have "peval (Suc (Suc i)) (\<lambda>m. coeff k ?c (k - Suc i + m)) x =
      node_poly (\<lambda>j. Gf (p ! j)) (Suc i) x" for x
  proof -
    have "peval (Suc (Suc i)) (\<lambda>m. coeff k ?c (k - Suc i + m)) x =
        peval (Suc (Suc i)) (\<lambda>m. coeff k c (k - Suc i + m)) x +
        Gf (p ! i) * peval (Suc i) (\<lambda>m. coeff k c (k - i + m)) x"
    proof -
      have "peval (Suc i) (\<lambda>m. coeff k ?c (k - Suc i + m)) x =
          peval (Suc i) (\<lambda>m. coeff k c (k - Suc i + m)) x +
          Gf (p ! i) * peval (Suc i) (\<lambda>m. coeff k c (k - i + m)) x"
        unfolding peval_add_scale by (rule peval_cong) (rule low)
      then show ?thesis unfolding peval_Suc [of "Suc i"] top by (simp only: ac_simps)
    qed
    also have "peval (Suc (Suc i)) (\<lambda>m. coeff k c (k - Suc i + m)) x =
        x * peval (Suc i) (\<lambda>m. coeff k c (k - i + m)) x"
    proof -
      have "k - Suc i + Suc m = k - i + m" for m using assms(4) by simp
      moreover have "coeff k c (k - Suc i + 0) = 0" using zero by simp
      ultimately show ?thesis
        by (simp only: peval_shift [of "Suc i"] add_0_left)
    qed
    finally show ?thesis
      unfolding R by (simp add: node_poly_def algebra_simps)
  qed
  with new(1) zero' show ?thesis by (simp add: coeffs_inv_def)
qed

lemma vdm_coeffs_inv:
  assumes "gf_ready t" and "p ! 0 = 0" and "1 \<le> k"
  shows "coeffs_inv k p k (vdm_coeffs t p k)"
proof -
  have start: "coeffs_inv k p 1 ((replicate k 0)[k - 1 := p ! 0])"
    using assms(2,3) by (auto simp: coeffs_inv_def coeff_def peval_def node_poly_def nth_list_update)
  show ?thesis
    unfolding vdm_coeffs_def
    by (rule fold_upt_invariant [where P = "coeffs_inv k p", OF start])
      (use assms coeffs_inv_step in auto)
qed

section \<open>The synthetic division\<close>

text \<open>\<open>b\<close> holds the quotient from index \<open>i\<close> on, and \<open>q\<close> its Horner value so far.\<close>

lemma vdm_divide_quotient:
  assumes "gf_ready t" and "length c = k" and "length b = k" and "1 \<le> k"
  shows "case vdm_divide t c k xx b of (b', q) \<Rightarrow> length b' = k \<and>
    (let g = \<lambda>j. if j < k then Gf (b' ! j) else 0
     in (\<forall>j<k. g j = coeff k c (Suc j) + Gf xx * g (Suc j)) \<and> Gf q = peval k g (Gf xx))"
proof -
  define P where "P i s \<longleftrightarrow> (case s of (b', q) \<Rightarrow> length b' = k \<and> b' ! (k - 1) = 1 \<and>
      (\<forall>j. i \<le> j \<longrightarrow> j < k - 1 \<longrightarrow> Gf (b' ! j) = Gf (c ! Suc j) + Gf xx * Gf (b' ! Suc j)) \<and>
      Gf q = (\<Sum>m<k - i. Gf (b' ! (i + m)) * Gf xx ^ m))" for i s
  let ?f = "\<lambda>i (b, q).
         let b = b[i := c ! (i + 1) XOR gf_mul t xx (b ! (i + 1))]
         in (b, gf_mul t xx q XOR b ! i)"
  have step: "P i (?f i s)" if "P (Suc i) s" "i < k - 1" for i s
  proof -
    obtain b1 q where s: "s = (b1, q)" by force
    define b2 where "b2 = b1[i := c ! (i + 1) XOR gf_mul t xx (b1 ! (i + 1))]"
    have b1: "length b1 = k" "b1 ! (k - 1) = 1"
      "\<And>j. Suc i \<le> j \<Longrightarrow> j < k - 1 \<Longrightarrow> Gf (b1 ! j) = Gf (c ! Suc j) + Gf xx * Gf (b1 ! Suc j)"
      "Gf q = (\<Sum>m<k - Suc i. Gf (b1 ! (Suc i + m)) * Gf xx ^ m)"
      using that(1) by (auto simp: P_def s)
    have b2: "length b2 = k" "b2 ! (k - 1) = 1" "\<And>j. j \<noteq> i \<Longrightarrow> b2 ! j = b1 ! j"
      "Gf (b2 ! i) = Gf (c ! Suc i) + Gf xx * Gf (b2 ! Suc i)"
      using b1 that(2) assms(1) by (auto simp: b2_def Gf_xor gf_mul_field)
    have "Gf (gf_mul t xx q XOR b2 ! i) = (\<Sum>m<k - i. Gf (b2 ! (i + m)) * Gf xx ^ m)"
    proof -
      have "k - i = Suc (k - Suc i)" using that(2) by simp
      then have "(\<Sum>m<k - i. Gf (b2 ! (i + m)) * Gf xx ^ m) =
          Gf (b2 ! i) + (\<Sum>m<k - Suc i. Gf (b2 ! (Suc i + m)) * Gf xx ^ Suc m)"
        by (simp add: sum.lessThan_Suc_shift del: sum.lessThan_Suc)
      also have "(\<Sum>m<k - Suc i. Gf (b2 ! (Suc i + m)) * Gf xx ^ Suc m) = Gf xx * Gf q"
        unfolding b1(4) sum_distrib_left using b2(3) by (intro sum.cong) simp_all
      finally show ?thesis using assms(1) by (simp add: Gf_xor gf_mul_field add.commute)
    qed
    moreover have "Gf (b2 ! j) = Gf (c ! Suc j) + Gf xx * Gf (b2 ! Suc j)"
      if "i \<le> j" "j < k - 1" for j
      using that b1(3) [of j] b2(3,4) by (cases "j = i") auto
    moreover have "?f i s = (b2, gf_mul t xx q XOR b2 ! i)"
      by (simp add: s b2_def Let_def)
    ultimately show ?thesis
      using b2(1,2) unfolding P_def by simp
  qed
  have loop: "P 0 (fold ?f (rev [0..<n]) s)" if "P n s" "n \<le> k - 1" for n s
    using that
  proof (induction n arbitrary: s)
    case (Suc n)
    then have "P n (?f n s)" by (intro step) simp_all
    with Suc show ?case by simp
  qed simp
  have "P (k - 1) (b[k - 1 := 1], 1)"
    using assms by (simp add: P_def Gf_1)
  from loop [OF this] have "P 0 (vdm_divide t c k xx b)"
    by (simp add: vdm_divide_def)
  then show ?thesis
    using assms(4)
    by (auto simp: P_def Let_def peval_def coeff_def Gf_1 not_less_eq split: prod.splits)
      (metis Gf_1 One_nat_def Suc_pred' diff_Suc_1 less_antisym)+
qed

section \<open>The inverse\<close>

text \<open>The nodes of the code: the first is 0 and they are distinct.\<close>

definition nodes_ok :: "nat \<Rightarrow> gf list \<Rightarrow> bool" where
  "nodes_ok k p \<longleftrightarrow> length p = k \<and> distinct p \<and> p ! 0 = 0"

lemma vdm_divide_lagrange:
  assumes "gf_ready t" and p: "nodes_ok k p" and "1 \<le> k" and "length b = k" and "row < k"
  shows "case vdm_divide t (vdm_coeffs t p k) k (p ! row) b of (b', q) \<Rightarrow>
    length b' = k \<and> q \<noteq> 0 \<and>
    (\<forall>i<k. (\<Sum>j<k. Gf (p ! i) ^ j * Gf (b' ! j)) = (if i = row then Gf q else 0))"
proof -
  define c where "c = vdm_coeffs t p k"
  have p0: "p ! 0 = 0" using p by (simp add: nodes_ok_def)
  have c: "length c = k" "coeff k c 0 = 0"
    "\<And>x. peval (Suc k) (coeff k c) x = node_poly (\<lambda>j. Gf (p ! j)) k x"
    using vdm_coeffs_inv [OF assms(1) p0 assms(3)] by (auto simp: coeffs_inv_def c_def)
  obtain b' q where bq: "vdm_divide t c k (p ! row) b = (b', q)" by force
  define a where "a = Gf (p ! row)"
  define g where "g j = (if j < k then Gf (b' ! j) else 0)" for j
  have g: "length b' = k" "\<And>j. j < k \<Longrightarrow> g j = coeff k c (Suc j) + a * g (Suc j)" "Gf q = peval k g a"
    using vdm_divide_quotient [OF assms(1) c(1) assms(4,3), of "p ! row"] bq
    unfolding a_def g_def Let_def by auto
  have root: "node_poly (\<lambda>j. Gf (p ! j)) k (Gf (p ! i)) = 0" if "i < k" for i
    unfolding node_poly_def using that by (intro prod_zero) (auto intro!: bexI [of _ i])
  have gk: "g k = 0" by (simp add: g_def)
  have div: "(x - a) * peval k g x = node_poly (\<lambda>j. Gf (p ! j)) k x - a * g 0" for x
    using synthetic_division [of k g "coeff k c" a x] g(2) gk c(2,3) by simp
  have "a * g 0 = 0"
    using div [of a] root [OF assms(5)] by (simp add: a_def)
  then have quot: "(x - a) * peval k g x = node_poly (\<lambda>j. Gf (p ! j)) k x" for x
    using div [of x] by simp
  have zero: "peval k g (Gf (p ! i)) = 0" if "i < k" "i \<noteq> row" for i
  proof -
    have "p ! i \<noteq> p ! row" using that p assms(5) by (auto simp: nodes_ok_def nth_eq_iff_index_eq)
    then have "Gf (p ! i) - a \<noteq> 0" unfolding a_def by (simp only: right_minus_eq gf256.inject) simp
    then show ?thesis using quot [of "Gf (p ! i)"] root [OF that(1)] by (simp only: mult_eq_0_iff) simp
  qed
  have "q \<noteq> 0"
  proof
    assume "q = 0"
    then have q: "Gf q = 0" by simp
    let ?R = "Gf ` set p"
    have "card ?R = k"
      using p by (simp add: nodes_ok_def card_image inj_on_def distinct_card)
    moreover have "peval k g x = 0" if "x \<in> ?R" for x
    proof -
      from that obtain i where i: "i < k" "x = Gf (p ! i)"
        using p by (auto simp: nodes_ok_def in_set_conv_nth)
      show ?thesis
      proof (cases "i = row")
        case True
        then have "x = a" using i(2) by (simp only: a_def)
        then show ?thesis using g(3) q by (simp only:)
      next
        case False
        with zero i show ?thesis by simp
      qed
    qed
    ultimately have "g (k - 1) = 0" using assms(3) by (intro peval_roots_zero [of ?R k g]) simp_all
    moreover have "g (k - 1) = 1" using g(2) [of "k - 1"] gk assms(3) by (simp add: coeff_def)
    ultimately show False by simp
  qed
  moreover have "(\<Sum>j<k. Gf (p ! i) ^ j * Gf (b' ! j)) = peval k g (Gf (p ! i))" for i
    by (simp add: peval_def g_def mult.commute)
  ultimately show ?thesis
    unfolding c_def [symmetric] bq prod.case using g(1,3) zero by (simp add: a_def)
qed

lemma vdm_row_entries:
  assumes "gf_ready t" and "length src = n * k" and "k \<le> n" and "row < k"
  shows "length (fold (\<lambda>col src. src[col * k + row := gf_mul t (inverse_of t ! unat q) (b ! col)]) [0..<m] src) = n * k"
    and "m \<le> k \<Longrightarrow> i < n \<Longrightarrow> j < k \<Longrightarrow>
      entry k (fold (\<lambda>col src. src[col * k + row := gf_mul t (inverse_of t ! unat q) (b ! col)]) [0..<m] src) i j =
      (if j = row \<and> i < m then Gf (b ! i) / Gf q else entry k src i j)"
proof -
  let ?f = "\<lambda>col src. src[col * k + row := gf_mul t (inverse_of t ! unat q) (b ! col)]"
  show len: "length (fold ?f [0..<m] src) = n * k" for m
    using assms(2) by (induction m) simp_all
  show "m \<le> k \<Longrightarrow> i < n \<Longrightarrow> j < k \<Longrightarrow> entry k (fold ?f [0..<m] src) i j =
      (if j = row \<and> i < m then Gf (b ! i) / Gf q else entry k src i j)"
  proof (induction m)
    case (Suc m)
    have "m * k + row < n * k" using Suc.prems assms(3,4) by (intro flat_index_less) simp_all
    with Suc assms(4) len show ?case
      by (auto simp: entry_def nth_list_update less_Suc_eq gf_mul_field gf_inverse_field assms(1)
          divide_inverse mult.commute [of "inverse (Gf q)"])
  qed simp
qed

lemma vdm_rows_entries:
  assumes "gf_ready t" and "nodes_ok k p" and "1 \<le> k" and "length src = n * k" and "k \<le> n" and "m \<le> k"
  shows "case fold (vdm_row t p (vdm_coeffs t p k) k) [0..<m] (replicate k 0, src) of (b, v) \<Rightarrow>
    length b = k \<and> length v = n * k \<and>
    (\<forall>i j. k \<le> i \<longrightarrow> i < n \<longrightarrow> j < k \<longrightarrow> entry k v i j = entry k src i j) \<and>
    (\<forall>i<k. \<forall>row<m. (\<Sum>j<k. Gf (p ! i) ^ j * entry k v j row) = (if i = row then 1 else 0))"
  using assms(6)
proof (induction m)
  case 0
  then show ?case using assms by simp
next
  case (Suc m)
  obtain b v where bv: "fold (vdm_row t p (vdm_coeffs t p k) k) [0..<m] (replicate k 0, src) = (b, v)"
    by force
  have IH: "length b = k" "length v = n * k"
    "\<And>i j. k \<le> i \<Longrightarrow> i < n \<Longrightarrow> j < k \<Longrightarrow> entry k v i j = entry k src i j"
    "\<And>i row. i < k \<Longrightarrow> row < m \<Longrightarrow> (\<Sum>j<k. Gf (p ! i) ^ j * entry k v j row) = (if i = row then 1 else 0)"
    using Suc bv by auto
  obtain b' q where bq: "vdm_divide t (vdm_coeffs t p k) k (p ! m) b = (b', q)" by force
  have m: "m < k" using Suc.prems by simp
  have lag: "length b' = k" "q \<noteq> 0"
    "\<And>i. i < k \<Longrightarrow> (\<Sum>j<k. Gf (p ! i) ^ j * Gf (b' ! j)) = (if i = m then Gf q else 0)"
    using vdm_divide_lagrange [OF assms(1-3) IH(1) m] bq by auto
  define w where "w = fold (\<lambda>col src. src[col * k + m := gf_mul t (inverse_of t ! unat q) (b' ! col)]) [0..<k] v"
  note ent = vdm_row_entries [OF assms(1) IH(2) assms(5) m, where q = q and b = b' and m = k, folded w_def]
  have "fold (vdm_row t p (vdm_coeffs t p k) k) [0..<Suc m] (replicate k 0, src) = (b', w)"
    by (simp add: bv vdm_row_def bq w_def)
  moreover have "(\<Sum>j<k. Gf (p ! i) ^ j * entry k w j row) = (if i = row then 1 else 0)"
    if i: "i < k" and row: "row < Suc m" for i row
  proof (cases "row = m")
    case True
    have "(\<Sum>j<k. Gf (p ! i) ^ j * entry k w j row) = (\<Sum>j<k. Gf (p ! i) ^ j * Gf (b' ! j)) / Gf q"
      unfolding sum_divide_distrib using ent(2) m assms(5) True by (intro sum.cong) auto
    with lag(2) lag(3) [OF i] True show ?thesis by simp
  next
    case False
    have "(\<Sum>j<k. Gf (p ! i) ^ j * entry k w j row) = (\<Sum>j<k. Gf (p ! i) ^ j * entry k v j row)"
      using ent(2) m row assms(5) False by (intro sum.cong) auto
    with IH(4) [OF i] row False show ?thesis by simp
  qed
  ultimately show ?case using lag(1) ent(1,2) IH(3) assms(5) by auto
qed

lemma invert_vdm_right_inverse:
  assumes "gf_ready t" and "length src = n * k" and "1 \<le> k" and "k \<le> n"
    and "nodes_ok k p" and vdm: "\<And>i j. i < k \<Longrightarrow> j < k \<Longrightarrow> entry k src i j = Gf (p ! i) ^ j"
  obtains w where "invert_vdm t src k = (0, w)" and "length w = n * k"
    and "\<And>i j. k \<le> i \<Longrightarrow> i < n \<Longrightarrow> j < k \<Longrightarrow> entry k w i j = entry k src i j"
    and "\<And>i row. i < k \<Longrightarrow> row < k \<Longrightarrow> (\<Sum>j<k. Gf (p ! i) ^ j * entry k w j row) = (if i = row then 1 else 0)"
proof (cases "k = 1")
  case True
  show ?thesis
  proof (rule that [of src])
    show "invert_vdm t src k = (0, src)" using True by (simp add: invert_vdm_def)
    show "(\<Sum>j<k. Gf (p ! i) ^ j * entry k src j row) = (if i = row then 1 else 0)"
      if "i < k" "row < k" for i row
      using that vdm [of 0 0] True by simp
  qed (use assms in auto)
next
  case False
  have "map (\<lambda>i. src ! (1 + i * k)) [0..<k] = p"
  proof (rule nth_equalityI)
    fix i assume "i < length (map (\<lambda>i. src ! (1 + i * k)) [0..<k])"
    then have i: "i < k" by simp
    have "Gf (src ! (i * k + 1)) = Gf (p ! i)"
      using vdm [OF i, of 1] False assms(3) by (simp add: entry_def)
    with i show "map (\<lambda>i. src ! (1 + i * k)) [0..<k] ! i = p ! i" by simp
  qed (use assms(5) in \<open>simp add: nodes_ok_def\<close>)
  then have eq: "invert_vdm t src k = (0, snd (fold (vdm_row t p (vdm_coeffs t p k) k) [0..<k] (replicate k 0, src)))"
    using False by (simp add: invert_vdm_def Let_def)
  obtain b w where bw: "fold (vdm_row t p (vdm_coeffs t p k) k) [0..<k] (replicate k 0, src) = (b, w)" by force
  from vdm_rows_entries [OF assms(1,5,3,2,4), of k] show ?thesis
    unfolding bw by (intro that [of w]) (auto simp: eq bw)
qed

text \<open>
  On a matrix whose rows are the powers of \<open>k\<close> distinct
  nodes, the first of which is 0, \<open>invert_vdm\<close> leaves an array that is the inverse; whatever
  rows the array has below the first \<open>k\<close> are left alone.
\<close>

theorem invert_vdm_inverts:
  assumes "length src = n * k" and "1 \<le> k" and "k \<le> n" and "nodes_ok k p"
    and "\<And>i j. i < k \<Longrightarrow> j < k \<Longrightarrow> entry k src i j = Gf (p ! i) ^ j"
  shows "\<exists>w. invert_vdm (init_fec gf_static) src k = (0, w) \<and> length w = n * k \<and>
    identity_product k (entry k src) (entry k w) \<and>
    (\<forall>i j. k \<le> i \<and> i < n \<and> j < k \<longrightarrow> entry k w i j = entry k src i j)"
proof -
  have t: "gf_ready (init_fec gf_static)" by (rule init_fec_ready [OF gf_static_sized])
  from invert_vdm_right_inverse [OF t assms] obtain w where
    w: "invert_vdm (init_fec gf_static) src k = (0, w)" "length w = n * k"
      "\<And>i j. k \<le> i \<Longrightarrow> i < n \<Longrightarrow> j < k \<Longrightarrow> entry k w i j = entry k src i j"
      "\<And>i row. i < k \<Longrightarrow> row < k \<Longrightarrow> (\<Sum>j<k. Gf (p ! i) ^ j * entry k w j row) = (if i = row then 1 else 0)"
    by blast
  then show ?thesis using assms(5) by (auto simp: identity_product_def)
qed

theorem invert_vdm_inverts_witness:
  "\<exists>w. invert_vdm (init_fec gf_static) [1, 0, 1, 1, 1, 2] 2 = (0, w) \<and> length w = 3 * 2 \<and>
     identity_product 2 (entry 2 [1, 0, 1, 1, 1, 2]) (entry 2 w)"
proof -
  have "nodes_ok 2 [0, 1]" by (simp add: nodes_ok_def)
  moreover have "entry 2 [1, 0, 1, 1, 1, 2] i j = Gf ([0, 1] ! i) ^ j" if "i < 2" "j < 2" for i j
    using that by (auto simp: less_2_cases_iff entry_def)
  ultimately show ?thesis
    using invert_vdm_inverts [of "[1, 0, 1, 1, 1, 2]" 3 2 "[0, 1]"] by auto
qed

text \<open>
  The recursion for the coefficients never stores the product of the nodes so far, which is right
  only because the first node of the matrix of \<open>fec_new\<close> is 0: for the nodes 1, 2, 4 the polynomial
  it builds is not zero at 1.
\<close>

lemma vdm_coeffs_other_nodes:
  "vdm_coeffs (init_fec gf_static) [1, 2, 4] 3 = [0, 12, 7]"
  "peval 4 (coeff 3 (vdm_coeffs (init_fec gf_static) [1, 2, 4] 3)) (Gf 1) \<noteq> 0"
proof -
  have mul: "gf_mul (init_fec gf_static) x y = pmul x y" for x y
    using init_fec_ready [OF gf_static_sized] by (simp add: gf_ready_def)
  have p: "pmul 4 3 = 12" by code_simp
  have upt: "[1..<3] = [1, 2]" "[2..<2] = ([] :: nat list)" "[Suc 0..<2] = [1]" by code_simp+
  show c: "vdm_coeffs (init_fec gf_static) [1, 2, 4] 3 = [0, 12, 7]"
    unfolding vdm_coeffs_def upt by (simp add: vdm_coeff_step_def Let_def mul p upt numeral_eq_Suc)
  show "peval 4 (coeff 3 (vdm_coeffs (init_fec gf_static) [1, 2, 4] 3)) (Gf 1) \<noteq> 0"
  proof -
    have "peval 4 (coeff 3 [0, 12, 7]) (Gf 1) = Gf 0 + Gf 12 + Gf 7 + Gf 1"
      unfolding Gf_1 peval_def by (simp add: numeral_eq_Suc coeff_def)
    also have "\<dots> = Gf (0 XOR 12 XOR 7 XOR 1)" by (simp only: Gf_xor xor.assoc add.assoc)
    also have "\<dots> \<noteq> 0" by simp
    finally show ?thesis unfolding c .
  qed
qed

end
