(* ===== verification/Fec.thy ===== *)
theory Fec
  imports Fec_Vdm "HOL-Library.Multiset"
begin

text \<open>
  The erasure code of \<open>lib/libfec/lib/source/fec.c\<close>: \<open>fec_new\<close>, \<open>fec_free\<close>, \<open>fec_encode\<close>,
  \<open>shuffle\<close>, \<open>build_decode_matrix\<close> and \<open>fec_decode\<close>. A packet buffer is the list of its bytes; the array
  of packet pointers is the list of the buffers, so exchanging two pointers exchanges two entries.
  The buffers of one call are distinct, as the callers allocate them.

  The header comment of the file calls the code systematic and any \<open>k\<close> of the \<open>n\<close> packets enough;
  \<open>fec_decode_recovers\<close> states it for every data, every parameters up to 256 and every choice and order of
  \<open>k\<close> distinct packets. The proof reads the encoded packets as values of one polynomial of
  degree below \<open>k\<close> at the nodes of the matrix.
\<close>

section \<open>The code\<close>

text \<open>\<open>struct fec_parms\<close>; \<open>enc_addr\<close> is the address that \<open>malloc\<close> returned for the matrix.\<close>

record fec_parms =
  magic :: "64 word"
  fec_k :: int
  fec_n :: int
  enc_matrix :: "gf list"
  enc_addr :: "64 word"

text \<open>The static state of the file: \<open>fec_initialized\<close> and the tables.\<close>

record fec_static =
  fec_initialized :: bool
  tables :: gf_tables

definition fec_static_start :: fec_static where
  "fec_static_start = \<lparr>fec_initialized = False, tables = gf_static\<rparr>"

definition fec_init :: "fec_static \<Rightarrow> fec_static" where
  "fec_init s =
     (if \<not> fec_initialized s then \<lparr>fec_initialized = True, tables = init_fec (tables s)\<rparr> else s)"

abbreviation FEC_MAGIC :: u32 where
  "FEC_MAGIC \<equiv> 0xFECC0DEC"

definition fec_magic :: "int \<Rightarrow> int \<Rightarrow> 64 word \<Rightarrow> 64 word" where
  "fec_magic k n addr = ucast (((FEC_MAGIC XOR word_of_int k) XOR word_of_int n) XOR (ucast addr :: u32))"

text \<open>\<open>fec_free\<close>: whether the descriptor and its matrix are freed.\<close>

fun fec_free :: "fec_parms option \<Rightarrow> bool" where
  "fec_free None = False"
| "fec_free (Some p) = (magic p = fec_magic (fec_k p) (fec_n p) (enc_addr p))"

definition vandermonde_fill :: "gf_tables \<Rightarrow> nat \<Rightarrow> nat \<Rightarrow> gf list \<Rightarrow> gf list" where
  "vandermonde_fill t k n tmp_m =
     (let tmp_m = tmp_m[0 := 1];
          tmp_m = fold (\<lambda>col m. m[col := 0]) [1..<k] tmp_m
      in fold (\<lambda>row. fold (\<lambda>col m.
             m[(row + 1) * k + col := gf_exp t ! unat (modnn (int row * int col))]) [0..<k])
           [0..<n - 1] tmp_m)"

definition systematic_matrix :: "gf_tables \<Rightarrow> nat \<Rightarrow> nat \<Rightarrow> gf list" where
  "systematic_matrix t k n =
     (let enc_matrix = replicate (n * k) 0;
          tmp_m = vandermonde_fill t k n (replicate (n * k) 0);
          tmp_m = snd (invert_vdm t tmp_m k);
          enc_matrix = take (k * k) enc_matrix @
            matmul t (drop (k * k) tmp_m) tmp_m (drop (k * k) enc_matrix) (n - k) k k;
          enc_matrix = replicate (k * k) 0 @ drop (k * k) enc_matrix
      in fold (\<lambda>col m. m[col * (k + 1) := 1]) [0..<k] enc_matrix)"

text \<open>
  \<open>addr\<close> is the address of the new matrix. The check lets \<open>k \<le> 0\<close> through, for which the code
  writes outside its arrays; the theorems ask for \<open>1 \<le> k\<close>. Memory from \<open>malloc\<close> is
  modelled as zeros; all of it is written before it is read.
\<close>

definition fec_new :: "int \<Rightarrow> int \<Rightarrow> 64 word \<Rightarrow> fec_static \<Rightarrow> fec_parms option \<times> fec_static" where
  "fec_new k n addr s =
     (let s = fec_init s
      in if k > int GF_SIZE + 1 \<or> n > int GF_SIZE + 1 \<or> k > n then (None, s)
         else (Some \<lparr>magic = fec_magic k n addr, fec_k = k, fec_n = n,
                  enc_matrix = systematic_matrix (tables s) (nat k) (nat n), enc_addr = addr\<rparr>, s))"

definition get_k :: "fec_parms \<Rightarrow> int" where
  "get_k code = fec_k code"

definition get_n :: "fec_parms \<Rightarrow> int" where
  "get_n code = fec_n code"

definition fec_encode :: "gf_tables \<Rightarrow> fec_parms \<Rightarrow> gf list list \<Rightarrow> gf list \<Rightarrow> nat \<Rightarrow> nat \<Rightarrow> gf list" where
  "fec_encode t code src fec index sz =
     (let k = nat (fec_k code)
      in if index < k then take sz (src ! index) @ drop sz fec
         else if int index < fec_n code
         then let p = drop (index * k) (enc_matrix code);
                  fec = replicate sz 0 @ drop sz fec
              in fold (\<lambda>i fec. addmul t fec (src ! i) (p ! i) sz) [0..<k] fec
         else fec)"

text \<open>
  The loop of \<open>shuffle\<close> from index \<open>i\<close>, with the number it returns. \<open>None\<close> is an access outside
  the arrays, which have \<open>k\<close> entries at least.
\<close>

function shuffle_loop :: "nat \<Rightarrow> nat \<Rightarrow> 'a list \<Rightarrow> nat list \<Rightarrow> (int \<times> 'a list \<times> nat list) option" where
  "shuffle_loop k i pkt index =
     (if i < k
      then if length index < k \<or> length pkt < k then None
           else if index ! i \<ge> k \<or> index ! i = i then shuffle_loop k (i + 1) pkt index
           else let c = index ! i
                in if index ! c = c then Some (1, pkt, index)
                   else shuffle_loop k i (swap_at i c pkt) (swap_at i c index)
      else Some (0, pkt, index))"
  by pat_completeness auto

definition unsettled :: "nat \<Rightarrow> nat list \<Rightarrow> nat" where
  "unsettled k index = card {j. j < k \<and> index ! j \<noteq> j}"

lemma unsettled_swap_less:
  assumes "k \<le> length index" and "i < k" and "c = index ! i" and "c < k" and "c \<noteq> i"
    and "index ! c \<noteq> c"
  shows "unsettled k (swap_at i c index) < unsettled k index"
  unfolding unsettled_def
proof (rule psubset_card_mono)
  have "{j. j < k \<and> swap_at i c index ! j \<noteq> j} \<subseteq> {j. j < k \<and> index ! j \<noteq> j}"
    using assms by (auto simp: nth_swap_at split: if_splits)
  moreover have "c \<in> {j. j < k \<and> index ! j \<noteq> j}" "c \<notin> {j. j < k \<and> swap_at i c index ! j \<noteq> j}"
    using assms by (auto simp: nth_swap_at)
  ultimately show "{j. j < k \<and> swap_at i c index ! j \<noteq> j} \<subset> {j. j < k \<and> index ! j \<noteq> j}" by blast
qed simp

termination shuffle_loop
  by (relation "measures [\<lambda>(k, i, pkt, index). unsettled k index, \<lambda>(k, i, pkt, index). k - i]")
    (auto intro: unsettled_swap_less)

declare shuffle_loop.simps [simp del]

definition shuffle :: "'a list \<Rightarrow> nat list \<Rightarrow> nat \<Rightarrow> (int \<times> 'a list \<times> nat list) option" where
  "shuffle pkt index k = shuffle_loop k 0 pkt index"

fun decode_rows :: "fec_parms \<Rightarrow> nat \<Rightarrow> nat list \<Rightarrow> nat list \<Rightarrow> gf list \<Rightarrow> gf list option" where
  "decode_rows code k index [] matrix = Some matrix"
| "decode_rows code k index (i # is) matrix =
     (if index ! i < k
      then decode_rows code k index is (put_row k i ((replicate k 0)[i := 1]) matrix)
      else if int (index ! i) < fec_n code
      then decode_rows code k index is (put_row k i (row_of k (index ! i) (enc_matrix code)) matrix)
      else None)"

definition build_decode_matrix :: "gf_tables \<Rightarrow> fec_parms \<Rightarrow> nat list \<Rightarrow> gf list option" where
  "build_decode_matrix t code index =
     (let k = nat (fec_k code)
      in case decode_rows code k index [0..<k] (replicate (k * k) 0) of
           None \<Rightarrow> None
         | Some matrix \<Rightarrow>
             (case invert_mat t matrix k of (err, matrix) \<Rightarrow> if err \<noteq> 0 then None else Some matrix))"

definition decoded_row :: "gf_tables \<Rightarrow> gf list \<Rightarrow> gf list list \<Rightarrow> nat \<Rightarrow> nat \<Rightarrow> nat \<Rightarrow> gf list" where
  "decoded_row t m_dec pkt k sz row =
     fold (\<lambda>col v. addmul t v (pkt ! col) (m_dec ! (row * k + col)) sz) [0..<k] (replicate sz 0)"

text \<open>The result is the return value with the packets and the indexes, both modified in place.\<close>

definition fec_decode ::
  "gf_tables \<Rightarrow> fec_parms \<Rightarrow> gf list list \<Rightarrow> nat list \<Rightarrow> nat \<Rightarrow> (int \<times> gf list list \<times> nat list) option" where
  "fec_decode t code pkt index sz =
     (let k = nat (fec_k code)
      in case shuffle pkt index k of
           None \<Rightarrow> None
         | Some (err, pkt, index) \<Rightarrow>
             if err \<noteq> 0 then Some (1, pkt, index)
             else (case build_decode_matrix t code index of
                     None \<Rightarrow> Some (1, pkt, index)
                   | Some m_dec \<Rightarrow>
                       let new_pkt = map (\<lambda>row. if index ! row \<ge> k then decoded_row t m_dec pkt k sz row else [])
                             [0..<k]
                       in Some (0, fold (\<lambda>row pkt.
                             if index ! row \<ge> k
                             then pkt[row := new_pkt ! row @ drop sz (pkt ! row)] else pkt) [0..<k] pkt,
                           index)))"

section \<open>The encoding matrix\<close>

definition node :: "nat \<Rightarrow> gf256" where
  "node i = (if i = 0 then 0 else alpha ^ (i - 1))"

lemma node_inject: "i < 256 \<Longrightarrow> j < 256 \<Longrightarrow> node i = node j \<longleftrightarrow> i = j"
  by (auto simp: node_def alpha_power_inject)

definition node_list :: "nat \<Rightarrow> gf list" where
  "node_list k = map (\<lambda>i. byte (node i)) [0..<k]"

lemma nodes_ok_node_list: "1 \<le> k \<Longrightarrow> k \<le> 256 \<Longrightarrow> nodes_ok k (node_list k)"
proof -
  assume k: "1 \<le> k" "k \<le> 256"
  have "inj_on (\<lambda>i. byte (node i)) (set [0..<k])"
    using k by (auto intro!: inj_onI simp: gf256.expand [symmetric] dest!: node_inject [THEN iffD1, rotated 2] gf256.expand)
  with k show ?thesis by (simp add: nodes_ok_def node_list_def distinct_map node_def)
qed

lemma alpha_power_mod: "alpha ^ (m mod 255) = alpha ^ m"
proof -
  have "alpha ^ m = alpha ^ (m mod 255 + 255 * (m div 255))" by (simp only: mod_mult_div_eq)
  also have "\<dots> = alpha ^ (m mod 255)" by (simp only: power_add power_mult alpha_power_255 power_one mult_1_right)
  finally show ?thesis by simp
qed

lemma gf_exp_modnn:
  assumes "gf_ready t"
  shows "Gf (gf_exp t ! unat (modnn (int row * int col))) = (alpha ^ row) ^ col"
proof -
  have "unat (modnn (int row * int col)) = (row * col) mod 255"
    using unat_modnn [of "int row * int col"] by (simp add: nat_mod_distrib nat_mult_distrib)
  then show ?thesis
    using gf_exp_field [OF assms, of "(row * col) mod 255"] by (simp add: alpha_power_mod power_mult)
qed

lemma fill_rows:
  assumes "length m = n * k" and "b + 1 \<le> n"
  shows "length (fold (\<lambda>row. fold (\<lambda>col m. m[(row + 1) * k + col := f row col]) [0..<k]) [0..<b] m) = n * k \<and>
    (\<forall>i<n. \<forall>j<k. fold (\<lambda>row. fold (\<lambda>col m. m[(row + 1) * k + col := f row col]) [0..<k]) [0..<b] m ! (i * k + j)
       = (if 1 \<le> i \<and> i \<le> b then f (i - 1) j else m ! (i * k + j)))"
  using assms(2)
proof (induction b)
  case (Suc b)
  let ?u = "fold (\<lambda>row. fold (\<lambda>col m. m[(row + 1) * k + col := f row col]) [0..<k]) [0..<b] m"
  have u: "length ?u = n * k" "\<And>i j. i < n \<Longrightarrow> j < k \<Longrightarrow> ?u ! (i * k + j) =
      (if 1 \<le> i \<and> i \<le> b then f (i - 1) j else m ! (i * k + j))"
    using Suc by simp_all
  have row: "length (fold (\<lambda>col m. m[(b + 1) * k + col := f b col]) [0..<q] ?u) = n * k \<and>
      (\<forall>i<n. \<forall>j<k. fold (\<lambda>col m. m[(b + 1) * k + col := f b col]) [0..<q] ?u ! (i * k + j) =
        (if i = b + 1 \<and> j < q then f b j else ?u ! (i * k + j)))" if "q \<le> k" for q
    using that
  proof (induction q)
    case (Suc q)
    have "(b + 1) * k + q < n * k" using Suc.prems \<open>Suc b + 1 \<le> n\<close> by (intro flat_index_less) simp_all
    moreover have "i * k + j = (b + 1) * k + q \<longleftrightarrow> i = b + 1 \<and> j = q" if "j < k" for i j
      using that Suc.prems by (intro flat_index_inject) simp_all
    ultimately show ?case
      using Suc by (auto simp: nth_list_update less_Suc_eq simp del: mult_Suc add_mult_distrib)
  qed (use u in simp)
  from row [of k] u show ?case
    by (auto simp: less_Suc_eq le_Suc_eq)
qed (use assms in simp)

lemma vandermonde_fill_entries:
  assumes "gf_ready t" and "length m = n * k" and "1 \<le> k" and "k \<le> n"
  shows "length (vandermonde_fill t k n m) = n * k"
    and "i < n \<Longrightarrow> j < k \<Longrightarrow> entry k (vandermonde_fill t k n m) i j = node i ^ j"
proof -
  define m1 where "m1 = fold (\<lambda>col m. m[col := 0]) [1..<k] (m[0 := 1 :: gf])"
  have nk: "k \<le> n * k" using assms(3,4) by simp
  have "length (fold (\<lambda>col m. m[col := 0 :: gf]) [1..<q] (m[0 := 1])) = n * k \<and>
      (\<forall>j<k. fold (\<lambda>col m. m[col := 0]) [1..<q] (m[0 := 1 :: gf]) ! j =
         (if j = 0 then 1 else if j < q then 0 else m ! j))" if "1 \<le> q" "q \<le> k" for q
    using that
  proof (induction q)
    case (Suc q)
    show ?case
    proof (cases "q = 0")
      case True
      then show ?thesis using assms(2,3) nk by (auto simp: nth_list_update)
    next
      case False
      moreover have "q < n * k" using nk Suc.prems by linarith
      ultimately show ?thesis using Suc by (auto simp: nth_list_update less_Suc_eq)
    qed
  qed simp
  from this [of k] have m1: "length m1 = n * k" "\<And>j. j < k \<Longrightarrow> m1 ! j = (if j = 0 then 1 else 0)"
    using assms(3) by (simp_all add: m1_def)
  have fill: "vandermonde_fill t k n m = fold (\<lambda>row. fold (\<lambda>col m.
      m[(row + 1) * k + col := gf_exp t ! unat (modnn (int row * int col))]) [0..<k]) [0..<n - 1] m1"
    by (simp add: vandermonde_fill_def m1_def Let_def)
  have n1: "n - 1 + 1 \<le> n" using assms(3,4) by simp
  note rows = fill_rows [OF m1(1) n1, where f = "\<lambda>row col. gf_exp t ! unat (modnn (int row * int col))",
      folded fill]
  show "length (vandermonde_fill t k n m) = n * k" using rows by blast
  assume ij: "i < n" "j < k"
  show "entry k (vandermonde_fill t k n m) i j = node i ^ j"
  proof (cases "i = 0")
    case True
    have "vandermonde_fill t k n m ! (0 * k + j) = m1 ! (0 * k + j)" using rows ij(2) ij True by fastforce
    with m1(2) [OF ij(2)] True show ?thesis by (cases j) (simp_all add: entry_def node_def)
  next
    case False
    then have "1 \<le> i \<and> i \<le> n - 1" using ij(1) by simp
    with rows ij have "vandermonde_fill t k n m ! (i * k + j) = gf_exp t ! unat (modnn (int (i - 1) * int j))"
      by presburger
    with False gf_exp_modnn [OF assms(1), of "i - 1" j] show ?thesis
      by (simp add: entry_def node_def)
  qed
qed

text \<open>
  The systematic matrix \<open>E\<close>: packet \<open>i\<close> of the data \<open>d\<close> is the value at node \<open>i\<close> of the polynomial that
  takes the data as its values at the first \<open>k\<close> nodes.
\<close>

definition interpolates :: "nat \<Rightarrow> nat \<Rightarrow> (nat \<Rightarrow> nat \<Rightarrow> gf256) \<Rightarrow> bool" where
  "interpolates k n E \<longleftrightarrow>
     (\<forall>i<k. \<forall>j<k. E i j = (if i = j then 1 else 0)) \<and>
     (\<forall>d. \<exists>f. \<forall>i<n. (\<Sum>j<k. E i j * d j) = peval k f (node i))"

lemma diagonal_ones:
  assumes "length m = n * k" and "k \<le> n" and "b \<le> k"
  shows "length (fold (\<lambda>col m. m[col * (k + 1) := 1 :: gf]) [0..<b] m) = n * k \<and>
    (\<forall>i<n. \<forall>j<k. fold (\<lambda>col m. m[col * (k + 1) := 1]) [0..<b] m ! (i * k + j) =
      (if i = j \<and> i < b then 1 else m ! (i * k + j)))"
  using assms(3)
proof (induction b)
  case (Suc b)
  have "b * k + b < n * k" using Suc.prems assms(2) by (intro flat_index_less) simp_all
  moreover have "b * (k + 1) = b * k + b" by simp
  moreover have "i * k + j = b * k + b \<longleftrightarrow> i = b \<and> j = b" if "j < k" for i j
    using that Suc.prems by (intro flat_index_inject) simp_all
  ultimately show ?case
    using Suc by (auto simp: nth_list_update less_Suc_eq simp del: mult_Suc_right)
qed (use assms in simp)

lemma systematic_matrix_entries:
  assumes t: "gf_ready t" and k: "1 \<le> k" "k \<le> n" "n \<le> 256"
  shows "length (systematic_matrix t k n) = n * k"
    and "interpolates k n (entry k (systematic_matrix t k n))"
proof -
  define v where "v = vandermonde_fill t k n (replicate (n * k) 0)"
  have v: "length v = n * k" "\<And>i j. i < n \<Longrightarrow> j < k \<Longrightarrow> entry k v i j = node i ^ j"
    using vandermonde_fill_entries [OF t _ k(1,2), of "replicate (n * k) 0"] by (simp_all add: v_def)
  have nodes: "nodes_ok k (node_list k)" using k by (intro nodes_ok_node_list) simp_all
  have nl: "Gf (node_list k ! i) = node i" if "i < k" for i using that by (simp add: node_list_def)
  have "entry k v i j = Gf (node_list k ! i) ^ j" if "i < k" "j < k" for i j
    using v(2) [of i j] nl that k(2) by simp
  from invert_vdm_right_inverse [OF t v(1) k(1,2) nodes this]
  obtain w where w: "invert_vdm t v k = (0, w)" "length w = n * k"
    "\<And>i j. k \<le> i \<Longrightarrow> i < n \<Longrightarrow> j < k \<Longrightarrow> entry k w i j = entry k v i j"
    "\<And>i row. i < k \<Longrightarrow> row < k \<Longrightarrow>
      (\<Sum>j<k. Gf (node_list k ! i) ^ j * entry k w j row) = (if i = row then 1 else 0)" by blast
  define mm where "mm = matmul t (drop (k * k) w) w (replicate ((n - k) * k) 0) (n - k) k k"
  have mm: "length mm = (n - k) * k"
    "\<And>i j. i < n - k \<Longrightarrow> j < k \<Longrightarrow> entry k mm i j = (\<Sum>l<k. entry k (drop (k * k) w) i l * entry k w l j)"
    using matmul_entries [OF t, where c = "replicate ((n - k) * k) 0" and n = "n - k" and m = k
        and a = "drop (k * k) w" and b = w and k = k]
    by (simp_all add: mm_def)
  have dropw: "entry k (drop (k * k) w) i l = node (i + k) ^ l" if "i < n - k" "l < k" for i l
  proof -
    have "(i + k) * k + l < n * k" using that by (intro flat_index_less) simp_all
    moreover have "(i + k) * k + l = k * k + (i * k + l)" by (simp add: add_mult_distrib)
    ultimately have "entry k (drop (k * k) w) i l = entry k w (i + k) l"
      using w(2) k(2) by (simp only: entry_def) (subst nth_drop, simp_all)
    then show ?thesis using w(3) [of "i + k" l] v(2) [of "i + k" l] that by simp
  qed
  define e where "e = replicate (k * k) 0 @ mm"
  have e: "length e = n * k"
    using mm(1) k(2) by (simp add: e_def flip: add_mult_distrib)
  have diff: "drop (k * k) (replicate (n * k) (0 :: gf)) = replicate ((n - k) * k) 0"
    by (simp add: diff_mult_distrib)
  have eq: "systematic_matrix t k n = fold (\<lambda>col m. m[col * (k + 1) := 1]) [0..<k] e"
    using k(2) by (simp add: systematic_matrix_def Let_def w(1) diff e_def flip: v_def mm_def)
      (simp add: mm_def diff_mult_distrib)
  note diag = diagonal_ones [OF e k(2), of k, folded eq]
  show "length (systematic_matrix t k n) = n * k" using diag by blast
  have top: "entry k (systematic_matrix t k n) i j = (if i = j then 1 else 0)" if "i < k" "j < k" for i j
  proof -
    have "i * k + j < k * k" using that by (rule flat_index_less)
    then have "e ! (i * k + j) = 0" by (simp add: e_def nth_append)
    then show ?thesis using diag that k(2) by (simp add: entry_def)
  qed
  have bottom: "entry k (systematic_matrix t k n) i j = (\<Sum>l<k. node i ^ l * entry k w l j)"
    if "k \<le> i" "i < n" "j < k" for i j
  proof -
    have i: "i * k + j = (i - k) * k + j + k * k" using that(1) by (simp flip: add_mult_distrib)
    have "e ! (i * k + j) = mm ! ((i - k) * k + j)"
      unfolding i by (simp add: e_def nth_append)
    then have "entry k (systematic_matrix t k n) i j = entry k mm (i - k) j"
      using diag that by (simp add: entry_def)
    also have "\<dots> = (\<Sum>l<k. node i ^ l * entry k w l j)"
      using mm(2) [of "i - k" j] dropw [of "i - k"] that by simp
    finally show ?thesis .
  qed
  have "\<exists>f. \<forall>i<n. (\<Sum>j<k. entry k (systematic_matrix t k n) i j * d j) = peval k f (node i)" for d
  proof (intro exI allI impI)
    fix i assume i: "i < n"
    have swap: "peval k (\<lambda>l. \<Sum>j<k. entry k w l j * d j) (node i) =
        (\<Sum>j<k. (\<Sum>l<k. node i ^ l * entry k w l j) * d j)"
      unfolding peval_def sum_distrib_right by (subst sum.swap) (simp add: mult.assoc mult.commute mult.left_commute)
    have "entry k (systematic_matrix t k n) i j = (\<Sum>l<k. node i ^ l * entry k w l j)" if "j < k" for j
      using top [of i j] bottom [of i j] w(4) [of i j] nl [of i] i that by (cases "i < k") auto
    then show "(\<Sum>j<k. entry k (systematic_matrix t k n) i j * d j) =
        peval k (\<lambda>l. \<Sum>j<k. entry k w l j * d j) (node i)"
      unfolding swap by simp
  qed
  with top show "interpolates k n (entry k (systematic_matrix t k n))"
    by (simp add: interpolates_def)
qed

text \<open>Any \<open>k\<close> rows of the matrix have a trivial kernel.\<close>

lemma interpolates_nonsingular:
  assumes "interpolates k n E" and "k \<le> n" and "n \<le> 256"
    and idx: "\<And>r. r < k \<Longrightarrow> idx r < n" "inj_on idx {..<k}"
    and A: "\<And>r j. r < k \<Longrightarrow> j < k \<Longrightarrow> A r j = E (idx r) j"
  shows "\<not> singular k A"
proof
  assume "singular k A"
  then obtain x j where x: "lin k A x (\<lambda>i. 0)" and j: "j < k" "x j \<noteq> 0" by (auto simp: singular_def)
  obtain f where f: "\<forall>i<n. (\<Sum>j<k. E i j * x j) = peval k f (node i)"
    using assms(1) unfolding interpolates_def by blast
  have zero: "peval k f (node (idx r)) = 0" if "r < k" for r
  proof -
    have "peval k f (node (idx r)) = (\<Sum>j<k. A r j * x j)" using f idx(1) [OF that] A that by simp
    also have "\<dots> = 0" using x that by (simp add: lin_def)
    finally show ?thesis .
  qed
  let ?R = "(\<lambda>r. node (idx r)) ` {..<k}"
  have "card ?R = k"
  proof -
    have "inj_on (\<lambda>r. node (idx r)) {..<k}"
    proof (rule inj_onI)
      fix r r' assume r: "r \<in> {..<k}" "r' \<in> {..<k}" "node (idx r) = node (idx r')"
      then have "idx r < 256" "idx r' < 256" using idx(1) [of r] idx(1) [of r'] assms(3) by simp_all
      with r(3) have "idx r = idx r'" by (simp add: node_inject)
      with r idx(2) show "r = r'" by (simp add: inj_on_def)
    qed
    then show ?thesis by (simp add: card_image)
  qed
  then have "f l = 0" if "l < k" for l
    using zero that by (intro peval_roots_zero [of ?R k f]) auto
  then have "peval k f y = 0" for y by (simp add: peval_def)
  then have "(\<Sum>l<k. E j l * x l) = 0" using f j(1) assms(2) by simp
  moreover have "(\<Sum>l<k. E j l * x l) = (\<Sum>l<k. x l * (if l = j then 1 else 0))"
    using assms(1) j(1) by (intro sum.cong) (auto simp: interpolates_def)
  ultimately have "x j = 0" using sum_unit [OF j(1), of x] by simp
  with j(2) show False by simp
qed

section \<open>The shuffle\<close>

definition settled :: "nat \<Rightarrow> nat \<Rightarrow> nat list \<Rightarrow> bool" where
  "settled k i index \<longleftrightarrow> (\<forall>j<i. j < k \<longrightarrow> k \<le> index ! j \<or> index ! j = j)"

lemma take_swap_at:
  "i < k \<Longrightarrow> c < k \<Longrightarrow> k \<le> length xs \<Longrightarrow> take k (swap_at i c xs) = swap_at i c (take k xs)"
  by (simp add: swap_at_def take_update_swap)

lemma zip_swap_at:
  "length xs = length ys \<Longrightarrow> i < length xs \<Longrightarrow> c < length xs \<Longrightarrow>
    zip (swap_at i c xs) (swap_at i c ys) = swap_at i c (zip xs ys)"
  by (rule nth_equalityI) (auto simp: nth_swap_at)

lemma mset_swap_at: "i < length xs \<Longrightarrow> c < length xs \<Longrightarrow> mset (swap_at i c xs) = mset xs"
  using mset_swap [of c xs i] by (simp add: swap_at_def)

lemma drop_swap_at: "i < k \<Longrightarrow> c < k \<Longrightarrow> drop k (swap_at i c xs) = drop k xs"
  by (simp add: swap_at_def)

definition shuffled :: "nat \<Rightarrow> 'a list \<Rightarrow> nat list \<Rightarrow> 'a list \<Rightarrow> nat list \<Rightarrow> bool" where
  "shuffled k pkt index pkt' index' \<longleftrightarrow>
     length pkt' = length pkt \<and> length index' = length index \<and>
     drop k pkt' = drop k pkt \<and> drop k index' = drop k index \<and>
     mset (zip (take k pkt') (take k index')) = mset (zip (take k pkt) (take k index))"

lemma shuffled_swap:
  assumes "k \<le> length pkt" and "k \<le> length index" and "i < k" and "c < k"
  shows "shuffled k pkt index (swap_at i c pkt) (swap_at i c index)"
  using assms unfolding shuffled_def
  by (simp add: take_swap_at zip_swap_at mset_swap_at drop_swap_at)

lemma shuffle_loop_cases:
  assumes "k \<le> length pkt" and "k \<le> length index" and "settled k i index" and "i \<le> k"
  shows "\<exists>e pkt' index'. shuffle_loop k i pkt index = Some (e, pkt', index') \<and>
    shuffled k pkt index pkt' index' \<and>
    ((e = 0 \<and> settled k k index') \<or>
     (e = 1 \<and> (\<exists>a c. a < k \<and> c < k \<and> a \<noteq> c \<and> index' ! a = c \<and> index' ! c = c)))"
  using assms
proof (induction k i pkt index rule: shuffle_loop.induct)
  case (1 k i pkt index)
  show ?case
  proof (cases "i < k")
    case False
    then have "shuffle_loop k i pkt index = Some (0, pkt, index)"
      by (simp add: shuffle_loop.simps [of k i pkt index])
    moreover have "settled k k index" using 1(5,6) False by simp
    ultimately show ?thesis by (auto simp: shuffled_def)
  next
    case True
    have ok: "\<not> (length index < k \<or> length pkt < k)" using 1 by simp
    show ?thesis
    proof (cases "index ! i \<ge> k \<or> index ! i = i")
      case skip: True
      have "settled k (i + 1) index"
        using 1(5) skip by (auto simp: settled_def less_Suc_eq)
      with 1(1) [OF True ok skip] 1(3,4) True skip ok show ?thesis
        by (simp add: shuffle_loop.simps [of k i pkt index])
    next
      case swap: False
      define c where "c = index ! i"
      have c: "c < k" "c \<noteq> i" using swap by (auto simp: c_def)
      show ?thesis
      proof (cases "index ! c = c")
        case conflict: True
        have "shuffle_loop k i pkt index = Some (1, pkt, index)"
          using True ok swap conflict by (simp add: shuffle_loop.simps [of k i pkt index] c_def Let_def)
        moreover have "i < k \<and> c < k \<and> i \<noteq> c \<and> index ! i = c \<and> index ! c = c"
          using True c conflict c_def by blast
        moreover have "shuffled k pkt index pkt index" by (simp add: shuffled_def)
        ultimately show ?thesis by blast
      next
        case free: False
        have "settled k i (swap_at i c index)"
          using 1(4,5) True c free swap
          by (auto simp: settled_def nth_swap_at c_def)
        moreover have "shuffled k pkt index (swap_at i c pkt) (swap_at i c index)"
          using 1(3,4) True c by (intro shuffled_swap) simp_all
        moreover have "shuffle_loop k i pkt index = shuffle_loop k i (swap_at i c pkt) (swap_at i c index)"
          using True ok swap free by (simp add: shuffle_loop.simps [of k i pkt index] c_def Let_def)
        ultimately show ?thesis
          using 1(2) [OF True ok swap c_def] free 1(3,4,6)
          by (auto simp: shuffled_def c_def [symmetric])
      qed
    qed
  qed
qed

lemma shuffled_indexes:
  assumes "shuffled k pkt index pkt' index'" and "k \<le> length pkt" and "k \<le> length index"
  shows "mset (take k index') = mset (take k index)"
proof -
  have "image_mset snd (mset (zip (take k pkt') (take k index'))) =
      image_mset snd (mset (zip (take k pkt) (take k index)))"
    using assms(1) by (simp add: shuffled_def)
  then have "mset (map snd (zip (take k pkt') (take k index'))) = mset (map snd (zip (take k pkt) (take k index)))"
    by (simp only: mset_map)
  moreover have "length pkt' = length pkt" "length index' = length index"
    using assms(1) by (simp_all add: shuffled_def)
  ultimately show ?thesis using assms(2,3) by (simp only: map_snd_zip length_take)
qed

lemma shuffled_pairs:
  assumes "shuffled k pkt index pkt' index'" and "k \<le> length pkt" and "k \<le> length index"
    and "\<And>j. j < k \<Longrightarrow> R (pkt ! j) (index ! j)" and "j < k"
  shows "R (pkt' ! j) (index' ! j)"
proof -
  have len: "length pkt' = length pkt" "length index' = length index" using assms(1) by (simp_all add: shuffled_def)
  have "set (zip (take k pkt') (take k index')) = set (zip (take k pkt) (take k index))"
    using assms(1) unfolding shuffled_def by (metis set_mset_mset)
  moreover have "(pkt' ! j, index' ! j) \<in> set (zip (take k pkt') (take k index'))"
    using assms(2,3,5) len by (auto simp: in_set_zip intro!: exI [of _ j])
  ultimately have "(pkt' ! j, index' ! j) \<in> set (zip (take k pkt) (take k index))" by simp
  then obtain m where "m < k" "pkt' ! j = pkt ! m" "index' ! j = index ! m"
    by (auto simp: in_set_zip)
  then show ?thesis using assms(4) [of m] by simp
qed

section \<open>Encoding\<close>

text \<open>What \<open>fec_new\<close> promises of a descriptor.\<close>

definition code_ok :: "nat \<Rightarrow> nat \<Rightarrow> fec_parms \<Rightarrow> bool" where
  "code_ok k n code \<longleftrightarrow> fec_k code = int k \<and> fec_n code = int n \<and> 1 \<le> k \<and> k \<le> n \<and> n \<le> 256 \<and>
     length (enc_matrix code) = n * k \<and> interpolates k n (entry k (enc_matrix code))"

definition static_ok :: "fec_static \<Rightarrow> bool" where
  "static_ok s \<longleftrightarrow> (if fec_initialized s then gf_ready (tables s) else gf_sized (tables s))"

lemma static_start_ok: "static_ok fec_static_start"
  by (simp add: static_ok_def fec_static_start_def gf_static_sized)

lemma fec_init_ok: "static_ok s \<Longrightarrow> static_ok (fec_init s) \<and> gf_ready (tables (fec_init s))"
  by (simp add: static_ok_def fec_init_def init_fec_ready)

lemma fec_new_cases:
  assumes "static_ok s"
  shows "fec_new (int k) (int n) addr s =
      (if k > 256 \<or> n > 256 \<or> k > n then None
       else Some \<lparr>magic = fec_magic (int k) (int n) addr, fec_k = int k, fec_n = int n,
              enc_matrix = systematic_matrix (tables (fec_init s)) k n, enc_addr = addr\<rparr>, fec_init s)"
  by (auto simp: fec_new_def Let_def)

lemma fec_new_code_ok:
  assumes "static_ok s" and "1 \<le> k" and "fec_new (int k) (int n) addr s = (Some code, s')"
  shows "code_ok k n code" and "gf_ready (tables s')" and "static_ok s'"
proof -
  have kn: "k \<le> n" "n \<le> 256" and s': "s' = fec_init s"
    and code: "code = \<lparr>magic = fec_magic (int k) (int n) addr, fec_k = int k, fec_n = int n,
      enc_matrix = systematic_matrix (tables (fec_init s)) k n, enc_addr = addr\<rparr>"
    using assms(3) unfolding fec_new_cases [OF assms(1)] by (auto split: if_splits)
  show "gf_ready (tables s')" "static_ok s'" unfolding s' using fec_init_ok [OF assms(1)] by simp_all
  show "code_ok k n code"
    using systematic_matrix_entries [OF _ assms(2) kn] fec_init_ok [OF assms(1)] assms(2) kn
    by (simp add: code_ok_def code)
qed

lemma addmul_sum:
  assumes "gf_ready t" and "sz \<le> length v"
  shows "length (fold (\<lambda>i v. addmul t v (src ! i) (p i) sz) [0..<m] v) = length v \<and>
    (\<forall>b< sz. Gf (fold (\<lambda>i v. addmul t v (src ! i) (p i) sz) [0..<m] v ! b) =
       Gf (v ! b) + (\<Sum>i<m. Gf (p i) * Gf (src ! i ! b))) \<and>
    drop sz (fold (\<lambda>i v. addmul t v (src ! i) (p i) sz) [0..<m] v) = drop sz v"
proof (induction m)
  case (Suc m)
  let ?u = "fold (\<lambda>i v. addmul t v (src ! i) (p i) sz) [0..<m] v"
  have "drop sz (addmul t ?u (src ! m) (p m) sz) = drop sz ?u"
  proof (rule nth_equalityI)
    fix b assume "b < length (drop sz (addmul t ?u (src ! m) (p m) sz))"
    then have b: "sz + b < length ?u" by simp
    then have "Gf (addmul t ?u (src ! m) (p m) sz ! (sz + b)) = Gf (?u ! (sz + b))"
      using addmul_field [OF assms(1) b] by simp
    with b show "drop sz (addmul t ?u (src ! m) (p m) sz) ! b = drop sz ?u ! b" by simp
  qed simp
  with Suc assms show ?case by (simp add: addmul_field add.assoc)
qed simp

definition coded :: "nat \<Rightarrow> fec_parms \<Rightarrow> gf list list \<Rightarrow> nat \<Rightarrow> nat \<Rightarrow> gf256" where
  "coded k code src i b = (\<Sum>j<k. entry k (enc_matrix code) i j * Gf (src ! j ! b))"

lemma coded_systematic: "code_ok k n code \<Longrightarrow> i < k \<Longrightarrow> coded k code src i b = Gf (src ! i ! b)"
proof -
  assume ok: "code_ok k n code" and i: "i < k"
  have "coded k code src i b = (\<Sum>j<k. Gf (src ! j ! b) * (if j = i then 1 else 0))"
    unfolding coded_def using ok i by (intro sum.cong) (auto simp: code_ok_def interpolates_def)
  then show ?thesis using sum_unit [OF i, of "\<lambda>j. Gf (src ! j ! b)"] by simp
qed

lemma fec_encode_bytes:
  assumes "gf_ready t" and "code_ok k n code" and "index < n"
    and "\<And>j. j < k \<Longrightarrow> sz \<le> length (src ! j)" and "sz \<le> length fec"
  shows "length (fec_encode t code src fec index sz) = length fec"
    and "b < sz \<Longrightarrow> Gf (fec_encode t code src fec index sz ! b) = coded k code src index b"
    and "drop sz (fec_encode t code src fec index sz) = drop sz fec"
proof -
  have code: "fec_k code = int k" "fec_n code = int n" "length (enc_matrix code) = n * k"
    using assms(2) by (simp_all add: code_ok_def)
  have "length (fec_encode t code src fec index sz) = length fec \<and>
    (b < sz \<longrightarrow> Gf (fec_encode t code src fec index sz ! b) = coded k code src index b) \<and>
    drop sz (fec_encode t code src fec index sz) = drop sz fec"
  proof (cases "index < k")
    case True
    with assms(4) [OF True] assms(5) code show ?thesis
      by (simp add: fec_encode_def coded_systematic [OF assms(2)] nth_append)
  next
    case False
    let ?v = "replicate sz 0 @ drop sz fec"
    have enc: "fec_encode t code src fec index sz =
        fold (\<lambda>i v. addmul t v (src ! i) (drop (index * k) (enc_matrix code) ! i) sz) [0..<k] ?v"
      using False code assms(3) by (simp add: fec_encode_def Let_def)
    have p: "Gf (drop (index * k) (enc_matrix code) ! i) = entry k (enc_matrix code) index i" if "i < k" for i
      using flat_index_less [OF assms(3) that] code(3) assms(3) by (simp add: entry_def)
    have len: "sz \<le> length ?v" "length ?v = length fec" using assms(5) by simp_all
    from addmul_sum [OF assms(1) len(1), of src "\<lambda>i. drop (index * k) (enc_matrix code) ! i" k]
    show ?thesis
      unfolding enc using p len(2) by (simp add: coded_def nth_append)
  qed
  then show "length (fec_encode t code src fec index sz) = length fec"
    and "b < sz \<Longrightarrow> Gf (fec_encode t code src fec index sz ! b) = coded k code src index b"
    and "drop sz (fec_encode t code src fec index sz) = drop sz fec" by blast+
qed

section \<open>Decoding\<close>

lemma decode_rows_entries:
  assumes "fec_n code = int n" and "length (enc_matrix code) = n * k"
    and "set is \<subseteq> {..<k}" and "\<And>i. i < k \<Longrightarrow> index ! i < n" and "length m = k * k" and "distinct is"
  shows "\<exists>m'. decode_rows code k index is m = Some m' \<and> length m' = k * k \<and>
    (\<forall>i<k. \<forall>j<k. entry k m' i j =
      (if i \<in> set is then if index ! i < k then (if j = i then 1 else 0) else entry k (enc_matrix code) (index ! i) j
       else entry k m i j))"
  using assms(3,5,6)
proof (induction "is" arbitrary: m)
  case (Cons i "is")
  define r where "r = (if index ! i < k then (replicate k 0)[i := 1] else row_of k (index ! i) (enc_matrix code))"
  have i: "i < k" "index ! i < n" using Cons.prems assms(4) by auto
  have r: "length r = k" using i assms(2) by (auto simp: r_def length_row_of)
  have rj: "Gf (r ! j) = (if index ! i < k then (if j = i then 1 else 0) else entry k (enc_matrix code) (index ! i) j)"
    if "j < k" for j
    using that i assms(2) by (auto simp: r_def nth_row_of entry_def nth_list_update)
  note put = put_row_props [OF Cons.prems(2) i(1) r]
  have step: "decode_rows code k index (i # is) m = decode_rows code k index is (put_row k i r m)"
    using i(2) assms(1) by (simp add: r_def)
  have "set is \<subseteq> {..<k}" "distinct is" using Cons.prems by auto
  from Cons.IH [OF this(1) put(1) this(2)] obtain m' where m':
    "decode_rows code k index is (put_row k i r m) = Some m'" "length m' = k * k"
    "\<And>a j. a < k \<Longrightarrow> j < k \<Longrightarrow> entry k m' a j =
      (if a \<in> set is then if index ! a < k then (if j = a then 1 else 0) else entry k (enc_matrix code) (index ! a) j
       else entry k (put_row k i r m) a j)" by blast
  have "entry k (put_row k i r m) a j = (if a = i then Gf (r ! j) else entry k m a j)" if "a < k" "j < k" for a j
    using put(2) [OF that] by (simp add: entry_def)
  with m' rj show ?case unfolding step by auto
qed simp

lemma build_decode_matrix_inverts:
  assumes t: "gf_ready t" and ok: "code_ok k n code"
    and idx: "\<And>i. i < k \<Longrightarrow> index ! i < n" "distinct (take k index)" "k \<le> length index"
    and fixed: "\<And>i. i < k \<Longrightarrow> index ! i < k \<Longrightarrow> index ! i = i"
  obtains m where "build_decode_matrix t code index = Some m"
    and "\<And>x y. (\<And>i. i < k \<Longrightarrow> y i = (\<Sum>j<k. entry k (enc_matrix code) (index ! i) j * x j)) \<Longrightarrow>
      (\<And>i. i < k \<Longrightarrow> x i = (\<Sum>j<k. entry k m i j * y j))"
proof -
  have code: "fec_k code = int k" "fec_n code = int n" "length (enc_matrix code) = n * k"
    "interpolates k n (entry k (enc_matrix code))" "k \<le> n" "n \<le> 256"
    using ok by (simp_all add: code_ok_def)
  obtain a where a: "decode_rows code k index [0..<k] (replicate (k * k) 0) = Some a" "length a = k * k"
    and aij: "\<And>i j. i < k \<Longrightarrow> j < k \<Longrightarrow> entry k a i j =
      (if index ! i < k then (if j = i then 1 else 0) else entry k (enc_matrix code) (index ! i) j)"
    using decode_rows_entries [OF code(2,3), of "[0..<k]" index "replicate (k * k) 0"] idx(1)
    by (auto simp: atLeast0LessThan)
  have A: "entry k a i j = entry k (enc_matrix code) (index ! i) j" if "i < k" "j < k" for i j
    using aij [OF that] fixed [OF that(1)] that code(4) by (auto simp: interpolates_def)
  have inj: "inj_on (\<lambda>i. index ! i) {..<k}"
    using idx(2,3) by (auto simp: inj_on_def distinct_conv_nth)
  have "\<not> singular k (entry k a)"
    using interpolates_nonsingular [OF code(4,5,6), of "\<lambda>i. index ! i" "entry k a"] idx(1) inj A by blast
  from invert_mat_nonsingular [OF t a(2) this] obtain m where
    m: "invert_mat t a k = (0, m)" "\<And>x y. lin k (entry k a) x y \<Longrightarrow> lin k (entry k m) y x" by blast
  show thesis
  proof (rule that)
    show "build_decode_matrix t code index = Some m"
      by (simp add: build_decode_matrix_def code(1) Let_def a(1) m(1))
    fix x y i
    assume "\<And>i. i < k \<Longrightarrow> y i = (\<Sum>j<k. entry k (enc_matrix code) (index ! i) j * x j)" and i: "i < k"
    then have "lin k (entry k a) x y" by (simp add: lin_def A)
    from m(2) [OF this] i show "x i = (\<Sum>j<k. entry k m i j * y j)" by (simp add: lin_def)
  qed
qed

text \<open>The packets hold coded data: packet \<open>i\<close> is the one with number \<open>index ! i\<close>.\<close>

definition holds_coded :: "nat \<Rightarrow> fec_parms \<Rightarrow> gf list list \<Rightarrow> nat \<Rightarrow> gf list \<Rightarrow> nat \<Rightarrow> bool" where
  "holds_coded k code src sz p i \<longleftrightarrow>
     sz \<le> length p \<and> (\<forall>b. b < sz \<longrightarrow> Gf (p ! b) = coded k code src i b)"

lemma decoded_row_bytes:
  assumes "gf_ready t" and "b < sz"
  shows "length (decoded_row t m pkt k sz row) = sz"
    and "Gf (decoded_row t m pkt k sz row ! b) = (\<Sum>j<k. entry k m row j * Gf (pkt ! j ! b))"
  using addmul_sum [OF assms(1), of sz "replicate sz 0" pkt "\<lambda>col. m ! (row * k + col)" k] assms(2)
  by (simp_all add: decoded_row_def entry_def)

lemma write_back_nth:
  "length (fold (\<lambda>row pkt. if P row then pkt[row := f row @ drop sz (pkt ! row)] else pkt) [0..<b] pkt) = length pkt \<and>
   (\<forall>i<length pkt. fold (\<lambda>row pkt. if P row then pkt[row := f row @ drop sz (pkt ! row)] else pkt) [0..<b] pkt ! i =
     (if i < b \<and> P i then f i @ drop sz (pkt ! i) else pkt ! i))"
proof (induction b)
  case (Suc b)
  let ?u = "fold (\<lambda>row pkt. if P row then pkt[row := f row @ drop sz (pkt ! row)] else pkt) [0..<b] pkt"
  have "?u[b := x] ! i = (if i = b then x else ?u ! i)" if "i < length pkt" for x i
    using that Suc by (cases "i = b") simp_all
  with Suc show ?case by (auto simp: less_Suc_eq)
qed simp

lemma fec_decode_packets:
  assumes t: "gf_ready t" and ok: "code_ok k n code"
    and len: "k \<le> length pkt" "k \<le> length index"
    and idx: "\<And>i. i < k \<Longrightarrow> index ! i < n" "distinct (take k index)"
    and pkts: "\<And>i. i < k \<Longrightarrow> holds_coded k code src sz (pkt ! i) (index ! i)"
  shows "\<exists>pkt' index'. fec_decode t code pkt index sz = Some (0, pkt', index') \<and>
    length pkt' = length pkt \<and> drop k pkt' = drop k pkt \<and>
    mset (map length (take k pkt')) = mset (map length (take k pkt)) \<and>
    (\<forall>i b. i < k \<longrightarrow> b < sz \<longrightarrow> sz \<le> length (pkt' ! i) \<and> pkt' ! i ! b = src ! i ! b)"
proof -
  have code: "fec_k code = int k" using ok by (simp add: code_ok_def)
  have "settled k 0 index" by (simp add: settled_def)
  from shuffle_loop_cases [OF len this] obtain e p ix where
    sh: "shuffle pkt index k = Some (e, p, ix)" "shuffled k pkt index p ix"
    and res: "(e = 0 \<and> settled k k ix) \<or>
      (e = 1 \<and> (\<exists>a c. a < k \<and> c < k \<and> a \<noteq> c \<and> ix ! a = c \<and> ix ! c = c))"
    unfolding shuffle_def by auto
  have plen: "length p = length pkt" "length ix = length index" "drop k p = drop k pkt"
    using sh(2) by (simp_all add: shuffled_def)
  have dist: "distinct (take k ix)"
    using shuffled_indexes [OF sh(2) len] idx(2) by (metis mset_eq_imp_distinct_iff)
  have e: "e = 0" and fixed: "settled k k ix"
  proof -
    have "ix ! a \<noteq> ix ! c" if "a < k" "c < k" "a \<noteq> c" for a c
      using dist that len plen by (auto simp: distinct_conv_nth)
    with res show "e = 0" "settled k k ix" by auto
  qed
  have coded': "holds_coded k code src sz (p ! i) (ix ! i)" if "i < k" for i
    using shuffled_pairs [OF sh(2) len, of "holds_coded k code src sz" i] pkts that by blast
  have ixn: "ix ! i < n" if "i < k" for i
    using shuffled_pairs [OF sh(2) len, of "\<lambda>_ i. i < n" i] idx(1) that by blast
  have fixed': "ix ! i = i" if "i < k" "ix ! i < k" for i
    using fixed that by (auto simp: settled_def)
  have "k \<le> length ix" using len plen by simp
  from build_decode_matrix_inverts [OF t ok ixn dist this fixed'] obtain m where
    m: "build_decode_matrix t code ix = Some m"
    and inv: "\<And>x y i. (\<And>i. i < k \<Longrightarrow> y i = (\<Sum>j<k. entry k (enc_matrix code) (ix ! i) j * x j)) \<Longrightarrow>
      i < k \<Longrightarrow> x i = (\<Sum>j<k. entry k m i j * y j)" by blast
  define f where "f row = map (\<lambda>row. if ix ! row \<ge> k then decoded_row t m p k sz row else []) [0..<k] ! row" for row
  define q where "q = fold (\<lambda>row pkt. if ix ! row \<ge> k then pkt[row := f row @ drop sz (pkt ! row)] else pkt) [0..<k] p"
  have dec: "fec_decode t code pkt index sz = Some (0, q, ix)"
    unfolding q_def f_def by (simp add: fec_decode_def code Let_def sh(1) e m)
  have q: "length q = length p"
    "\<And>i. i < length p \<Longrightarrow> q ! i = (if i < k \<and> ix ! i \<ge> k then f i @ drop sz (p ! i) else p ! i)"
    using write_back_nth [of "\<lambda>row. ix ! row \<ge> k" f sz k p] by (auto simp: q_def)
  have bytes: "length (q ! i) = length (p ! i) \<and> (\<forall>b. b < sz \<longrightarrow> q ! i ! b = src ! i ! b)" if i: "i < k" for i
  proof -
    have ip: "i < length p" using i len plen by simp
    have pl: "sz \<le> length (p ! i)" using coded' [OF i] by (simp add: holds_coded_def)
    show ?thesis
    proof (cases "ix ! i \<ge> k")
      case False
      then have ixi: "ix ! i = i" using fixed' i by simp
      have "Gf (q ! i ! b) = Gf (src ! i ! b)" if "b < sz" for b
        using coded' [OF i] q(2) [OF ip] False that i coded_systematic [OF ok i]
        by (simp add: holds_coded_def ixi)
      then show ?thesis using q(2) [OF ip] False by simp
    next
      case True
      have fi: "f i = decoded_row t m p k sz i" using True i by (simp add: f_def)
      have "Gf (q ! i ! b) = Gf (src ! i ! b)" if b: "b < sz" for b
      proof -
        have "Gf (p ! r ! b) = (\<Sum>j<k. entry k (enc_matrix code) (ix ! r) j * Gf (src ! j ! b))" if "r < k" for r
          using coded' [OF that] b by (simp add: holds_coded_def coded_def)
        from inv [OF this i] have "Gf (src ! i ! b) = (\<Sum>j<k. entry k m i j * Gf (p ! j ! b))" .
        also have "\<dots> = Gf (f i ! b)" unfolding fi by (rule decoded_row_bytes(2) [OF t b, symmetric])
        also have "f i ! b = q ! i ! b"
          using q(2) [OF ip] True i b decoded_row_bytes(1) [OF t b, of m p k i] by (simp add: fi nth_append)
        finally show ?thesis by simp
      qed
      moreover have "length (q ! i) = length (p ! i)"
      proof (cases "sz = 0")
        case True
        then have "f i = []" unfolding fi using addmul_sum [OF t, of 0 "[]" p "\<lambda>col. m ! (i * k + col)" k]
          by (simp add: decoded_row_def)
        with q(2) [OF ip] \<open>ix ! i \<ge> k\<close> i True show ?thesis by simp
      next
        case False
        then show ?thesis
          using q(2) [OF ip] True i pl decoded_row_bytes(1) [OF t, of 0 sz m p k i] by (simp add: fi)
      qed
      ultimately show ?thesis by simp
    qed
  qed
  have "drop k q = drop k p"
    by (rule nth_equalityI) (use q in \<open>auto simp: q(1)\<close>)
  moreover have "mset (map length (take k q)) = mset (map length (take k pkt))"
  proof -
    have "map length (take k q) = map length (take k p)"
      by (rule nth_equalityI) (use bytes q(1) in auto)
    moreover have "image_mset (length \<circ> fst) (mset (zip (take k p) (take k ix))) =
        image_mset (length \<circ> fst) (mset (zip (take k pkt) (take k index)))"
      using sh(2) by (simp add: shuffled_def)
    then have "mset (map length (map fst (zip (take k p) (take k ix)))) =
        mset (map length (map fst (zip (take k pkt) (take k index))))"
      by (simp only: mset_map multiset.map_comp)
    then have "mset (map length (take k p)) = mset (map length (take k pkt))"
      using len plen by simp
    ultimately show ?thesis by simp
  qed
  moreover have "\<forall>i b. i < k \<longrightarrow> b < sz \<longrightarrow> sz \<le> length (q ! i) \<and> q ! i ! b = src ! i ! b"
    using bytes coded' by (auto simp: holds_coded_def)
  ultimately show ?thesis using dec q(1) plen by auto
qed

text \<open>
  C11 (any \<open>k\<close> packets recover the data). A descriptor of \<open>fec_new\<close> for \<open>k\<close> of \<open>n\<close>; \<open>data\<close> are
  \<open>k\<close> packets of \<open>sz\<close> bytes. From the packets that \<open>fec_encode\<close> makes for any \<open>k\<close> distinct
  numbers below \<open>n\<close>, in any order, \<open>fec_decode\<close> returns 0 and leaves exactly the data, in order.
\<close>

theorem fec_decode_recovers:
  assumes "fec_new (int k) (int n) addr fec_static_start = (Some code, s)" and "1 \<le> k"
    and "length data = k" and "\<forall>d\<in>set data. length d = sz"
    and "distinct idx" and "length idx = k" and "\<forall>i\<in>set idx. i < n"
    and "pkts = map (\<lambda>i. fec_encode (tables s) code data (replicate sz 0) i sz) idx"
  shows "\<exists>idx'. fec_decode (tables s) code pkts idx sz = Some (0, data, idx')"
proof -
  have ok: "code_ok k n code" and t: "gf_ready (tables s)"
    using fec_new_code_ok [OF static_start_ok assms(2,1)] by blast+
  have len: "length (data ! j) = sz" if "j < k" for j using assms(3,4) that by simp
  have idx: "idx ! i < n" if "i < k" for i using assms(6,7) that by simp
  have pkt: "holds_coded k code data sz (pkts ! i) (idx ! i) \<and> length (pkts ! i) = sz" if "i < k" for i
    using fec_encode_bytes(1,2) [OF t ok idx [OF that], of sz data "replicate sz 0"] len that assms(6,8)
    by (simp add: holds_coded_def)
  have "length pkts = k" using assms(6,8) by simp
  moreover have "distinct (take k idx)" using assms(5,6) by simp
  ultimately obtain pkt' idx' where dec: "fec_decode (tables s) code pkts idx sz = Some (0, pkt', idx')"
    and pkt': "length pkt' = k" "mset (map length (take k pkt')) = mset (map length (take k pkts))"
      "\<And>i b. i < k \<Longrightarrow> b < sz \<Longrightarrow> pkt' ! i ! b = data ! i ! b"
    using fec_decode_packets [OF t ok, of pkts idx data sz] idx pkt assms(6) by auto
  have "length p = sz" if "p \<in> set pkt'" for p
  proof -
    have "length p \<in> set (map length (take k pkts))"
      using pkt'(1,2) that by (metis image_eqI set_map set_mset_mset take_all order_refl)
    then show ?thesis using pkt \<open>length pkts = k\<close> by (auto simp: in_set_conv_nth)
  qed
  then have "pkt' ! i = data ! i" if "i < k" for i
    using pkt'(1,3) len that by (intro nth_equalityI) auto
  then have "pkt' = data" using pkt'(1) assms(3) by (intro nth_equalityI) auto
  with dec show ?thesis by blast
qed

theorem fec_decode_recovers_witness:
  "\<exists>code s idx'. fec_new 2 4 0 fec_static_start = (Some code, s) \<and>
     fec_decode (tables s) code
       (map (\<lambda>i. fec_encode (tables s) code [[7, 8], [9, 10]] (replicate 2 0) i 2) [3, 2]) [3, 2] 2 =
     Some (0, [[7, 8], [9, 10]], idx')"
proof -
  obtain code s where new: "fec_new (int 2) (int 4) 0 fec_static_start = (Some code, s)"
    by (simp add: fec_new_def Let_def)
  from fec_decode_recovers [OF new, of "[[7, 8], [9, 10]]" 2 "[3, 2]"] show ?thesis
    using new by auto
qed

text \<open>
  C22 (the shuffle always returns). On arrays of at least \<open>k\<close> entries the loop of \<open>shuffle\<close> ends
  and only moves the first \<open>k\<close> packets together with their numbers. It returns 0 exactly when the
  numbers below \<open>k\<close> among them are distinct, and then each such packet stands at its number.
\<close>

theorem shuffle_returns:
  assumes "k \<le> length pkt" and "k \<le> length index"
  shows "\<exists>e pkt' index'. shuffle pkt index k = Some (e, pkt', index') \<and>
    shuffled k pkt index pkt' index' \<and>
    (if distinct (filter (\<lambda>c. c < k) (take k index)) then e = 0 \<and> settled k k index' else e = 1)"
proof -
  have "settled k 0 index" by (simp add: settled_def)
  from shuffle_loop_cases [OF assms this] obtain e p ix where
    sh: "shuffle pkt index k = Some (e, p, ix)" "shuffled k pkt index p ix"
    and res: "(e = 0 \<and> settled k k ix) \<or>
      (e = 1 \<and> (\<exists>a c. a < k \<and> c < k \<and> a \<noteq> c \<and> ix ! a = c \<and> ix ! c = c))"
    unfolding shuffle_def by auto
  have len: "k \<le> length ix" using sh(2) assms(2) by (simp add: shuffled_def)
  have "mset (filter (\<lambda>c. c < k) (take k ix)) = mset (filter (\<lambda>c. c < k) (take k index))"
    using shuffled_indexes [OF sh(2) assms] by simp
  then have same: "distinct (filter (\<lambda>c. c < k) (take k index)) \<longleftrightarrow> distinct (filter (\<lambda>c. c < k) (take k ix))"
    using mset_eq_imp_distinct_iff by blast
  have good: "distinct (filter (\<lambda>c. c < k) (take k ix))" if "settled k k ix"
  proof -
    have "filter (\<lambda>c. c < k) (take k ix) = filter (\<lambda>j. ix ! j < k) [0..<k]"
    proof -
      have "take k ix = map (\<lambda>j. ix ! j) [0..<k]" using len by (intro nth_equalityI) simp_all
      then have "filter (\<lambda>c. c < k) (take k ix) = map (\<lambda>j. ix ! j) (filter (\<lambda>j. ix ! j < k) [0..<k])"
        by (simp add: filter_map comp_def)
      also have "\<dots> = map (\<lambda>j. j) (filter (\<lambda>j. ix ! j < k) [0..<k])"
        using that by (intro map_cong) (auto simp: settled_def)
      finally show ?thesis by simp
    qed
    then show ?thesis by simp
  qed
  have bad: "\<not> distinct (filter (\<lambda>c. c < k) (take k ix))"
    if ac: "a < k" "c < k" "a \<noteq> c" "ix ! a = c" "ix ! c = c" for a c
  proof
    assume "distinct (filter (\<lambda>c. c < k) (take k ix))"
    moreover have "2 \<le> length (filter (\<lambda>x. x = c) (filter (\<lambda>c. c < k) (take k ix)))"
    proof -
      have "card {a, c} \<le> card {i. i < length (take k ix) \<and> take k ix ! i = c}"
        using ac len by (intro card_mono) auto
      then have "2 \<le> length (filter (\<lambda>x. x = c) (take k ix))"
        using ac(3) by (simp add: length_filter_conv_card)
      moreover have "filter (\<lambda>x. x = c) (filter (\<lambda>c. c < k) (take k ix)) = filter (\<lambda>x. x = c) (take k ix)"
        using ac(2) by (simp add: filter_filter) (intro filter_cong; auto)
      ultimately show ?thesis by simp
    qed
    ultimately have "card (set (filter (\<lambda>x. x = c) (filter (\<lambda>c. c < k) (take k ix)))) \<ge> 2"
      by (metis distinct_card distinct_filter)
    moreover have "card (set (filter (\<lambda>x. x = c) (filter (\<lambda>c. c < k) (take k ix)))) \<le> card {c}"
      by (intro card_mono) auto
    ultimately show False by simp
  qed
  show ?thesis using sh same res good bad by (intro exI [of _ e] exI [of _ p] exI [of _ ix]) auto
qed

theorem shuffle_returns_witness:
  "\<exists>e pkt' index'. shuffle [10, 11, 12] [2, 3, 0] 3 = Some (e, pkt', index') \<and>
     shuffled 3 [10 :: u8, 11, 12] [2, 3, 0] pkt' index' \<and> e = 0"
  using shuffle_returns [of 3 "[10 :: u8, 11, 12]" "[2, 3, 0]"] by auto

end
