(* ===== verification/Rs.thy ===== *)
theory Rs
  imports Fec
begin

text \<open>
  The Reed-Solomon front end \<open>lib/libfec/lib/source/rs.c\<close>: \<open>rs_encode\<close> fills the redundant packets,
  \<open>rs_decode\<close> takes the array of packet pointers with \<open>NULL\<close> for the lost ones, and
  \<open>get_code\<close> caches one descriptor per pair of parameters. A pointer is \<open>None\<close> for
  \<open>NULL\<close> and otherwise the bytes it points to.
\<close>

section \<open>The code\<close>

definition rs_encode :: "gf_tables \<Rightarrow> fec_parms \<Rightarrow> gf list list \<Rightarrow> nat \<Rightarrow> gf list list" where
  "rs_encode t code data sz =
     (let k = nat (get_k code);
          n = nat (get_n code)
      in fold (\<lambda>i data. data[i := fec_encode t code data (data ! i) i sz]) [k..<n] data)"

definition rs_scan :: "'a option list \<Rightarrow> nat \<Rightarrow> nat list \<times> nat" where
  "rs_scan data n =
     fold (\<lambda>i (index, cnt).
         if data ! i \<noteq> None then (index[cnt := i], cnt + 1) else (index, cnt))
       [0..<n] (replicate n 0, 0)"

definition rs_compact :: "nat list \<Rightarrow> nat \<Rightarrow> nat \<Rightarrow> 'a option list \<Rightarrow> 'a option list" where
  "rs_compact index cnt n data =
     fold (\<lambda>i data. if i < cnt then data[i := data ! (index ! i)] else data[i := None]) [0..<n] data"

definition rs_decode ::
  "gf_tables \<Rightarrow> fec_parms \<Rightarrow> gf list option list \<Rightarrow> nat \<Rightarrow> (int \<times> gf list option list) option" where
  "rs_decode t code data sz =
     (let k = nat (get_k code);
          n = nat (get_n code);
          (index, cnt) = rs_scan data n
      in if cnt < k then Some (-1, data)
         else
           let data = rs_compact index cnt n data
           in case fec_decode t code (map the (take k data)) index sz of
                None \<Rightarrow> None
              | Some (ret, pkt, index) \<Rightarrow> Some (ret, map Some pkt @ drop k data))"

text \<open>The static state of the file: the table of descriptors, 256 by 256 pointers.\<close>

record rs_static =
  rs_fec :: fec_static
  code_table :: "int \<Rightarrow> int \<Rightarrow> fec_parms option"

definition rs_static_start :: rs_static where
  "rs_static_start = \<lparr>rs_fec = fec_static_start, code_table = (\<lambda>k n. None)\<rparr>"

text \<open>
  \<open>None\<close> is an access outside the table, \<open>Some (None, s)\<close> a \<open>NULL\<close> descriptor. \<open>addr\<close> is the address
  a new matrix gets.
\<close>

definition get_code :: "int \<Rightarrow> int \<Rightarrow> 64 word \<Rightarrow> rs_static \<Rightarrow> (fec_parms option \<times> rs_static) option" where
  "get_code k n addr s =
     (if k < 0 \<or> 255 < k \<or> n < 0 \<or> 255 < n then None
      else if code_table s k n = None
      then let (code, f) = fec_new k n addr (rs_fec s);
               s = s\<lparr>rs_fec := f, code_table := (code_table s)(k := (code_table s k)(n := code))\<rparr>
           in Some (code_table s k n, s)
      else Some (code_table s k n, s))"

text \<open>\<open>None\<close> is also the use of a \<open>NULL\<close> descriptor.\<close>

definition rs_encode2 ::
  "int \<Rightarrow> int \<Rightarrow> 64 word \<Rightarrow> gf list list \<Rightarrow> nat \<Rightarrow> rs_static \<Rightarrow> (gf list list \<times> rs_static) option" where
  "rs_encode2 k n addr data sz s =
     (case get_code k n addr s of
        Some (Some code, s) \<Rightarrow> Some (rs_encode (tables (rs_fec s)) code data sz, s)
      | _ \<Rightarrow> None)"

definition rs_decode2 ::
  "int \<Rightarrow> int \<Rightarrow> 64 word \<Rightarrow> gf list option list \<Rightarrow> nat \<Rightarrow> rs_static \<Rightarrow>
     ((int \<times> gf list option list) \<times> rs_static) option" where
  "rs_decode2 k n addr data sz s =
     (case get_code k n addr s of
        Some (Some code, s) \<Rightarrow>
          (case rs_decode (tables (rs_fec s)) code data sz of
             Some r \<Rightarrow> Some (r, s)
           | None \<Rightarrow> None)
      | _ \<Rightarrow> None)"

section \<open>Encoding\<close>

lemma fec_encode_cong:
  assumes "\<And>j. j < nat (fec_k code) \<Longrightarrow> src ! j = src' ! j"
  shows "fec_encode t code src fec index sz = fec_encode t code src' fec index sz"
proof -
  have "fold (\<lambda>i fec. addmul t fec (src ! i) (p ! i) sz) [0..<m] v =
      fold (\<lambda>i fec. addmul t fec (src' ! i) (p ! i) sz) [0..<m] v" if "m \<le> nat (fec_k code)" for p m v
    using that assms by (induction m) simp_all
  with assms show ?thesis by (simp add: fec_encode_def Let_def)
qed

lemma rs_encode_nth:
  assumes "code_ok k n code" and "length data = n"
  shows "length (rs_encode t code data sz) = n \<and>
    (\<forall>i<n. rs_encode t code data sz ! i =
       (if i < k then data ! i else fec_encode t code data (data ! i) i sz))"
proof -
  have code: "fec_k code = int k" "fec_n code = int n" "k \<le> n" using assms(1) by (simp_all add: code_ok_def)
  define P where "P b u \<longleftrightarrow> length u = n \<and> (\<forall>i<n. u ! i =
      (if k \<le> i \<and> i < b then fec_encode t code data (data ! i) i sz else data ! i))" for b u
  have "P n (fold (\<lambda>i data. data[i := fec_encode t code data (data ! i) i sz]) [k..<n] data)"
  proof (rule fold_upt_invariant [where P = P])
    show "P k data" using assms(2) by (auto simp: P_def)
    fix b u assume b: "k \<le> b" "b < n" and P: "P b u"
    then have "fec_encode t code u (u ! b) b sz = fec_encode t code data (data ! b) b sz"
      using code by (subst fec_encode_cong [where src' = data]) (auto simp: P_def)
    with P b show "P (Suc b) (u[b := fec_encode t code u (u ! b) b sz])"
      by (auto simp: P_def nth_list_update less_Suc_eq)
  qed (rule code(3))
  then show ?thesis
    using code assms(2) by (auto simp: P_def rs_encode_def get_k_def get_n_def)
qed

section \<open>The scan for received packets\<close>

definition present :: "'a option list \<Rightarrow> nat \<Rightarrow> nat list" where
  "present data n = filter (\<lambda>i. data ! i \<noteq> None) [0..<n]"

lemma rs_scan_present:
  "rs_scan data n = (present data n @ replicate (n - length (present data n)) 0, length (present data n))"
proof -
  define P where "P i s \<longleftrightarrow> s = (present data i @ replicate (n - length (present data i)) 0, length (present data i))"
    for i s
  have len: "length (present data i) \<le> i" for i
    unfolding present_def using length_filter_le [of "\<lambda>i. data ! i \<noteq> None" "[0..<i]"] by simp
  have "P n (rs_scan data n)"
    unfolding rs_scan_def
  proof (rule fold_upt_invariant [where P = P])
    show "P 0 (replicate n 0, 0)" by (simp add: P_def present_def)
    fix i s assume i: "i < n" and P: "P i s"
    show "P (Suc i) ((\<lambda>(index, cnt).
         if data ! i \<noteq> None then (index[cnt := i], cnt + 1) else (index, cnt)) s)"
    proof (cases "data ! i")
      case None
      with P show ?thesis by (simp add: P_def present_def)
    next
      case (Some x)
      let ?m = "length (present data i)"
      have m: "?m < n" using len [of i] i by simp
      have "n - ?m = Suc (n - Suc ?m)" using m by simp
      then have "(present data i @ replicate (n - ?m) 0)[?m := i] = (present data i @ [i]) @ replicate (n - Suc ?m) 0"
        by (simp add: list_update_append)
      moreover have "present data (Suc i) = present data i @ [i]" using Some by (simp add: present_def)
      ultimately show ?thesis using P Some by (simp add: P_def)
    qed
  qed simp
  then show ?thesis by (simp add: P_def)
qed

lemma present_ge: "j < length (present data n) \<Longrightarrow> j \<le> present data n ! j"
proof -
  have "sorted_wrt (<) (present data n)"
    unfolding present_def by (intro sorted_wrt_filter) simp
  then show "j < length (present data n) \<Longrightarrow> j \<le> present data n ! j"
  proof (induction j)
    case (Suc j)
    then have "present data n ! j < present data n ! Suc j" by (simp add: sorted_wrt_nth_less)
    with Suc show ?case by simp
  qed simp
qed

lemma present_less: "i \<in> set (present data n) \<Longrightarrow> i < n"
  by (simp add: present_def)

lemma rs_compact_nth:
  assumes "length data = n" and "index = present data n @ pad" and "cnt = length (present data n)"
  shows "length (rs_compact index cnt n data) = n \<and>
    (\<forall>i<n. rs_compact index cnt n data ! i = (if i < cnt then data ! (present data n ! i) else None))"
proof -
  define P where "P b u \<longleftrightarrow> length u = n \<and> (\<forall>i<n. u ! i =
      (if i < b then if i < cnt then data ! (present data n ! i) else None else data ! i))" for b u
  have "P n (rs_compact index cnt n data)"
    unfolding rs_compact_def
  proof (rule fold_upt_invariant [where P = P])
    show "P 0 data" using assms(1) by (simp add: P_def)
    fix b u assume b: "b < n" and P: "P b u"
    have "u ! (index ! b) = data ! (present data n ! b)" if "b < cnt"
    proof -
      have ib: "index ! b = present data n ! b" using that assms(2,3) by (simp add: nth_append)
      have "b \<le> present data n ! b" "present data n ! b < n"
        using that assms(3) present_ge present_less [OF nth_mem] by auto
      with P show ?thesis by (simp add: P_def ib)
    qed
    with P b show "P (Suc b) (if b < cnt then u[b := u ! (index ! b)] else u[b := None])"
      by (auto simp: P_def nth_list_update less_Suc_eq)
  qed simp
  then show ?thesis by (simp add: P_def)
qed

section \<open>Decoding\<close>

lemma rs_decode_few:
  assumes "code_ok k n code" and "length (present data n) < k"
  shows "rs_decode t code data sz = Some (-1, data)"
  using assms by (simp add: rs_decode_def get_k_def get_n_def code_ok_def rs_scan_present)

lemma rs_decode_enough:
  assumes t: "gf_ready t" and ok: "code_ok k n code" and len: "length data = n"
    and coded: "\<And>i p. i < n \<Longrightarrow> data ! i = Some p \<Longrightarrow> holds_coded k code src sz p i"
    and enough: "k \<le> length (present data n)"
  shows "\<exists>data'. rs_decode t code data sz = Some (0, data') \<and> length data' = n \<and>
    length (present data' n) = length (present data n) \<and>
    (\<forall>i<k. \<exists>p. data' ! i = Some p \<and> sz \<le> length p \<and> (\<forall>b. b < sz \<longrightarrow> p ! b = src ! i ! b))"
proof -
  have code: "fec_k code = int k" "fec_n code = int n" "k \<le> n" using ok by (simp_all add: code_ok_def)
  define m where "m = length (present data n)"
  define index where "index = present data n @ replicate (n - m) 0"
  define data1 where "data1 = rs_compact index m n data"
  have m: "m \<le> n" unfolding m_def present_def
    using length_filter_le [of "\<lambda>i. data ! i \<noteq> None" "[0..<n]"] by simp
  have data1: "length data1 = n"
    "\<And>i. i < n \<Longrightarrow> data1 ! i = (if i < m then data ! (present data n ! i) else None)"
    using rs_compact_nth [OF len index_def m_def] by (auto simp: data1_def)
  have pres: "present data n ! i < n" "data ! (present data n ! i) \<noteq> None" if "i < m" for i
    using nth_mem [of i "present data n"] that by (auto simp: present_def m_def)
  let ?pkt = "map the (take k data1)"
  have ix: "index ! i = present data n ! i" if "i < k" for i
    using that enough by (simp add: index_def nth_append)
  have dist: "distinct (take k index)"
    using enough by (simp add: index_def present_def)
  have pkt: "holds_coded k code src sz (?pkt ! i) (index ! i)" if i: "i < k" for i
  proof -
    have im: "i < m" "i < n" using i enough code(3) by (simp_all add: m_def)
    obtain p where p: "data ! (present data n ! i) = Some p" using pres(2) [OF im(1)] by auto
    have "?pkt ! i = p" using i im data1 p by simp
    then show ?thesis using coded [OF pres(1) [OF im(1)] p] ix [OF i] by simp
  qed
  have "k \<le> length ?pkt" "k \<le> length index" using data1(1) code(3) m by (simp_all add: index_def m_def)
  moreover have "index ! i < n" if "i < k" for i
    using ix [OF that] pres(1) [of i] that enough by (simp add: m_def)
  ultimately obtain pkt' index' where dec: "fec_decode t code ?pkt index sz = Some (0, pkt', index')"
    "length pkt' = length ?pkt"
    "\<forall>i b. i < k \<longrightarrow> b < sz \<longrightarrow> sz \<le> length (pkt' ! i) \<and> pkt' ! i ! b = src ! i ! b"
    using fec_decode_packets [OF t ok _ _ _ dist pkt] by blast
  define data' where "data' = map Some pkt' @ drop k data1"
  have len': "length pkt' = k" using dec(2) data1(1) code(3) by simp
  have "rs_decode t code data sz = Some (0, data')"
    using enough dec(1)
    by (simp add: rs_decode_def get_k_def get_n_def code Let_def rs_scan_present data'_def
        flip: m_def index_def data1_def)
  moreover have "length data' = n" using len' data1(1) code(3) by (simp add: data'_def)
  moreover have "\<exists>p. data' ! i = Some p \<and> sz \<le> length p \<and> (\<forall>b. b < sz \<longrightarrow> p ! b = src ! i ! b)"
    if "i < k" for i
  proof (cases "sz = 0")
    case True
    with that len' show ?thesis by (simp add: data'_def nth_append)
  next
    case False
    with that len' dec(3) show ?thesis by (simp add: data'_def nth_append)
  qed
  moreover have "length (present data' n) = length (present data n)"
  proof -
    have "present data' n = [0..<m]"
    proof -
      have "data' ! i \<noteq> None \<longleftrightarrow> i < m" if "i < n" for i
        using that len' data1 pres(2) enough
        by (auto simp: data'_def nth_append m_def)
      then have "present data' n = filter (\<lambda>i. i < m) [0..<n]"
        unfolding present_def by (intro filter_cong) auto
      also have "[0..<n] = [0..<m] @ [m..<n]" using m upt_add_eq_append [of 0 m "n - m"] by simp
      finally show ?thesis by (simp add: filter_empty_conv)
    qed
    then show ?thesis by (simp add: m_def)
  qed
  ultimately show ?thesis by blast
qed

section \<open>The descriptor cache\<close>

definition rs_static_ok :: "rs_static \<Rightarrow> bool" where
  "rs_static_ok s \<longleftrightarrow> static_ok (rs_fec s) \<and>
     (\<forall>k n code. 1 \<le> k \<longrightarrow> code_table s (int k) (int n) = Some code \<longrightarrow>
        code_ok k n code \<and> fec_initialized (rs_fec s))"

lemma rs_static_start_ok: "rs_static_ok rs_static_start"
  by (simp add: rs_static_ok_def rs_static_start_def static_start_ok)

lemma get_code_ok:
  assumes "rs_static_ok s" and "1 \<le> k" and "k \<le> n" and "n \<le> 255"
  obtains code s' where "get_code (int k) (int n) addr s = Some (Some code, s')"
    and "code_ok k n code" and "gf_ready (tables (rs_fec s'))" and "rs_static_ok s'"
proof (cases "code_table s (int k) (int n)")
  case (Some code)
  have "get_code (int k) (int n) addr s = Some (Some code, s)"
    using Some assms(3,4) by (simp add: get_code_def)
  moreover have "code_ok k n code" "fec_initialized (rs_fec s)" "static_ok (rs_fec s)"
    using assms(1,2) Some by (auto simp: rs_static_ok_def)
  ultimately show ?thesis using that [of code s] assms(1) by (simp add: static_ok_def)
next
  case None
  have st: "static_ok (rs_fec s)" using assms(1) by (simp add: rs_static_ok_def)
  obtain code f where new: "fec_new (int k) (int n) addr (rs_fec s) = (Some code, f)"
    using fec_new_cases [OF st, of k n addr] assms(3,4) by simp
  note ok = fec_new_code_ok [OF st assms(2) new]
  define s' where
    "s' = s\<lparr>rs_fec := f, code_table := (code_table s)(int k := (code_table s (int k))(int n := Some code))\<rparr>"
  have "get_code (int k) (int n) addr s = Some (Some code, s')"
    using None assms(3,4) new by (simp add: get_code_def Let_def s'_def)
  moreover have "fec_initialized f"
    using new by (auto simp: fec_new_def Let_def fec_init_def split: if_splits)
  then have "rs_static_ok s'"
    using assms(1) ok by (auto simp: rs_static_ok_def s'_def)
  ultimately show ?thesis using that [of code s'] ok by (simp add: s'_def)
qed

text \<open>With any parameters, also those a forged packet asks for.\<close>

lemma get_code_keeps:
  assumes s: "rs_static_ok s" and get: "get_code k n addr s = Some (c, s')"
  shows "rs_static_ok s'"
proof (cases "code_table s k n")
  case (Some code)
  with get s show ?thesis by (simp add: get_code_def split: if_splits)
next
  case None
  have kn: "0 \<le> k" "0 \<le> n" using get by (auto simp: get_code_def split: if_splits)
  then obtain k' n' where n: "k = int k'" "n = int n'" by (metis nonneg_int_cases)
  obtain code f where new: "fec_new k n addr (rs_fec s) = (code, f)" by (cases "fec_new k n addr (rs_fec s)")
  have st: "static_ok (rs_fec s)" using s by (simp add: rs_static_ok_def)
  have s': "s' = s\<lparr>rs_fec := f, code_table := (code_table s)(k := (code_table s k)(n := code))\<rparr>"
    using get None new by (auto simp: get_code_def Let_def split: if_splits)
  have f: "fec_initialized f" "static_ok f"
    using new fec_init_ok [OF st] by (auto simp: fec_new_def Let_def fec_init_def split: if_splits)
  have "code_ok k' n' c'" if "1 \<le> k'" "code = Some c'" for c'
    using fec_new_code_ok(1) [OF st that(1), of n' addr c' f] new that(2) n by simp
  then show ?thesis
    using s f n by (auto simp: rs_static_ok_def s')
qed

lemma rs_decode2_keeps:
  "rs_static_ok s \<Longrightarrow> rs_decode2 k n addr data sz s = Some (r, s') \<Longrightarrow> rs_static_ok s'"
  using get_code_keeps [of s k n addr] by (auto simp: rs_decode2_def split: option.splits)

end
