(* ===== verification/Erasure_Code.thy ===== *)
theory Erasure_Code
  imports Rs
begin

text \<open>
  The contract between the packet codec (\<open>FecEncode\<close>, \<open>FecDecode\<close>) and the Reed-Solomon front end, as
  the locale \<open>erasure_code\<close>: \<open>enc\<close> completes an array of buffers to a codeword, \<open>dec\<close> recovers
  the data from what is left of one. Sender and receiver are different processes, so their static
  states are unrelated; what they share is the notion of codeword. For \<open>rs.c\<close> a codeword is the
  list of the values of one polynomial of degree below \<open>k\<close> at the nodes of the matrix, byte by byte
  (\<open>rs_codeword\<close>), and the interpretation discharges the contract for \<open>rs_encode2\<close> and
  \<open>rs_decode2\<close>.
\<close>

section \<open>The contract\<close>

definition agrees :: "nat \<Rightarrow> gf list \<Rightarrow> gf list \<Rightarrow> bool" where
  "agrees sz p q \<longleftrightarrow> sz \<le> length p \<and> (\<forall>b. b < sz \<longrightarrow> p ! b = q ! b)"

lemma agrees_refl: "sz \<le> length p \<Longrightarrow> agrees sz p p"
  by (simp add: agrees_def)

lemma agrees_take: "agrees sz p q \<Longrightarrow> sz \<le> length q \<Longrightarrow> take sz p = take sz q"
  by (rule nth_equalityI) (simp_all add: agrees_def)

text \<open>What arrives of \<open>cw\<close>: every packet that is there agrees with it.\<close>

definition received :: "nat \<Rightarrow> nat \<Rightarrow> gf list list \<Rightarrow> gf list option list \<Rightarrow> bool" where
  "received n sz cw recv \<longleftrightarrow>
     length recv = n \<and> (\<forall>i p. i < n \<longrightarrow> recv ! i = Some p \<longrightarrow> agrees sz p (cw ! i))"

text \<open>The first \<open>k\<close> entries hold the data.\<close>

definition restored :: "nat \<Rightarrow> nat \<Rightarrow> gf list list \<Rightarrow> gf list option list \<Rightarrow> bool" where
  "restored k sz cw recv \<longleftrightarrow> (\<forall>i<k. \<exists>p. recv ! i = Some p \<and> agrees sz p (cw ! i))"

locale erasure_code =
  fixes ok :: "'s \<Rightarrow> bool"
    and enc :: "int \<Rightarrow> int \<Rightarrow> gf list list \<Rightarrow> nat \<Rightarrow> 's \<Rightarrow> (gf list list \<times> 's) option"
    and dec :: "int \<Rightarrow> int \<Rightarrow> gf list option list \<Rightarrow> nat \<Rightarrow> 's \<Rightarrow> ((int \<times> gf list option list) \<times> 's) option"
    and codeword :: "nat \<Rightarrow> nat \<Rightarrow> nat \<Rightarrow> gf list list \<Rightarrow> bool"
  assumes encode: "ok s \<Longrightarrow> 1 \<le> k \<Longrightarrow> k \<le> n \<Longrightarrow> n \<le> 255 \<Longrightarrow> length data = n \<Longrightarrow>
      (\<And>i. i < n \<Longrightarrow> sz \<le> length (data ! i)) \<Longrightarrow>
      \<exists>cw s'. enc (int k) (int n) data sz s = Some (cw, s') \<and> ok s' \<and> codeword k n sz cw \<and>
        length cw = n \<and> (\<forall>i<n. length (cw ! i) = length (data ! i) \<and> drop sz (cw ! i) = drop sz (data ! i)) \<and>
        (\<forall>i<k. cw ! i = data ! i)"
    and decode: "ok s \<Longrightarrow> 1 \<le> k \<Longrightarrow> k \<le> n \<Longrightarrow> n \<le> 255 \<Longrightarrow> codeword k n sz cw \<Longrightarrow>
      received n sz cw recv \<Longrightarrow> k \<le> length (present recv n) \<Longrightarrow>
      \<exists>recv' s'. dec (int k) (int n) recv sz s = Some ((0, recv'), s') \<and> ok s' \<and> length recv' = n \<and>
        restored k sz cw recv'"
    and too_few: "ok s \<Longrightarrow> 1 \<le> k \<Longrightarrow> k \<le> n \<Longrightarrow> n \<le> 255 \<Longrightarrow> length (present recv n) < k \<Longrightarrow>
      \<exists>s'. dec (int k) (int n) recv sz s = Some ((-1, recv), s') \<and> ok s'"

context erasure_code
begin

text \<open>A sender's codeword with any packets lost, as long as \<open>k\<close> are left, gives back the data.\<close>

lemma survives_losses:
  assumes "ok s" and "ok r" and k: "1 \<le> k" "k \<le> n" "n \<le> 255" and len: "length data = n"
    and size: "\<And>i. i < n \<Longrightarrow> length (data ! i) = sz"
    and enough: "k \<le> length (filter (\<lambda>i. i \<notin> lost) [0..<n])"
  shows "\<exists>cw s'. enc (int k) (int n) data sz s = Some (cw, s') \<and>
    (\<exists>recv' r'. dec (int k) (int n) (map (\<lambda>i. if i \<in> lost then None else Some (cw ! i)) [0..<n]) sz r
       = Some ((0, recv'), r') \<and>
     map (\<lambda>i. map_option (take sz) (recv' ! i)) [0..<k] = map Some (take k data))"
proof -
  obtain cw s' where cw: "enc (int k) (int n) data sz s = Some (cw, s')" "codeword k n sz cw" "length cw = n"
      "\<forall>i<n. length (cw ! i) = length (data ! i)" "\<forall>i<k. cw ! i = data ! i"
    using encode [OF assms(1) k len, of sz] size by auto
  let ?recv = "map (\<lambda>i. if i \<in> lost then None else Some (cw ! i)) [0..<n]"
  have "received n sz cw ?recv"
    using cw(4) size by (auto simp: received_def agrees_refl)
  moreover have "present ?recv n = filter (\<lambda>i. i \<notin> lost) [0..<n]"
    unfolding present_def by (rule filter_cong) auto
  ultimately obtain recv' r' where r: "dec (int k) (int n) ?recv sz r = Some ((0, recv'), r')"
    "length recv' = n" "restored k sz cw recv'"
    using decode [OF assms(2) k cw(2), of ?recv] enough by auto
  have "map_option (take sz) (recv' ! i) = Some (data ! i)" if i: "i < k" for i
  proof -
    have ci: "cw ! i = data ! i" "length (data ! i) = sz" using i k cw(5) size by auto
    obtain p where "recv' ! i = Some p" "agrees sz p (cw ! i)"
      using r(3) i unfolding restored_def by blast
    then show ?thesis using ci agrees_take [of sz p "cw ! i"] by simp
  qed
  then have "map (\<lambda>i. map_option (take sz) (recv' ! i)) [0..<k] = map Some (take k data)"
    using k len by (intro nth_equalityI) auto
  with cw(1) r(1) show ?thesis by blast
qed

end

section \<open>Reed-Solomon codewords\<close>

definition rs_codeword :: "nat \<Rightarrow> nat \<Rightarrow> nat \<Rightarrow> gf list list \<Rightarrow> bool" where
  "rs_codeword k n sz cw \<longleftrightarrow> length cw = n \<and>
     (\<forall>b. b < sz \<longrightarrow> (\<exists>f. \<forall>i<n. Gf (cw ! i ! b) = peval k f (node i)))"

lemma peval_unique:
  assumes "k \<le> 256" and "\<And>i. i < k \<Longrightarrow> peval k f (node i) = peval k g (node i)"
  shows "peval k f x = peval k g x"
proof -
  have split: "peval k (\<lambda>j. f j - g j) y = peval k f y - peval k g y" for y
    by (simp add: peval_def left_diff_distrib sum_subtractf del: gf256_minus)
  let ?R = "node ` {..<k}"
  have "card ?R = k"
    using assms(1) by (intro card_image [THEN trans] inj_onI) (auto simp: node_inject)
  then have "f j - g j = 0" if "j < k" for j
    using that split assms(2) by (intro peval_roots_zero [of ?R k "\<lambda>j. f j - g j"]) (auto simp del: gf256_minus)
  then have "f j = g j" if "j < k" for j
    using that by (metis right_minus_eq)
  then show ?thesis by (rule peval_cong)
qed

lemma code_ok_poly:
  assumes "code_ok k n code"
  obtains f where "\<And>i. i < n \<Longrightarrow> coded k code src i b = peval k f (node i)"
proof -
  have "\<forall>d. \<exists>f. \<forall>i<n. (\<Sum>j<k. entry k (enc_matrix code) i j * d j) = peval k f (node i)"
    using assms by (simp add: code_ok_def interpolates_def)
  from spec [OF this, of "\<lambda>j. Gf (src ! j ! b)"] show ?thesis
    using that by (auto simp: coded_def)
qed

lemma coded_codeword:
  assumes ok: "code_ok k n code" and "length cw = n"
    and "\<And>i b. i < n \<Longrightarrow> b < sz \<Longrightarrow> Gf (cw ! i ! b) = coded k code src i b"
  shows "rs_codeword k n sz cw"
  unfolding rs_codeword_def
proof (intro conjI allI impI)
  fix b assume b: "b < sz"
  from code_ok_poly [OF ok, of src b] obtain f
    where "\<And>i. i < n \<Longrightarrow> coded k code src i b = peval k f (node i)" by blast
  then show "\<exists>f. \<forall>i<n. Gf (cw ! i ! b) = peval k f (node i)"
    using assms(3) b by auto
qed (rule assms(2))

text \<open>Every descriptor for the same parameters reads a codeword as the coding of its first packets.\<close>

lemma codeword_coded:
  assumes ok: "code_ok k n code" and cw: "rs_codeword k n sz cw" and "i < n" and b: "b < sz"
  shows "Gf (cw ! i ! b) = coded k code cw i b"
proof -
  have kn: "k \<le> n" "k \<le> 256" using ok by (simp_all add: code_ok_def)
  obtain g where g: "\<forall>i<n. Gf (cw ! i ! b) = peval k g (node i)"
    using cw b by (auto simp: rs_codeword_def)
  from code_ok_poly [OF ok, of cw b] obtain f
    where f: "\<And>i. i < n \<Longrightarrow> coded k code cw i b = peval k f (node i)" by blast
  have "peval k f (node j) = peval k g (node j)" if "j < k" for j
    using f [of j] g that kn coded_systematic [OF ok that, of cw b] by simp
  then have "peval k f (node i) = peval k g (node i)" by (rule peval_unique [OF kn(2)])
  with f [OF assms(3)] g assms(3) show ?thesis by simp
qed

interpretation rs: erasure_code rs_static_ok "\<lambda>k n. rs_encode2 k n addr" "\<lambda>k n. rs_decode2 k n addr'"
  rs_codeword for addr addr'
proof
  fix s :: rs_static and k n sz :: nat and data :: "gf list list"
  assume s: "rs_static_ok s" and k: "1 \<le> k" "k \<le> n" "n \<le> 255" and len: "length data = n"
    and size: "\<And>i. i < n \<Longrightarrow> sz \<le> length (data ! i)"
  obtain code s' where get: "get_code (int k) (int n) addr s = Some (Some code, s')" "code_ok k n code"
    "gf_ready (tables (rs_fec s'))" "rs_static_ok s'" using get_code_ok [OF s k] by blast
  define cw where "cw = rs_encode (tables (rs_fec s')) code data sz"
  have nth: "length cw = n" "\<And>i. i < n \<Longrightarrow>
      cw ! i = (if i < k then data ! i else fec_encode (tables (rs_fec s')) code data (data ! i) i sz)"
    using rs_encode_nth [OF get(2) len] by (simp_all add: cw_def)
  have srclen: "sz \<le> length (data ! j)" if "j < k" for j using size k(2) that by simp
  have byte: "Gf (cw ! i ! b) = coded k code data i b" if "i < n" "b < sz" for i b
    using nth(2) [OF that(1)] coded_systematic [OF get(2), of i data b] that
      fec_encode_bytes(2) [OF get(3,2) that(1) srclen size [OF that(1)] that(2)]
    by (cases "i < k") simp_all
  have shape: "length (cw ! i) = length (data ! i)" "drop sz (cw ! i) = drop sz (data ! i)" if "i < n" for i
    using nth(2) [OF that] fec_encode_bytes(1,3) [OF get(3,2) that srclen size [OF that]]
    by (cases "i < k"; simp)+
  have "rs_encode2 (int k) (int n) addr data sz s = Some (cw, s')"
    by (simp add: rs_encode2_def get(1) cw_def)
  then show "\<exists>cw s'. rs_encode2 (int k) (int n) addr data sz s = Some (cw, s') \<and> rs_static_ok s' \<and>
      rs_codeword k n sz cw \<and> length cw = n \<and>
      (\<forall>i<n. length (cw ! i) = length (data ! i) \<and> drop sz (cw ! i) = drop sz (data ! i)) \<and>
      (\<forall>i<k. cw ! i = data ! i)"
    using coded_codeword [OF get(2) nth(1) byte] get(4) nth shape k(2) by auto
next
  fix s :: rs_static and k n sz :: nat and cw :: "gf list list" and recv :: "gf list option list"
  assume s: "rs_static_ok s" and k: "1 \<le> k" "k \<le> n" "n \<le> 255" and cw: "rs_codeword k n sz cw"
    and recv: "received n sz cw recv" and enough: "k \<le> length (present recv n)"
  obtain code s' where get: "get_code (int k) (int n) addr' s = Some (Some code, s')" "code_ok k n code"
    "gf_ready (tables (rs_fec s'))" "rs_static_ok s'" using get_code_ok [OF s k] by blast
  have len: "length recv = n" using recv by (simp add: received_def)
  have "holds_coded k code cw sz p i" if "i < n" "recv ! i = Some p" for i p
  proof -
    have "agrees sz p (cw ! i)" using recv that by (simp add: received_def)
    then show ?thesis
      using codeword_coded [OF get(2) cw that(1)] by (simp add: holds_coded_def agrees_def)
  qed
  from rs_decode_enough [OF get(3,2) len this enough] obtain recv' where
    "rs_decode (tables (rs_fec s')) code recv sz = Some (0, recv')" "length recv' = n"
    "\<forall>i<k. \<exists>p. recv' ! i = Some p \<and> sz \<le> length p \<and> (\<forall>b. b < sz \<longrightarrow> p ! b = cw ! i ! b)" by blast
  then show "\<exists>recv' s'. rs_decode2 (int k) (int n) addr' recv sz s = Some ((0, recv'), s') \<and>
      rs_static_ok s' \<and> length recv' = n \<and> restored k sz cw recv'"
    using get(1,4) by (auto simp: rs_decode2_def restored_def agrees_def)
next
  fix s :: rs_static and k n sz :: nat and recv :: "gf list option list"
  assume s: "rs_static_ok s" and k: "1 \<le> k" "k \<le> n" "n \<le> 255" and few: "length (present recv n) < k"
  obtain code s' where get: "get_code (int k) (int n) addr' s = Some (Some code, s')" "code_ok k n code"
    "rs_static_ok s'" using get_code_ok [OF s k] by blast
  then show "\<exists>s'. rs_decode2 (int k) (int n) addr' recv sz s = Some ((-1, recv), s') \<and> rs_static_ok s'"
    using rs_decode_few [OF get(2) few] by (auto simp: rs_decode2_def)
qed

text \<open>
  \<open>rs_encode2\<close> on one machine, \<open>rs_decode2\<close> on another, both from their
  initial static state: whatever set of packets is lost, if \<open>k\<close> of the \<open>n\<close> are left, the decoder
  returns 0 and the first \<open>k\<close> pointers hold the original data.
\<close>

theorem rs_recovers_losses:
  assumes "1 \<le> k" and "k \<le> n" and "n \<le> 255" and "length data = n"
    and "\<And>i. i < n \<Longrightarrow> length (data ! i) = sz"
    and "k \<le> length (filter (\<lambda>i. i \<notin> lost) [0..<n])"
  shows "\<exists>cw s. rs_encode2 (int k) (int n) addr data sz rs_static_start = Some (cw, s) \<and>
    (\<exists>recv r. rs_decode2 (int k) (int n) addr'
         (map (\<lambda>i. if i \<in> lost then None else Some (cw ! i)) [0..<n]) sz rs_static_start
       = Some ((0, recv), r) \<and>
     map (\<lambda>i. map_option (take sz) (recv ! i)) [0..<k] = map Some (take k data))"
  by (rule rs.survives_losses [OF rs_static_start_ok rs_static_start_ok assms])

theorem rs_recovers_losses_witness:
  "\<exists>cw s. rs_encode2 2 4 0 [[1, 2], [3, 4], [0, 0], [0, 0]] 2 rs_static_start = Some (cw, s) \<and>
    (\<exists>recv r. rs_decode2 2 4 8
         (map (\<lambda>i. if i \<in> {0, 2} then None else Some (cw ! i)) [0..<4]) 2 rs_static_start
       = Some ((0, recv), r) \<and>
     map (\<lambda>i. map_option (take 2) (recv ! i)) [0..<2] = map Some (take 2 [[1, 2], [3, 4], [0, 0], [0, 0]]))"
proof -
  have len: "length ([[1, 2], [3, 4], [0, 0], [0, 0 :: gf]] ! i) = 2" if "i < 4" for i
    using that by (auto simp: less_Suc_eq numeral_eq_Suc)
  have "[0..<4] = [0, 1, 2, 3 :: nat]" by code_simp
  then have "2 \<le> length (filter (\<lambda>i. i \<notin> {0, 2}) [0..<4 :: nat])" by simp
  from rs_recovers_losses [OF _ _ _ _ len this, where addr = 0 and addr' = 8] show ?thesis by simp
qed

end
