(* ===== verification/Fec_Encode.thy ===== *)
theory Fec_Encode
  imports Codec Erasure_Code
begin

text \<open>
  \<open>FecEncode\<close> of \<open>lib/libfec/source/fec_encode.cpp\<close> with the random sequence number of
  \<open>random_generator.cpp\<close>: packets are collected, each behind an 11 byte header, until a group of
  \<open>data_pkg_num\<close> is complete; then the group is padded to its longest packet and the redundant packets
  are computed. An incomplete group can be flushed unencoded behind a reversed magic number.

  A buffer of \<open>data_pkgs_\<close> is \<open>None\<close> for the null pointer. The input pointer with its length is the
  list of bytes behind it and the length argument. The mutex is not modelled. \<open>holds e ds\<close>
  says that an encoder has collected the packets \<open>ds\<close>, \<open>encoded e ds seq\<close> that the group \<open>ds\<close> is ready
  for output; the lemmas give every operation on them.
\<close>

section \<open>The random number\<close>

text \<open>
  \<open>GetRandomNumber16\<close> on the results of the successive reads of the random device, \<open>None\<close> for a read
  that fails; \<open>GetRandomNumberU16\<close> repeats it while the number is 0. The result is \<open>None\<close> when
  the reads given end before it returns.
\<close>

fun get_random_number_u16 :: "u16 option list \<Rightarrow> (int \<times> u16) option" where
  "get_random_number_u16 [] = None"
| "get_random_number_u16 (None # reads) = Some (-1, 0)"
| "get_random_number_u16 (Some w # reads) =
     (if w = 0 then get_random_number_u16 reads else Some (0, w))"

section \<open>The encoder\<close>

abbreviation fec_encode_head_length :: nat where
  "fec_encode_head_length \<equiv> 11"

abbreviation unique_header :: u32 where
  "unique_header \<equiv> 0x12345678"

record fec_encoder =
  inside_timer :: "64 word"
  newest_update_time :: "64 word"
  cur_data_pkgs_num :: int
  max_data_pkg_length :: int
  data_pkgs :: "u8 list option list"
  data_pkgs_length :: "int list"
  ready_for_fec_output :: bool
  data_pkg_num :: int
  redundant_pkg_num :: int
  enc_seq :: u16
  timeout_time :: u32

text \<open>\<open>rnd\<close> is what the random generator returned, \<open>junk\<close> the uninitialised \<open>newest_update_time_\<close>.\<close>

definition fec_encoder_new :: "int \<Rightarrow> int \<Rightarrow> u32 \<Rightarrow> int \<times> u16 \<Rightarrow> 64 word \<Rightarrow> fec_encoder" where
  "fec_encoder_new k r timeout rnd junk =
     (let (ret, seq) = rnd;
          seq = (if ret < 0 then 1 else seq);
          seq = (if seq \<ge> 65521 then 1 else seq)
      in \<lparr>inside_timer = 0, newest_update_time = junk, cur_data_pkgs_num = 0, max_data_pkg_length = 0,
          data_pkgs = replicate (nat (k + r)) None, data_pkgs_length = replicate (nat (k + r)) 0,
          ready_for_fec_output = False, data_pkg_num = k, redundant_pkg_num = r,
          enc_seq = seq, timeout_time = timeout\<rparr>)"

definition reset_data_pkgs :: "fec_encoder \<Rightarrow> fec_encoder" where
  "reset_data_pkgs e =
     e\<lparr>data_pkgs_length := map (\<lambda>_. 0) (data_pkgs_length e), data_pkgs := map (\<lambda>_. None) (data_pkgs e)\<rparr>"

definition fec_header :: "u16 \<Rightarrow> u16 \<Rightarrow> int \<Rightarrow> int \<Rightarrow> int \<Rightarrow> u8 list" where
  "fec_header seq len k r index =
     write_u32 unique_header @ write_u16 seq @ write_u16 len @
       [word_of_int k, word_of_int r, word_of_int index]"

text \<open>The guards and the storing of one packet.\<close>

definition enc_store :: "u8 list \<Rightarrow> int \<Rightarrow> fec_encoder \<Rightarrow> fec_encoder" where
  "enc_store input len e =
     (let e = (if cur_data_pkgs_num e = 0
               then reset_data_pkgs (e\<lparr>ready_for_fec_output := False, max_data_pkg_length := 0\<rparr>) else e);
          e = e\<lparr>max_data_pkg_length := max len (max_data_pkg_length e)\<rparr>;
          len = len + int fec_encode_head_length;
          cur = nat (cur_data_pkgs_num e);
          buf = fec_header (enc_seq e) (word_of_int (len - int fec_encode_head_length))
                  (data_pkg_num e) (redundant_pkg_num e) (cur_data_pkgs_num e + 1) @
                take (nat (len - int fec_encode_head_length)) input @ [0]
      in e\<lparr>data_pkgs := (data_pkgs e)[cur := Some buf],
           data_pkgs_length := (data_pkgs_length e)[cur := len],
           cur_data_pkgs_num := cur_data_pkgs_num e + 1\<rparr>)"

text \<open>The padded buffer of packet \<open>i\<close>, before the redundant packets are computed.\<close>

definition enc_buffer :: "fec_encoder \<Rightarrow> nat \<Rightarrow> u8 list" where
  "enc_buffer e i =
     (let room = nat (max_data_pkg_length e) + fec_encode_head_length + 1;
          b = replicate room 0;
          b = (if int i < data_pkg_num e
               then take (nat (data_pkgs_length e ! i)) (the (data_pkgs e ! i)) @
                    drop (nat (data_pkgs_length e ! i)) b
               else fec_header (enc_seq e) (word_of_int (max_data_pkg_length e))
                      (data_pkg_num e) (redundant_pkg_num e) 0 @ drop fec_encode_head_length b)
      in b[10 := word_of_nat (i + 1)])"

text \<open>
  The encoding of a complete group. \<open>addr\<close> is the address a new descriptor gets; \<open>None\<close> when
  \<open>rs_encode2\<close> has no descriptor to work with.
\<close>

definition enc_group :: "64 word \<Rightarrow> fec_encoder \<Rightarrow> rs_static \<Rightarrow> (fec_encoder \<times> rs_static) option" where
  "enc_group addr e s =
     (let n = nat (data_pkg_num e + redundant_pkg_num e);
          bufs = map (enc_buffer e) [0..<n]
      in case rs_encode2 (data_pkg_num e) (data_pkg_num e + redundant_pkg_num e) addr
                (map (drop fec_encode_head_length) bufs) (nat (max_data_pkg_length e)) s of
           None \<Rightarrow> None
         | Some (cw, s) \<Rightarrow>
             let e = e\<lparr>data_pkgs := map2 (\<lambda>b p. Some (take fec_encode_head_length b @ p)) bufs cw,
                       data_pkgs_length := replicate n (max_data_pkg_length e + int fec_encode_head_length),
                       ready_for_fec_output := True\<rparr>;
                 e = e\<lparr>enc_seq := enc_seq e + 1\<rparr>;
                 e = (if enc_seq e \<ge> 65521 then e\<lparr>enc_seq := 1\<rparr> else e)
             in Some (e, s))"

definition fec_encode_input ::
  "64 word \<Rightarrow> u8 list option \<Rightarrow> int \<Rightarrow> fec_encoder \<Rightarrow> rs_static \<Rightarrow> (int \<times> fec_encoder \<times> rs_static) option" where
  "fec_encode_input addr input_data_pkg len e s =
     (let e = e\<lparr>newest_update_time := inside_timer e\<rparr>
      in if cur_data_pkgs_num e = data_pkg_num e then Some (-1, e, s)
         else case input_data_pkg of
             None \<Rightarrow> Some (-2, e, s)
           | Some input \<Rightarrow>
               if len \<le> 0 \<or> len > 65535 then Some (-2, e, s)
               else let e = enc_store input len e
                    in if cur_data_pkgs_num e = data_pkg_num e
                       then (case enc_group addr e s of
                               None \<Rightarrow> None
                             | Some (e, s) \<Rightarrow> Some (1, e, s))
                       else Some (0, e, s))"

definition fec_encode_output :: "fec_encoder \<Rightarrow> int \<times> (u8 list option list \<times> int list) option \<times> fec_encoder" where
  "fec_encode_output e =
     (if \<not> ready_for_fec_output e then (-1, None, e)
      else (0, Some (data_pkgs e, data_pkgs_length e), e\<lparr>cur_data_pkgs_num := 0\<rparr>))"

definition fec_encode_update_time :: "64 word \<Rightarrow> fec_encoder \<Rightarrow> int \<times> fec_encoder" where
  "fec_encode_update_time cur_millsec e =
     (if inside_timer e = 0
      then (0, e\<lparr>inside_timer := cur_millsec, newest_update_time := cur_millsec\<rparr>)
      else if cur_millsec < inside_timer e then (-1, e)
      else let e = e\<lparr>inside_timer := cur_millsec\<rparr>
           in if cur_millsec - newest_update_time e < ucast (timeout_time e * 1000)
              then (0, e) else (1, e))"

text \<open>
  The pointers handed out point into the buffers, 7 bytes after their start, where the last four
  header bytes are overwritten.
\<close>

definition flush_buffer :: "u8 list \<Rightarrow> u8 list" where
  "flush_buffer b = take 7 b @ write_u32_r unique_header @ drop 11 b"

definition fec_encode_flush :: "fec_encoder \<Rightarrow> int \<times> (u8 list list \<times> int list) option \<times> fec_encoder" where
  "fec_encode_flush e =
     (if cur_data_pkgs_num e = data_pkg_num e then (-1, None, e)
      else
        let n = nat (cur_data_pkgs_num e);
            bufs = map (\<lambda>i. flush_buffer (the (data_pkgs e ! i))) [0..<n];
            pkgs = map (drop (fec_encode_head_length - 4)) bufs;
            lens = map (\<lambda>i. data_pkgs_length e ! i - int fec_encode_head_length + 4) [0..<n]
        in (0, Some (pkgs, lens),
            e\<lparr>data_pkgs := map Some bufs @ drop n (data_pkgs e), cur_data_pkgs_num := 0\<rparr>))"

section \<open>What an encoder holds\<close>

definition packet_ok :: "u8 list \<Rightarrow> bool" where
  "packet_ok d \<longleftrightarrow> 0 < length d \<and> length d \<le> 65535"

definition longest :: "u8 list list \<Rightarrow> nat" where
  "longest ds = fold (\<lambda>d m. max (length d) m) ds 0"

lemma longest_snoc: "longest (ds @ [d]) = max (length d) (longest ds)"
  by (simp add: longest_def)

lemma longest_ge: "d \<in> set ds \<Longrightarrow> length d \<le> longest ds"
  by (induction ds rule: rev_induct) (auto simp: longest_snoc)

lemma longest_le: "(\<And>d. d \<in> set ds \<Longrightarrow> length d \<le> m) \<Longrightarrow> longest ds \<le> m"
  by (induction ds rule: rev_induct) (auto simp: longest_snoc longest_def)

definition data_header :: "u16 \<Rightarrow> nat \<Rightarrow> nat \<Rightarrow> nat \<Rightarrow> nat \<Rightarrow> u8 list" where
  "data_header seq len k r i = fec_header seq (word_of_nat len) (int k) (int r) (int i + 1)"

lemma length_fec_header [simp]: "length (fec_header seq len k r i) = 11"
  by (simp add: fec_header_def)

text \<open>The parameters of an encoder, and its sequence number, which is never 0.\<close>

definition enc_params :: "nat \<Rightarrow> nat \<Rightarrow> fec_encoder \<Rightarrow> bool" where
  "enc_params k r e \<longleftrightarrow> data_pkg_num e = int k \<and> redundant_pkg_num e = int r \<and> 1 \<le> k \<and> k + r \<le> 255 \<and>
     length (data_pkgs e) = k + r \<and> length (data_pkgs_length e) = k + r \<and>
     1 \<le> unat (enc_seq e) \<and> unat (enc_seq e) < 65521"

definition holds :: "nat \<Rightarrow> nat \<Rightarrow> fec_encoder \<Rightarrow> u8 list list \<Rightarrow> bool" where
  "holds k r e ds \<longleftrightarrow> enc_params k r e \<and> cur_data_pkgs_num e = int (length ds) \<and> length ds \<le> k \<and>
     (\<forall>d\<in>set ds. packet_ok d) \<and>
     (ds \<noteq> [] \<longrightarrow> max_data_pkg_length e = int (longest ds)) \<and>
     (\<forall>i<length ds. data_pkgs e ! i = Some (data_header (enc_seq e) (length (ds ! i)) k r i @ ds ! i @ [0]) \<and>
        data_pkgs_length e ! i = int (length (ds ! i)) + 11)"

lemma holds_time: "holds k r (e\<lparr>newest_update_time := t\<rparr>) ds = holds k r e ds"
  by (simp add: holds_def enc_params_def)

lemma reset_same:
  "enc_params k r (reset_data_pkgs e) = enc_params k r e"
  "cur_data_pkgs_num (reset_data_pkgs e) = cur_data_pkgs_num e"
  "max_data_pkg_length (reset_data_pkgs e) = max_data_pkg_length e"
  "enc_seq (reset_data_pkgs e) = enc_seq e"
  by (simp_all add: reset_data_pkgs_def enc_params_def)

lemma enc_store_holds:
  assumes e: "holds k r e ds" and d: "packet_ok d" and room: "length ds < k"
  shows "holds k r (enc_store d (int (length d)) e) (ds @ [d]) \<and>
    enc_seq (enc_store d (int (length d)) e) = enc_seq e"
proof -
  define e1 where "e1 = (if cur_data_pkgs_num e = 0
    then reset_data_pkgs (e\<lparr>ready_for_fec_output := False, max_data_pkg_length := 0\<rparr>) else e)"
  have params: "enc_params k r e1"
    using e by (auto simp: e1_def holds_def reset_data_pkgs_def enc_params_def)
  have old: "cur_data_pkgs_num e1 = int (length ds)" "enc_seq e1 = enc_seq e"
      "max_data_pkg_length e1 = int (longest ds)"
      "\<forall>i<length ds. data_pkgs e1 ! i = Some (data_header (enc_seq e) (length (ds ! i)) k r i @ ds ! i @ [0]) \<and>
        data_pkgs_length e1 ! i = int (length (ds ! i)) + 11"
    using e by (auto simp: e1_def holds_def reset_same longest_def)
  have len: "length (data_pkgs e1) = k + r" "length (data_pkgs_length e1) = k + r"
      "data_pkg_num e1 = int k" "redundant_pkg_num e1 = int r"
    using params by (simp_all add: enc_params_def)
  have "enc_store d (int (length d)) e =
      e1\<lparr>max_data_pkg_length := int (longest (ds @ [d])),
        data_pkgs := (data_pkgs e1)[length ds := Some (data_header (enc_seq e) (length d) k r (length ds) @ d @ [0])],
        data_pkgs_length := (data_pkgs_length e1)[length ds := int (length d) + 11],
        cur_data_pkgs_num := int (length ds) + 1\<rparr>"
    using old len by (simp add: enc_store_def Let_def e1_def [symmetric] longest_snoc data_header_def)
  with params old len e d room show ?thesis
    by (auto simp: holds_def enc_params_def nth_list_update nth_append less_Suc_eq)
qed

text \<open>An input that does not complete the group, and the inputs that are refused.\<close>

lemma fec_encode_input_holds:
  assumes "holds k r e ds" and "packet_ok d" and "length ds + 1 < k"
  shows "\<exists>e'. fec_encode_input addr (Some d) (int (length d)) e s = Some (0, e', s) \<and>
    holds k r e' (ds @ [d]) \<and> enc_seq e' = enc_seq e"
proof -
  let ?e = "e\<lparr>newest_update_time := inside_timer e\<rparr>"
  let ?e' = "enc_store d (int (length d)) ?e"
  have e: "holds k r ?e ds" using assms(1) by (simp add: holds_time)
  have new: "holds k r ?e' (ds @ [d])" "enc_seq ?e' = enc_seq e"
    using enc_store_holds [OF e assms(2)] assms(3) by simp_all
  then have "cur_data_pkgs_num ?e' \<noteq> data_pkg_num ?e'" "cur_data_pkgs_num ?e \<noteq> data_pkg_num ?e"
    using e assms(3) by (simp_all add: holds_def enc_params_def)
  with new assms(2) show ?thesis
    by (simp add: fec_encode_input_def Let_def packet_ok_def)
qed

lemma fec_encode_input_refused:
  "cur_data_pkgs_num e = data_pkg_num e \<Longrightarrow>
     fec_encode_input addr p len e s = Some (-1, e\<lparr>newest_update_time := inside_timer e\<rparr>, s)"
  "cur_data_pkgs_num e \<noteq> data_pkg_num e \<Longrightarrow> p = None \<or> len \<le> 0 \<or> 65535 < len \<Longrightarrow>
     fec_encode_input addr p len e s = Some (-2, e\<lparr>newest_update_time := inside_timer e\<rparr>, s)"
  by (auto simp: fec_encode_input_def Let_def split: option.splits)

section \<open>A complete group\<close>

definition padded :: "nat \<Rightarrow> u8 list \<Rightarrow> u8 list" where
  "padded m d = d @ replicate (m - length d) 0"

text \<open>
  Packet \<open>i\<close> of the group \<open>ds\<close> as it goes over the network: the header carries the packet's own length,
  or that of the longest packet for a redundant one, and the payload is a buffer of the codeword.
\<close>

definition group_header :: "u16 \<Rightarrow> nat \<Rightarrow> nat \<Rightarrow> u8 list list \<Rightarrow> nat \<Rightarrow> u8 list" where
  "group_header seq k r ds i = data_header seq (if i < k then length (ds ! i) else longest ds) k r i"

definition group_codeword :: "nat \<Rightarrow> nat \<Rightarrow> u8 list list \<Rightarrow> u8 list list \<Rightarrow> bool" where
  "group_codeword k r ds cw \<longleftrightarrow> rs_codeword k (k + r) (longest ds) cw \<and>
     (\<forall>i<k + r. length (cw ! i) = longest ds) \<and> (\<forall>i<k. cw ! i = padded (longest ds) (ds ! i))"

definition group_packets :: "u16 \<Rightarrow> nat \<Rightarrow> nat \<Rightarrow> u8 list list \<Rightarrow> u8 list list \<Rightarrow> u8 list list" where
  "group_packets seq k r ds cw = map (\<lambda>i. group_header seq k r ds i @ cw ! i) [0..<k + r]"

lemma longest_pos: "d \<in> set ds \<Longrightarrow> packet_ok d \<Longrightarrow> 0 < longest ds"
  using longest_ge [of d ds] by (cases d) (auto simp: packet_ok_def)

lemma fec_header_index:
  "(fec_header seq len k r i)[10 := w] = write_u32 unique_header @ write_u16 seq @ write_u16 len @
     [word_of_int k, word_of_int r, w]"
  by (simp add: fec_header_def list_update_append)

lemma enc_buffer_group:
  assumes "holds k r e ds" and "length ds = k" and i: "i < k + r"
  shows "enc_buffer e i = group_header (enc_seq e) k r ds i @
    (if i < k then padded (longest ds) (ds ! i) else replicate (longest ds) 0) @ [0]"
proof (cases "i < k")
  case True
  have d: "ds ! i \<in> set ds" using True assms(2) by simp
  have len: "length (ds ! i) \<le> longest ds" by (rule longest_ge [OF d])
  have m: "max_data_pkg_length e = int (longest ds)" "data_pkg_num e = int k"
    and st: "data_pkgs e ! i = Some (data_header (enc_seq e) (length (ds ! i)) k r i @ ds ! i @ [0])"
      "data_pkgs_length e ! i = int (length (ds ! i)) + 11"
    using assms True d by (auto simp: holds_def enc_params_def)
  let ?b = "data_header (enc_seq e) (length (ds ! i)) k r i @ ds ! i @ replicate (longest ds - length (ds ! i) + 1) 0"
  have lens: "nat (int (length (ds ! i)) + 11) = 11 + length (ds ! i)" by simp
  have "enc_buffer e i = ?b[10 := word_of_nat (i + 1)]"
    using True len m st by (simp add: enc_buffer_def lens data_header_def Suc_diff_le)
  also have "\<dots> = ?b"
    by (simp add: data_header_def fec_header_def list_update_append)
  finally show ?thesis
    using True by (simp add: group_header_def padded_def replicate_append_same)
next
  case False
  have ne: "ds \<noteq> []" and m: "max_data_pkg_length e = int (longest ds)" "data_pkg_num e = int k" "redundant_pkg_num e = int r"
    using assms by (auto simp: holds_def enc_params_def)
  show ?thesis
    using False m by (simp add: enc_buffer_def Let_def group_header_def data_header_def fec_header_def
      list_update_append replicate_append_same)
qed

text \<open>The bytes a caller copies from the pointers and lengths it gets.\<close>

definition handed_out :: "u8 list option list \<times> int list \<Rightarrow> u8 list list" where
  "handed_out out = map2 (\<lambda>p l. take (nat l) (the p)) (fst out) (snd out)"

definition next_seq :: "u16 \<Rightarrow> u16" where
  "next_seq seq = (if seq + 1 \<ge> 65521 then 1 else seq + 1)"

lemma next_seq_range:
  assumes "unat seq < 65521"
  shows "1 \<le> unat (next_seq seq) \<and> unat (next_seq seq) < 65521"
proof -
  have "unat (seq + 1) = unat seq + 1"
    using assms by (subst unat_add_lem [THEN iffD1]) simp_all
  then show ?thesis by (auto simp: next_seq_def word_le_nat_alt)
qed

text \<open>Ready for output: the parameters still hold and the buffers are the packets of a group.\<close>

definition encoded :: "nat \<Rightarrow> nat \<Rightarrow> fec_encoder \<Rightarrow> u8 list list \<Rightarrow> bool" where
  "encoded k r e pkts \<longleftrightarrow> enc_params k r e \<and> cur_data_pkgs_num e = int k \<and> ready_for_fec_output e \<and>
     handed_out (data_pkgs e, data_pkgs_length e) = pkts"

lemma enc_group_encoded:
  assumes e: "holds k r e ds" and full: "length ds = k" and s: "rs_static_ok s"
  shows "\<exists>e' s' cw. enc_group addr e s = Some (e', s') \<and> rs_static_ok s' \<and> group_codeword k r ds cw \<and>
    encoded k r e' (group_packets (enc_seq e) k r ds cw) \<and> enc_seq e' = next_seq (enc_seq e)"
proof -
  let ?m = "longest ds" and ?n = "k + r"
  define pay where "pay i = (if i < k then padded ?m (ds ! i) else replicate ?m 0)" for i
  have k: "1 \<le> k" "k \<le> ?n" "?n \<le> 255" using e by (simp_all add: holds_def enc_params_def)
  then have ne: "ds \<noteq> []" using full by auto
  have num: "data_pkg_num e = int k" "redundant_pkg_num e = int r" "max_data_pkg_length e = int ?m"
    using e ne by (simp_all add: holds_def enc_params_def)
  have plen: "length (pay i) = ?m" if "i < ?n" for i
    using longest_ge [of "ds ! i" ds] full by (auto simp: pay_def padded_def)
  define bufs where "bufs = map (enc_buffer e) [0..<?n]"
  have buf: "bufs ! i = group_header (enc_seq e) k r ds i @ pay i @ [0]" if "i < ?n" for i
    using enc_buffer_group [OF e full that] that by (simp add: bufs_def pay_def)
  have hlen: "length (group_header (enc_seq e) k r ds i) = 11" for i
    by (simp add: group_header_def data_header_def)
  have "length (map (drop 11) bufs) = ?n" by (simp add: bufs_def)
  moreover have row: "map (drop 11) bufs ! i = pay i @ [0]" if "i < ?n" for i
    using buf [OF that] that hlen by (simp add: bufs_def)
  ultimately obtain cw s' where enc: "rs_encode2 (int k) (int ?n) addr (map (drop 11) bufs) ?m s = Some (cw, s')"
      "rs_static_ok s'" "rs_codeword k ?n ?m cw" "length cw = ?n"
      "\<forall>i<?n. length (cw ! i) = length (map (drop 11) bufs ! i) \<and> drop ?m (cw ! i) = drop ?m (map (drop 11) bufs ! i)"
      "\<forall>i<k. cw ! i = map (drop 11) bufs ! i"
    using rs.encode [OF s k, of "map (drop 11) bufs" ?m addr] plen by fastforce
  let ?cw = "map (take ?m) cw"
  have cwlen: "length (cw ! i) = ?m + 1" if "i < ?n" for i using enc(5) row plen that by simp
  have code: "group_codeword k r ds ?cw"
    unfolding group_codeword_def
  proof (intro conjI allI impI)
    show "rs_codeword k ?n ?m ?cw" using enc(3,4) by (simp add: rs_codeword_def)
    show "length (?cw ! i) = ?m" if "i < ?n" for i using cwlen that enc(4) by simp
    fix i assume i: "i < k"
    then have "?cw ! i = take ?m (pay i @ [0])" using enc(4,6) row k(2) by simp
    with plen [of i] i show "?cw ! i = padded ?m (ds ! i)" by (simp add: pay_def)
  qed
  let ?pkgs = "map2 (\<lambda>b p. Some (take 11 b @ p)) bufs cw"
  have out: "handed_out (?pkgs, replicate ?n (int ?m + 11)) = group_packets (enc_seq e) k r ds ?cw"
    using enc(4) buf hlen
    by (intro nth_equalityI) (simp_all add: handed_out_def group_packets_def bufs_def nat_add_distrib)
  have sq: "1 \<le> unat (next_seq (enc_seq e))" "unat (next_seq (enc_seq e)) < 65521"
    using next_seq_range e by (simp_all add: holds_def enc_params_def)
  define e' where "e' = e\<lparr>data_pkgs := ?pkgs, data_pkgs_length := replicate ?n (int ?m + 11),
      ready_for_fec_output := True, enc_seq := next_seq (enc_seq e)\<rparr>"
  have "nat (int k + int r) = ?n" by (simp flip: of_nat_add)
  then have "enc_group addr e s = Some (e', s')"
    using num enc(1) by (simp add: enc_group_def Let_def e'_def next_seq_def bufs_def)
  moreover have "encoded k r e' (group_packets (enc_seq e) k r ds ?cw)"
    using e enc(4) sq out full by (simp add: e'_def encoded_def holds_def enc_params_def bufs_def)
  ultimately show ?thesis using enc(2) code by (auto simp: e'_def)
qed

lemma fec_encode_input_completes:
  assumes "holds k r e ds" and "packet_ok d" and "length ds + 1 = k" and s: "rs_static_ok s"
  shows "\<exists>e' s' cw. fec_encode_input addr (Some d) (int (length d)) e s = Some (1, e', s') \<and> rs_static_ok s' \<and>
    group_codeword k r (ds @ [d]) cw \<and> encoded k r e' (group_packets (enc_seq e) k r (ds @ [d]) cw) \<and>
    enc_seq e' = next_seq (enc_seq e)"
proof -
  let ?e = "e\<lparr>newest_update_time := inside_timer e\<rparr>"
  let ?e1 = "enc_store d (int (length d)) ?e"
  have e: "holds k r ?e ds" using assms(1) by (simp add: holds_time)
  have e1: "holds k r ?e1 (ds @ [d])" "enc_seq ?e1 = enc_seq e"
    using enc_store_holds [OF e assms(2)] assms(3) by simp_all
  then have full: "cur_data_pkgs_num ?e1 = data_pkg_num ?e1" "cur_data_pkgs_num ?e \<noteq> data_pkg_num ?e"
    using e assms(3) by (simp_all add: holds_def enc_params_def)
  from enc_group_encoded [OF e1(1) _ s, of addr] assms(3) obtain e' s' cw
    where "enc_group addr ?e1 s = Some (e', s')" "rs_static_ok s'" "group_codeword k r (ds @ [d]) cw"
      "encoded k r e' (group_packets (enc_seq e) k r (ds @ [d]) cw)" "enc_seq e' = next_seq (enc_seq e)"
    using e1(2) by auto
  with full assms(2) show ?thesis
    by (auto simp: fec_encode_input_def Let_def packet_ok_def)
qed

lemma fec_encode_output_encoded:
  assumes "encoded k r e pkts"
  shows "\<exists>out e'. fec_encode_output e = (0, Some out, e') \<and> handed_out out = pkts \<and> holds k r e' [] \<and>
    enc_seq e' = enc_seq e"
  using assms by (simp add: fec_encode_output_def encoded_def holds_def enc_params_def)

section \<open>Groups, flushes and timeouts\<close>

text \<open>A caller that passes the packets \<open>ds\<close> one after the other, with the results it gets.\<close>

fun encode_inputs ::
  "64 word \<Rightarrow> u8 list list \<Rightarrow> fec_encoder \<Rightarrow> rs_static \<Rightarrow> (int list \<times> fec_encoder \<times> rs_static) option" where
  "encode_inputs addr [] e s = Some ([], e, s)"
| "encode_inputs addr (d # ds) e s =
     (case fec_encode_input addr (Some d) (int (length d)) e s of
        None \<Rightarrow> None
      | Some (ret, e, s) \<Rightarrow>
          (case encode_inputs addr ds e s of
             None \<Rightarrow> None
           | Some (rets, e, s) \<Rightarrow> Some (ret # rets, e, s)))"

lemma get_random_number_u16_nonzero:
  "get_random_number_u16 reads = Some (ret, w) \<Longrightarrow> ret < 0 \<or> w \<noteq> 0"
  by (induction reads rule: get_random_number_u16.induct) (auto split: if_splits)

lemma fec_encoder_new_holds:
  assumes k: "1 \<le> k" "k + r \<le> 255" and rnd: "get_random_number_u16 reads = Some rnd"
  shows "holds k r (fec_encoder_new (int k) (int r) timeout rnd junk) []"
proof -
  obtain ret seq where ret: "rnd = (ret, seq)" by (cases rnd)
  define drawn where "drawn = (if (if ret < 0 then 1 else seq) \<ge> 65521 then 1 else if ret < 0 then 1 else seq)"
  have "ret < 0 \<or> seq \<noteq> 0" using rnd ret get_random_number_u16_nonzero by blast
  then have "1 \<le> unat drawn \<and> unat drawn < 65521"
    by (auto simp: drawn_def word_le_nat_alt Suc_le_eq unat_gt_0)
  moreover have "nat (int k + int r) = k + r" by (simp flip: of_nat_add)
  ultimately show ?thesis
    using k by (simp add: fec_encoder_new_def Let_def ret holds_def enc_params_def flip: drawn_def)
qed

lemma encode_inputs_partial:
  assumes "holds k r e ds0" and "\<forall>d\<in>set ds. packet_ok d" and "length ds0 + length ds < k"
  shows "\<exists>e'. encode_inputs addr ds e s = Some (replicate (length ds) 0, e', s) \<and>
    holds k r e' (ds0 @ ds) \<and> enc_seq e' = enc_seq e"
  using assms
proof (induction ds arbitrary: e ds0)
  case (Cons d ds)
  obtain e1 where e1: "fec_encode_input addr (Some d) (int (length d)) e s = Some (0, e1, s)"
      "holds k r e1 (ds0 @ [d])" "enc_seq e1 = enc_seq e"
    using fec_encode_input_holds [OF Cons.prems(1), of d addr s] Cons.prems(2,3) by auto
  from Cons.IH [OF e1(2)] Cons.prems(2,3) obtain e' where
    "encode_inputs addr ds e1 s = Some (replicate (length ds) 0, e', s)"
    "holds k r e' ((ds0 @ [d]) @ ds)" "enc_seq e' = enc_seq e1" by auto
  with e1(1,3) show ?case by simp
qed simp

lemma encode_inputs_append:
  "encode_inputs addr (ds @ ds') e s =
     (case encode_inputs addr ds e s of
        None \<Rightarrow> None
      | Some (rets, e, s) \<Rightarrow>
          (case encode_inputs addr ds' e s of
             None \<Rightarrow> None
           | Some (rets', e, s) \<Rightarrow> Some (rets @ rets', e, s)))"
  by (induction ds arbitrary: e s) (auto split: option.splits)

lemma encode_group:
  assumes e: "holds k r e []" and s: "rs_static_ok s" and ds: "length ds = k" "\<forall>d\<in>set ds. packet_ok d"
  shows "\<exists>e1 s1 cw out e2. encode_inputs addr ds e s = Some (replicate (k - 1) 0 @ [1], e1, s1) \<and>
    fec_encode_output e1 = (0, Some out, e2) \<and> handed_out out = group_packets (enc_seq e) k r ds cw \<and>
    group_codeword k r ds cw \<and> holds k r e2 [] \<and> enc_seq e2 = next_seq (enc_seq e) \<and> rs_static_ok s1"
proof -
  have "1 \<le> k" using e by (simp add: holds_def enc_params_def)
  then obtain ds0 d where d: "ds = ds0 @ [d]" "length ds0 + 1 = k"
    using ds(1) by (cases ds rule: rev_cases) auto
  obtain e0 where e0: "encode_inputs addr ds0 e s = Some (replicate (k - 1) 0, e0, s)"
      "holds k r e0 ds0" "enc_seq e0 = enc_seq e"
    using encode_inputs_partial [OF e, of ds0 addr s] ds d by (auto simp flip: d(2))
  obtain e1 s1 cw where e1: "fec_encode_input addr (Some d) (int (length d)) e0 s = Some (1, e1, s1)"
      "rs_static_ok s1" "group_codeword k r ds cw"
      "encoded k r e1 (group_packets (enc_seq e0) k r ds cw)" "enc_seq e1 = next_seq (enc_seq e0)"
    using fec_encode_input_completes [OF e0(2) _ d(2) s, of d addr] ds(2) d(1) by auto
  obtain out e2 where "fec_encode_output e1 = (0, Some out, e2)"
      "handed_out out = group_packets (enc_seq e0) k r ds cw" "holds k r e2 []" "enc_seq e2 = enc_seq e1"
    using fec_encode_output_encoded [OF e1(4)] by blast
  moreover have "encode_inputs addr ds e s = Some (replicate (k - 1) 0 @ [1], e1, s1)"
    using e0(1) e1(1) by (simp add: d(1) encode_inputs_append)
  ultimately show ?thesis
    using e0(3) e1(2,3,5) by (intro exI [of _ e1] exI [of _ s1] exI [of _ cw] exI [of _ out] exI [of _ e2]) simp
qed

text \<open>
  C19 (encoding a group). A group of \<open>k\<close> packets passed to \<open>Input\<close> one by one: every call but the
  last returns 0, the last returns 1, and \<open>Output\<close> then hands out \<open>k + r\<close> packets with the
  current sequence number, their indices counted from 1, each the 11 byte header followed by a row of a
  Reed-Solomon codeword whose first \<open>k\<close> rows are the packets padded to the longest. The encoder
  is then empty again and moves on to the next sequence number.
\<close>

theorem fec_encode_group:
  assumes e: "holds k r e []" and s: "rs_static_ok s" and ds: "length ds = k" "\<forall>d\<in>set ds. packet_ok d"
  shows "\<exists>e1 s1 cw out e2. encode_inputs addr ds e s = Some (replicate (k - 1) 0 @ [1], e1, s1) \<and>
    fec_encode_output e1 = (0, Some out, e2) \<and> handed_out out = group_packets (enc_seq e) k r ds cw \<and>
    group_codeword k r ds cw \<and> holds k r e2 [] \<and> enc_seq e2 = next_seq (enc_seq e) \<and> rs_static_ok s1"
  by (rule encode_group [OF assms])

theorem fec_encode_group_witness:
  "\<exists>e1 s1 cw out e2. encode_inputs 0 [[7, 8], [9]] (fec_encoder_new 2 1 1 (0, 5) 0) rs_static_start =
      Some (replicate (2 - 1) 0 @ [1], e1, s1) \<and>
    fec_encode_output e1 = (0, Some out, e2) \<and>
    handed_out out = group_packets (enc_seq (fec_encoder_new 2 1 1 (0, 5) 0)) 2 1 [[7, 8], [9]] cw \<and>
    group_codeword 2 1 [[7, 8], [9]] cw \<and> holds 2 1 e2 [] \<and>
    enc_seq e2 = next_seq (enc_seq (fec_encoder_new 2 1 1 (0, 5) 0)) \<and> rs_static_ok s1"
proof -
  have "holds 2 1 (fec_encoder_new 2 1 1 (0, 5) 0) []"
    using fec_encoder_new_holds [of 2 1 "[Some 5]"] by simp
  from fec_encode_group [OF this rs_static_start_ok, of "[[7, 8], [9]]" 0] show ?thesis
    by (simp add: packet_ok_def)
qed

lemma flush_buffer_header:
  "drop 7 (flush_buffer (fec_header seq len k r i @ d)) = write_u32_r unique_header @ d"
  by (simp add: flush_buffer_def fec_header_def)

lemma encode_flush_holds:
  assumes e: "holds k r e ds" and ds: "length ds < k"
  shows "\<exists>pkgs lens e'. fec_encode_flush e = (0, Some (pkgs, lens), e') \<and>
    map2 (\<lambda>p l. take (nat l) p) pkgs lens = map (\<lambda>d. write_u32_r unique_header @ d) ds \<and>
    holds k r e' [] \<and> enc_seq e' = enc_seq e"
proof -
  have cur: "cur_data_pkgs_num e = int (length ds)" "data_pkg_num e = int k" "length ds \<le> length (data_pkgs e)"
      "nat (cur_data_pkgs_num e) = length ds"
    using e ds by (simp_all add: holds_def enc_params_def)
  have st: "data_pkgs e ! i = Some (data_header (enc_seq e) (length (ds ! i)) k r i @ ds ! i @ [0])"
      "data_pkgs_length e ! i = int (length (ds ! i)) + 11" if "i < length ds" for i
    using e that by (simp_all add: holds_def)
  let ?bufs = "map (\<lambda>i. flush_buffer (the (data_pkgs e ! i))) [0..<length ds]"
  let ?pkgs = "map (drop 7) ?bufs" and ?lens = "map (\<lambda>i. data_pkgs_length e ! i - 11 + 4) [0..<length ds]"
  let ?e' = "e\<lparr>data_pkgs := map Some ?bufs @ drop (length ds) (data_pkgs e), cur_data_pkgs_num := 0\<rparr>"
  have "fec_encode_flush e = (0, Some (?pkgs, ?lens), ?e')"
    using cur ds unfolding fec_encode_flush_def by (simp add: Let_def)
  moreover have "map2 (\<lambda>p l. take (nat l) p) ?pkgs ?lens = map (\<lambda>d. write_u32_r unique_header @ d) ds"
    by (rule nth_equalityI)
      (simp_all add: st data_header_def flush_buffer_header nat_add_distrib)
  moreover have "holds k r ?e' []"
    using e cur by (simp add: holds_def enc_params_def)
  ultimately show ?thesis by auto
qed

text \<open>
  C33 (flushing). \<open>FlushUnEncodedData\<close> on an encoder that waits for the rest of a group hands out the
  packets it holds, in order and whole, each behind the reversed magic number, and empties
  the encoder; the sequence number stays.
\<close>

theorem fec_encode_flush_packets:
  assumes "holds k r e ds" and "length ds < k"
  shows "\<exists>pkgs lens e'. fec_encode_flush e = (0, Some (pkgs, lens), e') \<and>
    map2 (\<lambda>p l. take (nat l) p) pkgs lens = map (\<lambda>d. write_u32_r unique_header @ d) ds \<and>
    holds k r e' [] \<and> enc_seq e' = enc_seq e"
  using assms by (rule encode_flush_holds)

theorem fec_encode_flush_packets_witness:
  "\<exists>e pkgs lens e'. encode_inputs 0 [[7, 8], [9]] (fec_encoder_new 3 1 1 (0, 5) 0) rs_static_start =
      Some ([0, 0], e, rs_static_start) \<and>
    fec_encode_flush e = (0, Some (pkgs, lens), e') \<and>
    map2 (\<lambda>p l. take (nat l) p) pkgs lens = map (\<lambda>d. write_u32_r unique_header @ d) [[7, 8], [9]] \<and>
    holds 3 1 e' [] \<and> enc_seq e' = enc_seq e"
proof -
  have "holds 3 1 (fec_encoder_new 3 1 1 (0, 5) 0) []"
    using fec_encoder_new_holds [of 3 1 "[Some 5]"] by simp
  from encode_inputs_partial [OF this, of "[[7, 8], [9]]" 0 rs_static_start] obtain e where
    e: "encode_inputs 0 [[7, 8], [9]] (fec_encoder_new 3 1 1 (0, 5) 0) rs_static_start = Some (replicate 2 0, e, rs_static_start)"
    "holds 3 1 e [[7, 8], [9]]" by (auto simp: packet_ok_def numeral_2_eq_2)
  from fec_encode_flush_packets [OF e(2)] e(1) show ?thesis
    by (auto simp: numeral_2_eq_2)
qed

lemma enc_group_timers:
  assumes "enc_group addr e s = Some (e', s')"
  shows "inside_timer e' = inside_timer e \<and> newest_update_time e' = newest_update_time e \<and>
    timeout_time e' = timeout_time e"
  using assms by (auto simp: enc_group_def Let_def split: option.splits)

lemma enc_store_timers:
  "inside_timer (enc_store d len e) = inside_timer e"
  "newest_update_time (enc_store d len e) = newest_update_time e"
  "timeout_time (enc_store d len e) = timeout_time e"
  by (simp_all add: enc_store_def Let_def reset_data_pkgs_def)

lemma fec_encode_input_timers:
  assumes "fec_encode_input addr p len e s = Some (ret, e', s')"
  shows "inside_timer e' = inside_timer e \<and> newest_update_time e' = inside_timer e \<and>
    timeout_time e' = timeout_time e"
  using assms
  by (auto simp: fec_encode_input_def Let_def enc_store_timers dest!: enc_group_timers split: option.splits if_splits)

text \<open>
  After an \<open>Input\<close> at the timer's value \<open>t0\<close>, a tick at a later time \<open>t\<close>
  asks for a flush exactly if \<open>t - t0\<close> reaches 1000 times the timeout as a 32 bit product, which
  wraps for a timeout above 4294967 seconds; a tick before the timer's value is an error and
  changes nothing.
\<close>

theorem fec_encode_timeout:
  assumes started: "inside_timer e \<noteq> 0"
    and input: "fec_encode_input addr p len e s = Some (ret, e1, s1)"
  shows "fst (fec_encode_update_time t e1) =
    (if unat t < unat (inside_timer e) then -1
     else if unat t - unat (inside_timer e) < unat (timeout_time e) * 1000 mod 2 ^ 32 then 0 else 1) \<and>
    (unat t < unat (inside_timer e) \<longrightarrow> snd (fec_encode_update_time t e1) = e1) \<and>
    (unat (inside_timer e) \<le> unat t \<longrightarrow> inside_timer (snd (fec_encode_update_time t e1)) = t)"
proof -
  have e1: "inside_timer e1 = inside_timer e" "newest_update_time e1 = inside_timer e" "timeout_time e1 = timeout_time e"
    using fec_encode_input_timers [OF input] by simp_all
  have "unat (timeout_time e * 1000) < 2 ^ 32"
    using unat_u32_less [of "timeout_time e * 1000"] by simp
  then have wait: "unat (ucast (timeout_time e * 1000) :: 64 word) = unat (timeout_time e) * 1000 mod 2 ^ 32"
    by (simp add: unsigned_ucast_eq take_bit_eq_mod unat_word_ariths)
  have gap: "unat (t - inside_timer e) = unat t - unat (inside_timer e)" if "inside_timer e \<le> t"
    using that by (simp add: unat_sub)
  show ?thesis
    using started e1 wait gap
    by (auto simp: fec_encode_update_time_def Let_def word_less_nat_alt word_le_nat_alt not_less)
qed

theorem fec_encode_timeout_witness:
  "\<exists>e s1. fec_encode_input 0 (Some [1]) 1 (snd (fec_encode_update_time 1000 (fec_encoder_new 3 1 1 (0, 5) 0)))
       rs_static_start = Some (0, e, s1) \<and>
    fst (fec_encode_update_time 2000 e) = 1 \<and> fst (fec_encode_update_time 1999 e) = 0"
proof -
  let ?e = "snd (fec_encode_update_time 1000 (fec_encoder_new 3 1 1 (0, 5) 0))"
  have new: "holds 3 1 (fec_encoder_new 3 1 1 (0, 5) 0) []"
    using fec_encoder_new_holds [of 3 1 "[Some 5]"] by simp
  have e: "holds 3 1 ?e []" "inside_timer ?e = 1000" "timeout_time ?e = 1"
    using new by (simp_all add: fec_encode_update_time_def fec_encoder_new_def holds_def enc_params_def)
  from fec_encode_input_holds [OF e(1), of "[1]" 0 rs_static_start] obtain e1
    where e1: "fec_encode_input 0 (Some [1]) 1 ?e rs_static_start = Some (0, e1, rs_static_start)"
    by (auto simp: packet_ok_def)
  from fec_encode_timeout [OF _ e1, of 2000] fec_encode_timeout [OF _ e1, of 1999] e(2,3) e1
  show ?thesis by simp
qed

end
