(* ===== verification/Timeout_Map.thy ===== *)
theory Timeout_Map
  imports Prelude
begin

text \<open>
  \<open>TimeOutMap\<close> of \<open>lib/libfec/source/timeout_map.cpp\<close>: keys with the time of their last update, in a
  list by recency and a hash map from the key to the time and an iterator into the list. A list node is
  a pair of an identity and its key, an iterator is the identity; the identities are never reused,
  as an iterator of \<open>std::list\<close> stays with its node. The mutex is not modelled: each
  operation holds it throughout, except between the two halves of \<open>Add\<close>, which only one thread calls.

  The contract that \<open>FecDecode\<close> uses is the locale \<open>expiring_keys\<close>.
\<close>

section \<open>The code\<close>

record timeout_map =
  elements :: "(nat \<times> int) list"
  tmap :: "int \<Rightarrow> (int \<times> nat) option"
  timeout_limit_ms :: int
  next_node :: nat

definition timeout_map_new :: "int \<Rightarrow> timeout_map" where
  "timeout_map_new limit =
     \<lparr>elements = [], tmap = (\<lambda>k. None), timeout_limit_ms = limit, next_node = 0\<rparr>"

definition erase_node :: "nat \<Rightarrow> (nat \<times> int) list \<Rightarrow> (nat \<times> int) list" where
  "erase_node it xs = filter (\<lambda>(i, k). i \<noteq> it) xs"

definition push_front :: "int \<Rightarrow> timeout_map \<Rightarrow> timeout_map" where
  "push_front key m =
     m\<lparr>elements := (next_node m, key) # elements m, next_node := next_node m + 1\<rparr>"

definition tm_update :: "int \<Rightarrow> int \<Rightarrow> timeout_map \<Rightarrow> int \<times> timeout_map" where
  "tm_update key cur_time_ms m =
     (case tmap m key of
        None \<Rightarrow> (-1, m)
      | Some (time, it) \<Rightarrow>
          let m = m\<lparr>tmap := (tmap m)(key \<mapsto> (cur_time_ms, it))\<rparr>;
              m = m\<lparr>elements := erase_node it (elements m)\<rparr>;
              m = push_front key m;
              m = m\<lparr>tmap := (tmap m)(key \<mapsto> (cur_time_ms, fst (hd (elements m))))\<rparr>
          in (0, m))"

definition tm_add :: "int \<Rightarrow> int \<Rightarrow> timeout_map \<Rightarrow> int \<times> timeout_map" where
  "tm_add key cur_time_ms m =
     (let (ret, m) = tm_update key cur_time_ms m
      in if ret < 0
         then let m = push_front key m
              in (0, m\<lparr>tmap := (tmap m)(key \<mapsto> (cur_time_ms, fst (hd (elements m))))\<rparr>)
         else (ret, m))"

definition tm_remove :: "int \<Rightarrow> timeout_map \<Rightarrow> int \<times> timeout_map" where
  "tm_remove key m =
     (case tmap m key of
        None \<Rightarrow> (-1, m)
      | Some (time, it) \<Rightarrow>
          (0, m\<lparr>elements := erase_node it (elements m), tmap := (tmap m)(key := None)\<rparr>))"

text \<open>
  The loop from the back of the list. \<open>timeout_map_[*iter]\<close> would insert a zero entry for a key that
  is not in the map; the invariant shows that every key of the list is.
\<close>

fun collect_timeouts :: "(int \<Rightarrow> (int \<times> nat) option) \<Rightarrow> int \<Rightarrow> int \<Rightarrow> (nat \<times> int) list \<Rightarrow> int list" where
  "collect_timeouts tm limit cur [] = []"
| "collect_timeouts tm limit cur ((it, key) # rest) =
     (let last_update_time_ms = (case tm key of Some (time, it) \<Rightarrow> time | None \<Rightarrow> 0)
      in if cur - last_update_time_ms > limit
         then key # collect_timeouts tm limit cur rest
         else [])"

definition tm_timeouts :: "int \<Rightarrow> timeout_map \<Rightarrow> int list" where
  "tm_timeouts cur_time_ms m =
     collect_timeouts (tmap m) (timeout_limit_ms m) cur_time_ms (rev (elements m))"

section \<open>The invariant\<close>

text \<open>Every node is a key of the map, which points back to it, and the list is in order of time.\<close>

definition tm_inv :: "timeout_map \<Rightarrow> bool" where
  "tm_inv m \<longleftrightarrow>
     distinct (map fst (elements m)) \<and> distinct (map snd (elements m)) \<and>
     (\<forall>it\<in>set (map fst (elements m)). it < next_node m) \<and>
     (\<forall>key time it. tmap m key = Some (time, it) \<longrightarrow> (it, key) \<in> set (elements m)) \<and>
     (\<forall>(it, key)\<in>set (elements m). \<exists>time. tmap m key = Some (time, it))"

definition time_of :: "timeout_map \<Rightarrow> int \<Rightarrow> int" where
  "time_of m key = (case tmap m key of Some (time, it) \<Rightarrow> time | None \<Rightarrow> 0)"

definition tm_sorted :: "timeout_map \<Rightarrow> bool" where
  "tm_sorted m \<longleftrightarrow> sorted_wrt (\<ge>) (map (time_of m \<circ> snd) (elements m))"

text \<open>What the map means to its user: the keys with their times.\<close>

definition tm_abs :: "timeout_map \<Rightarrow> int \<Rightarrow> int option" where
  "tm_abs m key = map_option fst (tmap m key)"

lemma tm_inv_new: "tm_inv (timeout_map_new limit)"
  by (simp add: tm_inv_def timeout_map_new_def)

lemma tm_sorted_new: "tm_sorted (timeout_map_new limit)"
  by (simp add: tm_sorted_def timeout_map_new_def)

lemma tm_inv_node: "tm_inv m \<Longrightarrow> (it, k) \<in> set (elements m) \<Longrightarrow> \<exists>t. tmap m k = Some (t, it)"
  by (auto simp: tm_inv_def)

lemma tm_inv_entry: "tm_inv m \<Longrightarrow> tmap m k = Some (t, it) \<Longrightarrow> (it, k) \<in> set (elements m)"
  by (auto simp: tm_inv_def)

text \<open>Erasing the node of a key is erasing the key.\<close>

lemma erase_node_key:
  assumes "tm_inv m" and "tmap m key = Some (time, it)"
  shows "erase_node it (elements m) = filter (\<lambda>(i, k). k \<noteq> key) (elements m)"
  unfolding erase_node_def
proof (rule filter_cong)
  fix p assume p: "p \<in> set (elements m)"
  obtain i k where ik: "p = (i, k)" by force
  have node: "(it, key) \<in> set (elements m)" using assms by (auto simp: tm_inv_def)
  have inj: "inj_on fst (set (elements m))" "inj_on snd (set (elements m))"
    using assms(1) by (simp_all add: tm_inv_def distinct_map)
  have "i = it \<longleftrightarrow> k = key"
    using inj_onD [OF inj(1), of p "(it, key)"] inj_onD [OF inj(2), of p "(it, key)"] p node ik by auto
  then show "(case p of (i, k) \<Rightarrow> i \<noteq> it) = (case p of (i, k) \<Rightarrow> k \<noteq> key)" by (simp add: ik)
qed simp

lemma no_node:
  assumes "tm_inv m" and "tmap m key = None"
  shows "filter (\<lambda>(i, k). k \<noteq> key) (elements m) = elements m"
  using assms by (intro filter_True) (fastforce simp: tm_inv_def)

lemma tm_add_closed:
  assumes "tm_inv m"
  shows "tm_add key now m = (0, m\<lparr>elements := (next_node m, key) # filter (\<lambda>(i, k). k \<noteq> key) (elements m),
     tmap := (tmap m)(key \<mapsto> (now, next_node m)), next_node := next_node m + 1\<rparr>)"
proof (cases "tmap m key")
  case None
  with no_node [OF assms None] show ?thesis
    by (simp add: tm_add_def tm_update_def push_front_def)
next
  case (Some p)
  obtain time it where "p = (time, it)" by force
  with Some erase_node_key [OF assms, of key time it] show ?thesis
    by (simp add: tm_add_def tm_update_def push_front_def Let_def)
qed

lemma tm_remove_closed:
  assumes "tm_inv m"
  shows "tm_remove key m = (if tmap m key = None then (-1, m)
    else (0, m\<lparr>elements := filter (\<lambda>(i, k). k \<noteq> key) (elements m), tmap := (tmap m)(key := None)\<rparr>))"
  using erase_node_key [OF assms] by (auto simp: tm_remove_def split: option.split)

lemma distinct_map_filter: "distinct (map f xs) \<Longrightarrow> distinct (map f (filter P xs))"
  by (simp add: distinct_map inj_on_def)

lemma tm_inv_add:
  assumes "tm_inv m"
  shows "tm_inv (snd (tm_add key now m))"
proof -
  have d: "distinct (map fst (filter (\<lambda>(i, k). k \<noteq> key) (elements m)))"
    "distinct (map snd (filter (\<lambda>(i, k). k \<noteq> key) (elements m)))"
    using assms by (simp_all add: tm_inv_def distinct_map_filter)
  have lt: "it < next_node m" if "(it, k) \<in> set (elements m)" for it k
    using assms that by (fastforce simp: tm_inv_def)
  show ?thesis
    unfolding tm_add_closed [OF assms] tm_inv_def
  proof (intro conjI)
    let ?m = "snd (0 :: int, m\<lparr>elements := (next_node m, key) # filter (\<lambda>(i, k). k \<noteq> key) (elements m),
     tmap := (tmap m)(key \<mapsto> (now, next_node m)), next_node := next_node m + 1\<rparr>)"
    show "distinct (map fst (elements ?m))" using d(1) lt by fastforce
    show "distinct (map snd (elements ?m))" using d(2) by auto
    show "\<forall>it\<in>set (map fst (elements ?m)). it < next_node ?m" using lt by fastforce
    show "\<forall>k time it. tmap ?m k = Some (time, it) \<longrightarrow> (it, k) \<in> set (elements ?m)"
      using assms by (auto simp: tm_inv_def)
    show "\<forall>(it, k)\<in>set (elements ?m). \<exists>time. tmap ?m k = Some (time, it)"
      using assms by (fastforce simp: tm_inv_def)
  qed
qed

lemma tm_inv_remove:
  assumes "tm_inv m"
  shows "tm_inv (snd (tm_remove key m))"
  unfolding tm_remove_closed [OF assms]
  using assms by (fastforce simp: tm_inv_def distinct_map_filter)

lemma sorted_wrt_filter_map: "sorted_wrt R (map f xs) \<Longrightarrow> sorted_wrt R (map f (filter P xs))"
  by (induction xs) auto

lemma tm_sorted_add:
  assumes "tm_inv m" and "tm_sorted m" and "\<And>k t. tm_abs m k = Some t \<Longrightarrow> t \<le> now"
  shows "tm_sorted (snd (tm_add key now m))"
proof -
  let ?xs = "filter (\<lambda>(i, k). k \<noteq> key) (elements m)"
  let ?m = "snd (tm_add key now m)"
  have same: "map (time_of ?m \<circ> snd) ?xs = map (time_of m \<circ> snd) ?xs"
    unfolding tm_add_closed [OF assms(1)] by (auto simp: time_of_def)
  have "time_of m k \<le> now" if "(it, k) \<in> set (elements m)" for it k
  proof -
    obtain t where "tmap m k = Some (t, it)"
      using tm_inv_node [OF assms(1) \<open>(it, k) \<in> set (elements m)\<close>] by blast
    with assms(3) [of k t] show ?thesis by (simp add: time_of_def tm_abs_def)
  qed
  moreover have "time_of ?m key = now" by (simp add: tm_add_closed [OF assms(1)] time_of_def)
  moreover have "elements ?m = (next_node m, key) # ?xs" by (simp add: tm_add_closed [OF assms(1)])
  moreover have "sorted_wrt (\<ge>) (map (time_of m \<circ> snd) ?xs)"
    using assms(2) unfolding tm_sorted_def by (rule sorted_wrt_filter_map)
  ultimately show ?thesis
    unfolding tm_sorted_def by (simp only: list.map same) auto
qed

lemma tm_sorted_remove:
  assumes "tm_inv m" and "tm_sorted m"
  shows "tm_sorted (snd (tm_remove key m))"
proof (cases "tmap m key = None")
  case True
  with assms show ?thesis by (simp add: tm_remove_closed)
next
  case False
  let ?xs = "filter (\<lambda>(i, k). k \<noteq> key) (elements m)"
  let ?m = "snd (tm_remove key m)"
  have same: "map (time_of ?m \<circ> snd) ?xs = map (time_of m \<circ> snd) ?xs"
    using False by (auto simp: tm_remove_closed [OF assms(1)] time_of_def)
  have el: "elements ?m = ?xs" using False by (auto simp: tm_remove_closed [OF assms(1)])
  show ?thesis
    using assms(2) unfolding tm_sorted_def el same by (rule sorted_wrt_filter_map)
qed

lemma collect_timeouts_sorted:
  assumes "sorted_wrt (\<le>) (map (time \<circ> snd) xs)"
    and "\<And>it k. (it, k) \<in> set xs \<Longrightarrow> (case tm k of Some (t, it) \<Rightarrow> t | None \<Rightarrow> 0) = time k"
  shows "collect_timeouts tm limit cur xs = map snd (filter (\<lambda>(it, k). cur - time k > limit) xs)"
  using assms
proof (induction xs)
  case (Cons p xs)
  obtain it k where p: "p = (it, k)" by force
  have t: "(case tm k of Some (t, it) \<Rightarrow> t | None \<Rightarrow> 0) = time k" using Cons.prems(2) [of it k] p by simp
  have IH: "collect_timeouts tm limit cur xs = map snd (filter (\<lambda>(it, k). cur - time k > limit) xs)"
  proof (rule Cons.IH)
    show "sorted_wrt (\<le>) (map (time \<circ> snd) xs)" using Cons.prems(1) by (simp add: comp_def)
    show "(case tm k of Some (t, it) \<Rightarrow> t | None \<Rightarrow> 0) = time k" if "(it, k) \<in> set xs" for it k
      by (rule Cons.prems(2) [of it]) (simp add: that)
  qed
  show ?case
  proof (cases "cur - time k > limit")
    case True
    then show ?thesis by (simp add: p t IH Let_def)
  next
    case False
    have "filter (\<lambda>(it, k). cur - time k > limit) xs = []"
      using False Cons.prems(1) p by (force simp: filter_empty_conv)
    with False show ?thesis by (simp add: p t Let_def)
  qed
qed simp

lemma tm_timeouts_exact:
  assumes "tm_inv m" and "tm_sorted m"
  shows "distinct (tm_timeouts now m) \<and>
    set (tm_timeouts now m) = {k. \<exists>t. tm_abs m k = Some t \<and> now - t > timeout_limit_ms m}"
proof -
  have rev_sorted: "sorted_wrt (\<le>) (map (time_of m \<circ> snd) (rev (elements m)))"
    using assms(2) by (simp add: tm_sorted_def rev_map [symmetric] sorted_wrt_rev)
  have eq: "tm_timeouts now m =
      map snd (filter (\<lambda>(it, k). now - time_of m k > timeout_limit_ms m) (rev (elements m)))"
    unfolding tm_timeouts_def
    by (rule collect_timeouts_sorted [OF rev_sorted]) (simp add: time_of_def)
  have "distinct (map snd (rev (elements m)))" using assms(1) by (simp add: tm_inv_def rev_map [symmetric])
  then have "distinct (tm_timeouts now m)" unfolding eq by (rule distinct_map_filter)
  moreover have "set (tm_timeouts now m) = {k. tmap m k \<noteq> None \<and> now - time_of m k > timeout_limit_ms m}"
  proof (intro set_eqI iffI)
    fix k assume "k \<in> set (tm_timeouts now m)"
    then obtain it where "(it, k) \<in> set (elements m)" "now - time_of m k > timeout_limit_ms m"
      unfolding eq by auto
    then show "k \<in> {k. tmap m k \<noteq> None \<and> now - time_of m k > timeout_limit_ms m}"
      using tm_inv_node [OF assms(1), of it k] by auto
  next
    fix k assume "k \<in> {k. tmap m k \<noteq> None \<and> now - time_of m k > timeout_limit_ms m}"
    then obtain t it where "tmap m k = Some (t, it)" "now - time_of m k > timeout_limit_ms m" by auto
    then have "(it, k) \<in> set (filter (\<lambda>(it, k). now - time_of m k > timeout_limit_ms m) (rev (elements m)))"
      using tm_inv_entry [OF assms(1)] by simp
    then show "k \<in> set (tm_timeouts now m)" unfolding eq by force
  qed
  moreover have "tmap m k \<noteq> None \<and> now - time_of m k > timeout_limit_ms m \<longleftrightarrow>
      (\<exists>t. tm_abs m k = Some t \<and> now - t > timeout_limit_ms m)" for k
    by (auto simp: tm_abs_def time_of_def)
  ultimately show ?thesis by simp
qed

section \<open>The contract\<close>

locale expiring_keys =
  fixes inv :: "'m \<Rightarrow> bool"
    and add :: "int \<Rightarrow> int \<Rightarrow> 'm \<Rightarrow> int \<times> 'm"
    and remove :: "int \<Rightarrow> 'm \<Rightarrow> int \<times> 'm"
    and timeouts :: "int \<Rightarrow> 'm \<Rightarrow> int list"
    and times :: "'m \<Rightarrow> int \<Rightarrow> int option"
    and limit :: "'m \<Rightarrow> int"
  assumes add_law: "inv m \<Longrightarrow> (\<And>k t. times m k = Some t \<Longrightarrow> t \<le> now) \<Longrightarrow>
      inv (snd (add key now m)) \<and> fst (add key now m) = 0 \<and>
      times (snd (add key now m)) = (times m)(key \<mapsto> now) \<and> limit (snd (add key now m)) = limit m"
    and remove_law: "inv m \<Longrightarrow>
      inv (snd (remove key m)) \<and> fst (remove key m) = (if times m key = None then -1 else 0) \<and>
      times (snd (remove key m)) = (times m)(key := None) \<and> limit (snd (remove key m)) = limit m"
    and timeouts_law: "inv m \<Longrightarrow> distinct (timeouts now m) \<and>
      set (timeouts now m) = {k. \<exists>t. times m k = Some t \<and> now - t > limit m}"

context expiring_keys
begin

text \<open>A key that is refreshed at least once per limit never expires; an abandoned one does.\<close>

lemma fresh_key_stays:
  assumes "inv m" and "\<And>k t. times m k = Some t \<Longrightarrow> t \<le> now" and "now' - now \<le> limit m"
  shows "key \<notin> set (timeouts now' (snd (add key now m)))"
  using add_law [OF assms(1,2), where key = key] timeouts_law [where m = "snd (add key now m)" and now = now'] assms(3) by auto

lemma others_expire_alike:
  assumes "inv m" and "\<And>k t. times m k = Some t \<Longrightarrow> t \<le> now" and "k \<noteq> key"
  shows "k \<in> set (timeouts now' (snd (add key now m))) \<longleftrightarrow> k \<in> set (timeouts now' m)"
  using add_law [OF assms(1,2), where key = key] timeouts_law [where m = "snd (add key now m)" and now = now']
    timeouts_law [OF assms(1), where now = now'] assms(3) by auto

lemma removed_key_gone:
  assumes "inv m"
  shows "set (timeouts now (snd (remove key m))) = set (timeouts now m) - {key}"
  using remove_law [OF assms, where key = key] timeouts_law [where m = "snd (remove key m)" and now = now]
    timeouts_law [OF assms, where now = now] by auto

end

interpretation tm: expiring_keys "\<lambda>m. tm_inv m \<and> tm_sorted m" tm_add tm_remove tm_timeouts tm_abs timeout_limit_ms
proof
  fix m now key
  assume inv: "tm_inv m \<and> tm_sorted m" and le: "\<And>k t. tm_abs m k = Some t \<Longrightarrow> t \<le> now"
  have "tm_sorted (snd (tm_add key now m))" using inv le tm_sorted_add by blast
  moreover have "tm_abs (snd (tm_add key now m)) = (tm_abs m)(key \<mapsto> now)"
    using inv by (auto simp: tm_add_closed tm_abs_def fun_eq_iff)
  ultimately show "(tm_inv (snd (tm_add key now m)) \<and> tm_sorted (snd (tm_add key now m))) \<and>
      fst (tm_add key now m) = 0 \<and> tm_abs (snd (tm_add key now m)) = (tm_abs m)(key \<mapsto> now) \<and>
      timeout_limit_ms (snd (tm_add key now m)) = timeout_limit_ms m"
    using inv tm_inv_add by (simp add: tm_add_closed)
next
  fix m key
  assume inv: "tm_inv m \<and> tm_sorted m"
  moreover have "tm_abs (snd (tm_remove key m)) = (tm_abs m)(key := None)"
    using inv by (auto simp: tm_remove_closed tm_abs_def fun_eq_iff)
  moreover have "fst (tm_remove key m) = (if tm_abs m key = None then -1 else 0)"
    "timeout_limit_ms (snd (tm_remove key m)) = timeout_limit_ms m"
    using inv by (simp_all add: tm_remove_closed tm_abs_def)
  ultimately show "(tm_inv (snd (tm_remove key m)) \<and> tm_sorted (snd (tm_remove key m))) \<and>
      fst (tm_remove key m) = (if tm_abs m key = None then -1 else 0) \<and>
      tm_abs (snd (tm_remove key m)) = (tm_abs m)(key := None) \<and>
      timeout_limit_ms (snd (tm_remove key m)) = timeout_limit_ms m"
    using tm_inv_remove tm_sorted_remove by blast
qed (rule tm_timeouts_exact; simp)

section \<open>Histories\<close>

datatype tm_op = Tm_Add int int | Tm_Update int int | Tm_Remove int

fun tm_step :: "tm_op \<Rightarrow> timeout_map \<Rightarrow> timeout_map" where
  "tm_step (Tm_Add key now) m = snd (tm_add key now m)"
| "tm_step (Tm_Update key now) m = snd (tm_update key now m)"
| "tm_step (Tm_Remove key) m = snd (tm_remove key m)"

text \<open>The specification: a map from keys to times.\<close>

fun spec_step :: "tm_op \<Rightarrow> (int \<Rightarrow> int option) \<Rightarrow> int \<Rightarrow> int option" where
  "spec_step (Tm_Add key now) f = f(key \<mapsto> now)"
| "spec_step (Tm_Update key now) f = (if f key = None then f else f(key \<mapsto> now))"
| "spec_step (Tm_Remove key) f = f(key := None)"

fun op_time :: "tm_op \<Rightarrow> int option" where
  "op_time (Tm_Add key now) = Some now"
| "op_time (Tm_Update key now) = Some now"
| "op_time (Tm_Remove key) = None"

lemma tm_update_add: "snd (tm_update key now m) = (if tm_abs m key = None then m else snd (tm_add key now m))"
  by (auto simp: tm_update_def tm_add_def tm_abs_def Let_def split: option.split)

lemma tm_step_refines:
  assumes "tm_inv m \<and> tm_sorted m" and "\<And>k t. tm_abs m k = Some t \<Longrightarrow> t \<le> now"
    and "\<And>t. op_time op = Some t \<Longrightarrow> t = now"
  shows "(tm_inv (tm_step op m) \<and> tm_sorted (tm_step op m)) \<and> tm_abs (tm_step op m) = spec_step op (tm_abs m) \<and>
    timeout_limit_ms (tm_step op m) = timeout_limit_ms m \<and>
    (\<forall>k t. tm_abs (tm_step op m) k = Some t \<longrightarrow> t \<le> now)"
proof (cases op)
  case (Tm_Add key t)
  with assms(3) have "t = now" by simp
  with Tm_Add tm.add_law [OF assms(1,2), where key = key] assms(2) show ?thesis by auto
next
  case (Tm_Update key t)
  with assms(3) have "t = now" by simp
  with Tm_Update tm.add_law [OF assms(1,2), where key = key] assms(1,2) show ?thesis by (auto simp: tm_update_add)
next
  case (Tm_Remove key)
  with tm.remove_law [OF assms(1), where key = key] assms(2) show ?thesis by auto
qed

text \<open>
  C37 (timeouts of a history). After any sequence of \<open>Add\<close>, \<open>Update\<close> and \<open>Remove\<close> whose times do not go
  back, the loop of \<open>GetTimeOutElements\<close>, which stops at the first fresh key from the back of the list,
  returns without repetition exactly the keys that are still held and whose last time is further
  back than the limit.
\<close>

theorem timeouts_of_history:
  assumes "sorted (map (\<lambda>op. the (op_time op)) (filter (\<lambda>op. op_time op \<noteq> None) ops))"
  shows "distinct (tm_timeouts now (fold tm_step ops (timeout_map_new limit))) \<and>
    set (tm_timeouts now (fold tm_step ops (timeout_map_new limit))) =
      {k. \<exists>t. fold spec_step ops (\<lambda>k. None) k = Some t \<and> now - t > limit}"
proof -
  have run: "let m = fold tm_step ops (timeout_map_new limit) in
      (tm_inv m \<and> tm_sorted m) \<and> tm_abs m = fold spec_step ops (\<lambda>k. None) \<and> timeout_limit_ms m = limit \<and>
      (\<forall>k t. tm_abs m k = Some t \<longrightarrow> (\<exists>op\<in>set ops. op_time op = Some t))"
    using assms
  proof (induction ops rule: rev_induct)
    case Nil
    have "tm_abs (timeout_map_new limit) = (\<lambda>k. None)" by (simp add: tm_abs_def timeout_map_new_def fun_eq_iff)
    then show ?case
      using tm_inv_new tm_sorted_new by (simp add: Let_def timeout_map_new_def)
  next
    case (snoc op ops)
    define m where "m = fold tm_step ops (timeout_map_new limit)"
    have m: "tm_inv m \<and> tm_sorted m" "tm_abs m = fold spec_step ops (\<lambda>k. None)" "timeout_limit_ms m = limit"
      "\<And>k t. tm_abs m k = Some t \<Longrightarrow> \<exists>op\<in>set ops. op_time op = Some t"
      using snoc by (auto simp: Let_def m_def sorted_append split: if_splits)
    show ?case
    proof (cases "op_time op")
      case None
      then obtain key where op: "op = Tm_Remove key" by (cases op) auto
      with tm.remove_law [OF m(1), where key = key] m show ?thesis
        by (auto simp: Let_def m_def [symmetric] split: if_splits)
    next
      case (Some now')
      have le: "t \<le> now'" if "tm_abs m k = Some t" for k t
        using m(4) [OF that] snoc.prems Some by (force simp: sorted_append)
      have ot: "t = now'" if "op_time op = Some t" for t using Some that by simp
      have r: "(tm_inv (tm_step op m) \<and> tm_sorted (tm_step op m)) \<and>
          tm_abs (tm_step op m) = spec_step op (tm_abs m) \<and>
          timeout_limit_ms (tm_step op m) = timeout_limit_ms m \<and>
          (\<forall>k t. tm_abs (tm_step op m) k = Some t \<longrightarrow> t \<le> now')"
        by (rule tm_step_refines [OF m(1)]) (rule le, assumption, rule ot, assumption)
      have new: "tm_abs m k = Some t \<or> t = now'" if "tm_abs (tm_step op m) k = Some t" for k t
      proof -
        have "spec_step op (tm_abs m) k = Some t" using r that by simp
        then show ?thesis using Some by (cases op) (auto split: if_splits)
      qed
      have "\<exists>op'\<in>set (ops @ [op]). op_time op' = Some t" if "tm_abs (tm_step op m) k = Some t" for k t
        using new [OF that] m(4) Some by auto
      with r m(2,3) show ?thesis
        unfolding Let_def fold_append comp_def m_def [symmetric] fold.simps id_def by simp
    qed
  qed
  then show ?thesis
    using tm.timeouts_law [of "fold tm_step ops (timeout_map_new limit)" now] by (simp add: Let_def)
qed

theorem timeouts_of_history_witness:
  "set (tm_timeouts 100 (fold tm_step [Tm_Add 7 10, Tm_Add 8 20, Tm_Update 7 60, Tm_Remove 9] (timeout_map_new 50)))
    = {k. \<exists>t. fold spec_step [Tm_Add 7 10, Tm_Add 8 20, Tm_Update 7 60, Tm_Remove 9] (\<lambda>k. None) k = Some t
            \<and> 100 - t > 50}"
proof -
  have "sorted (map (\<lambda>op. the (op_time op))
      (filter (\<lambda>op. op_time op \<noteq> None) [Tm_Add 7 10, Tm_Add 8 20, Tm_Update 7 60, Tm_Remove 9]))"
    by simp
  from timeouts_of_history [OF this] show ?thesis by blast
qed

end
