(* ===== verification/Fec_Decode.thy ===== *)
theory Fec_Decode
  imports Fec_Encode Timeout_Map "HOL-Library.RBT"
begin

text \<open>
  \<open>FecDecode\<close> of \<open>lib/libfec/source/fec_decode.cpp\<close>: packets are collected by the sequence number of
  their group, in eight \<open>std::map\<close>s, until a group has as many as it has data packets; then it is
  decoded and handed out packet by packet. Unencoded packets pass through an output unit of their own.

  A \<open>std::map\<close> is a red-black tree of the library with the same ordered iteration; \<open>touch\<close> is the
  insertion of a default value by \<open>operator[]\<close>. A pointer with its length is the list of bytes behind it
  and the length argument; an access outside a buffer or a vector, a use of a null pointer and an
  exception make the result \<open>None\<close>. The clock readings are arguments. Mutexes are not
  modelled, and \<open>malloc\<close> succeeds.
\<close>

section \<open>The state\<close>

record fec_output_unit =
  ready_for_output :: bool
  out_data :: "u8 list option"
  actural_len :: u32
  max_len :: u32
  last_process_seq :: u32
  last_process_index :: u32

record fec_decoder =
  seq2data_pkgs_num :: "(u32, int) rbt"
  seq2redundant_data_pkgs_num :: "(u32, int) rbt"
  seq2max_data_pkg_length :: "(u32, int) rbt"
  timeout_keys :: timeout_map
  seq2data_pkgs :: "(u32, u8 list option list) rbt"
  seq2data_pkgs_length :: "(u32, int list) rbt"
  seq2cur_recv_data_pkg_num :: "(u32, int) rbt"
  seq2ready_for_output :: "(u32, bool) rbt"
  ready_seqs_nums :: int
  output_unit :: fec_output_unit

definition fec_decoder_new :: "int \<Rightarrow> fec_decoder" where
  "fec_decoder_new timeout_ms =
     \<lparr>seq2data_pkgs_num = RBT.empty, seq2redundant_data_pkgs_num = RBT.empty,
      seq2max_data_pkg_length = RBT.empty, timeout_keys = timeout_map_new timeout_ms,
      seq2data_pkgs = RBT.empty, seq2data_pkgs_length = RBT.empty,
      seq2cur_recv_data_pkg_num = RBT.empty, seq2ready_for_output = RBT.empty, ready_seqs_nums = 0,
      output_unit = \<lparr>ready_for_output = False, out_data = None, actural_len = 0, max_len = 0,
        last_process_seq = -1, last_process_index = -1\<rparr>\<rparr>"

text \<open>\<open>operator[]\<close> as a read, and the insertion it makes.\<close>

definition fetch :: "(u32, 'a) rbt \<Rightarrow> 'a \<Rightarrow> u32 \<Rightarrow> 'a" where
  "fetch m dflt seq = (case RBT.lookup m seq of None \<Rightarrow> dflt | Some x \<Rightarrow> x)"

definition touch :: "'a \<Rightarrow> u32 \<Rightarrow> (u32, 'a) rbt \<Rightarrow> (u32, 'a) rbt" where
  "touch dflt seq m = (case RBT.lookup m seq of None \<Rightarrow> RBT.insert seq dflt m | Some x \<Rightarrow> m)"

abbreviation pkgs_num_of where "pkgs_num_of d \<equiv> fetch (seq2data_pkgs_num d) 0"
abbreviation max_length_of where "max_length_of d \<equiv> fetch (seq2max_data_pkg_length d) 0"
abbreviation pkgs_of where "pkgs_of d \<equiv> fetch (seq2data_pkgs d) []"
abbreviation lengths_of where "lengths_of d \<equiv> fetch (seq2data_pkgs_length d) []"
abbreviation cur_num_of where "cur_num_of d \<equiv> fetch (seq2cur_recv_data_pkg_num d) 0"
abbreviation ready_of where "ready_of d \<equiv> fetch (seq2ready_for_output d) False"

section \<open>Clearing\<close>

definition remove_seq_respond_data :: "u32 \<Rightarrow> fec_decoder \<Rightarrow> fec_decoder" where
  "remove_seq_respond_data seq d =
     d\<lparr>seq2data_pkgs_num := RBT.delete seq (seq2data_pkgs_num d),
       seq2redundant_data_pkgs_num := RBT.delete seq (seq2redundant_data_pkgs_num d),
       seq2max_data_pkg_length := RBT.delete seq (seq2max_data_pkg_length d),
       timeout_keys := snd (tm_remove (sint seq) (timeout_keys d)),
       seq2data_pkgs := RBT.delete seq (seq2data_pkgs d),
       seq2data_pkgs_length := RBT.delete seq (seq2data_pkgs_length d),
       seq2cur_recv_data_pkg_num := RBT.delete seq (seq2cur_recv_data_pkg_num d),
       seq2ready_for_output := RBT.delete seq (seq2ready_for_output d)\<rparr>"

definition clear_timeout_datas :: "int \<Rightarrow> fec_decoder \<Rightarrow> fec_decoder" where
  "clear_timeout_datas now d =
     fold (\<lambda>timeout_seq d.
         let seq = word_of_int timeout_seq;
             ready = ready_of d seq;
             d = d\<lparr>seq2ready_for_output := touch False seq (seq2ready_for_output d)\<rparr>
         in if \<not> ready then remove_seq_respond_data seq d else d)
       (tm_timeouts now (timeout_keys d)) d"

section \<open>Unencoded packets\<close>

definition larger_mem :: "u32 \<Rightarrow> fec_output_unit \<Rightarrow> int \<times> fec_output_unit" where
  "larger_mem expected_len u =
     (if expected_len < max_len u then (0, u)
      else (0, u\<lparr>out_data := Some (replicate (unat (expected_len + 1)) 0), max_len := expected_len\<rparr>))"

text \<open>\<open>memcpy\<close> of \<open>n\<close> bytes to the front of a buffer.\<close>

definition mem_copy :: "u8 list \<Rightarrow> u8 list option \<Rightarrow> nat \<Rightarrow> u8 list option" where
  "mem_copy dst src n =
     (case src of
        None \<Rightarrow> (if n = 0 then Some dst else None)
      | Some p \<Rightarrow> if n \<le> length p \<and> n \<le> length dst then Some (take n p @ drop n dst) else None)"

definition deal_unencoded_data :: "u8 list option \<Rightarrow> int \<Rightarrow> fec_decoder \<Rightarrow> (int \<times> fec_decoder) option" where
  "deal_unencoded_data input_data_pkg len d =
     (case input_data_pkg of
        None \<Rightarrow> Some (-2, d)
      | Some input \<Rightarrow>
          if read_u32_r input \<noteq> unique_header then Some (-2, d)
          else
            let (ret, u) = larger_mem (word_of_int len) (output_unit d)
            in if ret < 0 then Some (ret, d\<lparr>output_unit := u\<rparr>)
               else if len < 4 then None
               else case out_data u of
                   None \<Rightarrow> None
                 | Some data \<Rightarrow>
                     (case mem_copy data (Some (drop 4 input)) (nat (len - 4)) of
                        None \<Rightarrow> None
                      | Some data \<Rightarrow>
                          let u = u\<lparr>out_data := Some data, actural_len := word_of_int (len - 4),
                                    ready_for_output := True\<rparr>
                          in Some (sint (actural_len u), d\<lparr>output_unit := u\<rparr>)))"

section \<open>Encoded packets\<close>

text \<open>
  The decoding of a group of \<open>k\<close> of \<open>n = k + r\<close> packets. \<open>wait_decode_data\<close> takes \<open>n\<close>
  pointers of the group. The buffers that \<open>rs_decode2\<close> reads, if a data packet is missing, are
  the first \<open>k\<close> received ones, up to the longest length.
\<close>

definition short_buffer :: "nat \<Rightarrow> nat \<Rightarrow> nat \<Rightarrow> u8 list option list \<Rightarrow> bool" where
  "short_buffer k n sz pkgs =
     (let used = take k (present pkgs n)
      in k \<le> length used \<and> used \<noteq> [0..<k] \<and> list_ex (\<lambda>i. length (the (pkgs ! i)) < sz) used)"

definition dec_group ::
  "64 word \<Rightarrow> u32 \<Rightarrow> int \<Rightarrow> int \<Rightarrow> fec_decoder \<Rightarrow> rs_static \<Rightarrow> (int \<times> fec_decoder \<times> rs_static) option" where
  "dec_group addr seq k r d s =
     (let n = nat (k + r);
          sz = nat (max_length_of d seq);
          pkgs = pkgs_of d seq;
          wait_decode_data = take n pkgs
      in if length pkgs < n \<or> short_buffer (nat k) n sz wait_decode_data then None
         else case rs_decode2 k (k + r) addr wait_decode_data sz s of
             None \<Rightarrow> None
           | Some ((ret, wait_decode_data), s) \<Rightarrow>
               if ret < 0 then Some (-1, d, s)
               else
                 let pkgs = wait_decode_data @ drop n pkgs;
                     lens = map (\<lambda>i. if i < n \<and> lengths_of d seq ! i = 0 then max_length_of d seq
                                     else lengths_of d seq ! i) [0..<length (lengths_of d seq)];
                     pkgs = take (nat k) pkgs;
                     lens = take (nat k) lens
                 in Some (max_length_of d seq,
                      d\<lparr>seq2data_pkgs := RBT.insert seq pkgs (seq2data_pkgs d),
                        seq2data_pkgs_length := RBT.insert seq lens (seq2data_pkgs_length d),
                        seq2ready_for_output := RBT.insert seq True (seq2ready_for_output d),
                        ready_seqs_nums := ready_seqs_nums d + 1\<rparr>, s))"

text \<open>
  A packet of a group that is neither decoded nor handed out. \<open>memcpy\<close> copies one byte more than the
  payload. \<open>now\<close> is the clock at \<open>Add\<close>, \<open>now'\<close> at \<open>ClearTimeoutDatas\<close>.
\<close>

definition dec_collect ::
  "64 word \<Rightarrow> int \<Rightarrow> int \<Rightarrow> u8 list \<Rightarrow> int \<Rightarrow> u32 \<Rightarrow> int \<Rightarrow> int \<Rightarrow> int \<Rightarrow> int \<Rightarrow> fec_decoder \<Rightarrow> rs_static \<Rightarrow>
     (int \<times> fec_decoder \<times> rs_static) option" where
  "dec_collect addr now now' input len seq package_length k r index d s =
     (if int (length input) < int fec_encode_head_length + len + 1 then None
      else
        let data = take (nat (len + 1)) (drop fec_encode_head_length input);
            d = d\<lparr>seq2data_pkgs_num := RBT.insert seq k (seq2data_pkgs_num d),
                  seq2redundant_data_pkgs_num :=
                    RBT.insert seq r (seq2redundant_data_pkgs_num d),
                  seq2max_data_pkg_length :=
                    RBT.insert seq (max (max_length_of d seq) len) (seq2max_data_pkg_length d),
                  timeout_keys := snd (tm_add (uint seq) now (timeout_keys d))\<rparr>
        in if pkgs_of d seq = [] \<and> k + r < 0 then None
           else
             let n = nat (k + r);
                 d = (if pkgs_of d seq = []
                      then d\<lparr>seq2data_pkgs := RBT.insert seq (replicate n None) (seq2data_pkgs d),
                             seq2data_pkgs_length :=
                               RBT.insert seq (take n (lengths_of d seq) @
                                 replicate (n - length (lengths_of d seq)) 0) (seq2data_pkgs_length d)\<rparr>
                      else d)
             in if index < 0 \<or> int (length (pkgs_of d seq)) \<le> index then None
                else if pkgs_of d seq ! nat index \<noteq> None then Some (0, d, s)
                else
                  let d = d\<lparr>seq2data_pkgs :=
                              RBT.insert seq ((pkgs_of d seq)[nat index := Some data]) (seq2data_pkgs d),
                            seq2data_pkgs_length :=
                              RBT.insert seq ((lengths_of d seq)[nat index := package_length])
                                (seq2data_pkgs_length d),
                            seq2cur_recv_data_pkg_num :=
                              RBT.insert seq (cur_num_of d seq + 1) (seq2cur_recv_data_pkg_num d)\<rparr>
                  in if cur_num_of d seq \<ge> pkgs_num_of d seq
                     then dec_group addr seq k r d s
                     else if length (RBT.keys (seq2data_pkgs d)) > 50
                     then Some (0, clear_timeout_datas now' d, s)
                     else Some (0, d, s))"

text \<open>The whole of \<open>Input\<close>. The comparison of the length with a \<open>sizeof\<close> is unsigned; a \<open>char\<close> is signed.\<close>

definition fec_decode_input ::
  "64 word \<Rightarrow> int \<Rightarrow> int \<Rightarrow> u8 list option \<Rightarrow> int \<Rightarrow> fec_decoder \<Rightarrow> rs_static \<Rightarrow>
     (int \<times> fec_decoder \<times> rs_static) option" where
  "fec_decode_input addr now now' input_data_pkg len d s =
     (if (word_of_int len :: 64 word) < 4 then Some (-1, d, s)
      else case input_data_pkg of
        None \<Rightarrow> Some (-1, d, s)
      | Some input \<Rightarrow>
          if length input < 4 then None
          else if read_u32 input \<noteq> unique_header
          then map_option (\<lambda>(ret, d). (ret, d, s)) (deal_unencoded_data input_data_pkg len d)
          else if len < int fec_encode_head_length then Some (-1, d, s)
          else if length input < fec_encode_head_length then None
          else
            let seq = ucast (read_u16 (drop 4 input)) :: u32;
                package_length = uint (read_u16 (drop 6 input));
                k = sint (input ! 8);
                r = sint (input ! 9);
                index = sint (input ! 10)
            in if index = 0 \<or> index > k + r then Some (-1, d, s)
               else
                 let index = index - 1;
                     len = len - int fec_encode_head_length;
                     known = RBT.lookup (seq2data_pkgs d) seq \<noteq> None;
                     ready = ready_of d seq;
                     complete = cur_num_of d seq \<ge> pkgs_num_of d seq;
                     d = d\<lparr>seq2ready_for_output := touch False seq (seq2ready_for_output d)\<rparr>;
                     d = (if known \<and> \<not> ready
                          then d\<lparr>seq2cur_recv_data_pkg_num := touch 0 seq (seq2cur_recv_data_pkg_num d),
                                 seq2data_pkgs_num := touch 0 seq (seq2data_pkgs_num d)\<rparr>
                          else d)
                 in if known \<and> \<not> ready \<and> complete then Some (0, d, s)
                    else if ready then Some (1, d, s)
                    else dec_collect addr now now' input len seq package_length
                           k r index d s)"

section \<open>Output\<close>

fun search_loop :: "int \<Rightarrow> (u32 \<times> bool) list \<Rightarrow> fec_decoder \<Rightarrow> int \<times> fec_decoder" where
  "search_loop least_len [] d = (0, d)"
| "search_loop least_len ((seq, ready) # rest) d =
     (if ready
      then let len = max_length_of d seq;
               d = d\<lparr>seq2max_data_pkg_length := touch 0 seq (seq2max_data_pkg_length d)\<rparr>
           in if len \<le> least_len then (sint seq, d) else search_loop least_len rest d
      else search_loop least_len rest d)"

definition search_for_next_ready_seq :: "int \<Rightarrow> int \<Rightarrow> fec_decoder \<Rightarrow> int \<times> fec_decoder" where
  "search_for_next_ready_seq now least_len d =
     (if ready_seqs_nums d = 0 then (0, clear_timeout_datas now d)
      else search_loop least_len (RBT.entries (seq2ready_for_output d)) d)"

abbreviation int32_max :: int where
  "int32_max \<equiv> 2147483647"

text \<open>The end of a branch: the next ready group becomes the current one, its first length the result.\<close>

definition next_group :: "int \<Rightarrow> u8 list \<Rightarrow> fec_decoder \<Rightarrow> (int \<times> u8 list option \<times> fec_decoder) option" where
  "next_group now buf d =
     (let (ret, d) = search_for_next_ready_seq now int32_max d
      in if ret \<le> 0 then Some (ret, Some buf, d)
         else
           let seq = word_of_int ret;
               d = d\<lparr>output_unit := (output_unit d)\<lparr>last_process_seq := seq, last_process_index := 0\<rparr>\<rparr>;
               lens = lengths_of d seq;
               d = d\<lparr>seq2data_pkgs_length := touch [] seq (seq2data_pkgs_length d)\<rparr>
           in case lens of [] \<Rightarrow> None | len # _ \<Rightarrow> Some (len, Some buf, d))"

definition output_unencoded ::
  "int \<Rightarrow> u8 list option \<Rightarrow> int \<Rightarrow> fec_decoder \<Rightarrow> (int \<times> u8 list option \<times> fec_decoder) option" where
  "output_unencoded now recv_buf len d =
     (let u = output_unit d
      in case recv_buf of
          None \<Rightarrow> Some (-2, recv_buf, d)
        | Some buf \<Rightarrow>
            if word_of_int len < actural_len u then Some (-2, recv_buf, d)
            else case mem_copy buf (out_data u) (unat (actural_len u)) of
                None \<Rightarrow> None
              | Some buf \<Rightarrow> next_group now buf (d\<lparr>output_unit := u\<lparr>actural_len := 0, ready_for_output := False\<rparr>\<rparr>))"

definition mem_zero :: "u8 list \<Rightarrow> int \<Rightarrow> u8 list option" where
  "mem_zero dst len =
     (if 0 \<le> len \<and> nat len \<le> length dst then Some (replicate (nat len) 0 @ drop (nat len) dst) else None)"

text \<open>The next packet of the current group.\<close>

definition output_current ::
  "int \<Rightarrow> u8 list option \<Rightarrow> int \<Rightarrow> fec_decoder \<Rightarrow> (int \<times> u8 list option \<times> fec_decoder) option" where
  "output_current now recv_buf len d =
     (let seq = last_process_seq (output_unit d);
          i = unat (last_process_index (output_unit d));
          pkgs = pkgs_of d seq;
          lens = lengths_of d seq
      in case Option.bind recv_buf (\<lambda>buf. mem_zero buf len) of
           None \<Rightarrow> None
         | Some buf \<Rightarrow>
             if length pkgs \<le> i \<or> length lens \<le> i then None
             else case mem_copy buf (pkgs ! i) (nat (lens ! i)) of
                 None \<Rightarrow> None
               | Some buf \<Rightarrow>
                   let d = d\<lparr>output_unit := (output_unit d)\<lparr>last_process_index := last_process_index (output_unit d) + 1\<rparr>\<rparr>;
                       i = unat (last_process_index (output_unit d))
                   in if i = length pkgs
                      then next_group now buf
                             (d\<lparr>seq2ready_for_output := RBT.insert seq False (seq2ready_for_output d),
                                ready_seqs_nums := ready_seqs_nums d - 1\<rparr>)
                      else if length lens \<le> i then None
                      else Some (lens ! i, Some buf, d))"

lemma fetch_touch [simp]: "fetch (touch x k m) x j = fetch m x j"
  by (simp add: fetch_def touch_def split: option.split)

lemma search_loop_ready:
  assumes "search_loop least es d = (ret, d')" and "0 < ret"
  shows "seq2ready_for_output d' = seq2ready_for_output d \<and> output_unit d' = output_unit d \<and>
    (\<exists>seq. (seq, True) \<in> set es \<and> sint seq = ret)"
  using assms
  by (induction least es d rule: search_loop.induct) (auto simp: Let_def split: if_splits)

lemma search_ready:
  assumes "search_for_next_ready_seq now least d = (ret, d')" and "0 < ret"
  shows "ready_of d' (word_of_int ret) \<and> word_of_int ret \<noteq> (-1 :: u32) \<and>
    seq2ready_for_output d' = seq2ready_for_output d \<and> output_unit d' = output_unit d"
proof -
  have "search_loop least (RBT.entries (seq2ready_for_output d)) d = (ret, d')"
    using assms by (auto simp: search_for_next_ready_seq_def split: if_splits)
  from search_loop_ready [OF this assms(2)] obtain seq where
    seq: "(seq, True) \<in> set (RBT.entries (seq2ready_for_output d))" "sint seq = ret"
    and same: "seq2ready_for_output d' = seq2ready_for_output d" "output_unit d' = output_unit d" by blast
  have key: "word_of_int ret = seq" using seq(2) by auto
  have "seq \<noteq> -1" using seq(2) assms(2) by auto
  then show ?thesis using seq(1) same key by (simp add: fetch_def flip: RBT.lookup_in_tree)
qed

text \<open>
  \<open>Output\<close> calls itself once it has found a group; the measure counts whether the current
  group is still to be found.
\<close>

function fec_decode_output ::
  "int \<Rightarrow> u8 list option \<Rightarrow> int \<Rightarrow> fec_decoder \<Rightarrow> (int \<times> u8 list option \<times> fec_decoder) option" where
  "fec_decode_output now recv_buf len d =
     (if ready_for_output (output_unit d) then output_unencoded now recv_buf len d
      else if ready_seqs_nums d = 0 then Some (-1, recv_buf, clear_timeout_datas now d)
      else
        let seq = last_process_seq (output_unit d);
            current = (seq \<noteq> -1 \<and> ready_of d seq);
            d = (if seq \<noteq> -1
                 then d\<lparr>seq2ready_for_output := touch False seq (seq2ready_for_output d)\<rparr> else d)
        in if current then output_current now recv_buf len d
           else
             let (ret, d) = search_for_next_ready_seq now len d
             in if ret \<le> 0 then Some (ret, recv_buf, d)
                else fec_decode_output now recv_buf len
                       (d\<lparr>output_unit := (output_unit d)\<lparr>last_process_seq := word_of_int ret,
                                                          last_process_index := 0\<rparr>\<rparr>))"
  by pat_completeness auto

termination
proof (relation "measure (\<lambda>(now, recv_buf, len, d).
    if last_process_seq (output_unit d) \<noteq> -1 \<and> ready_of d (last_process_seq (output_unit d)) then 0 else 1)",
    simp, simp only: in_measure prod.case, goal_cases)
  case (1 now recv_buf len d seq current d1 p ret d')
  from search_ready [OF sym [OF 1(8)]] 1 show ?case by auto
qed

declare fec_decode_output.simps [simp del]

end
