(* ===== verification/Fec_Group.thy ===== *)
theory Fec_Group
  imports Fec_Decode
begin

text \<open>
  What \<open>FecDecode\<close> promises: any \<open>k\<close> packets of a group, in any order, give the group back, and
  \<open>Output\<close> hands out its packets in order; unencoded packets pass through unchanged. \<open>collecting\<close>
  describes a group that is still incomplete, \<open>decoded\<close> one that is ready.
\<close>

section \<open>Maps\<close>

lemma fetch_insert [simp]: "fetch (RBT.insert x v m) k y = (if y = x then v else fetch m k y)"
  by (simp add: fetch_def)

lemma fetch_delete [simp]: "fetch (RBT.delete x m) k y = (if y = x then k else fetch m k y)"
  by (simp add: fetch_def)

lemma lookup_touch_other [simp]: "y \<noteq> x \<Longrightarrow> RBT.lookup (touch k x m) y = RBT.lookup m y"
  by (simp add: touch_def split: option.split)

section \<open>Clearing leaves live groups alone\<close>

text \<open>The timeout map of a decoder at a time \<open>t\<close>: keys are sequence numbers, times are past.\<close>

definition timeouts_ok :: "int \<Rightarrow> fec_decoder \<Rightarrow> bool" where
  "timeouts_ok t d \<longleftrightarrow> (tm_inv (timeout_keys d) \<and> tm_sorted (timeout_keys d)) \<and>
     0 \<le> timeout_limit_ms (timeout_keys d) \<and>
     (\<forall>key t'. tm_abs (timeout_keys d) key = Some t' \<longrightarrow> t' \<le> t \<and> 0 \<le> key \<and> key \<le> 65535)"

text \<open>All that concerns one sequence number.\<close>

definition same_group :: "u32 \<Rightarrow> fec_decoder \<Rightarrow> fec_decoder \<Rightarrow> bool" where
  "same_group seq d d' \<longleftrightarrow> pkgs_num_of d' seq = pkgs_num_of d seq \<and> max_length_of d' seq = max_length_of d seq \<and>
     pkgs_of d' seq = pkgs_of d seq \<and> lengths_of d' seq = lengths_of d seq \<and>
     cur_num_of d' seq = cur_num_of d seq \<and> ready_of d' seq = ready_of d seq \<and>
     (RBT.lookup (seq2data_pkgs d') seq = None \<longleftrightarrow> RBT.lookup (seq2data_pkgs d) seq = None)"

lemma same_group_refl: "same_group seq d d"
  by (simp add: same_group_def)

lemma same_group_trans: "same_group seq d d' \<Longrightarrow> same_group seq d' d'' \<Longrightarrow> same_group seq d d''"
  by (simp add: same_group_def)

definition same_rest :: "fec_decoder \<Rightarrow> fec_decoder \<Rightarrow> bool" where
  "same_rest d d' \<longleftrightarrow> ready_of d' = ready_of d \<and> ready_seqs_nums d' = ready_seqs_nums d \<and>
     output_unit d' = output_unit d"

lemma same_rest_trans: "same_rest d d' \<Longrightarrow> same_rest d' d'' \<Longrightarrow> same_rest d d''"
  by (simp add: same_rest_def)

lemma clear_timeout_datas_other:
  assumes "timeouts_ok t d"
  shows "same_rest d (clear_timeout_datas now d) \<and> timeouts_ok t (clear_timeout_datas now d) \<and>
    timeout_limit_ms (timeout_keys (clear_timeout_datas now d)) = timeout_limit_ms (timeout_keys d) \<and>
    (\<forall>seq. seq \<notin> word_of_int ` set (tm_timeouts now (timeout_keys d)) \<or> ready_of d seq \<longrightarrow>
       same_group seq d (clear_timeout_datas now d))"
proof -
  define step where "step = (\<lambda>timeout_seq d.
         let seq = word_of_int timeout_seq;
             ready = ready_of d seq;
             d = d\<lparr>seq2ready_for_output := touch False seq (seq2ready_for_output d)\<rparr>
         in if \<not> ready then remove_seq_respond_data seq d else d)"
  have one: "same_rest d (step x d) \<and> timeouts_ok t (step x d) \<and>
      timeout_limit_ms (timeout_keys (step x d)) = timeout_limit_ms (timeout_keys d) \<and>
      (\<forall>seq. seq \<noteq> word_of_int x \<or> ready_of d seq \<longrightarrow> same_group seq d (step x d))"
    if "timeouts_ok t d" for x d
  proof -
    from that have "tm_inv (timeout_keys d) \<and> tm_sorted (timeout_keys d)"
      by (simp add: timeouts_ok_def)
    note rm = tm.remove_law [OF this, of "sint (word_of_int x :: u32)"]
    show ?thesis
      using that rm
      by (auto simp: step_def Let_def remove_seq_respond_data_def timeouts_ok_def same_rest_def same_group_def
          fun_eq_iff)
  qed
  have "same_rest d (fold step L d) \<and> timeouts_ok t (fold step L d) \<and>
      timeout_limit_ms (timeout_keys (fold step L d)) = timeout_limit_ms (timeout_keys d) \<and>
      (\<forall>seq. seq \<notin> word_of_int ` set L \<or> ready_of d seq \<longrightarrow> same_group seq d (fold step L d))"
    if "timeouts_ok t d" for L d
    using that
  proof (induction L arbitrary: d)
    case Nil
    then show ?case by (simp add: same_rest_def same_group_refl)
  next
    case (Cons x L)
    have now: "same_rest d (step x d)" "timeouts_ok t (step x d)"
        "timeout_limit_ms (timeout_keys (step x d)) = timeout_limit_ms (timeout_keys d)"
        "\<And>seq. seq \<noteq> word_of_int x \<or> ready_of d seq \<Longrightarrow> same_group seq d (step x d)"
      using one [OF Cons.prems, of x] by blast+
    have later: "same_rest (step x d) (fold step L (step x d))" "timeouts_ok t (fold step L (step x d))"
        "timeout_limit_ms (timeout_keys (fold step L (step x d))) = timeout_limit_ms (timeout_keys (step x d))"
        "\<And>seq. seq \<notin> word_of_int ` set L \<or> ready_of (step x d) seq \<Longrightarrow>
          same_group seq (step x d) (fold step L (step x d))"
      using Cons.IH [OF now(2)] by blast+
    have "same_group seq d (fold step L (step x d))"
      if seq: "seq \<notin> word_of_int ` set (x # L) \<or> ready_of d seq" for seq
    proof (rule same_group_trans)
      show "same_group seq d (step x d)" using seq by (intro now(4)) auto
      show "same_group seq (step x d) (fold step L (step x d))"
        using seq now(1) by (intro later(4)) (auto simp: same_rest_def)
    qed
    with now(1-3) later(1-3) show ?case by (simp add: same_rest_def)
  qed
  from this [OF assms] show ?thesis by (simp add: clear_timeout_datas_def step_def)
qed

section \<open>A group that is being collected\<close>

text \<open>
  The packets \<open>S\<close> of the group \<open>seq\<close> have arrived; \<open>row i\<close> is the payload of packet \<open>i\<close>, of length \<open>m\<close>, and
  \<open>plen i\<close> the length in its header.
\<close>

definition collecting ::
  "fec_decoder \<Rightarrow> u32 \<Rightarrow> nat \<Rightarrow> nat \<Rightarrow> nat \<Rightarrow> (nat \<Rightarrow> u8 list) \<Rightarrow> (nat \<Rightarrow> nat) \<Rightarrow> nat set \<Rightarrow> bool" where
  "collecting d seq k r m row plen S \<longleftrightarrow>
     \<not> ready_of d seq \<and> cur_num_of d seq = int (card S) \<and> S \<subseteq> {..<k + r} \<and>
     (if S = {}
      then max_length_of d seq = 0 \<and> pkgs_of d seq = [] \<and> lengths_of d seq = [] \<and>
        RBT.lookup (seq2data_pkgs d) seq = None
      else pkgs_num_of d seq = int k \<and> max_length_of d seq = int m \<and>
        length (pkgs_of d seq) = k + r \<and> length (lengths_of d seq) = k + r \<and>
        (\<forall>i<k + r. lengths_of d seq ! i = (if i \<in> S then int (plen i) else 0)) \<and>
        (\<forall>i<k + r. i \<notin> S \<longrightarrow> pkgs_of d seq ! i = None) \<and>
        (\<forall>i\<in>S. \<exists>p. pkgs_of d seq ! i = Some p \<and> length p = m + 1 \<and> take m p = row i))"

text \<open>No packet of the group has been seen, or all that was seen of it is gone.\<close>

definition fresh_seq :: "u32 \<Rightarrow> fec_decoder \<Rightarrow> bool" where
  "fresh_seq seq d \<longleftrightarrow> \<not> ready_of d seq \<and> cur_num_of d seq = 0 \<and> max_length_of d seq = 0 \<and>
     pkgs_of d seq = [] \<and> lengths_of d seq = [] \<and> RBT.lookup (seq2data_pkgs d) seq = None"

lemma collecting_fresh: "collecting d seq k r m row plen {} \<longleftrightarrow> fresh_seq seq d"
  by (auto simp: collecting_def fresh_seq_def)

lemma collecting_same:
  "same_group seq d d' \<Longrightarrow> collecting d' seq k r m row plen S = collecting d seq k r m row plen S"
  by (simp add: collecting_def same_group_def)

text \<open>The state after a new packet is stored.\<close>

definition stored ::
  "int \<Rightarrow> u32 \<Rightarrow> nat \<Rightarrow> nat \<Rightarrow> nat \<Rightarrow> nat \<Rightarrow> u8 list \<Rightarrow> int \<Rightarrow> fec_decoder \<Rightarrow> fec_decoder" where
  "stored now seq k r m i data len d =
     (let pkgs = (if pkgs_of d seq = [] then replicate (k + r) None else pkgs_of d seq);
          lens = (if pkgs_of d seq = []
                  then take (k + r) (lengths_of d seq) @ replicate (k + r - length (lengths_of d seq)) 0
                  else lengths_of d seq)
      in d\<lparr>seq2data_pkgs_num := RBT.insert seq (int k) (seq2data_pkgs_num d),
           seq2redundant_data_pkgs_num := RBT.insert seq (int r) (seq2redundant_data_pkgs_num d),
           seq2max_data_pkg_length := RBT.insert seq (max (max_length_of d seq) (int m)) (seq2max_data_pkg_length d),
           timeout_keys := snd (tm_add (uint seq) now (timeout_keys d)),
           seq2data_pkgs := RBT.insert seq (pkgs[i := Some data])
             (if pkgs_of d seq = [] then RBT.insert seq pkgs (seq2data_pkgs d) else seq2data_pkgs d),
           seq2data_pkgs_length := RBT.insert seq (lens[i := len])
             (if pkgs_of d seq = [] then RBT.insert seq lens (seq2data_pkgs_length d)
              else seq2data_pkgs_length d),
           seq2cur_recv_data_pkg_num :=
             RBT.insert seq (cur_num_of d seq + 1) (seq2cur_recv_data_pkg_num d)\<rparr>)"

lemma stored_collecting:
  assumes d: "collecting d seq k r m row plen S" and i: "i < k + r" "i \<notin> S"
    and data: "length data = m + 1" "take m data = row i"
  shows "collecting (stored now seq k r m i data (int (plen i)) d) seq k r m row plen (insert i S)"
proof -
  have fin: "finite S" using d by (auto simp: collecting_def intro: finite_subset)
  have pk: "pkgs_of d seq = [] \<longleftrightarrow> S = {}"
    using d i by (auto simp: collecting_def split: if_splits)
  show ?thesis
  proof (cases "S = {}")
    case True
    with d i data show ?thesis
      by (auto simp: collecting_def stored_def Let_def nth_list_update)
  next
    case False
    with d i data pk fin show ?thesis
      by (auto simp: collecting_def stored_def Let_def nth_list_update)
  qed
qed

lemma dec_collect_new:
  assumes d: "collecting d seq k r m row plen S" and i: "i < k + r" "i \<notin> S"
    and input: "11 + m < length input"
  shows "dec_collect addr now now' input (int m) seq len (int k) (int r) (int i) d s =
    (let d = stored now seq k r m i (take (m + 1) (drop 11 input)) len d
     in if k \<le> card S + 1 then dec_group addr seq (int k) (int r) d s
        else if length (RBT.keys (seq2data_pkgs d)) > 50 then Some (0, clear_timeout_datas now' d, s)
        else Some (0, d, s))"
proof -
  have pk: "pkgs_of d seq = [] \<longleftrightarrow> S = {}" and ln: "S \<noteq> {} \<Longrightarrow> length (pkgs_of d seq) = k + r"
      "S \<noteq> {} \<Longrightarrow> pkgs_of d seq ! i = None"
    using d i by (auto simp: collecting_def split: if_splits)
  have cur: "cur_num_of d seq = int (card S)" using d by (simp add: collecting_def)
  have nat: "nat (int k + int r) = k + r" "nat (int m + 1) = m + 1" by (simp_all flip: of_nat_add)
  have le: "int k \<le> int (card S) + 1 \<longleftrightarrow> k \<le> card S + 1" by linarith
  show ?thesis
  proof (cases "S = {}")
    case True
    with i pk cur input nat le show ?thesis
      by (simp add: dec_collect_def stored_def Let_def)
  next
    case False
    with i pk cur ln input nat le show ?thesis
      by (simp add: dec_collect_def stored_def Let_def)
  qed
qed

section \<open>Input of one packet\<close>

lemma sint_small_u8: "0 \<le> k \<Longrightarrow> k \<le> 127 \<Longrightarrow> sint (word_of_int k :: u8) = k"
  by (simp add: signed_of_int signed_take_bit_int_eq_self)

lemma sint_big_u8:
  assumes "128 \<le> x" and "x \<le> 255"
  shows "sint (word_of_int x :: u8) = x - 256"
proof -
  have "word_of_int (y + 256) = (word_of_int y :: u8)" for y
    by (simp add: word_of_int_eq_iff take_bit_eq_mod)
  from this [of "x - 256"] have "word_of_int x = (word_of_int (x - 256) :: u8)" by (simp del: of_int_diff)
  moreover have "sint (word_of_int y :: u8) = y" if "-128 \<le> y" "y < 128" for y
    using that by (simp add: signed_of_int signed_take_bit_int_eq_self)
  from this [of "x - 256"] have "sint (word_of_int (x - 256) :: u8) = x - 256" using assms by (simp del: of_int_diff)
  ultimately show ?thesis by (simp only:)
qed

lemma header_fields:
  "read_u32 (fec_header seq len k r i @ p) = unique_header"
  "read_u16 (drop 4 (fec_header seq len k r i @ p)) = seq"
  "read_u16 (drop 6 (fec_header seq len k r i @ p)) = len"
  "(fec_header seq len k r i @ p) ! 8 = word_of_int k"
  "(fec_header seq len k r i @ p) ! 9 = word_of_int r"
  "(fec_header seq len k r i @ p) ! 10 = word_of_int i"
  by (simp_all add: fec_header_def read_write_u32 read_write_u16 nth_append numeral_eq_Suc)

text \<open>The state after the lookups by \<open>operator[]\<close>.\<close>

definition looked_up :: "u32 \<Rightarrow> fec_decoder \<Rightarrow> fec_decoder" where
  "looked_up seq d =
     (let known = RBT.lookup (seq2data_pkgs d) seq \<noteq> None;
          ready = ready_of d seq;
          d = d\<lparr>seq2ready_for_output := touch False seq (seq2ready_for_output d)\<rparr>
      in if known \<and> \<not> ready
         then d\<lparr>seq2cur_recv_data_pkg_num := touch 0 seq (seq2cur_recv_data_pkg_num d),
                seq2data_pkgs_num := touch 0 seq (seq2data_pkgs_num d)\<rparr>
         else d)"

lemma looked_up_same:
  "same_group x d (looked_up seq d)" "same_rest d (looked_up seq d)"
  "timeout_keys (looked_up seq d) = timeout_keys d"
  by (simp_all add: looked_up_def Let_def same_group_def same_rest_def fun_eq_iff)

lemma fec_decode_input_packet:
  assumes "input = fec_header seq len (int k) (int r) (int i + 1) @ p"
    and kr: "k + r \<le> 127" "i < k + r" and m: "m \<le> 65535"
  shows "fec_decode_input addr now now' (Some input) (11 + int m) d s =
    (if RBT.lookup (seq2data_pkgs d) (ucast seq) \<noteq> None \<and> \<not> ready_of d (ucast seq) \<and>
        cur_num_of d (ucast seq) \<ge> pkgs_num_of d (ucast seq) then Some (0, looked_up (ucast seq) d, s)
     else if ready_of d (ucast seq) then Some (1, looked_up (ucast seq) d, s)
     else dec_collect addr now now' input (int m) (ucast seq) (int (unat len)) (int k) (int r) (int i)
            (looked_up (ucast seq) d) s)"
proof -
  have big: "\<not> (word_of_int (11 + int m) :: 64 word) < 4"
  proof -
    have "uint (word_of_int x :: 64 word) = x" if "0 \<le> x" "x < 2 ^ 64" for x
      using that by (simp add: unsigned_of_int take_bit_int_eq_self)
    from this [of "11 + int m"] m have "uint (word_of_int (11 + int m) :: 64 word) = 11 + int m" by simp
    moreover have "uint (4 :: 64 word) = 4" by simp
    ultimately show ?thesis unfolding word_less_def by linarith
  qed
  have len: "\<not> length input < 11" using assms(1) by simp
  have f: "sint (input ! 8) = int k" "sint (input ! 9) = int r" "sint (input ! 10) = int i + 1"
      "read_u32 input = unique_header" "read_u16 (drop 4 input) = seq" "read_u16 (drop 6 input) = len"
    unfolding assms(1) header_fields using kr by (intro sint_small_u8 refl; simp)+
  have ix: "\<not> (int i + 1 = 0 \<or> int k + int r < int i + 1)" using kr by linarith
  show ?thesis
    using big len f ix
    by (simp add: fec_decode_input_def Let_def looked_up_def)
qed

section \<open>A group that is decoded\<close>

text \<open>The buffer \<open>p\<close> gives the packet \<open>x\<close>, possibly with zeros after it, when \<open>len\<close> bytes are copied.\<close>

definition holds_packet :: "u8 list option \<Rightarrow> int \<Rightarrow> u8 list \<Rightarrow> bool" where
  "holds_packet p len x \<longleftrightarrow> (\<exists>b. p = Some b \<and> length x \<le> nat len \<and> nat len \<le> length b \<and>
     take (nat len) b = padded (nat len) x)"

definition decoded :: "fec_decoder \<Rightarrow> u32 \<Rightarrow> u8 list list \<Rightarrow> int list \<Rightarrow> bool" where
  "decoded d seq ds lens \<longleftrightarrow> ready_of d seq \<and> length (pkgs_of d seq) = length ds \<and>
     lengths_of d seq = lens \<and> length lens = length ds \<and> max_length_of d seq = int (longest ds) \<and>
     (\<forall>i<length ds. holds_packet (pkgs_of d seq ! i) (lens ! i) (ds ! i) \<and>
        0 < lens ! i \<and> lens ! i \<le> int (longest ds))"

text \<open>A received packet has its own length, a recovered one that of the longest packet of the group.\<close>

definition decoded_lengths :: "u8 list list \<Rightarrow> nat set \<Rightarrow> int list" where
  "decoded_lengths ds S =
     map (\<lambda>i. if i \<in> S then int (length (ds ! i)) else int (longest ds)) [0..<length ds]"

definition packet_length :: "u8 list list \<Rightarrow> nat \<Rightarrow> nat" where
  "packet_length ds i = (if i < length ds then length (ds ! i) else longest ds)"

lemma present_members:
  assumes "length pkgs = n" and "S \<subseteq> {..<n}" and "\<And>i. i < n \<Longrightarrow> pkgs ! i \<noteq> None \<longleftrightarrow> i \<in> S"
  shows "set (present pkgs n) = S \<and> length (present pkgs n) = card S"
proof -
  have "set (present pkgs n) = S"
    using assms(2,3) unfolding present_def set_filter set_upt by auto
  moreover have "distinct (present pkgs n)" by (simp add: present_def)
  ultimately show ?thesis using distinct_card [of "present pkgs n"] by simp
qed

lemma padded_take: "length x \<le> l \<Longrightarrow> l \<le> m \<Longrightarrow> take l (padded m x) = padded l x"
  by (simp add: padded_def min_def)

lemma dec_group_decodes:
  assumes d: "collecting d seq k r (longest ds) (\<lambda>i. cw ! i) (packet_length ds) S" and S: "card S = k"
    and cw: "group_codeword k r ds cw" and ds: "length ds = k" "\<forall>x\<in>set ds. packet_ok x"
    and k: "1 \<le> k" "k + r \<le> 127" and s: "rs_static_ok s"
  shows "\<exists>d' s'. dec_group addr seq (int k) (int r) d s = Some (int (longest ds), d', s') \<and> rs_static_ok s' \<and>
    decoded d' seq ds (decoded_lengths ds S) \<and> ready_of d' = (ready_of d)(seq := True) \<and>
    ready_seqs_nums d' = ready_seqs_nums d + 1 \<and> output_unit d' = output_unit d \<and>
    timeout_keys d' = timeout_keys d \<and> (\<forall>x. x \<noteq> seq \<longrightarrow> same_group x d d')"
proof -
  let ?n = "k + r" and ?m = "longest ds" and ?pk = "pkgs_of d seq" and ?ln = "lengths_of d seq"
  have ne: "S \<noteq> {}" using S k by auto
  have sub: "S \<subseteq> {..<?n}" using d by (simp add: collecting_def)
  have st: "pkgs_num_of d seq = int k" "max_length_of d seq = int ?m" "length ?pk = ?n" "length ?ln = ?n"
      "\<And>i. i < ?n \<Longrightarrow> ?ln ! i = (if i \<in> S then int (packet_length ds i) else 0)"
      "\<And>i. i < ?n \<Longrightarrow> i \<notin> S \<Longrightarrow> ?pk ! i = None"
      "\<And>i. i \<in> S \<Longrightarrow> \<exists>p. ?pk ! i = Some p \<and> length p = ?m + 1 \<and> take ?m p = cw ! i"
    using d ne by (auto simp: collecting_def)
  have pres: "set (present ?pk ?n) = S" "length (present ?pk ?n) = k"
  proof -
    have "?pk ! i \<noteq> None \<longleftrightarrow> i \<in> S" if "i < ?n" for i
      using st(6) [OF that] st(7) [of i] by (cases "i \<in> S") auto
    from present_members [OF st(3) sub this] S show "set (present ?pk ?n) = S" "length (present ?pk ?n) = k"
      by simp_all
  qed
  have "\<not> length (the (?pk ! i)) < ?m" if "i \<in> S" for i using st(7) [OF that] by auto
  then have short: "\<not> short_buffer k ?n ?m ?pk"
    using pres by (auto simp: short_buffer_def Let_def list_ex_iff)
  have "received ?n ?m cw ?pk"
    unfolding received_def
  proof (intro conjI allI impI st(3))
    fix i p assume i: "i < ?n" and p: "?pk ! i = Some p"
    then have "i \<in> S" using st(6) by force
    from st(7) [OF this] p have "length p = ?m + 1" "cw ! i = take ?m p" by simp_all
    then show "agrees ?m p (cw ! i)" by (simp add: agrees_def)
  qed
  moreover have "rs_codeword k ?n ?m cw" using cw by (simp add: group_codeword_def)
  ultimately obtain w s' where dec: "rs_decode2 (int k) (int ?n) addr ?pk ?m s = Some ((0, w), s')"
      "rs_static_ok s'" "length w = ?n" "restored k ?m cw w"
    using rs.decode [OF s k(1), of ?n ?m cw ?pk addr] k(2) pres(2) by fastforce
  define lens where "lens = map (\<lambda>i. if i < ?n \<and> ?ln ! i = 0 then max_length_of d seq else ?ln ! i) [0..<?n]"
  have pl: "0 < length (ds ! i)" "length (ds ! i) \<le> ?m" "0 < ?m" if "i < k" for i
    using that ds longest_ge [of "ds ! i" ds] longest_pos [of "ds ! i" ds] by (auto simp: packet_ok_def)
  have lens: "take k lens = decoded_lengths ds S"
    using st(5) pl ds(1) by (intro nth_equalityI) (auto simp: lens_def decoded_lengths_def packet_length_def st(2))
  define d' where "d' = d\<lparr>seq2data_pkgs := RBT.insert seq (take k w) (seq2data_pkgs d),
      seq2data_pkgs_length := RBT.insert seq (decoded_lengths ds S) (seq2data_pkgs_length d),
      seq2ready_for_output := RBT.insert seq True (seq2ready_for_output d),
      ready_seqs_nums := ready_seqs_nums d + 1\<rparr>"
  have nat: "nat (int k + int r) = ?n" by (simp flip: of_nat_add)
  have run: "dec_group addr seq (int k) (int r) d s = Some (int ?m, d', s')"
    using st(2-4) short dec(1,3) lens
    by (simp add: dec_group_def Let_def nat d'_def flip: lens_def)
  have "holds_packet (take k w ! i) (decoded_lengths ds S ! i) (ds ! i) \<and> 0 < decoded_lengths ds S ! i \<and>
      decoded_lengths ds S ! i \<le> int ?m" if i: "i < k" for i
  proof -
    obtain b where b: "w ! i = Some b" "agrees ?m b (cw ! i)" using dec(4) i by (auto simp: restored_def)
    have ci: "cw ! i = padded ?m (ds ! i)" using cw i by (simp add: group_codeword_def)
    have "length (cw ! i) = ?m" using ci pl [OF i] by (simp add: padded_def)
    then have tb: "take ?m b = padded ?m (ds ! i)" using agrees_take [OF b(2)] ci by simp
    have len: "?m \<le> length b" using b(2) by (simp add: agrees_def)
    let ?l = "nat (decoded_lengths ds S ! i)"
    have l: "length (ds ! i) \<le> ?l" "?l \<le> ?m" "0 < decoded_lengths ds S ! i"
      using i pl [OF i] ds(1) by (auto simp: decoded_lengths_def)
    have "take ?l b = take ?l (take ?m b)" using l(2) by (simp add: min_def)
    also have "\<dots> = padded ?l (ds ! i)" using tb padded_take l by simp
    finally show ?thesis using i b(1) l len dec(3) by (simp add: holds_packet_def)
  qed
  then have "decoded d' seq ds (decoded_lengths ds S)"
    using ds(1) dec(3) st(2) by (simp add: decoded_def d'_def decoded_lengths_def)
  moreover have "ready_of d' = (ready_of d)(seq := True)" "ready_seqs_nums d' = ready_seqs_nums d + 1"
      "output_unit d' = output_unit d" "timeout_keys d' = timeout_keys d" "\<forall>x. x \<noteq> seq \<longrightarrow> same_group x d d'"
    by (simp_all add: d'_def same_group_def fun_eq_iff)
  ultimately show ?thesis using run dec(2) by (intro exI [of _ d'] exI [of _ s']) simp
qed

section \<open>Input on a group\<close>

lemma stored_rest:
  "same_rest d (stored now seq k r m i data len d)"
  "timeout_keys (stored now seq k r m i data len d) = snd (tm_add (uint seq) now (timeout_keys d))"
  "x \<noteq> seq \<Longrightarrow> same_group x d (stored now seq k r m i data len d)"
  by (simp_all add: stored_def Let_def same_rest_def same_group_def fun_eq_iff)

lemma stored_timeouts_ok:
  assumes "timeouts_ok t d" and "t \<le> now" and seq: "seq = ucast (sq :: u16)"
  shows "timeouts_ok now (stored now seq k r m i data len d) \<and>
    timeout_limit_ms (timeout_keys (stored now seq k r m i data len d)) = timeout_limit_ms (timeout_keys d)"
proof -
  have le: "t' \<le> now" if "tm_abs (timeout_keys d) key = Some t'" for key t'
    using assms(1,2) that by (force simp: timeouts_ok_def)
  have inv: "tm_inv (timeout_keys d) \<and> tm_sorted (timeout_keys d)"
    using assms(1) by (simp add: timeouts_ok_def)
  have key: "uint seq \<le> 65535"
  proof -
    have "0 \<le> uint sq" "uint sq < 65536" using uint_bounded [of sq] by simp_all
    then show ?thesis by (simp add: seq unsigned_ucast_eq take_bit_int_eq_self)
  qed
  show ?thesis
    using assms(1) le tm.add_law [OF inv le, where key = "uint seq"] key
    by (auto simp: timeouts_ok_def stored_rest)
qed

lemma fresh_group_survives_clear:
  assumes d: "timeouts_ok t d" and t: "t \<le> now" and now': "now' - now \<le> timeout_limit_ms (timeout_keys d)"
    and seq: "seq = ucast (sq :: u16)"
  shows "same_group seq (stored now seq k r m i data len d)
    (clear_timeout_datas now' (stored now seq k r m i data len d))"
proof -
  let ?d = "stored now seq k r m i data len d"
  note ok = stored_timeouts_ok [OF d t seq, of k r m i data len]
  have inv: "tm_inv (timeout_keys d) \<and> tm_sorted (timeout_keys d)"
    and le: "\<And>key t'. tm_abs (timeout_keys d) key = Some t' \<Longrightarrow> t' \<le> now"
    using d t by (force simp: timeouts_ok_def)+
  have "uint seq \<notin> set (tm_timeouts now' (timeout_keys ?d))"
    using tm.fresh_key_stays [OF inv le now', where key = "uint seq"] by (simp add: stored_rest)
  moreover have "uint (word_of_int key :: u32) = key" if key: "key \<in> set (tm_timeouts now' (timeout_keys ?d))" for key
  proof -
    have "tm_inv (timeout_keys ?d) \<and> tm_sorted (timeout_keys ?d)" using ok by (simp add: timeouts_ok_def)
    from tm.timeouts_law [OF this, where now = now'] key
    have "0 \<le> key \<and> key \<le> 65535" using ok by (auto simp: timeouts_ok_def)
    then show ?thesis by (simp add: unsigned_of_int take_bit_int_eq_self)
  qed
  ultimately have "seq \<notin> word_of_int ` set (tm_timeouts now' (timeout_keys ?d))" by auto
  with clear_timeout_datas_other [of now ?d now'] ok show ?thesis by blast
qed

lemma timeouts_ok_looked_up [simp]: "timeouts_ok t (looked_up seq d) = timeouts_ok t d"
  by (simp add: timeouts_ok_def looked_up_same)

lemma timeouts_ok_mono: "timeouts_ok t d \<Longrightarrow> t \<le> t' \<Longrightarrow> timeouts_ok t' d"
  by (force simp: timeouts_ok_def)

text \<open>
  A packet \<open>i\<close> of what the encoder hands out, in a receive buffer that has at least one byte more.
\<close>

definition arrives :: "u8 list list \<Rightarrow> nat \<Rightarrow> u8 list \<Rightarrow> bool" where
  "arrives pkts i input \<longleftrightarrow> i < length pkts \<and> (\<exists>junk. junk \<noteq> [] \<and> input = pkts ! i @ junk)"

lemma length_group_packets [simp]: "length (group_packets sq k r ds cw) = k + r"
  by (simp add: group_packets_def)

lemma group_packet:
  assumes "i < k + r"
  shows "group_packets sq k r ds cw ! i =
    fec_header sq (word_of_nat (if i < k then length (ds ! i) else longest ds)) (int k) (int r) (int i + 1) @ cw ! i"
  using assms by (simp add: group_packets_def group_header_def data_header_def)

lemma input_collects:
  assumes d: "collecting d seq k r (longest ds) (\<lambda>i. cw ! i) (packet_length ds) S"
    and p: "arrives (group_packets sq k r ds cw) i input" "i \<notin> S" and seq: "seq = ucast sq"
    and cw: "group_codeword k r ds cw" and ds: "length ds = k" "\<forall>x\<in>set ds. packet_ok x"
    and k: "1 \<le> k" "k + r \<le> 127" and open_group: "card S < k"
  shows "fec_decode_input addr now now' (Some input) (11 + int (longest ds)) d s =
    (let d = stored now seq k r (longest ds) i (take (longest ds + 1) (drop 11 input)) (int (packet_length ds i))
               (looked_up seq d)
     in if k \<le> card S + 1 then dec_group addr seq (int k) (int r) d s
        else if length (RBT.keys (seq2data_pkgs d)) > 50 then Some (0, clear_timeout_datas now' d, s)
        else Some (0, d, s)) \<and>
    collecting (stored now seq k r (longest ds) i (take (longest ds + 1) (drop 11 input)) (int (packet_length ds i))
               (looked_up seq d)) seq k r (longest ds) (\<lambda>i. cw ! i) (packet_length ds) (insert i S)"
proof -
  let ?m = "longest ds"
  obtain junk where i: "i < k + r" and input: "input = group_packets sq k r ds cw ! i @ junk" "junk \<noteq> []"
    using p(1) by (auto simp: arrives_def)
  have hd: "input = fec_header sq (word_of_nat (packet_length ds i)) (int k) (int r) (int i + 1) @ cw ! i @ junk"
    using group_packet [OF i, of sq ds cw] ds(1) by (simp add: input packet_length_def)
  have m: "?m \<le> 65535" using ds(2) by (intro longest_le) (auto simp: packet_ok_def)
  then have "packet_length ds i \<le> 65535"
    using ds longest_ge [of "ds ! i" ds] by (auto simp: packet_length_def packet_ok_def)
  then have plen: "unat (word_of_nat (packet_length ds i) :: u16) = packet_length ds i"
    by (simp add: unsigned_of_nat take_bit_nat_eq_self)
  have row: "length (cw ! i) = ?m" using cw i by (simp add: group_codeword_def)
  obtain c js where c: "junk = c # js" using input(2) by (cases junk) auto
  have data: "length (take (?m + 1) (drop 11 input)) = ?m + 1" "take ?m (take (?m + 1) (drop 11 input)) = cw ! i"
      "11 + ?m < length input"
    using row c by (simp_all add: hd)
  let ?d = "looked_up seq d"
  have d': "collecting ?d seq k r ?m (\<lambda>i. cw ! i) (packet_length ds) S"
    using d by (simp add: collecting_same [OF looked_up_same(1)])
  have "\<not> ready_of d seq" "RBT.lookup (seq2data_pkgs d) seq = None \<or> cur_num_of d seq < pkgs_num_of d seq"
    using d open_group by (auto simp: collecting_def split: if_splits)
  then have "fec_decode_input addr now now' (Some input) (11 + int ?m) d s =
      dec_collect addr now now' input (int ?m) seq (int (packet_length ds i)) (int k) (int r) (int i) ?d s"
    using fec_decode_input_packet [OF hd k(2) i m, of addr now now' d s] plen by (auto simp: seq)
  with dec_collect_new [OF d' i p(2) data(3), of addr now now' "int (packet_length ds i)" s]
    stored_collecting [OF d' i p(2) data(1,2), of now] show ?thesis by simp
qed

section \<open>Any k packets decode a group\<close>

text \<open>A receiver that passes packets to \<open>Input\<close>: the two clock readings, the buffer and the length.\<close>

fun decode_inputs ::
  "64 word \<Rightarrow> (int \<times> int \<times> u8 list \<times> int) list \<Rightarrow> fec_decoder \<Rightarrow> rs_static \<Rightarrow>
     (int list \<times> fec_decoder \<times> rs_static) option" where
  "decode_inputs addr [] d s = Some ([], d, s)"
| "decode_inputs addr ((now, now', input, len) # rest) d s =
     (case fec_decode_input addr now now' (Some input) len d s of
        None \<Rightarrow> None
      | Some (ret, d, s) \<Rightarrow>
          (case decode_inputs addr rest d s of
             None \<Rightarrow> None
           | Some (rets, d, s) \<Rightarrow> Some (ret # rets, d, s)))"

text \<open>The clock does not run backwards, and one call takes no longer than the timeout.\<close>

fun timely :: "int \<Rightarrow> int \<Rightarrow> (int \<times> int \<times> 'a) list \<Rightarrow> bool" where
  "timely limit t [] = True"
| "timely limit t ((now, now', x) # rest) = (t \<le> now \<and> now' - now \<le> limit \<and> timely limit now rest)"

fun end_time :: "int \<Rightarrow> (int \<times> 'a) list \<Rightarrow> int" where
  "end_time t [] = t"
| "end_time t ((now, x) # rest) = end_time now rest"

text \<open>What completing the group \<open>seq\<close> leaves unchanged.\<close>

definition only_adds :: "u32 \<Rightarrow> fec_decoder \<Rightarrow> fec_decoder \<Rightarrow> bool" where
  "only_adds seq d d' \<longleftrightarrow> ready_of d' = (ready_of d)(seq := True) \<and>
     ready_seqs_nums d' = ready_seqs_nums d + 1 \<and> output_unit d' = output_unit d \<and>
     (\<forall>x. x \<noteq> seq \<and> ready_of d x \<longrightarrow> same_group x d d')"

definition undisturbed :: "u32 \<Rightarrow> fec_decoder \<Rightarrow> fec_decoder \<Rightarrow> bool" where
  "undisturbed seq d d' \<longleftrightarrow> same_rest d d' \<and> (\<forall>x. x \<noteq> seq \<and> ready_of d x \<longrightarrow> same_group x d d')"

lemma undisturbed_only_adds: "undisturbed seq d d' \<Longrightarrow> only_adds seq d' d'' \<Longrightarrow> only_adds seq d d''"
  by (auto simp: undisturbed_def only_adds_def same_rest_def intro: same_group_trans)

lemma stored_undisturbed:
  "undisturbed seq d (stored now seq k r m i data len (looked_up seq d))"
  unfolding undisturbed_def
proof (intro conjI allI impI)
  show "same_rest d (stored now seq k r m i data len (looked_up seq d))"
    by (rule same_rest_trans [OF looked_up_same(2) stored_rest(1)])
  show "same_group x d (stored now seq k r m i data len (looked_up seq d))" if "x \<noteq> seq \<and> ready_of d x" for x
    using that by (blast intro: same_group_trans [OF looked_up_same(1) stored_rest(3)])
qed

lemma clear_undisturbed:
  assumes "undisturbed seq d d'" and "timeouts_ok t d'"
  shows "undisturbed seq d (clear_timeout_datas now d')"
  unfolding undisturbed_def
proof (intro conjI allI impI)
  note c = clear_timeout_datas_other [OF assms(2), of now]
  show "same_rest d (clear_timeout_datas now d')"
    using assms(1) c unfolding undisturbed_def by (blast intro: same_rest_trans)
  fix x assume x: "x \<noteq> seq \<and> ready_of d x"
  then have "same_group x d d'" "ready_of d' x" using assms(1) by (auto simp: undisturbed_def same_rest_def)
  with c show "same_group x d (clear_timeout_datas now d')" by (blast intro: same_group_trans)
qed

lemma input_one_more:
  assumes d: "collecting d seq k r (longest ds) (\<lambda>i. cw ! i) (packet_length ds) S"
    and p: "arrives (group_packets sq k r ds cw) i input" "i \<notin> S" and seq: "seq = ucast sq"
    and cw: "group_codeword k r ds cw" and ds: "length ds = k" "\<forall>x\<in>set ds. packet_ok x"
    and k: "1 \<le> k" "k + r \<le> 127" and more: "card S + 1 < k"
    and t: "timeouts_ok t d" "t \<le> now" "now' - now \<le> timeout_limit_ms (timeout_keys d)"
  shows "\<exists>d'. fec_decode_input addr now now' (Some input) (11 + int (longest ds)) d s = Some (0, d', s) \<and>
    collecting d' seq k r (longest ds) (\<lambda>i. cw ! i) (packet_length ds) (insert i S) \<and> timeouts_ok now d' \<and>
    timeout_limit_ms (timeout_keys d') = timeout_limit_ms (timeout_keys d) \<and> undisturbed seq d d'"
proof -
  let ?d = "stored now seq k r (longest ds) i (take (longest ds + 1) (drop 11 input)) (int (packet_length ds i))
    (looked_up seq d)"
  let ?c = "clear_timeout_datas now' ?d"
  have "card S < k" using more by simp
  note step = input_collects [OF d p seq cw ds k this, of addr now now' s]
  have t': "timeouts_ok t (looked_up seq d)" "now' - now \<le> timeout_limit_ms (timeout_keys (looked_up seq d))"
    using t by (simp_all add: looked_up_same)
  have ok: "timeouts_ok now ?d" "timeout_limit_ms (timeout_keys ?d) = timeout_limit_ms (timeout_keys d)"
    using stored_timeouts_ok [OF t'(1) t(2) seq] by (simp_all add: looked_up_same)
  have same: "same_group seq ?d ?c" by (rule fresh_group_survives_clear [OF t'(1) t(2) t'(2) seq])
  have c: "timeouts_ok now ?c" "timeout_limit_ms (timeout_keys ?c) = timeout_limit_ms (timeout_keys d)"
    using clear_timeout_datas_other [OF ok(1), of now'] ok(2) by simp_all
  have u: "undisturbed seq d ?d" "undisturbed seq d ?c"
    using stored_undisturbed clear_undisturbed ok(1) by blast+
  show ?thesis
    using step more ok c u collecting_same [OF same] by (auto simp: Let_def)
qed

lemma input_last:
  assumes d: "collecting d seq k r (longest ds) (\<lambda>i. cw ! i) (packet_length ds) S"
    and p: "arrives (group_packets sq k r ds cw) i input" "i \<notin> S" and seq: "seq = ucast sq"
    and cw: "group_codeword k r ds cw" and ds: "length ds = k" "\<forall>x\<in>set ds. packet_ok x"
    and k: "1 \<le> k" "k + r \<le> 127" and last_one: "card S + 1 = k" and s: "rs_static_ok s"
    and t: "timeouts_ok t d" "t \<le> now"
  shows "\<exists>d' s'. fec_decode_input addr now now' (Some input) (11 + int (longest ds)) d s =
      Some (int (longest ds), d', s') \<and> rs_static_ok s' \<and>
    decoded d' seq ds (decoded_lengths ds (insert i S)) \<and> timeouts_ok now d' \<and>
    timeout_limit_ms (timeout_keys d') = timeout_limit_ms (timeout_keys d) \<and> only_adds seq d d'"
proof -
  let ?d = "stored now seq k r (longest ds) i (take (longest ds + 1) (drop 11 input)) (int (packet_length ds i))
    (looked_up seq d)"
  have "card S < k" using last_one by simp
  note step = input_collects [OF d p seq cw ds k this, of addr now now' s]
  have ok: "timeouts_ok now ?d" "timeout_limit_ms (timeout_keys ?d) = timeout_limit_ms (timeout_keys d)"
    using stored_timeouts_ok [OF _ t(2) seq, of "looked_up seq d"] t(1) by (simp_all add: looked_up_same)
  have "finite S" using d by (auto simp: collecting_def intro: finite_subset)
  then have card: "card (insert i S) = k" using p(2) last_one by simp
  from dec_group_decodes [OF conjunct2 [OF step] card cw ds k s, of addr] obtain d' s' where
    dec: "dec_group addr seq (int k) (int r) ?d s = Some (int (longest ds), d', s')" "rs_static_ok s'"
      "decoded d' seq ds (decoded_lengths ds (insert i S))" "ready_of d' = (ready_of ?d)(seq := True)"
      "ready_seqs_nums d' = ready_seqs_nums ?d + 1" "output_unit d' = output_unit ?d"
      "timeout_keys d' = timeout_keys ?d" "\<forall>x. x \<noteq> seq \<longrightarrow> same_group x ?d d'" by blast
  have "only_adds seq ?d d'" using dec(4-6,8) by (simp add: only_adds_def)
  then have "only_adds seq d d'" by (rule undisturbed_only_adds [OF stored_undisturbed])
  moreover have "timeouts_ok now d'" using ok(1) dec(7) by (simp add: timeouts_ok_def)
  moreover have "fec_decode_input addr now now' (Some input) (11 + int (longest ds)) d s =
      Some (int (longest ds), d', s')"
    using step last_one dec(1) by (simp add: Let_def)
  ultimately show ?thesis using dec(2,3,7) ok(2) by auto
qed

text \<open>The arrivals of packets of one group: clock readings, index and buffer.\<close>

type_synonym arrival = "int \<times> int \<times> nat \<times> u8 list"

definition arrival_index :: "arrival \<Rightarrow> nat" where
  "arrival_index a = (case a of (now, now', i, input) \<Rightarrow> i)"

definition received_calls :: "u8 list list \<Rightarrow> arrival list \<Rightarrow> (int \<times> int \<times> u8 list \<times> int) list" where
  "received_calls ds as = map (\<lambda>(now, now', i, input). (now, now', input, 11 + int (longest ds))) as"

definition distinct_arrivals :: "u8 list list \<Rightarrow> arrival list \<Rightarrow> bool" where
  "distinct_arrivals pkts as \<longleftrightarrow> distinct (map arrival_index as) \<and>
     list_all (\<lambda>(now, now', i, input). arrives pkts i input) as"

lemma collecting_to_decoded:
  assumes "collecting d seq k r (longest ds) (\<lambda>i. cw ! i) (packet_length ds) S" and seq: "seq = ucast sq"
    and "distinct_arrivals (group_packets sq k r ds cw) as" and "set (map arrival_index as) \<inter> S = {}"
    and cw: "group_codeword k r ds cw" and ds: "length ds = k" "\<forall>x\<in>set ds. packet_ok x"
    and k: "1 \<le> k" "k + r \<le> 127" and "card S + length as = k" and "as \<noteq> []" and "rs_static_ok s"
    and "timeouts_ok t d" and "timely (timeout_limit_ms (timeout_keys d)) t as"
  shows "\<exists>d' s'. decode_inputs addr (received_calls ds as) d s =
      Some (replicate (length as - 1) 0 @ [int (longest ds)], d', s') \<and> rs_static_ok s' \<and>
    decoded d' seq ds (decoded_lengths ds (set (map arrival_index as) \<union> S)) \<and>
    timeouts_ok (end_time t as) d' \<and> only_adds seq d d'"
  using assms(1,3,4,10-14)
proof (induction as arbitrary: d S t)
  case (Cons a as)
  obtain now now' i input where a: "a = (now, now', i, input)" by (cases a)
  have p: "arrives (group_packets sq k r ds cw) i input" "i \<notin> S" "i \<notin> set (map arrival_index as)"
      "distinct_arrivals (group_packets sq k r ds cw) as" "set (map arrival_index as) \<inter> S = {}"
    using Cons.prems(2,3) by (auto simp: a distinct_arrivals_def arrival_index_def)
  have t: "t \<le> now" "now' - now \<le> timeout_limit_ms (timeout_keys d)"
      "timely (timeout_limit_ms (timeout_keys d)) now as"
    using Cons.prems(8) by (simp_all add: a)
  have fin: "finite S" using Cons.prems(1) by (auto simp: collecting_def intro: finite_subset)
  show ?case
  proof (cases "as = []")
    case True
    with Cons.prems(4) have "card S + 1 = k" by simp
    from input_last [OF Cons.prems(1) p(1,2) seq cw ds k this Cons.prems(6,7) t(1), of addr now']
    show ?thesis by (auto simp: True a received_calls_def arrival_index_def)
  next
    case False
    then have more: "card S + 1 < k" "card (insert i S) + length as = k"
      using Cons.prems(4) p(2) fin by (cases as; simp)+
    obtain d1 where d1: "fec_decode_input addr now now' (Some input) (11 + int (longest ds)) d s = Some (0, d1, s)"
        "collecting d1 seq k r (longest ds) (\<lambda>i. cw ! i) (packet_length ds) (insert i S)" "timeouts_ok now d1"
        "timeout_limit_ms (timeout_keys d1) = timeout_limit_ms (timeout_keys d)" "undisturbed seq d d1"
      using input_one_more [OF Cons.prems(1) p(1,2) seq cw ds k more(1) Cons.prems(7) t(1,2), of addr s] by blast
    have "set (map arrival_index as) \<inter> insert i S = {}" using p(3,5) by simp
    from Cons.IH [OF d1(2) p(4) this more(2) False Cons.prems(6) d1(3)] t(3) d1(4) obtain d' s' where
      rest: "decode_inputs addr (received_calls ds as) d1 s =
          Some (replicate (length as - 1) 0 @ [int (longest ds)], d', s')" "rs_static_ok s'"
        "decoded d' seq ds (decoded_lengths ds (set (map arrival_index as) \<union> insert i S))"
        "timeouts_ok (end_time now as) d'" "only_adds seq d1 d'" by auto
    have "replicate (length (a # as) - 1) (0 :: int) = 0 # replicate (length as - 1) 0"
      using False by (cases as) simp_all
    then show ?thesis
      using d1(1) rest(1,2,3,4) undisturbed_only_adds [OF d1(5) rest(5)]
      by (simp add: a received_calls_def arrival_index_def Un_commute)
  qed
qed simp

lemma any_k_decode:
  assumes "fresh_seq (ucast sq) d" and "timeouts_ok t d" and "timely (timeout_limit_ms (timeout_keys d)) t as"
    and "length as = k" and "distinct_arrivals (group_packets sq k r ds cw) as" and "group_codeword k r ds cw"
    and "length ds = k" and "\<forall>x\<in>set ds. packet_ok x" and "1 \<le> k" and "k + r \<le> 127" and "rs_static_ok s"
  shows "\<exists>d' s'. decode_inputs addr (received_calls ds as) d s =
      Some (replicate (k - 1) 0 @ [int (longest ds)], d', s') \<and> rs_static_ok s' \<and>
    decoded d' (ucast sq) ds (decoded_lengths ds (set (map arrival_index as))) \<and>
    timeouts_ok (end_time t as) d' \<and> only_adds (ucast sq) d d'"
proof -
  have "collecting d (ucast sq) k r (longest ds) (\<lambda>i. cw ! i) (packet_length ds) {}"
    using assms(1) by (simp add: collecting_fresh)
  moreover have "as \<noteq> []" using assms(4,9) by auto
  ultimately show ?thesis
    using collecting_to_decoded [OF _ refl assms(5) _ assms(6-10) _ _ assms(11,2,3), of "{}" addr] assms(4) by simp
qed

text \<open>
  C9 (any k packets decode a group). A group whose sequence number the decoder does not know: when any \<open>k\<close>
  different packets of its \<open>k + r\<close> have been passed to \<open>Input\<close>, in any order and next to whatever
  other groups the decoder holds, every call but the last has returned 0 and the last the length of the
  longest packet; the group is ready, the received packets with their own length and the others, recovered,
  padded to the longest. Nothing else becomes ready, and other ready groups are untouched.
\<close>

theorem fec_decode_any_k:
  assumes "fresh_seq (ucast sq) d" and "timeouts_ok t d" and "timely (timeout_limit_ms (timeout_keys d)) t as"
    and "length as = k" and "distinct_arrivals (group_packets sq k r ds cw) as" and "group_codeword k r ds cw"
    and "length ds = k" and "\<forall>x\<in>set ds. packet_ok x" and "1 \<le> k" and "k + r \<le> 127" and "rs_static_ok s"
  shows "\<exists>d' s'. decode_inputs addr (received_calls ds as) d s =
      Some (replicate (k - 1) 0 @ [int (longest ds)], d', s') \<and> rs_static_ok s' \<and>
    decoded d' (ucast sq) ds (decoded_lengths ds (set (map arrival_index as))) \<and>
    timeouts_ok (end_time t as) d' \<and> only_adds (ucast sq) d d'"
  by (rule any_k_decode [OF assms])

lemma group_codeword_exists:
  assumes ds: "length ds = k" and k: "1 \<le> k" "k + r \<le> 255"
  shows "\<exists>cw. group_codeword k r ds cw"
proof -
  let ?m = "longest ds"
  let ?data = "map (\<lambda>i. if i < k then padded ?m (ds ! i) else replicate ?m 0) [0..<k + r]"
  have len: "length (?data ! i) = ?m" if "i < k + r" for i
    using that ds longest_ge [of "ds ! i" ds] by (auto simp: padded_def)
  obtain cw s' where "rs_codeword k (k + r) ?m cw" "\<forall>i<k + r. length (cw ! i) = length (?data ! i)"
      "\<forall>i<k. cw ! i = ?data ! i"
    using rs.encode [OF rs_static_start_ok k(1), of "k + r" ?data ?m 0] k(2) len by auto
  then have "group_codeword k r ds cw" using len by (simp add: group_codeword_def)
  then show ?thesis ..
qed

lemma fec_decoder_new_ok:
  assumes "0 \<le> limit"
  shows "timeouts_ok t (fec_decoder_new limit) \<and> fresh_seq seq (fec_decoder_new limit)"
  using assms tm_inv_new [of limit] tm_sorted_new [of limit]
  by (simp add: timeouts_ok_def fresh_seq_def fec_decoder_new_def fetch_def tm_abs_def timeout_map_new_def)

text \<open>Packets 3 and 1 of a group of two packets and one redundant one.\<close>

theorem fec_decode_any_k_witness:
  "\<exists>cw d' s'. group_codeword 2 1 [[7, 8], [9]] cw \<and>
    decode_inputs 0 (received_calls [[7, 8], [9]]
        [(10, 10, 2, group_packets 5 2 1 [[7, 8], [9]] cw ! 2 @ [0]), (20, 20, 0, group_packets 5 2 1 [[7, 8], [9]] cw ! 0 @ [0])])
      (fec_decoder_new 100) rs_static_start = Some ([0, 2], d', s') \<and> rs_static_ok s' \<and>
    decoded d' 5 [[7, 8], [9]] [2, 2] \<and> timeouts_ok 20 d' \<and> only_adds 5 (fec_decoder_new 100) d'"
proof -
  let ?ds = "[[7, 8], [9]] :: u8 list list"
  obtain cw where cw: "group_codeword 2 1 ?ds cw" using group_codeword_exists [of ?ds 2 1] by auto
  let ?as = "[(10, 10, 2, group_packets 5 2 1 ?ds cw ! 2 @ [0]), (20, 20, 0, group_packets 5 2 1 ?ds cw ! 0 @ [0])]"
  have as: "distinct_arrivals (group_packets 5 2 1 ?ds cw) ?as"
    by (auto simp: distinct_arrivals_def arrival_index_def arrives_def)
  have new: "fresh_seq (ucast (5 :: u16)) (fec_decoder_new 100)" "timeouts_ok 0 (fec_decoder_new 100)"
      "timely (timeout_limit_ms (timeout_keys (fec_decoder_new 100))) 0 ?as"
    using fec_decoder_new_ok [of 100] by (simp_all add: fec_decoder_new_def timeout_map_new_def)
  have ok: "\<forall>x\<in>set ?ds. packet_ok x" and m: "longest ?ds = 2" by (simp_all add: packet_ok_def longest_def)
  have "replicate (2 - 1) (0 :: int) @ [int (longest ?ds)] = [0, 2]"
      "decoded_lengths ?ds (set (map arrival_index ?as)) = [2, 2]" "ucast (5 :: u16) = (5 :: u32)" "end_time 0 ?as = 20"
    by (simp_all add: m decoded_lengths_def arrival_index_def upt_rec)
  with fec_decode_any_k [OF new _ as cw _ ok _ _ rs_static_start_ok, of 0] cw show ?thesis by auto
qed

text \<open>
  A packet of a group that is decoded, or was handed out and is still known, is
  answered with 1 or 0 and changes nothing: no group, no ready flag, no output position, no timeout.
\<close>

theorem fec_decode_late_packet:
  assumes "input = fec_header sq len (int k) (int r) (int i + 1) @ p"
    and "k + r \<le> 127" and "i < k + r" and "m \<le> 65535"
    and "ready_of d (ucast sq) \<or> (RBT.lookup (seq2data_pkgs d) (ucast sq) \<noteq> None \<and>
      pkgs_num_of d (ucast sq) \<le> cur_num_of d (ucast sq))"
  shows "\<exists>d'. fec_decode_input addr now now' (Some input) (11 + int m) d s =
      Some (if ready_of d (ucast sq) then 1 else 0, d', s) \<and>
    (\<forall>x. same_group x d d') \<and> same_rest d d' \<and> timeout_keys d' = timeout_keys d"
  using fec_decode_input_packet [OF assms(1-4), of addr now now' d s] assms(5) looked_up_same [where d = d and seq = "ucast sq"]
  by (intro exI [of _ "looked_up (ucast sq) d"]) auto

theorem fec_decode_late_packet_witness:
  "\<exists>d'. fec_decode_input 0 1 2 (Some (fec_header 5 2 2 1 3 @ [1, 2])) (11 + 2)
      ((fec_decoder_new 100)\<lparr>seq2ready_for_output := RBT.insert 5 True RBT.empty\<rparr>) rs_static_start =
      Some (1, d', rs_static_start) \<and>
    same_rest ((fec_decoder_new 100)\<lparr>seq2ready_for_output := RBT.insert 5 True RBT.empty\<rparr>) d'"
proof -
  let ?d = "(fec_decoder_new 100)\<lparr>seq2ready_for_output := RBT.insert 5 True RBT.empty\<rparr>"
  have five: "ucast (5 :: u16) = (5 :: u32)" by simp
  have "ready_of ?d (ucast (5 :: u16))" unfolding five by simp
  then show ?thesis
    using fec_decode_late_packet [where sq = 5 and len = 2 and k = 2 and r = 1 and i = 2 and p = "[1, 2]"
        and m = 2 and d = ?d and addr = 0 and now = 1 and now' = 2 and s = rs_static_start, OF refl] five
    by auto
qed

section \<open>Malformed packets\<close>

lemma length_as_word64:
  assumes "0 \<le> len" and "len < 2 ^ 31"
  shows "(word_of_int len :: 64 word) < 4 \<longleftrightarrow> len < 4"
proof -
  have "uint (word_of_int len :: 64 word) = len"
    using assms by (simp add: unsigned_of_int take_bit_int_eq_self)
  moreover have "uint (4 :: 64 word) = 4" by simp
  ultimately show ?thesis by (simp add: word_less_def)
qed

text \<open>
  A null pointer, a packet shorter than the magic number, a packet that starts with neither
  magic number, one shorter than its header, and one whose index is 0 or beyond the group it claims
  to belong to: \<open>Input\<close> returns a negative value and leaves the decoder as it was.
\<close>

theorem fec_decode_rejects:
  assumes len: "0 \<le> len" "len < 2 ^ 31"
    and bad: "input = None \<or> (\<exists>p. input = Some p \<and> 4 \<le> length p \<and>
       (len < 4 \<or> (read_u32 p \<noteq> unique_header \<and> read_u32_r p \<noteq> unique_header) \<or>
        (read_u32 p = unique_header \<and> len < 11) \<or>
        (11 \<le> length p \<and> read_u32 p = unique_header \<and>
          (p ! 10 = 0 \<or> sint (p ! 8) + sint (p ! 9) < sint (p ! 10)))))"
  shows "\<exists>ret < 0. fec_decode_input addr now now' input len d s = Some (ret, d, s)"
proof -
  note w = length_as_word64 [OF len]
  from bad consider "input = None"
    | p where "input = Some p" "4 \<le> length p" "len < 4"
    | p where "input = Some p" "4 \<le> length p" "read_u32 p \<noteq> unique_header" "read_u32_r p \<noteq> unique_header"
    | p where "input = Some p" "4 \<le> length p" "read_u32 p = unique_header" "len < 11"
    | p where "input = Some p" "11 \<le> length p" "read_u32 p = unique_header"
        "p ! 10 = 0 \<or> sint (p ! 8) + sint (p ! 9) < sint (p ! 10)" by blast
  then show ?thesis
  proof cases
    case 5
    then show ?thesis by (cases "len < 11") (auto simp: fec_decode_input_def w)
  qed (auto simp: fec_decode_input_def deal_unencoded_data_def w)
qed

theorem fec_decode_rejects_witness:
  "\<exists>ret < 0. fec_decode_input 0 1 2 (Some (fec_header 5 2 2 1 4 @ [1, 2])) 13 (fec_decoder_new 100) rs_static_start =
    Some (ret, fec_decoder_new 100, rs_static_start)"
proof -
  let ?p = "fec_header 5 2 2 1 4 @ [1, 2]"
  have "4 \<le> length ?p" "11 \<le> length ?p" "read_u32 ?p = unique_header"
      "sint (?p ! 8) + sint (?p ! 9) < sint (?p ! 10)"
    by (simp_all only: header_fields) simp_all
  then show ?thesis using fec_decode_rejects [of 13 "Some ?p" 0 1 2 "fec_decoder_new 100" rs_static_start] by simp
qed

text \<open>
  C36 (accesses out of bounds). The first packet of a new group makes \<open>Input\<close> access memory out of bounds in two
  cases that its guards let through: when the buffer ends with the packet, since \<open>memcpy\<close>
  copies one byte more than the payload, and when the index byte is 128 or above, since a \<open>char\<close> is
  signed and the index is only compared with 0 and from above.
\<close>

theorem fec_decode_out_of_bounds:
  assumes "fresh_seq (ucast sq) d" and "1 \<le> k" and "k + r \<le> 127" and "m \<le> 65535"
    and "(input = fec_header sq len (int k) (int r) index @ p \<and> 1 \<le> index \<and> index \<le> int (k + r) \<and> length p = m) \<or>
      (input = fec_header sq len (int k) (int r) index @ p \<and> 128 \<le> index \<and> index \<le> 255 \<and> m < length p)"
  shows "fec_decode_input addr now now' (Some input) (11 + int m) d s = None"
proof -
  have fresh: "\<not> ready_of d (ucast sq)" "RBT.lookup (seq2data_pkgs d) (ucast sq) = None" "pkgs_of d (ucast sq) = []"
    using assms(1) by (simp_all add: fresh_seq_def)
  consider "input = fec_header sq len (int k) (int r) index @ p" "1 \<le> index" "index \<le> int (k + r)" "length p = m"
    | "input = fec_header sq len (int k) (int r) index @ p" "128 \<le> index" "index \<le> 255" "m < length p"
    using assms(5) by blast
  then show ?thesis
  proof cases
    case 1
    obtain i where i: "index = int i + 1" "i < k + r"
    proof
      show "index = int (nat index - 1) + 1" "nat index - 1 < k + r" using 1(2,3) by linarith+
    qed
    from fec_decode_input_packet [OF 1(1) [unfolded i(1)] assms(3) i(2) assms(4), of addr now now' d s] fresh 1(1,4)
    show ?thesis by (simp add: dec_collect_def)
  next
    case 2
    have kr: "sint (input ! 8) = int k" "sint (input ! 9) = int r"
      unfolding 2(1) header_fields using assms(3) by (intro sint_small_u8; simp)+
    have ix: "sint (input ! 10) = index - 256"
      unfolding 2(1) header_fields by (rule sint_big_u8 [OF 2(2,3)])
    have hd: "read_u32 input = unique_header" "read_u16 (drop 4 input) = sq" "11 + m < length input"
      using 2(4) unfolding 2(1) header_fields by simp_all
    have len: "\<not> (word_of_int (11 + int m) :: 64 word) < 4"
      using length_as_word64 [of "11 + int m"] assms(4) by simp
    show ?thesis
      using kr ix hd len fresh 2(2,3)
      by (simp add: fec_decode_input_def Let_def dec_collect_def)
  qed
qed

theorem fec_decode_out_of_bounds_witness:
  "fec_decode_input 0 1 2 (Some (fec_header 5 2 2 1 1 @ [7, 8])) (11 + 2) (fec_decoder_new 100) rs_static_start = None \<and>
   fec_decode_input 0 1 2 (Some (fec_header 5 2 2 1 200 @ [7, 8, 0])) (11 + 2) (fec_decoder_new 100) rs_static_start = None"
proof -
  have "fresh_seq (ucast (5 :: u16)) (fec_decoder_new 100)" using fec_decoder_new_ok [of 100] by simp
  note oob = fec_decode_out_of_bounds [OF this, of 2 1 2]
  show ?thesis
    using oob [of "fec_header 5 2 2 1 1 @ [7, 8]" 2 1 "[7, 8]" 0 1 2 rs_static_start]
      oob [of "fec_header 5 2 2 1 200 @ [7, 8, 0]" 2 200 "[7, 8, 0]" 0 1 2 rs_static_start] by simp
qed

end
