(* ===== verification/Fec_Output.thy ===== *)
theory Fec_Output
  imports Fec_Group
begin

text \<open>
  \<open>Output\<close> of \<open>FecDecode\<close> as a queue: \<open>waiting d gs\<close> says that the groups \<open>gs\<close> are decoded and not handed
  out, and the operations take packets from its front. The theorems say that the packets of all ready
  groups come out in order, that unencoded packets pass through, and where an unencoded packet
  in the middle of a group makes the group start again.
\<close>

section \<open>Ready groups\<close>

type_synonym ready_group = "u32 \<times> u8 list list \<times> int list"

definition group_fine :: "fec_decoder \<Rightarrow> ready_group \<Rightarrow> bool" where
  "group_fine d g = (case g of (seq, ds, lens) \<Rightarrow>
     decoded d seq ds lens \<and> ds \<noteq> [] \<and> length ds \<le> 255 \<and> longest ds \<le> 65535 \<and> seq \<noteq> 0 \<and> seq \<le> 65535)"

definition waiting :: "fec_decoder \<Rightarrow> ready_group list \<Rightarrow> bool" where
  "waiting d gs \<longleftrightarrow> ready_seqs_nums d = int (length gs) \<and> distinct (map fst gs) \<and>
     (\<forall>x. ready_of d x \<longleftrightarrow> x \<in> fst ` set gs) \<and> list_all (group_fine d) gs"

text \<open>The next packet to be handed out is packet \<open>i\<close> of the group \<open>seq\<close>.\<close>

definition at_packet :: "fec_decoder \<Rightarrow> u32 \<Rightarrow> nat \<Rightarrow> bool" where
  "at_packet d seq i \<longleftrightarrow> last_process_seq (output_unit d) = seq \<and> last_process_index (output_unit d) = word_of_nat i"

text \<open>No group is being handed out.\<close>

definition no_current :: "fec_decoder \<Rightarrow> bool" where
  "no_current d \<longleftrightarrow> last_process_seq (output_unit d) = -1 \<or> \<not> ready_of d (last_process_seq (output_unit d))"

lemma decoded_same: "same_group seq d d' \<Longrightarrow> decoded d' seq ds lens = decoded d seq ds lens"
  by (simp add: decoded_def same_group_def)

lemma group_fine_same: "same_group (fst g) d d' \<Longrightarrow> group_fine d' g = group_fine d g"
  by (cases g) (simp add: group_fine_def decoded_same)

lemma waiting_same:
  assumes "waiting d gs" and "ready_of d' = ready_of d" and "ready_seqs_nums d' = ready_seqs_nums d"
    and "\<And>x. ready_of d x \<Longrightarrow> same_group x d d'"
  shows "waiting d' gs"
proof -
  have "group_fine d' g" if g: "g \<in> set gs" for g
  proof -
    have "ready_of d (fst g)" using assms(1) g by (auto simp: waiting_def)
    then show ?thesis using assms(1) g group_fine_same [OF assms(4)] by (auto simp: waiting_def list_all_iff)
  qed
  with assms(1-3) show ?thesis by (simp add: waiting_def list_all_iff)
qed

lemma clear_waiting:
  assumes "timeouts_ok t d" and "waiting d gs"
  shows "waiting (clear_timeout_datas now d) gs"
  using clear_timeout_datas_other [OF assms(1), of now]
  by (intro waiting_same [OF assms(2)]) (auto simp: same_rest_def)

section \<open>The search\<close>

lemma search_loop_skip:
  assumes "\<forall>(x, b)\<in>set pre. \<not> b"
  shows "search_loop least (pre @ es) d = search_loop least es d"
  using assms by (induction pre) auto

lemma sint_small_u32: "(seq :: u32) \<le> 65535 \<Longrightarrow> sint seq = int (unat seq)"
  by (rule sint_u32_small) (simp add: word_le_nat_alt)

lemma search_first:
  assumes w: "waiting d ((seq, ds, lens) # gs)" and sorted: "sorted (map fst ((seq, ds, lens) # gs))"
    and fits: "int (longest ds) \<le> least"
  shows "search_for_next_ready_seq now least d =
    (int (unat seq), d\<lparr>seq2max_data_pkg_length := touch 0 seq (seq2max_data_pkg_length d)\<rparr>)"
proof -
  let ?es = "RBT.entries (seq2ready_for_output d)"
  have f: "decoded d seq ds lens" "seq \<noteq> 0" "seq \<le> 65535"
    using w by (simp_all add: waiting_def group_fine_def)
  have "ready_of d seq" using f(1) by (simp add: decoded_def)
  then have "(seq, True) \<in> set ?es"
    by (auto simp: fetch_def simp flip: RBT.lookup_in_tree split: option.splits)
  then obtain pre post where es: "?es = pre @ (seq, True) # post" by (meson split_list)
  have "\<not> b" if p: "(x, b) \<in> set pre" for x b
  proof
    assume b: b
    then have "RBT.lookup (seq2ready_for_output d) x = Some True"
      using p es by (simp add: RBT.lookup_in_tree)
    then have "ready_of d x" by (simp add: fetch_def)
    then have "x \<in> fst ` set ((seq, ds, lens) # gs)" using w by (simp add: waiting_def)
    then have "seq \<le> x" using sorted by auto
    moreover have "x \<le> seq" and "x \<noteq> seq"
      using p RBT.sorted_entries [of "seq2ready_for_output d"] RBT.distinct_entries [of "seq2ready_for_output d"]
      by (force simp: es sorted_append)+
    ultimately show False by simp
  qed
  then have "search_loop least ?es d = search_loop least ((seq, True) # post) d"
    unfolding es using \<open>\<And>x b. (x, b) \<in> set pre \<Longrightarrow> \<not> b\<close> by (intro search_loop_skip) blast
  also have "\<dots> = (sint seq, d\<lparr>seq2max_data_pkg_length := touch 0 seq (seq2max_data_pkg_length d)\<rparr>)"
    using f(1) fits by (simp add: decoded_def)
  finally show ?thesis
    using w f(3) by (simp add: search_for_next_ready_seq_def waiting_def sint_small_u32)
qed

text \<open>After a packet that ends a group, or an unencoded one.\<close>

lemma next_group_empty:
  assumes "waiting d []" and "timeouts_ok t d"
  shows "\<exists>d'. next_group now buf d = Some (0, Some buf, d') \<and> waiting d' [] \<and> timeouts_ok t d' \<and>
    output_unit d' = output_unit d"
  using assms clear_waiting [OF assms(2,1), of now] clear_timeout_datas_other [OF assms(2), of now]
  by (simp add: next_group_def search_for_next_ready_seq_def waiting_def same_rest_def)

lemma next_group_first:
  assumes w: "waiting d ((seq, ds, lens) # gs)" and sorted: "sorted (map fst ((seq, ds, lens) # gs))"
    and t: "timeouts_ok t d"
  shows "\<exists>d'. next_group now buf d = Some (hd lens, Some buf, d') \<and> waiting d' ((seq, ds, lens) # gs) \<and>
    timeouts_ok t d' \<and> at_packet d' seq 0 \<and>
    output_unit d' = (output_unit d)\<lparr>last_process_seq := seq, last_process_index := 0\<rparr>"
proof -
  let ?d1 = "d\<lparr>seq2max_data_pkg_length := touch 0 seq (seq2max_data_pkg_length d)\<rparr>"
  let ?d = "?d1\<lparr>output_unit := (output_unit d)\<lparr>last_process_seq := seq, last_process_index := 0\<rparr>,
      seq2data_pkgs_length := touch [] seq (seq2data_pkgs_length d)\<rparr>"
  have f: "decoded d seq ds lens" "longest ds \<le> 65535" "ds \<noteq> []" "seq \<noteq> 0"
    using w by (simp_all add: waiting_def group_fine_def)
  have "uint seq \<noteq> 0" using f(4) by (simp add: uint_0_iff)
  moreover obtain l ls where l: "lens = l # ls" using f(1,3) by (cases lens) (auto simp: decoded_def)
  moreover have "lengths_of d seq = lens" using f(1) by (simp add: decoded_def)
  ultimately have "next_group now buf d = Some (hd lens, Some buf, ?d)"
    using search_first [OF w sorted, of int32_max now] f(2) by (simp add: next_group_def)
  moreover have "waiting ?d ((seq, ds, lens) # gs)"
    by (rule waiting_same [OF w]) (simp_all add: same_group_def fun_eq_iff)
  moreover have "timeouts_ok t ?d" using t by (simp add: timeouts_ok_def)
  ultimately show ?thesis by (intro exI [of _ ?d]) (simp add: at_packet_def)
qed

section \<open>One call of Output\<close>

lemma copy_packet:
  assumes "holds_packet p len x" and "nat len \<le> n" and "n \<le> length buf"
  shows "\<exists>b. mem_zero buf (int n) = Some b \<and> mem_copy b p (nat len) = Some (padded n x @ drop n buf)"
proof -
  obtain b where b: "p = Some b" "length x \<le> nat len" "nat len \<le> length b" "take (nat len) b = padded (nat len) x"
    using assms(1) by (auto simp: holds_packet_def)
  have "take (nat len) b @ replicate (n - nat len) 0 = padded n x"
    using b(2,4) assms(2) by (simp add: padded_def flip: replicate_add)
  then have "take (nat len) b @ replicate (n - nat len) 0 @ drop n buf = padded n x @ drop n buf"
    by (metis append_assoc)
  with b(1,3) assms(2,3) show ?thesis by (simp add: mem_zero_def mem_copy_def)
qed

text \<open>The state after the last packet of the current group.\<close>

definition finish_group :: "u32 \<Rightarrow> fec_decoder \<Rightarrow> fec_decoder" where
  "finish_group seq d = d\<lparr>seq2ready_for_output := RBT.insert seq False (seq2ready_for_output d),
     ready_seqs_nums := ready_seqs_nums d - 1\<rparr>"

lemma finish_group_waiting:
  assumes w: "waiting d ((seq, ds, lens) # gs)"
  shows "waiting (finish_group seq d) gs"
proof -
  have d: "seq \<notin> fst ` set gs" using w by (simp add: waiting_def)
  have "group_fine (finish_group seq d) g" if g: "g \<in> set gs" for g
  proof -
    have "fst g \<noteq> seq" using g d by force
    then have "same_group (fst g) d (finish_group seq d)" by (simp add: finish_group_def same_group_def)
    then show ?thesis using w g group_fine_same by (auto simp: waiting_def list_all_iff)
  qed
  with w d show ?thesis by (auto simp: waiting_def finish_group_def list_all_iff)
qed

definition next_index :: "fec_decoder \<Rightarrow> fec_decoder" where
  "next_index d = d\<lparr>output_unit := (output_unit d)\<lparr>last_process_index := last_process_index (output_unit d) + 1\<rparr>\<rparr>"

definition touch_ready :: "fec_decoder \<Rightarrow> fec_decoder" where
  "touch_ready d = d\<lparr>seq2ready_for_output := touch False (last_process_seq (output_unit d)) (seq2ready_for_output d)\<rparr>"

lemma touch_next_same:
  "same_group x d (touch_ready d)" "same_rest d (touch_ready d)" "timeouts_ok t (touch_ready d) = timeouts_ok t d"
  "same_group x d (next_index d)" "ready_of (next_index d) = ready_of d"
  "ready_seqs_nums (next_index d) = ready_seqs_nums d" "timeouts_ok t (next_index d) = timeouts_ok t d"
  "timeouts_ok t (finish_group seq d) = timeouts_ok t d"
  by (simp_all add: touch_ready_def next_index_def finish_group_def same_group_def same_rest_def timeouts_ok_def
      fun_eq_iff)

lemma touch_ready_waiting: "waiting d gs \<Longrightarrow> waiting (touch_ready d) gs"
  by (erule waiting_same) (simp_all add: touch_ready_def same_group_def fun_eq_iff)

lemma next_index_waiting: "waiting d gs \<Longrightarrow> waiting (next_index d) gs"
  by (erule waiting_same) (simp_all add: next_index_def same_group_def fun_eq_iff)

lemma output_current_packet:
  assumes w: "waiting d ((seq, ds, lens) # gs)" and at: "at_packet d seq i" "i < length ds"
    and buf: "lens ! i \<le> int n" "n \<le> length buf"
  shows "output_current now (Some buf) (int n) d =
    (if i + 1 = length ds then next_group now (padded n (ds ! i) @ drop n buf) (finish_group seq (next_index d))
     else Some (lens ! (i + 1), Some (padded n (ds ! i) @ drop n buf), next_index d))"
proof -
  have f: "decoded d seq ds lens" "length ds \<le> 255" using w by (simp_all add: waiting_def group_fine_def)
  let ?pk = "pkgs_of d seq"
  have g: "length ?pk = length ds" "lengths_of d seq = lens" "length lens = length ds"
      "holds_packet (?pk ! i) (lens ! i) (ds ! i)"
    using f(1) at(2) by (simp_all add: decoded_def)
  have "nat (lens ! i) \<le> n" using buf(1) by linarith
  from copy_packet [OF g(4) this buf(2)] obtain b where
    b: "mem_zero buf (int n) = Some b" "mem_copy b (?pk ! i) (nat (lens ! i)) = Some (padded n (ds ! i) @ drop n buf)"
    by blast
  have ui: "unat (word_of_nat j :: u32) = j" if "j \<le> 255" for j
    using that by (intro unat_of_nat_u32) simp
  have at': "last_process_seq (output_unit d) = seq" "last_process_index (output_unit d) = word_of_nat i"
    using at(1) by (simp_all add: at_packet_def)
  have inc: "unat (word_of_nat i + 1 :: u32) = i + 1"
    using ui [of "i + 1"] at(2) f(2) by (simp add: add.commute)
  have i: "unat (word_of_nat i :: u32) = i" using ui at(2) f(2) by simp
  show ?thesis
    using g(1-3) b at(2) inc i
    by (simp add: output_current_def Let_def at' next_index_def finish_group_def)
qed

lemma lens_longest: "waiting d ((seq, ds, lens) # gs) \<Longrightarrow> i < length ds \<Longrightarrow> lens ! i \<le> int (longest ds)"
  by (simp add: waiting_def group_fine_def decoded_def)

lemma output_positioned:
  assumes w: "waiting d ((seq, ds, lens) # gs)" and at: "at_packet d seq i"
    and unit: "\<not> ready_for_output (output_unit d)"
  shows "fec_decode_output now recv_buf len d = output_current now recv_buf len (touch_ready d)"
proof -
  have f: "decoded d seq ds lens" "seq \<le> 65535" using w by (simp_all add: waiting_def group_fine_def)
  have "ready_of d seq" using f(1) by (simp add: decoded_def)
  moreover have "seq \<noteq> -1" using f(2) by (auto simp: word_le_nat_alt unsigned_minus_1_eq_mask mask_eq_exp_minus_1)
  moreover have "ready_seqs_nums d \<noteq> 0" using w by (simp add: waiting_def)
  ultimately show ?thesis
    using at unit by (simp add: fec_decode_output.simps [of now recv_buf len d] at_packet_def touch_ready_def Let_def)
qed

text \<open>A call when no group is current moves to the first ready group that fits the buffer.\<close>

lemma output_starts:
  assumes w: "waiting d ((seq, ds, lens) # gs)" and sorted: "sorted (map fst ((seq, ds, lens) # gs))"
    and none: "no_current d" and unit: "\<not> ready_for_output (output_unit d)" and t: "timeouts_ok t d"
    and fits: "int (longest ds) \<le> len"
  shows "\<exists>d'. fec_decode_output now recv_buf len d = fec_decode_output now recv_buf len d' \<and>
    waiting d' ((seq, ds, lens) # gs) \<and> at_packet d' seq 0 \<and> \<not> ready_for_output (output_unit d') \<and> timeouts_ok t d'"
proof -
  let ?q = "last_process_seq (output_unit d)"
  define d1 where "d1 = (if ?q \<noteq> -1 then touch_ready d else d)"
  have d1: "waiting d1 ((seq, ds, lens) # gs)" "output_unit d1 = output_unit d" "timeouts_ok t d1"
    using touch_ready_waiting [OF w] w t by (simp_all add: d1_def touch_next_same) (simp_all add: touch_ready_def)
  let ?d2 = "d1\<lparr>seq2max_data_pkg_length := touch 0 seq (seq2max_data_pkg_length d1)\<rparr>"
  let ?d3 = "?d2\<lparr>output_unit := (output_unit d)\<lparr>last_process_seq := seq, last_process_index := 0\<rparr>\<rparr>"
  have seq: "seq \<noteq> 0" using w by (simp add: waiting_def group_fine_def)
  then have pos: "\<not> int (unat seq) \<le> 0" by (simp add: uint_0_iff not_le)
  have "ready_seqs_nums d \<noteq> 0" using w by (simp add: waiting_def)
  then have "fec_decode_output now recv_buf len d = fec_decode_output now recv_buf len
      (?d2\<lparr>output_unit := (output_unit ?d2)\<lparr>last_process_seq := word_of_int (int (unat seq)), last_process_index := 0\<rparr>\<rparr>)"
    using none unit search_first [OF d1(1) sorted fits, of now] pos
    by (subst fec_decode_output.simps)
      (auto simp: no_current_def Let_def d1_def touch_ready_def split: if_splits)
  also have "\<dots> = fec_decode_output now recv_buf len ?d3" using d1(2) by simp
  finally have "fec_decode_output now recv_buf len d = fec_decode_output now recv_buf len ?d3" .
  moreover have "waiting ?d3 ((seq, ds, lens) # gs)"
    by (rule waiting_same [OF d1(1)]) (simp_all add: same_group_def fun_eq_iff)
  moreover have "timeouts_ok t ?d3" using d1(3) by (simp add: timeouts_ok_def)
  ultimately show ?thesis using unit by (intro exI [of _ ?d3]) (simp add: at_packet_def)
qed

section \<open>Handing out all ready groups\<close>

text \<open>A caller with a buffer for every call: the clock reading and the memory behind \<open>recv_buf\<close>.\<close>

fun output_calls ::
  "(int \<times> u8 list) list \<Rightarrow> fec_decoder \<Rightarrow> ((int \<times> u8 list option) list \<times> fec_decoder) option" where
  "output_calls [] d = Some ([], d)"
| "output_calls ((now, buf) # rest) d =
     (case fec_decode_output now (Some buf) (int (length buf)) d of
        None \<Rightarrow> None
      | Some (ret, out, d) \<Rightarrow>
          (case output_calls rest d of
             None \<Rightarrow> None
           | Some (outs, d) \<Rightarrow> Some ((ret, out) # outs, d)))"

definition packets_of :: "ready_group list \<Rightarrow> u8 list list" where
  "packets_of gs = concat (map (\<lambda>(seq, ds, lens). ds) gs)"

definition lengths_in :: "ready_group list \<Rightarrow> int list" where
  "lengths_in gs = concat (map (\<lambda>(seq, ds, lens). lens) gs)"

lemma packets_lengths_Cons [simp]:
  "packets_of [] = []" "packets_of ((seq, ds, lens) # gs) = ds @ packets_of gs"
  "lengths_in [] = []" "lengths_in ((seq, ds, lens) # gs) = lens @ lengths_in gs"
  by (simp_all add: packets_of_def lengths_in_def)

text \<open>The results of the calls: the buffers hold the packets, the values are the lengths that come next.\<close>

definition handed :: "(int \<times> u8 list) list \<Rightarrow> u8 list list \<Rightarrow> int list \<Rightarrow> (int \<times> u8 list option) list" where
  "handed bufs xs lens =
     zip (tl lens @ [0]) (map2 (\<lambda>(now, buf) x. Some (padded (length buf) x)) bufs xs)"

lemma handed_Cons:
  "handed ((now, buf) # bufs) (x # xs) (l # lens) =
     ((if lens = [] then 0 else hd lens), Some (padded (length buf) x)) # handed bufs xs lens"
  if "lens = [] \<longrightarrow> bufs = []"
  using that by (cases lens) (simp_all add: handed_def)

lemma output_calls_drain:
  assumes "waiting d ((seq, ds, lens) # gs)" and "at_packet d seq i" and "i < length ds"
    and "\<not> ready_for_output (output_unit d)" and "timeouts_ok t d" and "sorted (map fst gs)"
    and "\<forall>(now, buf)\<in>set bufs. longest ds \<le> length buf \<and> (\<forall>(q, es, ls)\<in>set gs. longest es \<le> length buf)"
    and "length bufs = length (drop i ds @ packets_of gs)"
  shows "\<exists>d'. output_calls bufs d =
      Some (handed bufs (drop i ds @ packets_of gs) (drop i lens @ lengths_in gs), d') \<and>
    waiting d' [] \<and> \<not> ready_for_output (output_unit d') \<and> timeouts_ok t d'"
  using assms
proof (induction bufs arbitrary: d seq ds lens gs i)
  case (Cons b bufs)
  obtain now buf where b: "b = (now, buf)" by (cases b)
  note w = Cons.prems(1) and at = Cons.prems(2,3) and unit = Cons.prems(4) and t = Cons.prems(5)
  have fits: "longest ds \<le> length buf" using Cons.prems(7) by (simp add: b)
  have llen: "length lens = length ds" using w by (simp add: waiting_def group_fine_def decoded_def)
  let ?d = "touch_ready d"
  have td: "waiting ?d ((seq, ds, lens) # gs)" "at_packet ?d seq i" "\<not> ready_for_output (output_unit ?d)"
      "timeouts_ok t ?d"
    using touch_ready_waiting [OF w] at(1) unit t
    by (simp_all add: at_packet_def touch_next_same) (simp_all add: touch_ready_def)
  have out: "fec_decode_output now (Some buf) (int (length buf)) d =
    (if i + 1 = length ds then next_group now (padded (length buf) (ds ! i)) (finish_group seq (next_index ?d))
     else Some (lens ! (i + 1), Some (padded (length buf) (ds ! i)), next_index ?d))"
    using output_positioned [OF w at(1) unit]
      output_current_packet [OF td(1,2) at(2), of "length buf" buf] lens_longest [OF w at(2)] fits by simp
  have drops: "drop i ds = ds ! i # drop (i + 1) ds" "drop i lens = lens ! i # drop (i + 1) lens"
    using at(2) llen by (simp_all add: Cons_nth_drop_Suc)
  show ?case
  proof (cases "i + 1 = length ds")
    case False
    then have i: "i + 1 < length ds" using at(2) by simp
    have nd: "waiting (next_index ?d) ((seq, ds, lens) # gs)" "at_packet (next_index ?d) seq (i + 1)"
        "\<not> ready_for_output (output_unit (next_index ?d))" "timeouts_ok t (next_index ?d)"
      using next_index_waiting [OF td(1)] td(2-4) by (simp_all add: touch_next_same)
        (simp_all add: next_index_def at_packet_def add.commute)
    have "length bufs = length (drop (i + 1) ds @ packets_of gs)"
      using Cons.prems(8) i by simp
    from Cons.IH [OF nd(1,2) i nd(3,4) Cons.prems(6) _ this] Cons.prems(7) obtain d' where
      d': "output_calls bufs (next_index ?d) =
          Some (handed bufs (drop (i + 1) ds @ packets_of gs) (drop (i + 1) lens @ lengths_in gs), d')"
        "waiting d' []" "\<not> ready_for_output (output_unit d')" "timeouts_ok t d'" by auto
    have "drop (i + 1) lens \<noteq> []" "hd (drop (i + 1) lens) = lens ! (i + 1)"
      using i llen by (simp_all add: hd_drop_conv_nth)
    then show ?thesis
      using d' out False by (simp add: b drops handed_Cons)
  next
    case True
    let ?f = "finish_group seq (next_index ?d)"
    have fin: "waiting ?f gs" "\<not> ready_for_output (output_unit ?f)" "timeouts_ok t ?f"
      using finish_group_waiting [OF next_index_waiting [OF td(1)]] td(3,4)
      by (simp_all add: touch_next_same) (simp_all add: finish_group_def next_index_def)
    have rest: "drop (i + 1) ds = []" "drop (i + 1) lens = []" using True llen by simp_all
    show ?thesis
    proof (cases gs)
      case Nil
      then have "Suc (length bufs) = length ds - i" using Cons.prems(8) by simp
      then have "length bufs = 0" using True by linarith
      then have "bufs = []" by simp
      with next_group_empty [OF fin(1) [unfolded Nil] fin(3), of now "padded (length buf) (ds ! i)"] out True fin(2) llen
      show ?thesis by (auto simp: b drops rest Nil handed_Cons handed_def)
    next
      case (Cons g gs')
      obtain q es ls where g: "g = (q, es, ls)" by (cases g)
      have gs: "gs = (q, es, ls) # gs'" by (simp add: Cons g)
      from next_group_first [OF fin(1) [unfolded gs] _ fin(3), of now "padded (length buf) (ds ! i)"] Cons.prems(6)
      obtain d1 where d1: "next_group now (padded (length buf) (ds ! i)) ?f = Some (hd ls, Some (padded (length buf) (ds ! i)), d1)"
        "waiting d1 ((q, es, ls) # gs')" "timeouts_ok t d1" "at_packet d1 q 0"
        "output_unit d1 = (output_unit ?f)\<lparr>last_process_seq := q, last_process_index := 0\<rparr>"
        by (auto simp: gs)
      have es: "es \<noteq> []" "ls \<noteq> []"
        using d1(2) by (auto simp: waiting_def group_fine_def decoded_def)
      have "\<not> ready_for_output (output_unit d1)" using d1(5) fin(2) by simp
      from Cons.IH [OF d1(2,4) _ this d1(3)] Cons.prems(6,7,8) es True obtain d' where
        "output_calls bufs d1 = Some (handed bufs (es @ packets_of gs') (ls @ lengths_in gs'), d')"
        "waiting d' []" "\<not> ready_for_output (output_unit d')" "timeouts_ok t d'"
        by (force simp: gs)
      then show ?thesis
        using out True d1(1) es llen by (simp add: b drops rest gs handed_Cons)
    qed
  qed
qed simp

lemma drain_from_start:
  assumes w: "waiting d gs" and sorted: "sorted (map fst gs)"
    and start: "no_current d \<or> (\<exists>g gs'. gs = g # gs' \<and> at_packet d (fst g) 0)"
    and unit: "\<not> ready_for_output (output_unit d)" and t: "timeouts_ok t d"
    and bufs: "length bufs = length (packets_of gs)"
      "\<forall>(now, buf)\<in>set bufs. \<forall>(seq, ds, lens)\<in>set gs. longest ds \<le> length buf"
  shows "\<exists>d'. output_calls bufs d = Some (handed bufs (packets_of gs) (lengths_in gs), d') \<and>
    waiting d' [] \<and> \<not> ready_for_output (output_unit d') \<and> timeouts_ok t d'"
proof (cases gs)
  case Nil
  with w unit t bufs(1) show ?thesis by (simp add: handed_def)
next
  case (Cons g gs')
  obtain seq ds lens where g: "g = (seq, ds, lens)" by (cases g)
  have gs: "gs = (seq, ds, lens) # gs'" by (simp add: Cons g)
  have ds: "0 < length ds" using w by (simp add: gs waiting_def group_fine_def)
  obtain now buf bufs' where b: "bufs = (now, buf) # bufs'" using bufs(1) ds gs by (cases bufs) auto
  have fits: "int (longest ds) \<le> int (length buf)" using bufs(2) by (auto simp: b gs)
  obtain d1 where d1: "fec_decode_output now (Some buf) (int (length buf)) d =
      fec_decode_output now (Some buf) (int (length buf)) d1"
      "waiting d1 gs" "at_packet d1 seq 0" "\<not> ready_for_output (output_unit d1)" "timeouts_ok t d1"
    using output_starts [OF w [unfolded gs] sorted [unfolded gs] _ unit t fits, of now "Some buf"] start w unit t
    by (auto simp: gs)
  have "output_calls bufs d = output_calls bufs d1" by (simp add: b d1(1))
  moreover have "sorted (map fst gs')" using sorted by (simp add: gs)
  ultimately show ?thesis
    using output_calls_drain [OF d1(2) [unfolded gs] d1(3) ds d1(4,5), of bufs] bufs by (force simp: gs)
qed

text \<open>
  C10 (all packets come out in order). When groups are ready, none of them half handed out and no
  unencoded packet waits, as many calls of \<open>Output\<close> as there are packets, each with a buffer no
  shorter than the longest packet, hand out every packet of every group: the groups in ascending order
  of their sequence numbers, the packets in their order in the group, each at the front of a buffer that is
  zero behind it. Each call returns the length that comes next, the last one 0, and then
  nothing is left.
\<close>

theorem fec_output_drains:
  assumes "waiting d gs" and "sorted (map fst gs)" and "no_current d"
    and "\<not> ready_for_output (output_unit d)" and "timeouts_ok t d"
    and "length bufs = length (packets_of gs)"
    and "\<forall>(now, buf)\<in>set bufs. \<forall>(seq, ds, lens)\<in>set gs. longest ds \<le> length buf"
  shows "\<exists>d'. output_calls bufs d = Some (handed bufs (packets_of gs) (lengths_in gs), d') \<and> waiting d' []"
  using drain_from_start [of d gs t bufs] assms by blast

text \<open>The buffer of the output unit is as long as its record of it says, and one byte more.\<close>

definition unit_ok :: "fec_output_unit \<Rightarrow> bool" where
  "unit_ok u \<longleftrightarrow> max_len u = 0 \<or> (\<exists>b. out_data u = Some b \<and> length b = unat (max_len u) + 1)"

text \<open>One group of two packets that is ready, the next packet given by \<open>seq\<close> and \<open>i\<close>.\<close>

lemma ready_example:
  "\<exists>d. waiting d [(5, [[7, 8], [9]], [2, 1])] \<and> timeouts_ok 0 d \<and> unit_ok (output_unit d) \<and>
    \<not> ready_for_output (output_unit d) \<and> at_packet d seq i"
proof -
  let ?d = "(fec_decoder_new 100)\<lparr>seq2data_pkgs := RBT.insert 5 [Some [7, 8, 0], Some [9, 0, 0]] RBT.empty,
    seq2data_pkgs_length := RBT.insert 5 [2, 1] RBT.empty, seq2max_data_pkg_length := RBT.insert 5 2 RBT.empty,
    seq2ready_for_output := RBT.insert 5 True RBT.empty, ready_seqs_nums := 1,
    output_unit := (output_unit (fec_decoder_new 100))\<lparr>last_process_seq := seq, last_process_index := word_of_nat i\<rparr>\<rparr>"
  have "fetch RBT.empty b x = b" for b :: bool and x by (simp add: fetch_def)
  then have "waiting ?d [(5, [[7, 8], [9]], [2, 1])]"
    by (auto simp: waiting_def group_fine_def decoded_def holds_packet_def padded_def longest_def less_Suc_eq)
  moreover have "timeouts_ok 0 ?d" using fec_decoder_new_ok [of 100] by (simp add: timeouts_ok_def)
  ultimately show ?thesis by (intro exI [of _ ?d]) (simp add: at_packet_def fec_decoder_new_def unit_ok_def)
qed

theorem fec_output_drains_witness:
  "\<exists>d d'. waiting d [(5, [[7, 8], [9]], [2, 1])] \<and>
    output_calls [(0, [1, 1, 1]), (1, [1, 1, 1])] d =
      Some ([(1, Some [7, 8, 0]), (0, Some [9, 0, 0])], d') \<and> waiting d' []"
proof -
  let ?gs = "[(5, [[7, 8], [9]], [2, 1])] :: ready_group list"
  obtain d where d: "waiting d ?gs" "timeouts_ok 0 d" "\<not> ready_for_output (output_unit d)" "at_packet d (-1) 0"
    using ready_example [of "-1" 0] by blast
  have "no_current d" using d(4) by (simp add: no_current_def at_packet_def)
  then obtain d' where "output_calls [(0, [1, 1, 1]), (1, [1, 1, 1])] d =
      Some (handed [(0, [1, 1, 1]), (1, [1, 1, 1])] (packets_of ?gs) (lengths_in ?gs), d') \<and> waiting d' []"
    using fec_output_drains [OF d(1) _ _ d(3,2), of "[(0, [1, 1, 1]), (1, [1, 1, 1])]"] by (auto simp: longest_def)
  with d(1) show ?thesis by (auto simp: handed_def padded_def)
qed

section \<open>Unencoded packets\<close>

definition flushed :: "u8 list \<Rightarrow> u8 list" where
  "flushed x = write_u32_r unique_header @ x"

lemma flushed_header: "read_u32_r (flushed x @ junk) = unique_header" "read_u32 (flushed x @ junk) \<noteq> unique_header"
proof -
  show "read_u32_r (flushed x @ junk) = unique_header" by (simp add: flushed_def read_write_u32_r)
  show "read_u32 (flushed x @ junk) \<noteq> unique_header"
    by (simp add: flushed_def read_u32_def write_u32_r_def numeral_3_eq_3 byte_plus_shift_or)
qed

lemma larger_mem_room:
  assumes u: "unit_ok u" and n: "0 < n" "n < 2 ^ 31"
  shows "\<exists>u' b. larger_mem (word_of_nat n) u = (0, u') \<and> unit_ok u' \<and> out_data u' = Some b \<and> n < length b \<and>
    last_process_seq u' = last_process_seq u \<and> last_process_index u' = last_process_index u"
proof -
  have un: "unat (word_of_nat n :: u32) = n" "unat (word_of_nat n + 1 :: u32) = n + 1"
    using n unat_of_nat_u32 [of n] unat_of_nat_u32 [of "n + 1"] by (simp_all add: add.commute)
  show ?thesis
  proof (cases "word_of_nat n < max_len u")
    case True
    then have "n < unat (max_len u)" "max_len u \<noteq> 0" using un by (auto simp: word_less_nat_alt)
    with u True show ?thesis by (auto simp: larger_mem_def unit_ok_def)
  next
    case False
    with un show ?thesis by (simp add: larger_mem_def unit_ok_def)
  qed
qed

text \<open>An unencoded packet waits in the output unit.\<close>

definition unit_holds :: "fec_output_unit \<Rightarrow> u8 list \<Rightarrow> bool" where
  "unit_holds u x \<longleftrightarrow> unit_ok u \<and> ready_for_output u \<and> actural_len u = word_of_nat (length x) \<and>
     (\<exists>b. out_data u = Some b \<and> length x \<le> length b \<and> take (length x) b = x)"

lemma unencoded_input:
  assumes x: "packet_ok x" and u: "unit_ok (output_unit d)"
  shows "\<exists>u. fec_decode_input addr now now' (Some (flushed x @ junk)) (4 + int (length x)) d s =
      Some (int (length x), d\<lparr>output_unit := u\<rparr>, s) \<and> unit_holds u x \<and>
    last_process_seq u = last_process_seq (output_unit d) \<and>
    last_process_index u = last_process_index (output_unit d)"
proof -
  let ?n = "4 + length x"
  have n: "length x \<le> 65535" using x by (simp add: packet_ok_def)
  obtain u b where lm: "larger_mem (word_of_nat ?n) (output_unit d) = (0, u)" "unit_ok u" "out_data u = Some b"
      "?n < length b" "last_process_seq u = last_process_seq (output_unit d)"
      "last_process_index u = last_process_index (output_unit d)"
    using larger_mem_room [OF u, of ?n] n by auto
  have big: "\<not> (word_of_int (4 + int (length x)) :: 64 word) < 4"
  proof -
    have "uint (word_of_int y :: 64 word) = y" if "0 \<le> y" "y < 2 ^ 64" for y
      using that by (simp add: unsigned_of_int take_bit_int_eq_self)
    from this [of "4 + int (length x)"] n have "uint (word_of_int (4 + int (length x)) :: 64 word) = 4 + int (length x)"
      by simp
    moreover have "uint (4 :: 64 word) = 4" by simp
    ultimately show ?thesis unfolding word_less_def by linarith
  qed
  have len: "\<not> length (flushed x @ junk) < 4" "word_of_int (4 + int (length x)) = (word_of_nat ?n :: u32)"
      "drop 4 (flushed x) = x" "drop (4 - length (flushed x)) junk = junk"
    by (simp_all add: flushed_def)
  let ?b = "take (length x) (x @ junk) @ drop (length x) b"
  let ?u = "u\<lparr>out_data := Some ?b, actural_len := word_of_nat (length x), ready_for_output := True\<rparr>"
  have copy: "mem_copy b (Some (x @ junk)) (length x) = Some ?b" using lm(4) by (simp add: mem_copy_def)
  have "deal_unencoded_data (Some (flushed x @ junk)) (4 + int (length x)) d = Some (int (length x), d\<lparr>output_unit := ?u\<rparr>)"
    using lm(1,3) copy n sint_of_nat_u32 [of "length x"] flushed_header(1) [of x junk]
    by (simp add: deal_unencoded_data_def len(2-4) Let_def)
  then have "fec_decode_input addr now now' (Some (flushed x @ junk)) (4 + int (length x)) d s =
      Some (int (length x), d\<lparr>output_unit := ?u\<rparr>, s)"
    using big len(1) flushed_header(2) [of x junk] by (simp add: fec_decode_input_def)
  moreover have "unit_holds ?u x"
    using lm(2-4) by (auto simp: unit_holds_def unit_ok_def)
  ultimately show ?thesis using lm(5,6) by (intro exI [of _ ?u]) simp
qed

lemma unencoded_output:
  assumes u: "unit_holds (output_unit d) x" and x: "packet_ok x" and buf: "length x \<le> length buf" "length buf < 2 ^ 31"
  shows "fec_decode_output now (Some buf) (int (length buf)) d =
    next_group now (x @ drop (length x) buf)
      (d\<lparr>output_unit := (output_unit d)\<lparr>actural_len := 0, ready_for_output := False\<rparr>\<rparr>)"
proof -
  have un: "unat (word_of_nat (length x) :: u32) = length x" "unat (word_of_nat (length buf) :: u32) = length buf"
    using x buf(2) unat_of_nat_u32 by (simp_all add: packet_ok_def)
  then have "\<not> (word_of_int (int (length buf)) :: u32) < word_of_nat (length x)"
    using buf(1) by (simp add: word_less_nat_alt)
  moreover have "mem_copy buf (out_data (output_unit d)) (length x) = Some (x @ drop (length x) buf)"
    using u buf(1) by (auto simp: unit_holds_def mem_copy_def)
  ultimately show ?thesis
    using u un(1) by (simp add: fec_decode_output.simps [of now "Some buf" _ d] output_unencoded_def unit_holds_def)
qed

text \<open>
  A packet as \<open>FlushUnEncodedData\<close> sends it, behind the reversed magic number: \<open>Input\<close>
  returns its length without the magic number, and the next \<open>Output\<close> puts exactly its bytes at the
  front of the buffer and leaves the rest of the buffer alone. When no group is ready it returns 0.
\<close>

theorem fec_decode_unencoded:
  assumes "packet_ok x" and "unit_ok (output_unit d)" and "waiting d []" and "timeouts_ok t d"
    and "length x \<le> length buf" and "length buf < 2 ^ 31"
  shows "\<exists>d1 d2. fec_decode_input addr now now' (Some (flushed x @ junk)) (4 + int (length x)) d s =
      Some (int (length x), d1, s) \<and>
    fec_decode_output now'' (Some buf) (int (length buf)) d1 = Some (0, Some (x @ drop (length x) buf), d2) \<and>
    waiting d2 [] \<and> timeouts_ok t d2 \<and> unit_ok (output_unit d2) \<and> \<not> ready_for_output (output_unit d2)"
proof -
  obtain u where u: "fec_decode_input addr now now' (Some (flushed x @ junk)) (4 + int (length x)) d s =
      Some (int (length x), d\<lparr>output_unit := u\<rparr>, s)" "unit_holds u x"
    using unencoded_input [OF assms(1,2)] by blast
  let ?d1 = "d\<lparr>output_unit := u\<rparr>"
  let ?d = "?d1\<lparr>output_unit := u\<lparr>actural_len := 0, ready_for_output := False\<rparr>\<rparr>"
  have "fec_decode_output now'' (Some buf) (int (length buf)) ?d1 = next_group now'' (x @ drop (length x) buf) ?d"
    using unencoded_output [of ?d1 x buf now''] u(2) assms(1,5,6) by simp
  moreover have "waiting ?d []" using assms(3) by (simp add: waiting_def)
  moreover have "timeouts_ok t ?d" using assms(4) by (simp add: timeouts_ok_def)
  ultimately obtain d2 where "fec_decode_output now'' (Some buf) (int (length buf)) ?d1 =
      Some (0, Some (x @ drop (length x) buf), d2)" "waiting d2 []" "timeouts_ok t d2" "output_unit d2 = output_unit ?d"
    using next_group_empty [of ?d t now'' "x @ drop (length x) buf"] by auto
  with u show ?thesis by (auto simp: unit_holds_def unit_ok_def)
qed

theorem fec_decode_unencoded_witness:
  "\<exists>d1 d2. fec_decode_input 0 1 2 (Some (flushed [7, 8] @ [])) (4 + 2) (fec_decoder_new 100) rs_static_start =
      Some (2, d1, rs_static_start) \<and>
    fec_decode_output 3 (Some [1, 1, 1]) 3 d1 = Some (0, Some [7, 8, 1], d2) \<and> waiting d2 []"
proof -
  have "waiting (fec_decoder_new 100) []" "timeouts_ok 0 (fec_decoder_new 100)" "unit_ok (output_unit (fec_decoder_new 100))"
    using fec_decoder_new_ok [of 100] by (simp_all add: waiting_def fec_decoder_new_def fetch_def unit_ok_def)
  with fec_decode_unencoded [of "[7, 8]" "fec_decoder_new 100" 0 "[1, 1, 1]" 0 1 2 "[]" rs_static_start 3]
  show ?thesis by (auto simp: packet_ok_def)
qed

text \<open>
  C34 (an unencoded packet restarts a group). When an unencoded packet is passed to \<open>Input\<close> and handed out
  while a group is half handed out, the decoder goes back to the first packet of its first ready group,
  whatever packet was next: the following calls hand out the whole of every ready group, so the
  packets of the current group that the application already has come a second time.
\<close>

theorem fec_output_restarts:
  assumes "packet_ok x" and "unit_ok (output_unit d)"
    and "waiting d gs" and "gs \<noteq> []" and "sorted (map fst gs)" and "at_packet d (fst (hd gs)) i" and "timeouts_ok t d"
    and "length x \<le> length buf" and "length buf < 2 ^ 31"
    and "length bufs = length (packets_of gs)"
    and "\<forall>(now, buf)\<in>set bufs. \<forall>(seq, ds, lens)\<in>set gs. longest ds \<le> length buf"
  shows "\<exists>d1 d2 d3. fec_decode_input addr now now' (Some (flushed x @ junk)) (4 + int (length x)) d s =
      Some (int (length x), d1, s) \<and>
    fec_decode_output now'' (Some buf) (int (length buf)) d1 =
      Some (hd (lengths_in gs), Some (x @ drop (length x) buf), d2) \<and>
    output_calls bufs d2 = Some (handed bufs (packets_of gs) (lengths_in gs), d3) \<and> waiting d3 []"
proof -
  obtain u where u: "fec_decode_input addr now now' (Some (flushed x @ junk)) (4 + int (length x)) d s =
      Some (int (length x), d\<lparr>output_unit := u\<rparr>, s)" "unit_holds u x"
    using unencoded_input [OF assms(1,2)] by blast
  let ?d1 = "d\<lparr>output_unit := u\<rparr>"
  let ?d = "?d1\<lparr>output_unit := u\<lparr>actural_len := 0, ready_for_output := False\<rparr>\<rparr>"
  obtain seq ds lens gs' where gs: "gs = (seq, ds, lens) # gs'" using assms(4) by (cases gs) auto
  have "fec_decode_output now'' (Some buf) (int (length buf)) ?d1 = next_group now'' (x @ drop (length x) buf) ?d"
    using unencoded_output [of ?d1 x buf now''] u(2) assms(1,8,9) by simp
  moreover have w: "waiting ?d gs"
    by (rule waiting_same [OF assms(3)]) (simp_all add: same_group_def fun_eq_iff)
  moreover have "timeouts_ok t ?d" using assms(7) by (simp add: timeouts_ok_def)
  ultimately obtain d2 where d2: "fec_decode_output now'' (Some buf) (int (length buf)) ?d1 =
      Some (hd lens, Some (x @ drop (length x) buf), d2)" "waiting d2 gs" "timeouts_ok t d2" "at_packet d2 seq 0"
      "\<not> ready_for_output (output_unit d2)"
    using next_group_first [of ?d seq ds lens gs' t now'' "x @ drop (length x) buf"] assms(5) by (auto simp: gs)
  have "lens \<noteq> []" using d2(2) by (auto simp: gs waiting_def group_fine_def decoded_def)
  then have "hd (lengths_in gs) = hd lens" by (simp add: gs)
  moreover obtain d3 where "output_calls bufs d2 = Some (handed bufs (packets_of gs) (lengths_in gs), d3)" "waiting d3 []"
    using drain_from_start [OF d2(2) assms(5) _ d2(5,3) assms(10,11)] d2(4) by (auto simp: gs)
  ultimately show ?thesis using u(1) d2(1) by auto
qed

theorem fec_output_restarts_witness:
  "\<exists>d d1 d2 d3. waiting d [(5, [[7, 8], [9]], [2, 1])] \<and> at_packet d 5 1 \<and>
    fec_decode_input 0 1 2 (Some (flushed [3] @ [])) (4 + 1) d rs_static_start = Some (1, d1, rs_static_start) \<and>
    fec_decode_output 3 (Some [1, 1]) 2 d1 = Some (2, Some [3, 1], d2) \<and>
    output_calls [(4, [1, 1]), (5, [1, 1])] d2 = Some ([(1, Some [7, 8]), (0, Some [9, 0])], d3) \<and> waiting d3 []"
proof -
  let ?gs = "[(5, [[7, 8], [9]], [2, 1])] :: ready_group list" and ?bufs = "[(4, [1, 1]), (5, [1, 1])] :: (int \<times> u8 list) list"
  obtain d where d: "waiting d ?gs" "timeouts_ok 0 d" "unit_ok (output_unit d)" "at_packet d 5 1"
    using ready_example [of 5 1] by blast
  have at: "at_packet d (fst (hd ?gs)) 1" using d(4) by simp
  obtain d1 d2 d3 where "fec_decode_input 0 1 2 (Some (flushed [3] @ [])) (4 + int (length [3 :: u8])) d rs_static_start =
      Some (int (length [3 :: u8]), d1, rs_static_start)"
    "fec_decode_output 3 (Some [1, 1]) (int (length [1 :: u8, 1])) d1 =
      Some (hd (lengths_in ?gs), Some ([3] @ drop (length [3 :: u8]) [1, 1]), d2)"
    "output_calls ?bufs d2 = Some (handed ?bufs (packets_of ?gs) (lengths_in ?gs), d3)" "waiting d3 []"
    using fec_output_restarts [OF _ d(3,1) _ _ at d(2), of "[3]" "[1, 1]" ?bufs 0 1 2 "[]" rs_static_start 3]
    by (auto simp: packet_ok_def longest_def)
  with d(1,4) show ?thesis by (auto simp: handed_def padded_def)
qed

section \<open>From encoder to decoder\<close>

text \<open>
  C8 (packets survive losses and reordering). An empty encoder is given the \<open>k\<close> packets of a group, and \<open>Output\<close>
  hands out \<open>k + r\<close>. Whichever \<open>k\<close> of them arrive, in whatever order, the receiver's \<open>Input\<close>
  reports the group with the last of them, and \<open>k\<close> calls of \<open>Output\<close> hand out the sender's
  packets in the sender's order, at the front of buffers that are zero behind them. The receiver may have
  seen any other traffic before, as long as it has nothing else to hand out, does not know the
  group's sequence number, and the last group it handed out had another one; both ends are then
  ready for the next group.
\<close>

theorem fec_end_to_end:
  assumes e: "holds k r e []" and s: "rs_static_ok s" and ds: "length ds = k" "\<forall>x\<in>set ds. packet_ok x" and kr: "k + r \<le> 127"
    and d: "fresh_seq (ucast (enc_seq e)) d" "waiting d []" "\<not> ready_for_output (output_unit d)" "timeouts_ok t d"
    and last: "last_process_seq (output_unit d) \<noteq> ucast (enc_seq e)" and s': "rs_static_ok s'"
  shows "\<exists>e1 s1 out e2. encode_inputs addr ds e s = Some (replicate (k - 1) 0 @ [1], e1, s1) \<and>
    fec_encode_output e1 = (0, Some out, e2) \<and> holds k r e2 [] \<and> length (handed_out out) = k + r \<and>
    (\<forall>as bufs. length as = k \<and> distinct_arrivals (handed_out out) as \<and>
       timely (timeout_limit_ms (timeout_keys d)) t as \<and>
       length bufs = k \<and> (\<forall>(now, buf)\<in>set bufs. longest ds \<le> length buf) \<longrightarrow>
       (\<exists>d1 s2 lens d2. decode_inputs addr' (received_calls ds as) d s' =
            Some (replicate (k - 1) 0 @ [int (longest ds)], d1, s2) \<and>
          output_calls bufs d1 = Some (handed bufs ds lens, d2) \<and> length lens = k \<and> waiting d2 []))"
proof -
  obtain e1 s1 cw out e2 where enc: "encode_inputs addr ds e s = Some (replicate (k - 1) 0 @ [1], e1, s1)"
      "fec_encode_output e1 = (0, Some out, e2)" "handed_out out = group_packets (enc_seq e) k r ds cw"
      "group_codeword k r ds cw" "holds k r e2 []"
    using encode_group [OF e s ds, of addr] by blast
  let ?seq = "ucast (enc_seq e) :: u32"
  have k: "1 \<le> k" and sq: "1 \<le> unat (enc_seq e)" "unat (enc_seq e) < 65521"
    using e by (simp_all add: holds_def enc_params_def)
  have "unat ?seq = unat (enc_seq e)"
    using sq(2) by (simp add: unsigned_ucast_eq take_bit_nat_eq_self)
  then have seq: "?seq \<noteq> 0" "?seq \<le> 65535" using sq by (auto simp: word_le_nat_alt)
  have "\<exists>d1 s2 lens d2. decode_inputs addr' (received_calls ds as) d s' =
            Some (replicate (k - 1) 0 @ [int (longest ds)], d1, s2) \<and>
          output_calls bufs d1 = Some (handed bufs ds lens, d2) \<and> length lens = k \<and> waiting d2 []"
    if as: "length as = k" "distinct_arrivals (handed_out out) as" "timely (timeout_limit_ms (timeout_keys d)) t as"
      and bufs: "length bufs = k" "\<forall>(now, buf)\<in>set bufs. longest ds \<le> length buf" for as bufs
  proof -
    from any_k_decode [OF d(1,4) as(3,1) as(2) [unfolded enc(3)] enc(4) ds k kr s', of addr'] obtain d1 s2 where
      dec: "decode_inputs addr' (received_calls ds as) d s' = Some (replicate (k - 1) 0 @ [int (longest ds)], d1, s2)"
        "decoded d1 ?seq ds (decoded_lengths ds (set (map arrival_index as)))" "timeouts_ok (end_time t as) d1"
        "only_adds ?seq d d1" by blast
    let ?lens = "decoded_lengths ds (set (map arrival_index as))"
    have "longest ds \<le> 65535" using ds(2) by (intro longest_le) (auto simp: packet_ok_def)
    then have w: "waiting d1 [(?seq, ds, ?lens)]"
      using d(2) dec(2,4) seq ds(1) k kr by (auto simp: waiting_def only_adds_def group_fine_def)
    have none: "no_current d1"
      using d(2) dec(4) last by (simp add: no_current_def only_adds_def waiting_def)
    have unit: "\<not> ready_for_output (output_unit d1)" using d(3) dec(4) by (simp add: only_adds_def)
    obtain d2 where "output_calls bufs d1 = Some (handed bufs ds ?lens, d2)" "waiting d2 []"
      using drain_from_start [OF w _ disjI1 [OF none] unit dec(3), of bufs] bufs ds(1) by auto
    with dec(1) ds(1) show ?thesis by (auto simp: decoded_lengths_def)
  qed
  note run = this
  have len: "length (handed_out out) = k + r" by (simp add: enc(3))
  show ?thesis
    by (rule exI [of _ e1], rule exI [of _ s1], rule exI [of _ out], rule exI [of _ e2])
      (intro conjI allI impI enc(1,2,5) len, elim conjE, rule run)
qed

text \<open>The group of two packets with one redundant packet, of which the second data packet is lost.\<close>

theorem fec_end_to_end_witness:
  "\<exists>e1 s1 out e2 d1 s2 d2. encode_inputs 0 [[7, 8], [9]] (fec_encoder_new 2 1 1 (0, 5) 0) rs_static_start =
      Some ([0, 1], e1, s1) \<and>
    fec_encode_output e1 = (0, Some out, e2) \<and>
    decode_inputs 8 (received_calls [[7, 8], [9]]
        [(10, 10, 2, handed_out out ! 2 @ [0]), (20, 20, 0, handed_out out ! 0 @ [0])])
      (fec_decoder_new 100) rs_static_start = Some ([0, 2], d1, s2) \<and>
    map_option (\<lambda>(outs, d). map snd outs) (output_calls [(30, [1, 1, 1]), (31, [1, 1, 1])] d1) =
      Some [Some [7, 8, 0], Some [9, 0, 0]]"
proof -
  let ?ds = "[[7, 8], [9]] :: u8 list list" and ?e = "fec_encoder_new 2 1 1 (0, 5) 0" and ?d = "fec_decoder_new 100"
    and ?bufs = "[(30, [1, 1, 1]), (31, [1, 1, 1])] :: (int \<times> u8 list) list"
  have e: "holds 2 1 ?e []" using fec_encoder_new_holds [of 2 1 "[Some 5]"] by simp
  have ds: "\<forall>x\<in>set ?ds. packet_ok x" "longest ?ds = 2" by (simp_all add: packet_ok_def longest_def)
  have d: "fresh_seq (ucast (enc_seq ?e)) ?d" "timeouts_ok 0 ?d" "waiting ?d []" "\<not> ready_for_output (output_unit ?d)"
    using fec_decoder_new_ok [of 100] by (simp_all add: waiting_def fec_decoder_new_def fetch_def)
  have last: "last_process_seq (output_unit ?d) \<noteq> ucast (enc_seq ?e)"
    by (simp add: fec_decoder_new_def fec_encoder_new_def)
  obtain e1 s1 out e2 where enc: "encode_inputs 0 ?ds ?e rs_static_start = Some (replicate (2 - 1) 0 @ [1], e1, s1)"
      "fec_encode_output e1 = (0, Some out, e2)" "length (handed_out out) = 3"
    and recv: "\<And>as bufs. length as = 2 \<Longrightarrow> distinct_arrivals (handed_out out) as \<Longrightarrow>
       timely (timeout_limit_ms (timeout_keys ?d)) 0 as \<Longrightarrow> length bufs = 2 \<Longrightarrow>
       \<forall>(now, buf)\<in>set bufs. longest ?ds \<le> length buf \<Longrightarrow>
       (\<exists>d1 s2 lens d2. decode_inputs 8 (received_calls ?ds as) ?d rs_static_start =
            Some (replicate (2 - 1) 0 @ [int (longest ?ds)], d1, s2) \<and>
          output_calls bufs d1 = Some (handed bufs ?ds lens, d2) \<and> length lens = 2 \<and> waiting d2 [])"
    using fec_end_to_end [OF e rs_static_start_ok _ ds(1) _ d(1,3,4,2) last rs_static_start_ok, of 0 8] by auto
  let ?as = "[(10, 10, 2, handed_out out ! 2 @ [0]), (20, 20, 0, handed_out out ! 0 @ [0])]"
  have as: "distinct_arrivals (handed_out out) ?as"
    using enc(3) by (auto simp: distinct_arrivals_def arrival_index_def arrives_def)
  have "timely (timeout_limit_ms (timeout_keys ?d)) 0 ?as" by (simp add: fec_decoder_new_def timeout_map_new_def)
  from recv [OF _ as this, of ?bufs] obtain d1 s2 lens d2 where
    run: "decode_inputs 8 (received_calls ?ds ?as) ?d rs_static_start = Some ([0, 2], d1, s2)"
      "output_calls ?bufs d1 = Some (handed ?bufs ?ds lens, d2)" "length lens = 2"
    by (auto simp: ds(2))
  obtain l1 l2 where "lens = [l1, l2]" using run(3) by (auto simp: length_Suc_conv numeral_2_eq_2)
  then have "map snd (handed ?bufs ?ds lens) = [Some [7, 8, 0], Some [9, 0, 0]]"
    by (simp add: handed_def padded_def)
  then have "map_option (\<lambda>(outs, d). map snd outs) (output_calls ?bufs d1) = Some [Some [7, 8, 0], Some [9, 0, 0]]"
    by (simp only: run(2) option.map prod.case)
  moreover have "encode_inputs 0 ?ds ?e rs_static_start = Some ([0, 1], e1, s1)" unfolding enc(1) by simp
  ultimately show ?thesis using enc(2) run(1) by blast
qed

text \<open>
  The decoder hands out a group and later, when it has forgotten it, receives a
  group with the same sequence number while it is still the last one handed out: the position of
  the output is stale, and the next call of \<open>Output\<close> reads behind the end of the group's vector.
\<close>

theorem fec_output_stale_index:
  assumes "waiting d ((seq, ds, lens) # gs)" and "at_packet d seq (length ds)" and "\<not> ready_for_output (output_unit d)"
  shows "fec_decode_output now recv_buf len d = None"
proof -
  have f: "length (pkgs_of d seq) = length ds" "length ds \<le> 255"
    using assms(1) by (simp_all add: waiting_def group_fine_def decoded_def)
  then have "unat (word_of_nat (length ds) :: u32) = length ds" by (intro unat_of_nat_u32) simp
  then have "output_current now recv_buf len (touch_ready d) = None"
    using assms(2) f(1) by (simp add: output_current_def Let_def touch_ready_def at_packet_def split: option.split)
  then show ?thesis using output_positioned [OF assms] by simp
qed

theorem fec_output_stale_index_witness:
  "\<exists>d. waiting d [(5, [[7, 8], [9]], [2, 1])] \<and> at_packet d 5 2 \<and> fec_decode_output 0 (Some [1, 1]) 2 d = None"
proof -
  obtain d where d: "waiting d [(5, [[7, 8], [9]], [2, 1])]" "\<not> ready_for_output (output_unit d)" "at_packet d 5 2"
    using ready_example [of 5 2] by blast
  have at: "at_packet d 5 (length [[7, 8], [9 :: u8]])" using d(3) by (simp add: numeral_2_eq_2)
  from fec_output_stale_index [OF d(1) at d(2)] d(1,3) show ?thesis by blast
qed

end
