(* ===== verification/Fec_Kcp.thy ===== *)
theory Fec_Kcp
  imports Kcp_Endpoint Fec_Output
begin

text \<open>
  The composition of kcp with the packet codec: \<open>FecKcp\<close> of \<open>source/fec_kcp.cpp\<close> and
  \<open>FecEncodeManager\<close> of \<open>source/fec_manager.cpp\<close>.

  The static state of \<open>rs.c\<close>, which encoder and decoder of a process share, is an argument of its own, as is
  the address a new descriptor gets. The callback that sends is the list of packets it is called with;
  \<open>None\<close> stands for undefined behaviour (a missing return apart, see \<open>FecEncodeManager\<close>), or for a loop that does not end.
\<close>

section \<open>FecKcp\<close>

record fec_kcp =
  fk_kcp :: ikcpcb
  fk_encoder :: fec_encoder
  fk_decoder :: fec_decoder

text \<open>\<open>ikcp_create\<close> may return a null pointer, which the constructor dereferences.\<close>

definition fec_kcp_new ::
  "bool \<Rightarrow> bool \<Rightarrow> int \<Rightarrow> int \<Rightarrow> int \<times> u16 \<Rightarrow> 64 word \<Rightarrow> fec_kcp option" where
  "fec_kcp_new mem_kcp mem_buffer k r rnd junk =
     (case ikcp_create mem_kcp mem_buffer 0x11112222 of
        None \<Rightarrow> None
      | Some kcp \<Rightarrow> Some \<lparr>fk_kcp = kcp, fk_encoder = fec_encoder_new k r 1 rnd junk, fk_decoder = fec_decoder_new 10000\<rparr>)"

definition user_data_send ::
  "(nat \<Rightarrow> bool) \<Rightarrow> u8 list option \<Rightarrow> int \<Rightarrow> fec_kcp \<Rightarrow> (int \<times> fec_kcp) option" where
  "user_data_send mem buf len f =
     map_option (\<lambda>(ret, kcp). (ret, f\<lparr>fk_kcp := kcp\<rparr>)) (ikcp_send mem buf len (fk_kcp f))"

definition data_output :: "bool \<Rightarrow> int \<Rightarrow> fec_kcp \<Rightarrow> (int \<times> u8 list \<times> fec_kcp) option" where
  "data_output has_buffer len f =
     map_option (\<lambda>(ret, out, kcp). (ret, out, f\<lparr>fk_kcp := kcp\<rparr>)) (ikcp_recv has_buffer len (fk_kcp f))"

text \<open>
  The loop of \<open>DataInput\<close>. \<open>clock i\<close> is what the clock shows in round \<open>i\<close>; each round has a zeroed buffer
  of \<open>len + 1\<close> bytes, of which \<open>len\<close> go to kcp.
\<close>

partial_function (option) data_loop ::
  "(nat \<Rightarrow> int) \<Rightarrow> int \<Rightarrow> int \<Rightarrow> fec_decoder \<Rightarrow> ikcpcb \<Rightarrow> (int \<times> fec_decoder \<times> ikcpcb) option" where
  "data_loop clock len ret d kcp =
     (if len \<le> 0 then Some (ret, d, kcp)
      else case fec_decode_output (clock 0) (Some (replicate (nat len + 1) 0)) len d of
          None \<Rightarrow> None
        | Some (ret, recv_buf, d) \<Rightarrow>
            if ret < 0 then Some (ret, d, kcp)
            else case ikcp_input (map_option (take (nat len)) recv_buf) kcp of
                (temp_ret, kcp) \<Rightarrow>
                  data_loop (\<lambda>i. clock (Suc i)) ret (if temp_ret < 0 then temp_ret else ret) d kcp)"

definition data_input ::
  "64 word \<Rightarrow> int \<Rightarrow> int \<Rightarrow> (nat \<Rightarrow> int) \<Rightarrow> u8 list option \<Rightarrow> int \<Rightarrow> fec_kcp \<Rightarrow> rs_static \<Rightarrow>
     (int \<times> fec_kcp \<times> rs_static) option" where
  "data_input addr now now' clock buf len f s =
     (case fec_decode_input addr now now' buf len (fk_decoder f) s of
        None \<Rightarrow> None
      | Some (len, d, s) \<Rightarrow>
          (case data_loop clock len 0 d (fk_kcp f) of
             None \<Rightarrow> None
           | Some (ret, d, kcp) \<Rightarrow> Some (ret, f\<lparr>fk_decoder := d, fk_kcp := kcp\<rparr>, s)))"

text \<open>
  \<open>KcpSendFunc\<close>, the output callback of kcp: the result, the packets passed to the sending function, and
  the encoder. The result of the sending function is not looked at; the test after it repeats the
  one on the result of \<open>Output\<close>.
\<close>

definition kcp_send_func ::
  "64 word \<Rightarrow> u8 list \<Rightarrow> fec_encoder \<Rightarrow> rs_static \<Rightarrow> (int \<times> u8 list list \<times> fec_encoder \<times> rs_static) option" where
  "kcp_send_func addr buf e s =
     (case fec_encode_input addr (Some buf) (int (length buf)) e s of
        None \<Rightarrow> None
      | Some (ret, e, s) \<Rightarrow>
          if ret < 0 then Some (-1, [], e, s)
          else if ret = 1
          then case fec_encode_output e of
              (ret, None, e) \<Rightarrow> Some (-2, [], e, s)
            | (ret, Some (pkgs, lens), e) \<Rightarrow>
                if ret < 0 then Some (-2, [], e, s)
                else if length pkgs \<noteq> length lens then Some (-3, [], e, s)
                else Some (0, handed_out (pkgs, lens), e, s)
          else Some (0, [], e, s))"

text \<open>kcp calls it for each datagram in turn and does not look at the results.\<close>

fun send_datagrams ::
  "64 word \<Rightarrow> u8 list list \<Rightarrow> fec_encoder \<Rightarrow> rs_static \<Rightarrow> (u8 list list \<times> fec_encoder \<times> rs_static) option" where
  "send_datagrams addr [] e s = Some ([], e, s)"
| "send_datagrams addr (x # xs) e s =
     (case kcp_send_func addr x e s of
        None \<Rightarrow> None
      | Some (ret, out, e, s) \<Rightarrow>
          (case send_datagrams addr xs e s of
             None \<Rightarrow> None
           | Some (outs, e, s) \<Rightarrow> Some (out @ outs, e, s)))"

definition fec_kcp_update ::
  "64 word \<Rightarrow> int \<Rightarrow> fec_kcp \<Rightarrow> rs_static \<Rightarrow> (u8 list list \<times> fec_kcp \<times> rs_static) option" where
  "fec_kcp_update addr milliseconds f s =
     (let (kcp, datagrams) = ikcp_update (word_of_int milliseconds) (fk_kcp f)
      in case send_datagrams addr datagrams (fk_encoder f) s of
           None \<Rightarrow> None
         | Some (out, e, s) \<Rightarrow> Some (out, f\<lparr>fk_kcp := kcp, fk_encoder := e\<rparr>, s))"

section \<open>FecEncodeManager\<close>

text \<open>
  \<open>res i\<close> is what the \<open>i\<close>-th system call returns. When all is well the function runs into its closing
  brace without a \<open>return\<close>. The C++ standard leaves that undefined even for a caller that ignores the
  result; here, as in \<open>new_listen_socket\<close> (\<open>Fec_Sockets\<close>), the missing return is read as the return
  of an arbitrary integer \<open>junk\<close>, which is what the usual calling conventions make of it. Everything that is proved of
  \<open>manager_input\<close> and its callers is under this reading. The packets that were sent and the state
  of the encoder do not depend on \<open>junk\<close> (\<open>manager_input_sends\<close> below).
\<close>

fun send_all :: "(nat \<Rightarrow> int) \<Rightarrow> int \<Rightarrow> u8 list list \<Rightarrow> int option \<times> u8 list list" where
  "send_all res err [] = (None, [])"
| "send_all res err (x # xs) =
     (if res 0 < 0 then (Some err, [x])
      else let (ret, out) = send_all (\<lambda>i. res (Suc i)) err xs in (ret, x # out))"

definition manager_input ::
  "64 word \<Rightarrow> (nat \<Rightarrow> int) \<Rightarrow> int \<Rightarrow> u8 list \<Rightarrow> fec_encoder \<Rightarrow> rs_static \<Rightarrow>
     (int \<times> u8 list list \<times> fec_encoder \<times> rs_static) option" where
  "manager_input addr res junk data e s =
     (case fec_encode_input addr (Some data) (int (length data)) e s of
        None \<Rightarrow> None
      | Some (ret, e, s) \<Rightarrow>
          if ret < 0 then Some (-1, [], e, s)
          else if ret = 1
          then case fec_encode_output e of
              (ret, None, e) \<Rightarrow> Some (-2, [], e, s)
            | (ret, Some (pkgs, lens), e) \<Rightarrow>
                if ret < 0 then Some (-2, [], e, s)
                else if length pkgs \<noteq> length lens then Some (-3, [], e, s)
                else let (failed, out) = send_all res (-4) (handed_out (pkgs, lens))
                     in Some (case failed of None \<Rightarrow> junk | Some ret \<Rightarrow> ret, out, e, s)
          else Some (junk, [], e, s))"

definition manager_flush :: "(nat \<Rightarrow> int) \<Rightarrow> fec_encoder \<Rightarrow> int \<times> u8 list list \<times> fec_encoder" where
  "manager_flush res e =
     (case fec_encode_flush e of
        (ret, None, e) \<Rightarrow> (0, [], e)
      | (ret, Some (pkgs, lens), e) \<Rightarrow>
          if length pkgs \<noteq> length lens then (-1, [], e)
          else let (ret, out) = send_all res (-2) (map2 (\<lambda>p l. take (nat l) p) pkgs lens)
               in (case ret of None \<Rightarrow> 0 | Some ret \<Rightarrow> ret, out, e))"

section \<open>Zeros behind a datagram\<close>

text \<open>
  The decoder hands out the first packet of a group in a buffer as long as the longest, and a recovered packet
  always, so kcp may get a datagram with zeros behind it. Fewer than a header do not matter.
\<close>

lemma receive_all_conv: "receive_all segs (flag, maxack, latest_ts, k) = (f, m, l, k') \<Longrightarrow> conv k' = conv k"
proof (induction segs arbitrary: flag maxack latest_ts k)
  case (Cons s segs)
  obtain f1 m1 l1 k1 where r: "receive s (flag, maxack, latest_ts, k) = (f1, m1, l1, k1)" by (rule prod_cases4)
  with Cons.prems have "receive_all segs (f1, m1, l1, k1) = (f, m, l, k')" by (simp add: receive_all_def)
  with Cons.IH r receive_conv [of s flag maxack latest_ts k] show ?case by simp
qed (simp add: receive_all_def)

lemma input_loop_rest:
  assumes "\<forall>s\<in>set segs. wire_ok (conv k) s"
  shows "ikcp_input_loop (concat (map wire segs) @ rest) flag maxack latest_ts k =
    (case receive_all segs (flag, maxack, latest_ts, k) of
       (flag, maxack, latest_ts, k) \<Rightarrow> ikcp_input_loop rest flag maxack latest_ts k)"
  using assms
proof (induction segs arbitrary: flag maxack latest_ts k)
  case Nil
  then show ?case by (simp add: receive_all_def)
next
  case (Cons s segs)
  obtain f m l k' where r: "receive s (flag, maxack, latest_ts, k) = (f, m, l, k')"
    by (rule prod_cases4)
  then have "conv k' = conv k"
    using receive_conv [of s flag maxack latest_ts k] by simp
  with Cons.IH [of k' f m l] Cons.prems r show ?case
    by (simp add: ikcp_input_loop_wire receive_all_def)
qed

lemma input_loop_zeros:
  assumes "conv k \<noteq> 0"
  shows "ikcp_input_loop (replicate z 0) flag maxack latest_ts k =
    (if z < 24 then Inr (flag, maxack, latest_ts, k) else Inl (-2, k))"
proof (cases "z < 24")
  case True
  then show ?thesis by (subst ikcp_input_loop.simps) (simp add: unat_overhead)
next
  case False
  then have "fst (ikcp_decode32u (replicate z (0 :: u8))) = 0"
    by (simp add: ikcp_decode32u_def)
  with False assms show ?thesis
    by (subst ikcp_input_loop_step) (auto simp: Let_def)
qed

definition datagram :: "ikcpseg list \<Rightarrow> u8 list" where
  "datagram segs = concat (map wire segs)"

lemma length_datagram:
  assumes "segs \<noteq> []" and "\<forall>s\<in>set segs. wire_ok cv s"
  shows "24 \<le> length (datagram segs)"
  using assms by (cases segs) (auto simp: datagram_def wire_def)

lemma ikcp_input_padded:
  assumes "segs \<noteq> []" and "\<forall>s\<in>set segs. wire_ok (conv k) s" and "conv k \<noteq> 0"
  shows "ikcp_input (Some (datagram segs @ replicate z 0)) k =
    (if z < 24 then ikcp_input (Some (datagram segs)) k
     else (-2, snd (snd (snd (receive_all segs (False, 0, 0, k))))))"
proof -
  obtain f m l k' where r: "receive_all segs (False, 0, 0, k) = (f, m, l, k')" by (rule prod_cases4)
  have cv: "conv k' \<noteq> 0" using receive_all_conv [OF r] assms(3) by simp
  have len: "24 \<le> length (datagram segs)" by (rule length_datagram [OF assms(1,2)])
  have "ikcp_input_loop (datagram segs @ replicate z 0) False 0 0 k =
      (if z < 24 then Inr (f, m, l, k') else Inl (-2, k'))"
    using input_loop_rest [OF assms(2)] input_loop_zeros [OF cv] r by (simp add: datagram_def)
  moreover have "ikcp_input_loop (datagram segs) False 0 0 k = Inr (f, m, l, k')"
    using input_loop_rest [OF assms(2), of "[]"] r by (simp add: datagram_def ikcp_input_loop.simps)
  ultimately show ?thesis
    using len r by (simp add: ikcp_input_def unat_overhead)
qed

text \<open>
  C38 (zeros behind a datagram). A datagram of well-formed segments with zeros behind it: fewer zeros than a
  segment header change nothing; more make \<open>ikcp_input\<close> return -2 after all segments have been
  received, and skip only its work at the end, the counting of skipped segments and the congestion window.
\<close>

theorem input_padded_datagram:
  assumes "segs \<noteq> []" and "\<forall>s\<in>set segs. wire_ok (conv k) s" and "conv k \<noteq> 0"
  shows "ikcp_input (Some (datagram segs @ replicate z 0)) k =
    (if z < 24 then ikcp_input (Some (datagram segs)) k
     else (-2, snd (snd (snd (receive_all segs (False, 0, 0, k))))))"
  using assms by (rule ikcp_input_padded)

theorem input_padded_datagram_witness:
  "fst (ikcp_input (Some (datagram [(sample_seg 0 [7])\<lparr>seg_conv := 9, seg_cmd := 81\<rparr>] @ replicate 30 0)) (kcp_fresh 9)) = -2"
  using input_padded_datagram [of "[(sample_seg 0 [7])\<lparr>seg_conv := 9, seg_cmd := 81\<rparr>]" "kcp_fresh 9" 30]
  by (simp add: wire_ok_def seg_ok_def sample_seg_def ikcp_segment_zero_def kcp_fresh_def ikcp_create_def)

section \<open>What DataInput passes to kcp\<close>

definition deliver :: "u8 list list \<Rightarrow> ikcpcb \<Rightarrow> ikcpcb" where
  "deliver xs k = fold (\<lambda>x k. snd (ikcp_input (Some x) k)) xs k"

lemma deliver_simps [simp]:
  "deliver [] k = k" "deliver (x # xs) k = deliver xs (snd (ikcp_input (Some x) k))"
  by (simp_all add: deliver_def)

text \<open>The packets of a group from packet \<open>i\<close> on, the first in a buffer of \<open>n\<close> bytes.\<close>

definition passed_on :: "u8 list list \<Rightarrow> int list \<Rightarrow> nat \<Rightarrow> nat \<Rightarrow> u8 list list" where
  "passed_on ds lens n i = padded n (ds ! i) # map (\<lambda>j. padded (nat (lens ! j)) (ds ! j)) [i + 1..<length ds]"

lemma data_loop_packets:
  assumes "waiting d [(seq, ds, lens)]" and "at_packet d seq i" and "i < length ds"
    and "\<not> ready_for_output (output_unit d)" and "timeouts_ok t d" and "lens ! i \<le> int n" and "0 < n"
  shows "\<exists>ret' d'. data_loop clock (int n) ret d k = Some (ret', d', deliver (passed_on ds lens n i) k) \<and> ret' \<le> 0 \<and>
    waiting d' [] \<and> \<not> ready_for_output (output_unit d') \<and> timeouts_ok t d'"
  using assms
proof (induction "length ds - i" arbitrary: d i n ret k clock)
  case (Suc m)
  note w = Suc.prems(1) and at = Suc.prems(2,3) and unit = Suc.prems(4) and t = Suc.prems(5)
  let ?d = "touch_ready d" and ?buf = "replicate (n + 1) (0 :: u8)"
  let ?out = "padded n (ds ! i) @ drop n ?buf"
  have td: "waiting ?d [(seq, ds, lens)]" "at_packet ?d seq i" "\<not> ready_for_output (output_unit ?d)" "timeouts_ok t ?d"
    using touch_ready_waiting [OF w] at(1) unit t
    by (simp_all add: at_packet_def touch_next_same) (simp_all add: touch_ready_def)
  have out: "fec_decode_output (clock 0) (Some ?buf) (int n) d =
    (if i + 1 = length ds then next_group (clock 0) ?out (finish_group seq (next_index ?d))
     else Some (lens ! (i + 1), Some ?out, next_index ?d))"
    using output_positioned [OF w at(1) unit]
      output_current_packet [OF td(1,2) at(2) Suc.prems(6), of ?buf "clock 0"] by simp
  have f: "length (ds ! i) \<le> n" "0 < lens ! j" if "j < length ds" for j
  proof -
    have "decoded d seq ds lens" using w by (simp add: waiting_def group_fine_def)
    then have "holds_packet (pkgs_of d seq ! i) (lens ! i) (ds ! i)" "0 < lens ! j"
      using at(2) that by (simp_all add: decoded_def)
    then show "length (ds ! i) \<le> n" "0 < lens ! j" using Suc.prems(6) by (auto simp: holds_packet_def)
  qed
  have "length (padded n (ds ! i)) = n" using f(1) [OF at(2)] by (simp add: padded_def)
  then have tk: "take n ?out = padded n (ds ! i)" by simp
  obtain tr k1 where k1: "ikcp_input (Some (padded n (ds ! i))) k = (tr, k1)" by (cases "ikcp_input (Some (padded n (ds ! i))) k")
  show ?case
  proof (cases "i + 1 = length ds")
    case True
    let ?f = "finish_group seq (next_index ?d)"
    have fin: "waiting ?f []" "\<not> ready_for_output (output_unit ?f)" "timeouts_ok t ?f"
      using finish_group_waiting [OF next_index_waiting [OF td(1)]] td(3,4)
      by (simp_all add: touch_next_same) (simp_all add: finish_group_def next_index_def)
    obtain d' where d': "next_group (clock 0) ?out ?f = Some (0, Some ?out, d')" "waiting d' []" "timeouts_ok t d'"
        "output_unit d' = output_unit ?f"
      using next_group_empty [OF fin(1,3)] by blast
    have "data_loop (\<lambda>i. clock (Suc i)) 0 (if tr < 0 then tr else 0) d' k1 = Some (if tr < 0 then tr else 0, d', k1)"
      by (subst data_loop.simps) simp
    then have "data_loop clock (int n) ret d k = Some (if tr < 0 then tr else 0, d', k1)"
      using out True d'(1) tk k1 Suc.prems(7) by (subst data_loop.simps) simp
    moreover have "passed_on ds lens n i = [padded n (ds ! i)]" using True by (simp add: passed_on_def)
    ultimately show ?thesis using d' fin(2) k1 by auto
  next
    case False
    then have i: "i + 1 < length ds" using at(2) by simp
    let ?n = "nat (lens ! (i + 1))"
    have pos: "0 < lens ! (i + 1)" using f(2) [OF i] .
    have nd: "waiting (next_index ?d) [(seq, ds, lens)]" "at_packet (next_index ?d) seq (i + 1)"
        "\<not> ready_for_output (output_unit (next_index ?d))" "timeouts_ok t (next_index ?d)"
      using next_index_waiting [OF td(1)] td(2-4) by (simp_all add: touch_next_same)
        (simp_all add: next_index_def at_packet_def add.commute)
    have "m = length ds - (i + 1)" "lens ! (i + 1) \<le> int ?n" "0 < ?n" using Suc.hyps(2) pos by simp_all
    from Suc.hyps(1) [OF this(1) nd(1,2) i nd(3,4) this(2,3), of "\<lambda>i. clock (Suc i)" "if tr < 0 then tr else lens ! (i + 1)" k1]
    obtain ret' d' where rest: "data_loop (\<lambda>i. clock (Suc i)) (lens ! (i + 1)) (if tr < 0 then tr else lens ! (i + 1))
          (next_index ?d) k1 = Some (ret', d', deliver (passed_on ds lens ?n (i + 1)) k1)"
        "ret' \<le> 0" "waiting d' []" "\<not> ready_for_output (output_unit d')" "timeouts_ok t d'"
      using pos by auto
    have "data_loop clock (int n) ret d k = Some (ret', d', deliver (passed_on ds lens ?n (i + 1)) k1)"
      using out False rest(1) tk k1 Suc.prems(7) pos by (subst data_loop.simps) (cases "tr < 0"; simp)
    moreover have "passed_on ds lens n i = padded n (ds ! i) # passed_on ds lens ?n (i + 1)"
      using i by (simp add: passed_on_def upt_conv_Cons)
    ultimately show ?thesis using rest(2-5) k1 by simp
  qed
qed simp

lemma data_loop_group:
  assumes w: "waiting d [(seq, ds, lens)]" and none: "no_current d" and unit: "\<not> ready_for_output (output_unit d)"
    and t: "timeouts_ok t d"
  shows "\<exists>ret' d'. data_loop clock (int (longest ds)) ret d k =
      Some (ret', d', deliver (passed_on ds lens (longest ds) 0) k) \<and> ret' \<le> 0 \<and>
    waiting d' [] \<and> \<not> ready_for_output (output_unit d') \<and> timeouts_ok t d'"
proof -
  have f: "0 < length ds" "0 < lens ! 0" "lens ! 0 \<le> int (longest ds)"
    using w by (auto simp: waiting_def group_fine_def decoded_def)
  then have pos: "0 < longest ds" by linarith
  obtain d1 where d1: "fec_decode_output (clock 0) (Some (replicate (longest ds + 1) 0)) (int (longest ds)) d =
      fec_decode_output (clock 0) (Some (replicate (longest ds + 1) 0)) (int (longest ds)) d1"
      "waiting d1 [(seq, ds, lens)]" "at_packet d1 seq 0" "\<not> ready_for_output (output_unit d1)" "timeouts_ok t d1"
    using output_starts [OF w _ none unit t, of "int (longest ds)" "clock 0" "Some (replicate (longest ds + 1) 0)"] by auto
  have "data_loop clock (int (longest ds)) ret d k = data_loop clock (int (longest ds)) ret d1 k"
    by (subst (1 2) data_loop.simps) (use d1(1) pos in simp)
  with data_loop_packets [OF d1(2,3) f(1) d1(4,5) f(3) pos] show ?thesis by simp
qed

text \<open>The calls of \<open>DataInput\<close> for a sequence of datagrams from the network.\<close>

fun data_inputs ::
  "64 word \<Rightarrow> (nat \<Rightarrow> int) \<Rightarrow> (int \<times> int \<times> u8 list \<times> int) list \<Rightarrow> fec_kcp \<Rightarrow> rs_static \<Rightarrow>
     (int list \<times> fec_kcp \<times> rs_static) option" where
  "data_inputs addr clock [] f s = Some ([], f, s)"
| "data_inputs addr clock ((now, now', input, len) # rest) f s =
     (case data_input addr now now' clock (Some input) len f s of
        None \<Rightarrow> None
      | Some (ret, f, s) \<Rightarrow>
          (case data_inputs addr clock rest f s of
             None \<Rightarrow> None
           | Some (rets, f, s) \<Rightarrow> Some (ret # rets, f, s)))"

lemma data_inputs_length:
  "data_inputs addr clock calls f s = Some (rets, f', s') \<Longrightarrow> length rets = length calls"
  by (induction addr clock calls f s arbitrary: rets rule: data_inputs.induct) (auto split: option.splits)

lemma data_loop_none: "data_loop clock 0 ret d k = Some (ret, d, k)"
  by (subst data_loop.simps) simp

text \<open>As long as the decoder reports nothing, nothing happens; the call that completes a group passes it on.\<close>

lemma data_inputs_decoded:
  assumes "decode_inputs addr calls (fk_decoder f) s = Some (replicate m 0 @ [l], d, s')"
    and "data_loop clock l 0 d (fk_kcp f) = Some (ret, d', k')"
  shows "data_inputs addr clock calls f s = Some (replicate m 0 @ [ret], f\<lparr>fk_decoder := d', fk_kcp := k'\<rparr>, s')"
  using assms
proof (induction m arbitrary: calls f s)
  case 0
  obtain now now' input len rest where c: "calls = (now, now', input, len) # rest"
    using 0(1) by (cases calls) auto
  have "rest = []"
    using 0(1) by (cases rest) (auto simp: c split: option.splits prod.splits)
  with 0 show ?case by (auto simp: c data_input_def split: option.splits)
next
  case (Suc m)
  obtain now now' input len rest where c: "calls = (now, now', input, len) # rest"
    using Suc.prems(1) by (cases calls) auto
  obtain d1 s1 where d1: "fec_decode_input addr now now' (Some input) len (fk_decoder f) s = Some (0, d1, s1)"
      "decode_inputs addr rest d1 s1 = Some (replicate m 0 @ [l], d, s')"
    using Suc.prems(1) by (auto simp: c split: option.splits)
  let ?f = "f\<lparr>fk_decoder := d1\<rparr>"
  have same: "f\<lparr>fk_decoder := d1, fk_kcp := fk_kcp f\<rparr> = ?f" by simp
  have "data_input addr now now' clock (Some input) len f s = Some (0, ?f, s1)"
    unfolding data_input_def using d1(1) data_loop_none same by simp
  moreover have "data_inputs addr clock rest ?f s1 = Some (replicate m 0 @ [ret], ?f\<lparr>fk_decoder := d', fk_kcp := k'\<rparr>, s')"
    using Suc.IH [of rest ?f s1] d1(2) Suc.prems(2) by simp
  ultimately show ?case by (simp add: c)
qed

section \<open>Sending\<close>

lemma kcp_send_func_partial:
  assumes "holds k r e ds" and "packet_ok x" and "length ds + 1 < k"
  shows "\<exists>e'. kcp_send_func addr x e s = Some (0, [], e', s) \<and> holds k r e' (ds @ [x]) \<and> enc_seq e' = enc_seq e"
  using fec_encode_input_holds [OF assms, of addr s] by (auto simp: kcp_send_func_def)

lemma kcp_send_func_completes:
  assumes "holds k r e ds" and "packet_ok x" and "length ds + 1 = k" and "rs_static_ok s"
  shows "\<exists>e' s' cw. kcp_send_func addr x e s = Some (0, group_packets (enc_seq e) k r (ds @ [x]) cw, e', s') \<and>
    group_codeword k r (ds @ [x]) cw \<and> holds k r e' [] \<and> enc_seq e' = next_seq (enc_seq e) \<and> rs_static_ok s'"
proof -
  obtain e1 s1 cw where e1: "fec_encode_input addr (Some x) (int (length x)) e s = Some (1, e1, s1)" "rs_static_ok s1"
      "group_codeword k r (ds @ [x]) cw" "encoded k r e1 (group_packets (enc_seq e) k r (ds @ [x]) cw)"
      "enc_seq e1 = next_seq (enc_seq e)"
    using fec_encode_input_completes [OF assms] by blast
  obtain out e' where e': "fec_encode_output e1 = (0, Some out, e')" "handed_out out = group_packets (enc_seq e) k r (ds @ [x]) cw"
      "holds k r e' []" "enc_seq e' = enc_seq e1"
    using fec_encode_output_encoded [OF e1(4)] by blast
  have "length (fst out) = length (snd out)"
    using e'(1,3) e1(4) by (auto simp: fec_encode_output_def encoded_def enc_params_def split: if_splits)
  with e1 e' show ?thesis by (cases out) (auto simp: kcp_send_func_def)
qed

lemma send_datagrams_append:
  "send_datagrams addr (xs @ ys) e s =
     (case send_datagrams addr xs e s of
        None \<Rightarrow> None
      | Some (out, e, s) \<Rightarrow>
          (case send_datagrams addr ys e s of
             None \<Rightarrow> None
           | Some (outs, e, s) \<Rightarrow> Some (out @ outs, e, s)))"
  by (induction xs arbitrary: e s) (auto split: option.splits)

lemma send_datagrams_partial:
  assumes "holds k r e ds" and "\<forall>x\<in>set xs. packet_ok x" and "length ds + length xs < k"
  shows "\<exists>e'. send_datagrams addr xs e s = Some ([], e', s) \<and> holds k r e' (ds @ xs) \<and> enc_seq e' = enc_seq e"
  using assms
proof (induction xs arbitrary: e ds)
  case (Cons x xs)
  obtain e1 where e1: "kcp_send_func addr x e s = Some (0, [], e1, s)" "holds k r e1 (ds @ [x])" "enc_seq e1 = enc_seq e"
    using kcp_send_func_partial [OF Cons.prems(1), of x addr s] Cons.prems(2,3) by auto
  from Cons.IH [OF e1(2)] Cons.prems(2,3) obtain e' where
    "send_datagrams addr xs e1 s = Some ([], e', s)" "holds k r e' ((ds @ [x]) @ xs)" "enc_seq e' = enc_seq e1" by auto
  with e1(1,3) show ?case by simp
qed simp

text \<open>The first datagrams fill the group that is open, the next \<open>k\<close> another one, and so on.\<close>

lemma send_datagrams_group:
  assumes "holds k r e ds" and "\<forall>x\<in>set xs. packet_ok x" and "length ds + length xs = k" and "xs \<noteq> []" and "rs_static_ok s"
  shows "\<exists>e' s' cw. send_datagrams addr xs e s = Some (group_packets (enc_seq e) k r (ds @ xs) cw, e', s') \<and>
    group_codeword k r (ds @ xs) cw \<and> holds k r e' [] \<and> enc_seq e' = next_seq (enc_seq e) \<and> rs_static_ok s'"
proof -
  obtain ys x where xs: "xs = ys @ [x]" using assms(4) by (cases xs rule: rev_cases) auto
  obtain e1 where e1: "send_datagrams addr ys e s = Some ([], e1, s)" "holds k r e1 (ds @ ys)" "enc_seq e1 = enc_seq e"
    using send_datagrams_partial [OF assms(1), of ys addr s] assms(2,3) by (auto simp: xs)
  obtain e' s' cw where "kcp_send_func addr x e1 s = Some (0, group_packets (enc_seq e1) k r ((ds @ ys) @ [x]) cw, e', s')"
    "group_codeword k r ((ds @ ys) @ [x]) cw" "holds k r e' []" "enc_seq e' = next_seq (enc_seq e1)" "rs_static_ok s'"
    using kcp_send_func_completes [OF e1(2) _ _ assms(5), of x addr] assms(2,3) by (auto simp: xs)
  with e1(1,3) show ?thesis by (auto simp: xs send_datagrams_append)
qed

section \<open>From kcp to kcp\<close>

text \<open>A decoder with nothing to hand out that does not know the group \<open>seq\<close>.\<close>

definition receptive :: "u32 \<Rightarrow> int \<Rightarrow> fec_decoder \<Rightarrow> bool" where
  "receptive seq t d \<longleftrightarrow> fresh_seq seq d \<and> waiting d [] \<and> \<not> ready_for_output (output_unit d) \<and> timeouts_ok t d \<and>
     last_process_seq (output_unit d) \<noteq> seq"

lemma receive_group:
  assumes f: "receptive (ucast sq) t (fk_decoder f)" and as: "length as = k"
      "distinct_arrivals (group_packets sq k r ds cw) as" "timely (timeout_limit_ms (timeout_keys (fk_decoder f))) t as"
    and ds: "group_codeword k r ds cw" "length ds = k" "\<forall>x\<in>set ds. packet_ok x" "1 \<le> k" "k + r \<le> 127"
    and sq: "1 \<le> unat sq" and s: "rs_static_ok s"
  shows "\<exists>ret d s'. data_inputs addr clock (received_calls ds as) f s = Some (replicate (k - 1) 0 @ [ret],
      f\<lparr>fk_decoder := d, fk_kcp := deliver (passed_on ds (decoded_lengths ds (set (map arrival_index as))) (longest ds) 0) (fk_kcp f)\<rparr>, s') \<and>
    rs_static_ok s' \<and> waiting d [] \<and> timeouts_ok (end_time t as) d"
proof -
  let ?d = "fk_decoder f" and ?seq = "ucast sq :: u32"
  have d: "fresh_seq ?seq ?d" "waiting ?d []" "\<not> ready_for_output (output_unit ?d)" "timeouts_ok t ?d"
      "last_process_seq (output_unit ?d) \<noteq> ?seq"
    using f by (simp_all add: receptive_def)
  obtain d1 s1 where dec: "decode_inputs addr (received_calls ds as) ?d s =
        Some (replicate (k - 1) 0 @ [int (longest ds)], d1, s1)" "rs_static_ok s1"
      "decoded d1 ?seq ds (decoded_lengths ds (set (map arrival_index as)))" "timeouts_ok (end_time t as) d1"
      "only_adds ?seq ?d d1"
    using any_k_decode [OF d(1,4) as(3,1,2) ds s, of addr] by blast
  have "unat sq < 2 ^ LENGTH(16)" by (rule unsigned_less)
  then have "unat ?seq = unat sq" "unat sq < 65536"
    by (simp_all add: unsigned_ucast_eq take_bit_nat_eq_self)
  then have seq: "?seq \<noteq> 0" "?seq \<le> 65535" using sq by (auto simp: word_le_nat_alt)
  have "longest ds \<le> 65535" using ds(3) by (intro longest_le) (auto simp: packet_ok_def)
  then have w: "waiting d1 [(?seq, ds, decoded_lengths ds (set (map arrival_index as)))]"
    using d(2) dec(3,5) seq ds(2,4,5) by (auto simp: waiting_def only_adds_def group_fine_def)
  have none: "no_current d1"
    using d(2,5) dec(5) by (simp add: no_current_def only_adds_def waiting_def)
  have unit: "\<not> ready_for_output (output_unit d1)" using d(3) dec(5) by (simp add: only_adds_def)
  obtain ret d2 where d2: "data_loop clock (int (longest ds)) 0 d1 (fk_kcp f) = Some (ret, d2,
      deliver (passed_on ds (decoded_lengths ds (set (map arrival_index as))) (longest ds) 0) (fk_kcp f))"
      "waiting d2 []" "timeouts_ok (end_time t as) d2"
    using data_loop_group [OF w none unit dec(4), of clock 0 "fk_kcp f"] by blast
  from data_inputs_decoded [OF dec(1) d2(1)] d2(2,3) dec(2) show ?thesis by blast
qed

text \<open>
  C3 (a kcp peer behind the codec). A call of \<open>FecKcpUpdate\<close> in which kcp emits the datagrams that complete a
  group: the sender's codec sends the \<open>k + r\<close> packets of the group. Whichever \<open>k\<close> of them reach
  \<open>DataInput\<close> of a peer, in whatever order, the peer's kcp has then been given the group's
  datagrams, the ones from earlier calls first, each once and in order, with zeros behind
  some of them: the first up to the length of the longest, and those that were lost.
\<close>

theorem fec_kcp_link:
  assumes a: "endpoint_inv (fk_kcp a)" "unat (mtu (fk_kcp a)) \<le> 65535" "holds k r (fk_encoder a) ds0" "k + r \<le> 127"
    and update: "ikcp_update (word_of_int ms) (fk_kcp a) = (kcp, dgs)" "length ds0 + length dgs = k" "dgs \<noteq> []"
    and b: "receptive (ucast (enc_seq (fk_encoder a))) t (fk_decoder b)"
    and s: "rs_static_ok s" "rs_static_ok s'"
  shows "\<exists>out a' s1. fec_kcp_update addr ms a s = Some (out, a', s1) \<and> fk_kcp a' = kcp \<and> length out = k + r \<and>
    (\<forall>as. length as = k \<and> distinct_arrivals out as \<and>
       timely (timeout_limit_ms (timeout_keys (fk_decoder b))) t as \<longrightarrow>
       (\<exists>rets b' s2. data_inputs addr' clock (received_calls (ds0 @ dgs) as) b s' = Some (rets, b', s2) \<and>
          fk_kcp b' = deliver (passed_on (ds0 @ dgs) (decoded_lengths (ds0 @ dgs) (set (map arrival_index as)))
             (longest (ds0 @ dgs)) 0) (fk_kcp b)))"
proof -
  let ?ds = "ds0 @ dgs" and ?e = "fk_encoder a"
  have dgs: "\<forall>x\<in>set dgs. packet_ok x"
    using endpoint_inv_update_datagrams [OF a(1), of "word_of_int ms"] a(2) update(1) by (fastforce simp: packet_ok_def)
  then have ds: "\<forall>x\<in>set ?ds. packet_ok x" "length ?ds = k"
    using a(3) update(2) by (auto simp: holds_def)
  have k: "1 \<le> k" "1 \<le> unat (enc_seq ?e)" using a(3) by (simp_all add: holds_def enc_params_def)
  obtain e' s1 cw where send: "send_datagrams addr dgs ?e s = Some (group_packets (enc_seq ?e) k r ?ds cw, e', s1)"
      "group_codeword k r ?ds cw"
    using send_datagrams_group [OF a(3) dgs update(2,3) s(1)] by blast
  have "fec_kcp_update addr ms a s =
      Some (group_packets (enc_seq ?e) k r ?ds cw, a\<lparr>fk_kcp := kcp, fk_encoder := e'\<rparr>, s1)"
    by (simp add: fec_kcp_update_def update(1) send(1))
  then show ?thesis
    using receive_group [OF b _ _ _ send(2) ds(2,1) k(1) a(4) k(2) s(2), of _ addr' clock] by fastforce
qed

lemma update_example:
  "length (snd (ikcp_update 100 ready_to_send)) = 1"
  by code_simp

theorem fec_kcp_link_witness:
  "\<exists>a b dg out a' s1 ret b' s2. snd (ikcp_update 100 (fk_kcp a)) = [dg] \<and> holds 1 1 (fk_encoder a) [] \<and>
    fec_kcp_update 0 100 a rs_static_start = Some (out, a', s1) \<and>
    data_inputs 8 (\<lambda>i. 30) [(10, 10, out ! 1 @ [0], 11 + int (length dg))] b rs_static_start = Some ([ret], b', s2) \<and>
    fk_kcp b' = snd (ikcp_input (Some dg) (fk_kcp b))"
proof -
  let ?a = "\<lparr>fk_kcp = ready_to_send, fk_encoder = fec_encoder_new 1 1 1 (0, 5) 0, fk_decoder = fec_decoder_new 10000\<rparr>"
  let ?b = "\<lparr>fk_kcp = kcp_fresh 9, fk_encoder = fec_encoder_new 1 1 1 (0, 7) 0, fk_decoder = fec_decoder_new 10000\<rparr>"
  obtain kcp dgs where up: "ikcp_update (word_of_int 100) (fk_kcp ?a) = (kcp, dgs)"
    by (cases "ikcp_update (word_of_int 100) (fk_kcp ?a)")
  obtain dg where dg: "dgs = [dg]" using update_example up by (auto simp: length_Suc_conv)
  have e: "holds 1 1 (fk_encoder ?a) []" using fec_encoder_new_holds [of 1 1 "[Some 5]"] by simp
  have inv: "endpoint_inv (fk_kcp ?a)" "unat (mtu (fk_kcp ?a)) \<le> 65535"
    using ready_to_send_inv by (simp_all add: endpoint_inv_def) (simp add: ready_to_send_def kcp_fresh_def ikcp_create_def)
  have b: "receptive (ucast (enc_seq (fk_encoder ?a))) 0 (fk_decoder ?b)"
    using fec_decoder_new_ok [of 10000]
    by (simp add: receptive_def waiting_def) (simp add: fec_decoder_new_def fetch_def fec_encoder_new_def)
  obtain out a' s1 where send: "fec_kcp_update 0 100 ?a rs_static_start = Some (out, a', s1)" "length out = 2"
    and recv: "\<And>as. length as = 1 \<Longrightarrow> distinct_arrivals out as \<Longrightarrow>
       timely (timeout_limit_ms (timeout_keys (fk_decoder ?b))) 0 as \<Longrightarrow>
       (\<exists>rets b' s2. data_inputs 8 (\<lambda>i. 30) (received_calls [dg] as) ?b rs_static_start = Some (rets, b', s2) \<and>
          fk_kcp b' = deliver (passed_on [dg] (decoded_lengths [dg] (set (map arrival_index as))) (longest [dg]) 0) (fk_kcp ?b))"
    using fec_kcp_link [OF inv e _ up _ _ b rs_static_start_ok rs_static_start_ok, of 0 8 "\<lambda>i. 30"] by (auto simp: dg)
  let ?as = "[(10, 10, 1, out ! 1 @ [0])]"
  have as: "distinct_arrivals out ?as" using send(2) by (simp add: distinct_arrivals_def arrives_def)
  have "timely (timeout_limit_ms (timeout_keys (fk_decoder ?b))) 0 ?as" by (simp add: fec_decoder_new_def timeout_map_new_def)
  from recv [OF _ as this] obtain rets b' s2 where
    r: "data_inputs 8 (\<lambda>i. 30) (received_calls [dg] ?as) ?b rs_static_start = Some (rets, b', s2)"
      "fk_kcp b' = deliver (passed_on [dg] (decoded_lengths [dg] (set (map arrival_index ?as))) (longest [dg]) 0) (fk_kcp ?b)"
    by auto
  have "longest [dg] = length dg" by (simp add: longest_def)
  then have calls: "received_calls [dg] ?as = [(10, 10, out ! 1 @ [0], 11 + int (length dg))]"
    and kcp: "fk_kcp b' = snd (ikcp_input (Some dg) (fk_kcp ?b))"
    using r(2) by (simp_all add: received_calls_def passed_on_def padded_def)
  obtain ret where "rets = [ret]"
    using data_inputs_length [OF r(1)] by (auto simp: received_calls_def length_Suc_conv)
  with r(1) calls have "data_inputs 8 (\<lambda>i. 30) [(10, 10, out ! 1 @ [0], 11 + int (length dg))] ?b rs_static_start = Some ([ret], b', s2)"
    by simp
  moreover have "snd (ikcp_update 100 (fk_kcp ?a)) = [dg]" using up dg by simp
  ultimately show ?thesis using send(1) e kcp by blast
qed

section \<open>The manager's sends\<close>

lemma send_all_ok: "\<forall>i<length xs. 0 \<le> res i \<Longrightarrow> send_all res err xs = (None, xs)"
proof (induction xs arbitrary: res)
  case (Cons x xs)
  have "0 \<le> res 0" "\<forall>i<length xs. 0 \<le> res (Suc i)" using Cons.prems by auto
  with Cons.IH [of "\<lambda>i. res (Suc i)"] show ?case by simp
qed simp

lemma send_all_fails:
  "j < length xs \<Longrightarrow> res j < 0 \<Longrightarrow> \<forall>i<j. 0 \<le> res i \<Longrightarrow> send_all res err xs = (Some err, take (Suc j) xs)"
proof (induction xs arbitrary: res j)
  case (Cons x xs)
  show ?case
  proof (cases j)
    case 0
    with Cons.prems show ?thesis by simp
  next
    case (Suc i)
    then have "0 \<le> res 0" "\<forall>l<i. 0 \<le> res (Suc l)" using Cons.prems by auto
    with Cons.IH [of i "\<lambda>i. res (Suc i)"] Cons.prems(1,2) Suc show ?thesis by simp
  qed
qed simp

text \<open>
  When the packets of a group are sent by \<open>FecEncodeManager\<close> and send \<open>j\<close> fails, \<open>Input\<close>
  returns -4, the packets after \<open>j\<close> are never sent, and the encoder has already moved on to
  the next group; when no send fails the missing return is reached: any \<open>junk\<close> may be the result.
\<close>

theorem manager_input_sends:
  assumes "holds k r e ds" and "packet_ok x" and "length ds + 1 = k" and "rs_static_ok s"
  shows "\<exists>pkts e' s'. length pkts = k + r \<and> holds k r e' [] \<and> enc_seq e' = next_seq (enc_seq e) \<and>
    (\<forall>res junk. (\<forall>i<k + r. 0 \<le> res i) \<longrightarrow> manager_input addr res junk x e s = Some (junk, pkts, e', s')) \<and>
    (\<forall>res junk j. j < k + r \<and> res j < 0 \<and> (\<forall>i<j. 0 \<le> res i) \<longrightarrow>
       manager_input addr res junk x e s = Some (-4, take (Suc j) pkts, e', s'))"
proof -
  obtain e1 s1 cw where e1: "fec_encode_input addr (Some x) (int (length x)) e s = Some (1, e1, s1)"
      "encoded k r e1 (group_packets (enc_seq e) k r (ds @ [x]) cw)" "enc_seq e1 = next_seq (enc_seq e)"
    using fec_encode_input_completes [OF assms] by blast
  let ?pkts = "group_packets (enc_seq e) k r (ds @ [x]) cw"
  obtain pkgs lens e' where e': "fec_encode_output e1 = (0, Some (pkgs, lens), e')" "handed_out (pkgs, lens) = ?pkts"
      "holds k r e' []" "enc_seq e' = enc_seq e1"
    using fec_encode_output_encoded [OF e1(2)] by auto
  have "length pkgs = length lens"
    using e'(1) e1(2) by (auto simp: fec_encode_output_def encoded_def enc_params_def split: if_splits)
  then have run: "manager_input addr res junk x e s =
      (let (failed, out) = send_all res (-4) ?pkts
       in Some (case failed of None \<Rightarrow> junk | Some ret \<Rightarrow> ret, out, e', s1))" for res junk
    using e1(1) e'(1,2) by (simp add: manager_input_def)
  show ?thesis
    using e'(3,4) e1(3) send_all_ok [of ?pkts] send_all_fails [of _ ?pkts]
    by (intro exI [of _ ?pkts] exI [of _ e'] exI [of _ s1]) (auto simp: run)
qed

theorem manager_input_sends_witness:
  "\<exists>pkts e' s'. length pkts = 2 \<and> holds 1 1 e' [] \<and>
    manager_input 0 (\<lambda>i. 12) 99 [7] (fec_encoder_new 1 1 1 (0, 5) 0) rs_static_start = Some (99, pkts, e', s') \<and>
    manager_input 0 (\<lambda>i. if i = 0 then -1 else 12) 99 [7] (fec_encoder_new 1 1 1 (0, 5) 0) rs_static_start =
      Some (-4, take 1 pkts, e', s')"
proof -
  have e: "holds 1 1 (fec_encoder_new 1 1 1 (0, 5) 0) []" using fec_encoder_new_holds [of 1 1 "[Some 5]"] by simp
  have x: "packet_ok [7]" and n: "length ([] :: u8 list list) + 1 = 1" by (simp_all add: packet_ok_def)
  obtain pkts e' s' where m: "length pkts = 2" "holds 1 1 e' []"
    "\<And>res junk. \<forall>i<2. 0 \<le> res i \<Longrightarrow> manager_input 0 res junk [7] (fec_encoder_new 1 1 1 (0, 5) 0) rs_static_start = Some (junk, pkts, e', s')"
    "\<And>res junk j. j < 2 \<Longrightarrow> res j < 0 \<Longrightarrow> \<forall>i<j. 0 \<le> res i \<Longrightarrow>
       manager_input 0 res junk [7] (fec_encoder_new 1 1 1 (0, 5) 0) rs_static_start = Some (-4, take (Suc j) pkts, e', s')"
    using manager_input_sends [OF e x n rs_static_start_ok, of 0] unfolding one_add_one by blast
  show ?thesis
    using m(1,2) m(3) [of "\<lambda>i. 12" 99] m(4) [of 0 "\<lambda>i. if i = 0 then -1 else 12" 99]
    by (intro exI [of _ pkts] exI [of _ e'] exI [of _ s']) simp
qed

end
