(* ===== verification/Fec_Samples.thy ===== *)
theory Fec_Samples
  imports Fec_Kcp
begin

text \<open>
  The event handlers of the sample programs \<open>samples/fec_kcp_server.cpp\<close> and \<open>samples/fec_kcp_client.cpp\<close>:
  tunnels that carry the datagrams of an application over kcp and the packet codec. One handler
  per file descriptor of the epoll loop; what a system call returns is an argument, what it is
  called with a result. The receive buffer has 2048 bytes and is cleared before every use.

  The log lines only count where they read memory: a byte array that goes to a stream as a C string is read up to
  its first zero, beyond its end when it has none, and that is undefined behaviour (\<open>None\<close>). It
  concerns the received messages, which both programs log, and the decoded packets, which the client logs.
\<close>

section \<open>State\<close>

text \<open>
  An address is an IPv4 address and a port. The server sends to its peer at \<open>tun_addr\<close>, the client to its
  application; their other sockets are connected.
\<close>

type_synonym inet_addr = "u32 \<times> u16"

record tunnel =
  tun_kcp :: ikcpcb
  tun_encoder :: fec_encoder
  tun_decoder :: fec_decoder
  tun_addr :: inet_addr

definition tunnel_new ::
  "bool \<Rightarrow> bool \<Rightarrow> int \<times> u16 \<Rightarrow> 64 word \<Rightarrow> tunnel option" where
  "tunnel_new mem_kcp mem_buffer rnd junk =
     (case ikcp_create mem_kcp mem_buffer 0x11111111 of
        None \<Rightarrow> None
      | Some kcp \<Rightarrow> Some \<lparr>tun_kcp = kcp, tun_encoder = fec_encoder_new 2 1 5 rnd junk,
                         tun_decoder = fec_decoder_new 10000, tun_addr = (0, 0)\<rparr>)"

abbreviation recv_buf_size :: nat where
  "recv_buf_size \<equiv> 2048"

text \<open>The receive buffer, cleared and then filled from the front; and an array without an end for a C string.\<close>

definition recv_array :: "u8 list \<Rightarrow> u8 list" where
  "recv_array out = take recv_buf_size (out @ replicate recv_buf_size 0)"

definition unterminated :: "u8 list \<Rightarrow> bool" where
  "unterminated buf \<longleftrightarrow> 0 \<notin> set buf"

section \<open>Data from the application\<close>

text \<open>\<open>None\<close> is a failed read; the result of \<open>ikcp_send\<close> is only logged.\<close>

definition send_app_data :: "(nat \<Rightarrow> bool) \<Rightarrow> u8 list \<Rightarrow> tunnel \<Rightarrow> tunnel option" where
  "send_app_data mem data tun =
     map_option (\<lambda>(temp_ret, kcp). tun\<lparr>tun_kcp := kcp\<rparr>) (ikcp_send mem (Some data) (int (length data)) (tun_kcp tun))"

definition server_on_app_data :: "(nat \<Rightarrow> bool) \<Rightarrow> u8 list option \<Rightarrow> tunnel \<Rightarrow> tunnel option" where
  "server_on_app_data mem input tun =
     (case input of
        None \<Rightarrow> Some tun
      | Some data \<Rightarrow> send_app_data mem data tun)"

text \<open>The client remembers the application that sent last.\<close>

definition client_on_app_data ::
  "(nat \<Rightarrow> bool) \<Rightarrow> (u8 list \<times> inet_addr) option \<Rightarrow> tunnel \<Rightarrow> tunnel option" where
  "client_on_app_data mem input tun =
     (case input of
        None \<Rightarrow> Some tun
      | Some (data, sender) \<Rightarrow> send_app_data mem data (tun\<lparr>tun_addr := sender\<rparr>))"

section \<open>Data from the peer\<close>

text \<open>\<open>logs\<close> says whether the decoded packet is logged, which only the client does, before the result is looked at.\<close>

definition over_read :: "u8 list option \<Rightarrow> bool" where
  "over_read recvbuf = (case recvbuf of None \<Rightarrow> False | Some buf \<Rightarrow> unterminated buf)"

partial_function (option) peer_loop ::
  "bool \<Rightarrow> (nat \<Rightarrow> int) \<Rightarrow> int \<Rightarrow> fec_decoder \<Rightarrow> ikcpcb \<Rightarrow> (fec_decoder \<times> ikcpcb) option" where
  "peer_loop logs clock len d kcp =
     (if len \<le> 0 then Some (d, kcp)
      else case fec_decode_output (clock 0) (Some (replicate (nat len + 1) 0)) len d of
          None \<Rightarrow> None
        | Some (ret, recvbuf, d) \<Rightarrow>
            if logs \<and> over_read recvbuf then None
            else if ret < 0 then Some (d, kcp)
            else peer_loop logs (\<lambda>i. clock (Suc i)) ret d (snd (ikcp_input (map_option (take (nat len)) recvbuf) kcp)))"

definition peer_input ::
  "bool \<Rightarrow> 64 word \<Rightarrow> int \<Rightarrow> int \<Rightarrow> (nat \<Rightarrow> int) \<Rightarrow> u8 list \<Rightarrow> tunnel \<Rightarrow> rs_static \<Rightarrow> (tunnel \<times> rs_static) option" where
  "peer_input logs addr now now' clock data tun s =
     (case fec_decode_input addr now now' (Some (data @ replicate (recv_buf_size - length data) 0))
             (int (length data)) (tun_decoder tun) s of
        None \<Rightarrow> None
      | Some (len, d, s) \<Rightarrow>
          (case peer_loop logs clock len d (tun_kcp tun) of
             None \<Rightarrow> None
           | Some (d, kcp) \<Rightarrow> Some (tun\<lparr>tun_decoder := d, tun_kcp := kcp\<rparr>, s)))"

text \<open>The client reads from a connected socket.\<close>

definition client_on_peer_data ::
  "64 word \<Rightarrow> int \<Rightarrow> int \<Rightarrow> (nat \<Rightarrow> int) \<Rightarrow> u8 list option \<Rightarrow> tunnel \<Rightarrow> rs_static \<Rightarrow> (tunnel \<times> rs_static) option" where
  "client_on_peer_data addr now now' clock input tun s =
     (case input of
        None \<Rightarrow> Some (tun, s)
      | Some data \<Rightarrow> peer_input True addr now now' clock data tun s)"

text \<open>
  The server remembers the sender's address before it looks at the result; a failed \<open>recvfrom\<close>
  leaves the cleared address.
\<close>

definition server_on_peer_data ::
  "64 word \<Rightarrow> int \<Rightarrow> int \<Rightarrow> (nat \<Rightarrow> int) \<Rightarrow> (u8 list \<times> inet_addr) option \<Rightarrow> tunnel \<Rightarrow> rs_static \<Rightarrow>
     (tunnel \<times> rs_static) option" where
  "server_on_peer_data addr now now' clock input tun s =
     (let tun = tun\<lparr>tun_addr := (case input of None \<Rightarrow> (0, 0) | Some (data, sender) \<Rightarrow> sender)\<rparr>
      in case input of
          None \<Rightarrow> Some (tun, s)
        | Some (data, sender) \<Rightarrow> peer_input False addr now now' clock data tun s)"

section \<open>The timer\<close>

text \<open>
  \<open>udpout\<close>, called by kcp for every datagram; \<open>res i j\<close> is the result of send \<open>j\<close> for datagram \<open>i\<close>, and \<open>junk i\<close>
  what its call of \<open>FecEncodeManager::Input\<close> returns when it runs into the missing return (\<open>Fec_Kcp\<close>).
  \<open>udpout\<close> passes the result on to \<open>ikcp_output\<close> and \<open>ikcp_flush\<close>, which does not look at it.
\<close>

definition udpout ::
  "64 word \<Rightarrow> (nat \<Rightarrow> int) \<Rightarrow> int \<Rightarrow> u8 list \<Rightarrow> fec_encoder \<Rightarrow> rs_static \<Rightarrow>
     (int \<times> u8 list list \<times> fec_encoder \<times> rs_static) option" where
  "udpout addr res junk buf e s = manager_input addr res junk buf e s"

fun udpout_all ::
  "64 word \<Rightarrow> (nat \<Rightarrow> nat \<Rightarrow> int) \<Rightarrow> (nat \<Rightarrow> int) \<Rightarrow> u8 list list \<Rightarrow> fec_encoder \<Rightarrow> rs_static \<Rightarrow>
     (u8 list list \<times> fec_encoder \<times> rs_static) option" where
  "udpout_all addr res junk [] e s = Some ([], e, s)"
| "udpout_all addr res junk (x # xs) e s =
     (case udpout addr (res 0) (junk 0) x e s of
        None \<Rightarrow> None
      | Some (ret, out, e, s) \<Rightarrow>
          (case udpout_all addr (\<lambda>i. res (Suc i)) (\<lambda>i. junk (Suc i)) xs e s of
             None \<Rightarrow> None
           | Some (outs, e, s) \<Rightarrow> Some (out @ outs, e, s)))"

text \<open>
  The messages for the application: what \<open>ikcp_recv\<close> reports of the bytes it copies. Each is logged as a C
  string first, so one that fills the buffer without a zero byte is read beyond the buffer's end. The server
  stops when a send fails; \<open>res i\<close> is the result of send \<open>i\<close>.
\<close>

partial_function (option) server_recv_loop ::
  "(nat \<Rightarrow> int) \<Rightarrow> ikcpcb \<Rightarrow> (u8 list list \<times> ikcpcb) option" where
  "server_recv_loop res kcp =
     (case ikcp_recv True (int recv_buf_size) kcp of
        None \<Rightarrow> None
      | Some (temp_ret, out, kcp) \<Rightarrow>
          if temp_ret > 0
          then if unterminated (recv_array out) then None
               else if res 0 < 0 then Some ([take (nat temp_ret) out], kcp)
               else Option.bind (server_recv_loop (\<lambda>i. res (Suc i)) kcp)
                      (\<lambda>(outs, kcp). Some (take (nat temp_ret) out # outs, kcp))
          else Some ([], kcp))"

text \<open>
  The client calls \<open>sendto\<close> with whatever length it got, the last time with that of the failure, and
  ignores the result.
\<close>

partial_function (option) client_recv_loop :: "ikcpcb \<Rightarrow> ((int \<times> u8 list) list \<times> ikcpcb) option" where
  "client_recv_loop kcp =
     (case ikcp_recv True (int recv_buf_size) kcp of
        None \<Rightarrow> None
      | Some (temp_ret, out, kcp) \<Rightarrow>
          if temp_ret > 0
          then if unterminated (recv_array out) then None
               else Option.bind (client_recv_loop kcp)
                      (\<lambda>(outs, kcp). Some ((temp_ret, take (nat temp_ret) out) # outs, kcp))
          else Some ([(temp_ret, [])], kcp))"

text \<open>The part of the handler before the loop: kcp's clock, then the encoder's.\<close>

definition timer_tick ::
  "64 word \<Rightarrow> int \<Rightarrow> (nat \<Rightarrow> nat \<Rightarrow> int) \<Rightarrow> (nat \<Rightarrow> int) \<Rightarrow> (nat \<Rightarrow> int) \<Rightarrow> tunnel \<Rightarrow> rs_static \<Rightarrow>
     (u8 list list \<times> tunnel \<times> rs_static) option" where
  "timer_tick addr millisec res junk flush_res tun s =
     (let (kcp, datagrams) = ikcp_update (word_of_int millisec) (tun_kcp tun)
      in case udpout_all addr res junk datagrams (tun_encoder tun) s of
           None \<Rightarrow> None
         | Some (out, e, s) \<Rightarrow>
             let (temp_ret, e) = fec_encode_update_time (word_of_int millisec) e;
                 (ret, flushed, e) = (if temp_ret > 0 then manager_flush flush_res e else (0, [], e))
             in Some (out @ flushed, tun\<lparr>tun_kcp := kcp, tun_encoder := e\<rparr>, s))"

definition server_on_timer ::
  "64 word \<Rightarrow> int \<Rightarrow> (nat \<Rightarrow> nat \<Rightarrow> int) \<Rightarrow> (nat \<Rightarrow> int) \<Rightarrow> (nat \<Rightarrow> int) \<Rightarrow> (nat \<Rightarrow> int) \<Rightarrow> tunnel \<Rightarrow> rs_static \<Rightarrow>
     (u8 list list \<times> u8 list list \<times> tunnel \<times> rs_static) option" where
  "server_on_timer addr millisec res junk flush_res app_res tun s =
     (case timer_tick addr millisec res junk flush_res tun s of
        None \<Rightarrow> None
      | Some (out, tun, s) \<Rightarrow>
          (case server_recv_loop app_res (tun_kcp tun) of
             None \<Rightarrow> None
           | Some (messages, kcp) \<Rightarrow> Some (out, messages, tun\<lparr>tun_kcp := kcp\<rparr>, s)))"

definition client_on_timer ::
  "64 word \<Rightarrow> int \<Rightarrow> (nat \<Rightarrow> nat \<Rightarrow> int) \<Rightarrow> (nat \<Rightarrow> int) \<Rightarrow> (nat \<Rightarrow> int) \<Rightarrow> tunnel \<Rightarrow> rs_static \<Rightarrow>
     (u8 list list \<times> (int \<times> u8 list) list \<times> tunnel \<times> rs_static) option" where
  "client_on_timer addr millisec res junk flush_res tun s =
     (case timer_tick addr millisec res junk flush_res tun s of
        None \<Rightarrow> None
      | Some (out, tun, s) \<Rightarrow>
          (case client_recv_loop (tun_kcp tun) of
             None \<Rightarrow> None
           | Some (messages, kcp) \<Rightarrow> Some (out, messages, tun\<lparr>tun_kcp := kcp\<rparr>, s)))"

section \<open>The loops are those of FecKcp\<close>

lemma peer_loop_if_data_loop:
  assumes "data_loop clock len ret d kcp = Some (r, d', kcp')"
  shows "peer_loop False clock len d kcp = Some (d', kcp')"
proof -
  have "case y of (r, d', kcp') \<Rightarrow> peer_loop False clock len d kcp = Some (d', kcp')"
    if "data_loop clock len ret d kcp = Some y" for y
    using _ that
  proof (rule data_loop.raw_induct)
    fix loop clock len ret d kcp y
    assume IH: "\<And>clock len ret d kcp y. loop clock len ret d kcp = Some y \<Longrightarrow>
        case y of (r, d', kcp') \<Rightarrow> peer_loop False clock len d kcp = Some (d', kcp')"
      and run: "(if len \<le> 0 then Some (ret, d, kcp)
        else case fec_decode_output (clock 0) (Some (replicate (nat len + 1) 0)) len d of
          None \<Rightarrow> None
        | Some (ret, recv_buf, d) \<Rightarrow>
            if ret < 0 then Some (ret, d, kcp)
            else case ikcp_input (map_option (take (nat len)) recv_buf) kcp of
                (temp_ret, kcp) \<Rightarrow>
                  loop (\<lambda>i. clock (Suc i)) ret (if temp_ret < 0 then temp_ret else ret) d kcp) = Some y"
    show "case y of (r, d', kcp') \<Rightarrow> peer_loop False clock len d kcp = Some (d', kcp')"
      using run by (subst peer_loop.simps) (auto split: if_splits option.splits prod.splits dest!: IH)
  qed
  from this [OF assms] show ?thesis by simp
qed

lemma data_loop_if_peer_loop:
  assumes "peer_loop logs clock len d kcp = Some y"
  shows "\<exists>r. data_loop clock len ret d kcp = Some (r, y)"
proof -
  have "\<forall>ret. \<exists>r. data_loop clock len ret d kcp = Some (r, y)" if "peer_loop logs clock len d kcp = Some y" for y
    using _ that
  proof (rule peer_loop.raw_induct)
    fix loop logs clock len d kcp y
    assume IH: "\<And>logs clock len d kcp y. loop logs clock len d kcp = Some y \<Longrightarrow>
        \<forall>ret. \<exists>r. data_loop clock len ret d kcp = Some (r, y)"
      and run: "(if len \<le> 0 then Some (d, kcp)
        else case fec_decode_output (clock 0) (Some (replicate (nat len + 1) 0)) len d of
          None \<Rightarrow> None
        | Some (ret, recvbuf, d) \<Rightarrow>
            if logs \<and> over_read recvbuf then None
            else if ret < 0 then Some (d, kcp)
            else loop logs (\<lambda>i. clock (Suc i)) ret d (snd (ikcp_input (map_option (take (nat len)) recvbuf) kcp))) = Some y"
    show "\<forall>ret. \<exists>r. data_loop clock len ret d kcp = Some (r, y)"
      using run by (subst data_loop.simps) (auto split: if_splits option.splits prod.splits dest!: IH)
  qed
  from this [OF assms] show ?thesis by blast
qed

text \<open>The buffers the loop fills, one per round; kcp has no part in it.\<close>

partial_function (option) output_buffers ::
  "(nat \<Rightarrow> int) \<Rightarrow> int \<Rightarrow> fec_decoder \<Rightarrow> u8 list option list option" where
  "output_buffers clock len d =
     (if len \<le> 0 then Some []
      else case fec_decode_output (clock 0) (Some (replicate (nat len + 1) 0)) len d of
          None \<Rightarrow> None
        | Some (ret, recvbuf, d) \<Rightarrow>
            if ret < 0 then Some [recvbuf]
            else Option.bind (output_buffers (\<lambda>i. clock (Suc i)) ret d) (\<lambda>bufs. Some (recvbuf # bufs)))"

lemma output_buffers_if_peer_loop:
  assumes "peer_loop logs clock len d kcp = Some y"
  shows "\<exists>bufs. output_buffers clock len d = Some bufs \<and> (logs \<longrightarrow> \<not> list_ex over_read bufs)"
  using _ assms
proof (rule peer_loop.raw_induct)
  fix loop logs clock len d kcp y
  assume IH: "\<And>logs clock len d kcp y. loop logs clock len d kcp = Some y \<Longrightarrow>
      \<exists>bufs. output_buffers clock len d = Some bufs \<and> (logs \<longrightarrow> \<not> list_ex over_read bufs)"
    and run: "(if len \<le> 0 then Some (d, kcp)
      else case fec_decode_output (clock 0) (Some (replicate (nat len + 1) 0)) len d of
        None \<Rightarrow> None
      | Some (ret, recvbuf, d) \<Rightarrow>
          if logs \<and> over_read recvbuf then None
          else if ret < 0 then Some (d, kcp)
          else loop logs (\<lambda>i. clock (Suc i)) ret d (snd (ikcp_input (map_option (take (nat len)) recvbuf) kcp))) = Some y"
  show "\<exists>bufs. output_buffers clock len d = Some bufs \<and> (logs \<longrightarrow> \<not> list_ex over_read bufs)"
    using run by (subst output_buffers.simps) (auto split: if_splits option.splits prod.splits dest!: IH)
qed

lemma peer_loop_if_output_buffers:
  assumes "output_buffers clock len d = Some bufs" and "logs \<longrightarrow> \<not> list_ex over_read bufs"
  shows "peer_loop logs clock len d kcp \<noteq> None"
proof -
  have "(logs \<longrightarrow> \<not> list_ex over_read bufs) \<longrightarrow> (\<forall>kcp. peer_loop logs clock len d kcp \<noteq> None)"
    using _ assms(1)
  proof (rule output_buffers.raw_induct)
    fix loop clock len d bufs
    assume IH: "\<And>clock len d bufs. loop clock len d = Some bufs \<Longrightarrow>
        (logs \<longrightarrow> \<not> list_ex over_read bufs) \<longrightarrow> (\<forall>kcp. peer_loop logs clock len d kcp \<noteq> None)"
      and run: "(if len \<le> 0 then Some []
        else case fec_decode_output (clock 0) (Some (replicate (nat len + 1) 0)) len d of
          None \<Rightarrow> None
        | Some (ret, recvbuf, d) \<Rightarrow>
            if ret < 0 then Some [recvbuf]
            else Option.bind (loop (\<lambda>i. clock (Suc i)) ret d) (\<lambda>bufs. Some (recvbuf # bufs))) = Some bufs"
    show "(logs \<longrightarrow> \<not> list_ex over_read bufs) \<longrightarrow> (\<forall>kcp. peer_loop logs clock len d kcp \<noteq> None)"
      using run by (subst peer_loop.simps) (auto split: if_splits option.splits prod.splits bind_splits dest!: IH)
  qed
  with assms(2) show ?thesis by blast
qed

text \<open>What the client's log reads beyond the end of a buffer.\<close>

definition log_over_reads :: "(nat \<Rightarrow> int) \<Rightarrow> int \<Rightarrow> fec_decoder \<Rightarrow> bool" where
  "log_over_reads clock len d = (case output_buffers clock len d of None \<Rightarrow> False | Some bufs \<Rightarrow> list_ex over_read bufs)"

lemma peer_loop_eq:
  "peer_loop logs clock len d kcp =
    (if logs \<and> log_over_reads clock len d then None else map_option snd (data_loop clock len ret d kcp))"
proof (cases "peer_loop logs clock len d kcp")
  case None
  have "data_loop clock len ret d kcp = None" if ok: "\<not> (logs \<and> log_over_reads clock len d)"
  proof (rule ccontr)
    assume "data_loop clock len ret d kcp \<noteq> None"
    then obtain r d' kcp' where "data_loop clock len ret d kcp = Some (r, d', kcp')"
      by (cases "data_loop clock len ret d kcp") auto
    from output_buffers_if_peer_loop [OF peer_loop_if_data_loop [OF this]] obtain bufs where
      bufs: "output_buffers clock len d = Some bufs" by blast
    then have "logs \<longrightarrow> \<not> list_ex over_read bufs" using ok by (simp add: log_over_reads_def)
    from peer_loop_if_output_buffers [OF bufs this, of kcp] None show False by simp
  qed
  with None show ?thesis by auto
next
  case (Some y)
  from output_buffers_if_peer_loop [OF this] have "\<not> (logs \<and> log_over_reads clock len d)"
    by (auto simp: log_over_reads_def)
  with Some data_loop_if_peer_loop [OF Some, of ret] show ?thesis by auto
qed

text \<open>The parts of a tunnel that make up a \<open>FecKcp\<close>.\<close>

definition tunnel_kcp :: "tunnel \<Rightarrow> fec_kcp" where
  "tunnel_kcp tun = \<lparr>fk_kcp = tun_kcp tun, fk_encoder = tun_encoder tun, fk_decoder = tun_decoder tun\<rparr>"

lemma udpout_sent:
  assumes "\<forall>i. 0 \<le> res i"
  shows "map_option snd (udpout addr res junk x e s) = map_option snd (kcp_send_func addr x e s)"
proof -
  have "send_all res err xs = (None, xs)" for err xs using assms by (intro send_all_ok) simp
  then show ?thesis by (simp add: udpout_def manager_input_def kcp_send_func_def split: option.split prod.split)
qed

lemma udpout_all_sent:
  assumes "\<forall>i j. 0 \<le> res i j"
  shows "udpout_all addr res junk xs e s = send_datagrams addr xs e s"
  using assms
proof (induction xs arbitrary: res junk e s)
  case (Cons x xs)
  have "map_option snd (udpout addr (res 0) (junk 0) x e s) = map_option snd (kcp_send_func addr x e s)"
    using Cons.prems by (intro udpout_sent) simp
  moreover have "udpout_all addr (\<lambda>i. res (Suc i)) (\<lambda>i. junk (Suc i)) xs e s = send_datagrams addr xs e s" for e s
    using Cons.prems by (intro Cons.IH) simp
  ultimately show ?case
    by (cases "udpout addr (res 0) (junk 0) x e s"; cases "kcp_send_func addr x e s") (auto split: option.split)
qed simp

text \<open>Whether the log of the decoded packets does so after a packet from the peer.\<close>

definition peer_log_over_reads ::
  "64 word \<Rightarrow> int \<Rightarrow> int \<Rightarrow> (nat \<Rightarrow> int) \<Rightarrow> u8 list \<Rightarrow> tunnel \<Rightarrow> rs_static \<Rightarrow> bool" where
  "peer_log_over_reads addr now now' clock data tun s =
     (case fec_decode_input addr now now' (Some (data @ replicate (recv_buf_size - length data) 0))
             (int (length data)) (tun_decoder tun) s of
        None \<Rightarrow> False
      | Some (len, d, s) \<Rightarrow> log_over_reads clock len d)"

text \<open>
  C39 (the samples are FecKcp). What a sample does with data from its peer is \<open>FecKcp::DataInput\<close> on the parts of the
  tunnel, with the same undefined behaviour and the same end of the loop, as long as the client's log of the
  decoded packets does not read beyond a buffer, which alone is undefined in the client only. While no
  send fails, their callback sends the packets that \<open>FecKcp::KcpSendFunc\<close> sends and leaves the
  encoder in the same state, whatever comes out of the missing return of
  \<open>FecEncodeManager::Input\<close>, where \<open>KcpSendFunc\<close> returns 0.
\<close>

theorem samples_are_fec_kcp:
  assumes "\<forall>i j. 0 \<le> res i j"
  shows "map_option (\<lambda>(tun, s). (tunnel_kcp tun, s)) (peer_input logs addr now now' clock data tun s) =
      (if logs \<and> peer_log_over_reads addr now now' clock data tun s then None
       else map_option snd (data_input addr now now' clock (Some (data @ replicate (recv_buf_size - length data) 0))
         (int (length data)) (tunnel_kcp tun) s)) \<and>
    udpout_all addr res junk xs e s = send_datagrams addr xs e s"
proof
  show "map_option (\<lambda>(tun, s). (tunnel_kcp tun, s)) (peer_input logs addr now now' clock data tun s) =
      (if logs \<and> peer_log_over_reads addr now now' clock data tun s then None
       else map_option snd (data_input addr now now' clock (Some (data @ replicate (recv_buf_size - length data) 0))
         (int (length data)) (tunnel_kcp tun) s))"
    by (auto simp: peer_input_def data_input_def tunnel_kcp_def peer_log_over_reads_def
      peer_loop_eq [where ret = 0] split: option.split)
qed (rule udpout_all_sent [OF assms])

theorem samples_are_fec_kcp_witness:
  "udpout_all 0 (\<lambda>i j. 12) (\<lambda>i. 99) [[7]] (fec_encoder_new 1 1 5 (0, 5) 0) rs_static_start =
    send_datagrams 0 [[7]] (fec_encoder_new 1 1 5 (0, 5) 0) rs_static_start"
  using samples_are_fec_kcp [of "\<lambda>i j. 12"] by simp

section \<open>What the application gets\<close>

text \<open>The bytes that wait on the receive side, those behind a gap included.\<close>

definition backlog :: "ikcpcb \<Rightarrow> ikcpseg list" where
  "backlog k = rcv_queue k @ rcv_buf k"

definition bytes_of :: "ikcpseg list \<Rightarrow> u8 list" where
  "bytes_of q = concat (map seg_data q)"

lemma backlog_move_ready: "backlog (ikcp_move_ready k) = backlog k"
  by (simp add: backlog_def ikcp_move_ready_eq take_ready_def)

lemma ikcp_recv_step:
  assumes "ikcp_recv True len k = Some (ret, out, k')" and "0 \<le> len" and "0 \<le> ret"
  shows "backlog k = first_message (rcv_queue k) @ backlog k' \<and> first_message (rcv_queue k) \<noteq> [] \<and>
    out = bytes_of (first_message (rcv_queue k)) \<and> ret = ikcp_peeksize k \<and> ret \<le> len"
proof -
  let ?m = "first_message (rcv_queue k)"
  let ?k1 = "ikcp_move_ready (drop_front (length ?m) k)"
  have q: "rcv_queue k \<noteq> []" "ret = ikcp_peeksize k" "ret \<le> len" "out = message_bytes (rcv_queue k)"
      "backlog k' = backlog ?k1"
    using assms by (auto simp: ikcp_recv_eq Let_def backlog_def split: if_splits)
  have "rcv_queue k = ?m @ drop (length ?m) (rcv_queue k)"
    by (metis append_take_drop_id first_message_take)
  then have "backlog k = ?m @ backlog ?k1"
    by (simp add: backlog_move_ready) (simp add: backlog_def drop_front_def)
  moreover have "?m \<noteq> []" using q(1) by (cases "rcv_queue k") auto
  ultimately show ?thesis using q by (simp add: bytes_of_def message_bytes_def)
qed

lemma payload_len_append [simp]: "payload_len (xs @ ys) = payload_len xs + payload_len ys"
  by (simp add: payload_len_def)

lemma length_bytes_of: "\<forall>s\<in>set q. seg_ok s \<Longrightarrow> length (bytes_of q) = payload_len q"
  by (induction q) (auto simp: bytes_of_def payload_len_def seg_ok_def)

lemma backlog_ok: "rcv_inv k \<Longrightarrow> \<forall>s\<in>set (backlog k). seg_ok s"
  by (auto simp: rcv_inv_def backlog_def)

text \<open>With less than 2 GB waiting, the reported length is the number of bytes.\<close>

lemma ikcp_recv_length:
  assumes "ikcp_recv True len k = Some (ret, out, k')" and "0 \<le> len" and "0 \<le> ret"
    and "rcv_inv k" and "payload_len (backlog k) < half32"
  shows "ret = int (length out)"
proof -
  let ?m = "first_message (rcv_queue k)"
  note step = ikcp_recv_step [OF assms(1-3)]
  have "payload_len ?m < half32" using assms(5) step by simp
  then have "sint (sum_list (map seg_len ?m)) = int (payload_len ?m)"
    using sint_u32_small [of "sum_list (map seg_len ?m)"] unat_sum_seg_len [of ?m] by simp
  moreover have "ikcp_peeksize k = sint (sum_list (map seg_len ?m))"
    using step assms(3) by (cases "rcv_queue k") (auto simp: ikcp_peeksize_def message_len_def peek_len_eq split: if_splits)
  moreover have "\<forall>s\<in>set ?m. seg_ok s" using backlog_ok [OF assms(4)] step by auto
  ultimately show ?thesis using step length_bytes_of [of ?m] by simp
qed

lemma recv_loop_step:
  assumes "ikcp_recv True (int recv_buf_size) k = Some (ret, out, k')"
  shows "server_recv_loop res k =
      (if ret > 0
       then if unterminated (recv_array out) then None
            else if res 0 < 0 then Some ([take (nat ret) out], k')
            else Option.bind (server_recv_loop (\<lambda>i. res (Suc i)) k') (\<lambda>(outs, k'). Some (take (nat ret) out # outs, k'))
       else Some ([], k'))"
    and "client_recv_loop k =
      (if ret > 0
       then if unterminated (recv_array out) then None
            else Option.bind (client_recv_loop k') (\<lambda>(outs, k'). Some ((ret, take (nat ret) out) # outs, k'))
       else Some ([(ret, [])], k'))"
  using assms by (subst server_recv_loop.simps, simp, subst client_recv_loop.simps, simp)

text \<open>A queue without empty segments.\<close>

definition no_empty :: "ikcpcb \<Rightarrow> bool" where
  "no_empty k \<longleftrightarrow> (\<forall>s\<in>set (backlog k). seg_data s \<noteq> [])"

text \<open>
  The messages \<open>ikcp_recv\<close> hands out for such a buffer one after the other, up to the first call that
  returns nothing, and the state after them.
\<close>

function handed_over :: "ikcpcb \<Rightarrow> u8 list list \<times> ikcpcb" where
  "handed_over k =
     (case ikcp_recv True (int recv_buf_size) k of
        None \<Rightarrow> ([], k)
      | Some (ret, out, k') \<Rightarrow>
          if ret > 0 then let (outs, k'') = handed_over k' in (out # outs, k'') else ([], k'))"
  by pat_completeness auto

termination
proof (relation "measure (length \<circ> backlog)")
  show "(k', k) \<in> measure (length \<circ> backlog)"
    if "ikcp_recv True (int recv_buf_size) k = Some y" "(ret, r) = y" "(out, k') = r" "ret > 0" for k y ret r out k'
    using that ikcp_recv_step [of "int recv_buf_size" k ret out k'] by auto
qed simp

declare handed_over.simps [simp del]

lemma handed_over_step:
  assumes "ikcp_recv True (int recv_buf_size) k = Some (ret, out, k')"
  shows "handed_over k =
    (if ret > 0 then (out # fst (handed_over k'), snd (handed_over k')) else ([], k'))"
  using assms by (subst handed_over.simps) (simp split: prod.split)

lemma ikcp_recv_some:
  obtains ret out k' where "ikcp_recv True len k = Some (ret, out, k')"
  using ikcp_recv_eq [of True len k]
  by (cases "ikcp_recv True len k") (auto simp: Let_def split: if_splits)

text \<open>A message that fills the array and has no zero byte is read beyond its end when it is logged.\<close>

definition some_unterminated :: "ikcpcb \<Rightarrow> bool" where
  "some_unterminated k \<longleftrightarrow> list_ex (\<lambda>out. unterminated (recv_array out)) (fst (handed_over k))"

lemma unterminated_recv_array:
  "unterminated (recv_array out) \<longleftrightarrow> recv_buf_size \<le> length out \<and> 0 \<notin> set (take recv_buf_size out)"
  by (auto simp: unterminated_def recv_array_def not_le)

lemma some_unterminated_step:
  assumes "ikcp_recv True (int recv_buf_size) k = Some (ret, out, k')"
  shows "some_unterminated k \<longleftrightarrow> ret > 0 \<and> (unterminated (recv_array out) \<or> some_unterminated k')"
  by (simp add: some_unterminated_def handed_over_step [OF assms])

lemma client_recv_loop_undefined: "client_recv_loop k = None \<longleftrightarrow> some_unterminated k"
proof (induction "length (backlog k)" arbitrary: k rule: less_induct)
  case less
  obtain ret out k1 where r: "ikcp_recv True (int recv_buf_size) k = Some (ret, out, k1)" by (rule ikcp_recv_some)
  have "client_recv_loop k1 = None \<longleftrightarrow> some_unterminated k1" if "ret > 0"
    using less ikcp_recv_step [OF r] that by auto
  then show ?case
    unfolding recv_loop_step(2) [OF r] some_unterminated_step [OF r] by (auto simp: bind_eq_None_conv)
qed

lemma server_recv_loop_undefined:
  "server_recv_loop res k = None \<Longrightarrow> some_unterminated k"
  "\<forall>i. 0 \<le> res i \<Longrightarrow> some_unterminated k \<Longrightarrow> server_recv_loop res k = None"
proof (induction "length (backlog k)" arbitrary: k res rule: less_induct)
  case less
  obtain ret out k1 where r: "ikcp_recv True (int recv_buf_size) k = Some (ret, out, k1)" by (rule ikcp_recv_some)
  have shorter: "length (backlog k1) < length (backlog k)" if "ret > 0" using ikcp_recv_step [OF r] that by auto
  note steps = recv_loop_step(1) [OF r] some_unterminated_step [OF r]
  {
    case 1
    then show ?case
      using less.hyps(1) [OF shorter, of "\<lambda>i. res (Suc i)"] unfolding steps
      by (auto simp: bind_eq_None_conv split: if_splits prod.splits)
  next
    case 2
    then have "\<not> res 0 < 0" by (simp add: linorder_not_less)
    with 2 show ?case
      using less.hyps(2) [OF shorter, of "\<lambda>i. res (Suc i)"] unfolding steps by auto
  }
qed

lemma recv_loop_delivers:
  assumes "rcv_inv k" and "payload_len (backlog k) < half32" and "\<forall>i. 0 \<le> res i" and "handed_over k = (outs, k')"
  shows "\<exists>ret. server_recv_loop res k = (if some_unterminated k then None else Some (outs, k')) \<and>
    client_recv_loop k = (if some_unterminated k then None
      else Some (map (\<lambda>x. (int (length x), x)) outs @ [(ret, [])], k')) \<and> ret \<le> 0 \<and>
    rcv_inv k' \<and> bytes_of (backlog k) = concat outs @ bytes_of (backlog k') \<and>
    (\<forall>x\<in>set outs. 0 < length x \<and> length x \<le> recv_buf_size) \<and>
    (no_empty k \<longrightarrow> ikcp_peeksize k' < 0 \<or> int recv_buf_size < ikcp_peeksize k')"
  using assms
proof (induction "length (backlog k)" arbitrary: k res outs rule: less_induct)
  case less
  obtain ret out k1 where r: "ikcp_recv True (int recv_buf_size) k = Some (ret, out, k1)" by (rule ikcp_recv_some)
  note loops = recv_loop_step [OF r] and over = some_unterminated_step [OF r]
  note handed = handed_over_step [OF r] less.prems(4)
  show ?case
  proof (cases "0 \<le> ret")
    case False
    then have "k1 = k" "ikcp_peeksize k < 0 \<or> int recv_buf_size < ikcp_peeksize k"
      using r by (auto simp: ikcp_recv_eq Let_def ikcp_peeksize_def split: if_splits)
    moreover have "outs = []" "k' = k1" using handed False by simp_all
    ultimately show ?thesis
      using False loops over less.prems(1) by (intro exI [of _ ret]) simp
  next
    case True
    note step = ikcp_recv_step [OF r _ True]
    have ret: "ret = int (length out)" using ikcp_recv_length [OF r _ True less.prems(1,2)] by simp
    have inv: "rcv_inv k1" by (rule ikcp_recv_inv [OF less.prems(1) r])
    have split: "bytes_of (backlog k) = out @ bytes_of (backlog k1)" using step by (simp add: bytes_of_def)
    have ne: "out \<noteq> [] \<and> no_empty k1" if "no_empty k"
      using that step by (cases "first_message (rcv_queue k)") (auto simp: no_empty_def bytes_of_def)
    show ?thesis
    proof (cases "ret = 0")
      case True
      then have "outs = []" "k' = k1" using handed by simp_all
      then show ?thesis
        using True loops over inv split ret ne by (intro exI [of _ 0]) auto
    next
      case False
      obtain outs1 where o1: "handed_over k1 = (outs1, k')" "outs = out # outs1"
        using handed True False by (cases "handed_over k1") auto
      have "length (backlog k1) < length (backlog k)" "payload_len (backlog k1) < half32"
        using step less.prems(2) by auto
      moreover have "\<forall>i. 0 \<le> res (Suc i)" using less.prems(3) by simp
      ultimately obtain r' where IH:
          "server_recv_loop (\<lambda>i. res (Suc i)) k1 = (if some_unterminated k1 then None else Some (outs1, k'))"
          "client_recv_loop k1 = (if some_unterminated k1 then None
             else Some (map (\<lambda>x. (int (length x), x)) outs1 @ [(r', [])], k'))" "r' \<le> 0" "rcv_inv k'"
          "bytes_of (backlog k1) = concat outs1 @ bytes_of (backlog k')"
          "\<forall>x\<in>set outs1. 0 < length x \<and> length x \<le> recv_buf_size"
          "no_empty k1 \<longrightarrow> ikcp_peeksize k' < 0 \<or> int recv_buf_size < ikcp_peeksize k'"
        using less.hyps [OF _ inv, of "\<lambda>i. res (Suc i)" outs1] o1(1) by blast
      have "\<not> res 0 < 0" "ret > 0" using less.prems(3) True False by (auto simp: linorder_not_less)
      then show ?thesis
        using IH loops over ret split step ne o1(2) by (intro exI [of _ r']) auto
    qed
  qed
qed

text \<open>
  C14 (the application's messages). Take a receive side with less than 2 GB waiting, and sends that do not fail.
  The loops after the timer pass on the messages \<open>ikcp_recv\<close> hands out for a buffer of 2048 bytes, unless one of
  them fills the buffer and has no zero byte, in which case both read beyond the buffer when they log it. These
  messages are not empty and fit the buffer; they and what still waits are the bytes that
  waited before, in order. Unless a segment is empty, the loops end exactly at the first message that is
  incomplete or longer than 2048 bytes; whatever waits behind it, messages that would fit included, stays where it is.
  The client passes on the same messages, and then always calls \<open>sendto\<close> once more with a length
  that is not positive.
\<close>

theorem recv_loops_deliver:
  assumes "rcv_inv k" and "payload_len (backlog k) < half32" and "\<forall>i. 0 \<le> res i" and "handed_over k = (outs, k')"
  shows "\<exists>ret. server_recv_loop res k = (if some_unterminated k then None else Some (outs, k')) \<and>
    client_recv_loop k = (if some_unterminated k then None
      else Some (map (\<lambda>x. (int (length x), x)) outs @ [(ret, [])], k')) \<and> ret \<le> 0 \<and>
    rcv_inv k' \<and> bytes_of (backlog k) = concat outs @ bytes_of (backlog k') \<and>
    (\<forall>x\<in>set outs. 0 < length x \<and> length x \<le> recv_buf_size) \<and>
    (no_empty k \<longrightarrow> ikcp_peeksize k' < 0 \<or> int recv_buf_size < ikcp_peeksize k')"
  using assms by (rule recv_loop_delivers)

theorem recv_loops_deliver_witness:
  "\<exists>outs k'. server_recv_loop (\<lambda>i. 1) (ikcp_parse_data (sample_seg 0 [7, 8]) (kcp_fresh 9)) = Some (outs, k') \<and>
    concat outs @ bytes_of (backlog k') = [7, 8]"
proof -
  let ?k = "ikcp_parse_data (sample_seg 0 [7, 8]) (kcp_fresh 9)"
  have q: "backlog ?k = [sample_seg 0 [7, 8]]" by code_simp
  then have len: "payload_len (backlog ?k) < half32" "bytes_of (backlog ?k) = [7, 8]"
    by (simp_all add: payload_len_def bytes_of_def sample_seg_def)
  obtain outs k' where o: "handed_over ?k = (outs, k')" by (rule prod.exhaust)
  have fine: "\<not> some_unterminated ?k" by code_simp
  from recv_loops_deliver [OF _ len(1) _ o, of "\<lambda>i. 1"] fine len(2) show ?thesis
    by (simp add: ikcp_parse_data_inv rcv_inv_fresh seg_ok_sample) metis
qed

text \<open>A full message without a zero byte is read beyond the end of the buffer, in both programs.\<close>

lemma full_message_over_read:
  assumes "ikcp_recv True (int recv_buf_size) k = Some (ret, out, k')" and "0 < ret" and "length out = recv_buf_size" and "0 \<notin> set out"
  shows "server_recv_loop res k = None" and "client_recv_loop k = None"
  using recv_loop_step [OF assms(1)] assms(2-) by (simp_all add: unterminated_recv_array)

end
