(* ===== verification/Fec_Tunnel.thy ===== *)
theory Fec_Tunnel
  imports Fec_Samples
begin

text \<open>
  The samples as state machines: one step per event of the loop in \<open>run\<close>, whatever the system calls return.
  In every reachable state kcp is in a state that \<open>Kcp_Endpoint\<close> describes, the encoder holds less
  than a group, and the timer event comes to an end, unless a message that fills the receive buffer is
  read beyond its end when it is logged.
\<close>

section \<open>Events\<close>

text \<open>
  A failed read is \<open>None\<close>; the sender is only looked at where the socket is not connected. The timer has the
  clock, the results of the sends in the callback of kcp, what comes out of the missing return there
  (\<open>Fec_Samples\<close>), and the results of the sends for a flush and to the application.
\<close>

datatype tunnel_event =
    App_data "(u8 list \<times> inet_addr) option"
  | Peer_data int int "nat \<Rightarrow> int" "(u8 list \<times> inet_addr) option"
  | Timer int "nat \<Rightarrow> nat \<Rightarrow> int" "nat \<Rightarrow> int" "nat \<Rightarrow> int" "nat \<Rightarrow> int"

text \<open>The result is what goes to the peer, what goes to the application with its length, and the new state.\<close>

definition server_handle ::
  "64 word \<Rightarrow> (nat \<Rightarrow> bool) \<Rightarrow> tunnel_event \<Rightarrow> tunnel \<Rightarrow> rs_static \<Rightarrow>
     (u8 list list \<times> (int \<times> u8 list) list \<times> tunnel \<times> rs_static) option" where
  "server_handle addr mem ev tun s =
     (case ev of
        App_data input \<Rightarrow> map_option (\<lambda>tun. ([], [], tun, s)) (server_on_app_data mem (map_option fst input) tun)
      | Peer_data now now' clock input \<Rightarrow>
          map_option (\<lambda>(tun, s). ([], [], tun, s)) (server_on_peer_data addr now now' clock input tun s)
      | Timer millisec res junk flush_res app_res \<Rightarrow>
          map_option (\<lambda>(out, messages, tun, s). (out, map (\<lambda>x. (int (length x), x)) messages, tun, s))
            (server_on_timer addr millisec res junk flush_res app_res tun s))"

definition client_handle ::
  "64 word \<Rightarrow> (nat \<Rightarrow> bool) \<Rightarrow> tunnel_event \<Rightarrow> tunnel \<Rightarrow> rs_static \<Rightarrow>
     (u8 list list \<times> (int \<times> u8 list) list \<times> tunnel \<times> rs_static) option" where
  "client_handle addr mem ev tun s =
     (case ev of
        App_data input \<Rightarrow> map_option (\<lambda>tun. ([], [], tun, s)) (client_on_app_data mem input tun)
      | Peer_data now now' clock input \<Rightarrow>
          map_option (\<lambda>(tun, s). ([], [], tun, s)) (client_on_peer_data addr now now' clock (map_option fst input) tun s)
      | Timer millisec res junk flush_res app_res \<Rightarrow> client_on_timer addr millisec res junk flush_res tun s)"

text \<open>A read fills at most the buffer.\<close>

fun event_ok :: "tunnel_event \<Rightarrow> bool" where
  "event_ok (App_data (Some (data, sender))) = (length data \<le> recv_buf_size)"
| "event_ok (Peer_data now now' clock (Some (data, sender))) = (length data \<le> recv_buf_size)"
| "event_ok ev = True"

text \<open>The random number generator read \<open>reads\<close> when the encoder was made.\<close>

inductive tunnel_run :: "bool \<Rightarrow> tunnel \<Rightarrow> rs_static \<Rightarrow> bool" for is_client where
  run_start: "get_random_number_u16 reads = Some rnd \<Longrightarrow> tunnel_new True True rnd junk = Some tun \<Longrightarrow>
    tunnel_run is_client tun rs_static_start"
| run_server: "tunnel_run is_client tun s \<Longrightarrow> \<not> is_client \<Longrightarrow> event_ok ev \<Longrightarrow>
    server_handle addr mem ev tun s = Some (out, messages, tun', s') \<Longrightarrow> tunnel_run is_client tun' s'"
| run_client: "tunnel_run is_client tun s \<Longrightarrow> is_client \<Longrightarrow> event_ok ev \<Longrightarrow>
    client_handle addr mem ev tun s = Some (out, messages, tun', s') \<Longrightarrow> tunnel_run is_client tun' s'"

section \<open>kcp\<close>

definition kcp_fine :: "ikcpcb \<Rightarrow> bool" where
  "kcp_fine k \<longleftrightarrow> endpoint_run 0x11111111 k \<and> mtu k = 1400"

lemma send_fragments_mtu: "send_fragments mem c n len buf k = Some k' \<Longrightarrow> mtu k' = mtu k"
  by (induction mem c n len buf k rule: send_fragments.induct) (auto simp: Let_def split: if_splits)

lemma ikcp_send_mtu: "ikcp_send mem buf len k = Some (ret, k') \<Longrightarrow> mtu k' = mtu k"
  by (auto simp: ikcp_send_def send_queue_def send_extend_def Let_def dest!: send_fragments_mtu split: if_splits)

lemma kcp_fine_send:
  assumes "kcp_fine k" and "length b < half32" and "ikcp_send mem (Some b) (int (length b)) k = Some (ret, k')"
  shows "kcp_fine k'"
  using assms run_step [OF _ step_send [OF assms(2,3)]] ikcp_send_mtu [OF assms(3)] by (simp add: kcp_fine_def)

lemma kcp_fine_input:
  assumes "kcp_fine k"
  shows "kcp_fine (snd (ikcp_input data k))"
proof -
  have "kcp_inv k" using endpoint_run_inv assms by (auto simp: kcp_fine_def endpoint_inv_def)
  then show ?thesis
    using assms run_step [OF _ step_input] ikcp_input_effect [of k data] by (simp add: kcp_fine_def input_effect_def)
qed

lemma kcp_fine_recv:
  assumes "kcp_fine k" and "ikcp_recv True len k = Some (ret, out, k')"
  shows "kcp_fine k'"
  using assms run_step [OF _ step_recv [OF assms(2)]] ikcp_recv_keeps [OF assms(2)]
  by (simp add: kcp_fine_def recv_keeps_def)

lemma ikcp_flush_mtu:
  assumes "endpoint_inv k"
  shows "mtu (fst (ikcp_flush k)) = mtu k"
proof -
  have "snd_inv k" "\<forall>s\<in>set (snd_buf k) \<union> set (snd_queue k). seg_fits s"
    using assms snd_sized_fits [of k] by (simp_all add: endpoint_inv_def kcp_inv_def)
  from ikcp_flush_eq [OF this] show ?thesis by simp
qed

lemma ikcp_update_mtu: "endpoint_inv k \<Longrightarrow> mtu (fst (ikcp_update cur k)) = mtu k"
  using ikcp_flush_mtu [of "k\<lparr>current := cur, updated := (if updated k = 0 then 1 else updated k),
    ts_flush := next_flush cur k\<rparr>"] by (simp add: ikcp_update_eq)

lemma kcp_fine_inv: "kcp_fine k \<Longrightarrow> endpoint_inv k"
  using endpoint_run_inv by (auto simp: kcp_fine_def)

lemma kcp_fine_update:
  assumes "kcp_fine k" and "ikcp_update cur k = (k', datagrams)"
  shows "kcp_fine k'" and "\<forall>d\<in>set datagrams. packet_ok d \<and> length d \<le> 1400"
proof -
  note inv = kcp_fine_inv [OF assms(1)]
  show "kcp_fine k'"
    using assms run_step [OF _ step_update [of k cur]] ikcp_update_mtu [OF inv, of cur] by (simp add: kcp_fine_def)
  from endpoint_inv_update_datagrams [OF inv, of cur] show "\<forall>d\<in>set datagrams. packet_ok d \<and> length d \<le> 1400"
    using assms by (auto simp: kcp_fine_def packet_ok_def)
qed

lemma kcp_fine_data_loop:
  assumes "data_loop clock len ret d k = Some (r, d', k')" and "kcp_fine k"
  shows "kcp_fine k'"
proof -
  have "kcp_fine k \<longrightarrow> kcp_fine (snd (snd y))" if "data_loop clock len ret d k = Some y" for y
    using _ that
  proof (rule data_loop.raw_induct)
    fix loop clock len ret d k y
    assume IH: "\<And>clock len ret d k y. loop clock len ret d k = Some y \<Longrightarrow> kcp_fine k \<longrightarrow> kcp_fine (snd (snd y))"
      and run: "(if len \<le> 0 then Some (ret, d, k)
        else case fec_decode_output (clock 0) (Some (replicate (nat len + 1) 0)) len d of
          None \<Rightarrow> None
        | Some (ret, recv_buf, d) \<Rightarrow>
            if ret < 0 then Some (ret, d, k)
            else case ikcp_input (map_option (take (nat len)) recv_buf) k of
                (temp_ret, k) \<Rightarrow>
                  loop (\<lambda>i. clock (Suc i)) ret (if temp_ret < 0 then temp_ret else ret) d k) = Some y"
    show "kcp_fine k \<longrightarrow> kcp_fine (snd (snd y))"
    proof (cases "len \<le> 0")
      case True
      with run show ?thesis by auto
    next
      case pos: False
      then obtain ret' buf d1 where out: "fec_decode_output (clock 0) (Some (replicate (nat len + 1) 0)) len d = Some (ret', buf, d1)"
        using run by (cases "fec_decode_output (clock 0) (Some (replicate (nat len + 1) 0)) len d") auto
      obtain tr k1 where k1: "ikcp_input (map_option (take (nat len)) buf) k = (tr, k1)" by (rule prod.exhaust)
      show ?thesis
      proof (cases "ret' < 0")
        case True
        with run pos out show ?thesis by auto
      next
        case False
        with run pos out k1 have "loop (\<lambda>i. clock (Suc i)) ret' (if tr < 0 then tr else ret') d1 k1 = Some y" by simp
        from IH [OF this] kcp_fine_input [of k "map_option (take (nat len)) buf"] k1 show ?thesis by simp
      qed
    qed
  qed
  from this [OF assms(1)] assms(2) show ?thesis by simp
qed

text \<open>The loops over \<open>ikcp_recv\<close> keep kcp fine, whatever the sends return.\<close>

lemma recv_loops_end:
  assumes "kcp_fine k"
  shows "server_recv_loop res k = Some (outs, k') \<Longrightarrow> kcp_fine k'"
    and "client_recv_loop k = Some (msgs, k') \<Longrightarrow> kcp_fine k'"
  using assms
proof (induction "length (backlog k)" arbitrary: k res outs msgs rule: less_induct)
  case less
  obtain ret out k1 where r: "ikcp_recv True (int recv_buf_size) k = Some (ret, out, k1)" by (rule ikcp_recv_some)
  note loops = recv_loop_step [OF r]
  have fine: "kcp_fine k1" if "kcp_fine k" by (rule kcp_fine_recv [OF that r])
  have shorter: "length (backlog k1) < length (backlog k)" if "ret > 0"
    using ikcp_recv_step [OF r] that by auto
  {
    case 1
    then show ?case
      using less.hyps(1) [OF shorter _ fine] fine unfolding loops by (auto simp: bind_eq_Some_conv split: if_splits)
  next
    case 2
    then show ?case
      using less.hyps(2) [OF shorter _ fine] fine unfolding loops by (auto simp: bind_eq_Some_conv split: if_splits)
  }
qed

section \<open>The encoder\<close>

text \<open>Less than a group of datagrams of at most \<open>m\<close> bytes.\<close>

definition encoder_fine :: "nat \<Rightarrow> fec_encoder \<Rightarrow> bool" where
  "encoder_fine m e \<longleftrightarrow> (\<exists>ds. holds 2 1 e ds \<and> length ds < 2 \<and> (\<forall>d\<in>set ds. length d \<le> m))"

lemma send_all_sent: "set (snd (send_all res err xs)) \<subseteq> set xs"
proof (induction xs arbitrary: res)
  case (Cons x xs)
  from Cons.IH [of "\<lambda>i. res (Suc i)"] show ?case by (auto split: prod.split)
qed simp

lemma group_packets_length:
  assumes "group_codeword k r ds cw" and "\<forall>d\<in>set ds. length d \<le> m" and "p \<in> set (group_packets sq k r ds cw)"
  shows "length p \<le> m + 11"
proof -
  obtain i where i: "i < k + r" "p = group_header sq k r ds i @ cw ! i"
    using assms(3) by (auto simp: group_packets_def)
  then have "length p = 11 + longest ds"
    using assms(1) by (simp add: group_codeword_def group_header_def data_header_def fec_header_def)
  moreover have "longest ds \<le> m" using assms(2) by (intro longest_le) auto
  ultimately show ?thesis by simp
qed

lemma manager_input_fine:
  assumes "encoder_fine m e" and "packet_ok x" and "length x \<le> m" and s: "rs_static_ok s"
  shows "\<exists>ret out e' s'. manager_input addr res junk x e s = Some (ret, out, e', s') \<and> encoder_fine m e' \<and>
    rs_static_ok s' \<and> (\<forall>p\<in>set out. length p \<le> m + 11)"
proof -
  obtain ds where h: "holds 2 1 e ds" "length ds < 2" "\<forall>d\<in>set ds. length d \<le> m"
    using assms(1) by (auto simp: encoder_fine_def)
  show ?thesis
  proof (cases "length ds + 1 < 2")
    case True
    from fec_encode_input_holds [OF h(1) assms(2) True, of addr s] obtain e' where
      "fec_encode_input addr (Some x) (int (length x)) e s = Some (0, e', s)" "holds 2 1 e' (ds @ [x])" by auto
    then show ?thesis
      using True h(3) assms(3) s by (auto simp: manager_input_def encoder_fine_def)
  next
    case False
    with h(2) have full: "length ds + 1 = 2" by linarith
    obtain e1 s1 cw where e1: "fec_encode_input addr (Some x) (int (length x)) e s = Some (1, e1, s1)" "rs_static_ok s1"
        "group_codeword 2 1 (ds @ [x]) cw" "encoded 2 1 e1 (group_packets (enc_seq e) 2 1 (ds @ [x]) cw)"
      using fec_encode_input_completes [OF h(1) assms(2) full s] by blast
    let ?pkts = "group_packets (enc_seq e) 2 1 (ds @ [x]) cw"
    obtain pkgs lens e' where e': "fec_encode_output e1 = (0, Some (pkgs, lens), e')" "handed_out (pkgs, lens) = ?pkts"
        "holds 2 1 e' []"
      using fec_encode_output_encoded [OF e1(4)] by auto
    have "length p \<le> m + 11" if "p \<in> set ?pkts" for p
      using group_packets_length [OF e1(3) _ that] h(3) assms(3) by auto
    then show ?thesis
      using e1(1,2) e' send_all_sent [of res "-4" ?pkts]
      by (auto simp: manager_input_def encoder_fine_def split: prod.split)
  qed
qed

lemma udpout_all_fine:
  assumes "encoder_fine m e" and "\<forall>x\<in>set xs. packet_ok x \<and> length x \<le> m" and "rs_static_ok s"
  shows "\<exists>out e' s'. udpout_all addr res junk xs e s = Some (out, e', s') \<and> encoder_fine m e' \<and> rs_static_ok s' \<and>
    (\<forall>p\<in>set out. length p \<le> m + 11)"
  using assms
proof (induction xs arbitrary: res junk e s)
  case (Cons x xs)
  obtain ret out e1 s1 where a: "udpout addr (res 0) (junk 0) x e s = Some (ret, out, e1, s1)" "encoder_fine m e1"
      "rs_static_ok s1" "\<forall>p\<in>set out. length p \<le> m + 11"
    using manager_input_fine [OF Cons.prems(1), of x s addr "res 0" "junk 0"] Cons.prems(2,3) by (auto simp: udpout_def)
  obtain out' e' s' where "udpout_all addr (\<lambda>i. res (Suc i)) (\<lambda>i. junk (Suc i)) xs e1 s1 = Some (out', e', s')" "encoder_fine m e'"
      "rs_static_ok s'" "\<forall>p\<in>set out'. length p \<le> m + 11"
    using Cons.IH [OF a(2) _ a(3), of "\<lambda>i. res (Suc i)" "\<lambda>i. junk (Suc i)"] Cons.prems(2) by auto
  with a show ?case by auto
qed simp

lemma update_time_fine:
  assumes "encoder_fine m e" and "fec_encode_update_time t e = (ret, e')"
  shows "encoder_fine m e'"
  using assms by (auto simp: fec_encode_update_time_def encoder_fine_def holds_def enc_params_def Let_def split: if_splits)

lemma manager_flush_fine:
  assumes "encoder_fine m e" and "manager_flush res e = (ret, out, e')"
  shows "encoder_fine m e'" and "\<forall>p\<in>set out. length p \<le> m + 11"
proof -
  obtain ds where h: "holds 2 1 e ds" "length ds < 2" "\<forall>d\<in>set ds. length d \<le> m"
    using assms(1) by (auto simp: encoder_fine_def)
  let ?pkts = "map (\<lambda>d. write_u32_r unique_header @ d) ds"
  obtain pkgs lens e1 where f: "fec_encode_flush e = (0, Some (pkgs, lens), e1)"
      "map2 (\<lambda>p l. take (nat l) p) pkgs lens = ?pkts" "holds 2 1 e1 []"
    using encode_flush_holds [OF h(1,2)] by blast
  have "encoder_fine m e'" and out: "set out \<subseteq> set ?pkts"
    using assms(2) f send_all_sent [of res "-2" ?pkts]
    by (auto simp: manager_flush_def encoder_fine_def split: if_splits prod.splits)
  then show "encoder_fine m e'" by blast
  show "\<forall>p\<in>set out. length p \<le> m + 11" using out h(3) by (fastforce simp: write_u32_r_def)
qed

section \<open>Every reachable state\<close>

definition tunnel_ok :: "tunnel \<Rightarrow> rs_static \<Rightarrow> bool" where
  "tunnel_ok tun s \<longleftrightarrow> kcp_fine (tun_kcp tun) \<and> encoder_fine 1400 (tun_encoder tun) \<and> rs_static_ok s"

lemma tunnel_ok_start:
  assumes "get_random_number_u16 reads = Some rnd" and "tunnel_new True True rnd junk = Some tun"
  shows "tunnel_ok tun rs_static_start"
proof -
  obtain kcp where kcp: "ikcp_create True True 0x11111111 = Some kcp"
      "tun = \<lparr>tun_kcp = kcp, tun_encoder = fec_encoder_new 2 1 5 rnd junk, tun_decoder = fec_decoder_new 10000, tun_addr = (0, 0)\<rparr>"
    using assms(2) by (auto simp: tunnel_new_def split: option.splits)
  have "kcp_fine kcp" using kcp(1) by (auto simp: kcp_fine_def ikcp_create_def intro: run_create)
  moreover have "holds 2 1 (tun_encoder tun) []"
    using fec_encoder_new_holds [OF _ _ assms(1), of 2 1] kcp(2) by simp
  ultimately show ?thesis
    using kcp(2) by (auto simp: tunnel_ok_def encoder_fine_def rs_static_start_ok)
qed

lemma dec_collect_keeps:
  assumes "dec_collect addr now now' input len seq l k r index d s = Some (ret, d', s')" and "rs_static_ok s"
  shows "rs_static_ok s'"
proof -
  have "rs_static_ok s'" if "dec_group addr seq k r d s = Some (ret, d', s')" for d
    using that assms(2) by (auto simp: dec_group_def Let_def intro: rs_decode2_keeps split: option.splits if_splits)
  with assms show ?thesis by (auto simp: dec_collect_def Let_def split: if_splits)
qed

lemma decode_input_keeps:
  assumes "fec_decode_input addr now now' buf len d s = Some (ret, d', s')" and "rs_static_ok s"
  shows "rs_static_ok s'"
  using assms by (auto simp: fec_decode_input_def Let_def intro: dec_collect_keeps split: option.splits if_splits)

lemma tunnel_ok_peer:
  assumes "tunnel_ok tun s" and "peer_input logs addr now now' clock data tun s = Some (tun', s')"
  shows "tunnel_ok tun' s'"
proof -
  obtain len d s1 where d: "fec_decode_input addr now now' (Some (data @ replicate (recv_buf_size - length data) 0))
      (int (length data)) (tun_decoder tun) s = Some (len, d, s1)"
    using assms(2) by (auto simp: peer_input_def split: option.splits)
  then obtain r d' kcp where l: "data_loop clock len 0 d (tun_kcp tun) = Some (r, d', kcp)"
      "tun' = tun\<lparr>tun_decoder := d', tun_kcp := kcp\<rparr>" "s' = s1"
    using assms(2) by (auto simp: peer_input_def peer_loop_eq [where ret = 0] split: option.splits if_splits)
  show ?thesis
    using assms(1) kcp_fine_data_loop [OF l(1)] decode_input_keeps [OF d] l(2,3) by (simp add: tunnel_ok_def)
qed

lemma tunnel_ok_addr [simp]: "tunnel_ok (tun\<lparr>tun_addr := a\<rparr>) s = tunnel_ok tun s"
  by (simp add: tunnel_ok_def)

lemma tunnel_ok_app:
  assumes "tunnel_ok tun s" and "length data \<le> recv_buf_size" and "send_app_data mem data tun = Some tun'"
  shows "tunnel_ok tun' s"
  using assms kcp_fine_send [of "tun_kcp tun" data mem] by (auto simp: send_app_data_def tunnel_ok_def)

lemma tunnel_ok_tick:
  assumes "tunnel_ok tun s"
  shows "\<exists>out tun' s'. timer_tick addr millisec res junk flush_res tun s = Some (out, tun', s') \<and> tunnel_ok tun' s' \<and>
    (\<forall>p\<in>set out. length p \<le> 1411)"
proof -
  obtain kcp dgs where up: "ikcp_update (word_of_int millisec) (tun_kcp tun) = (kcp, dgs)" by (rule prod.exhaust)
  note k = kcp_fine_update [OF _ up]
  obtain out e s' where u: "udpout_all addr res junk dgs (tun_encoder tun) s = Some (out, e, s')" "encoder_fine 1400 e"
      "rs_static_ok s'" "\<forall>p\<in>set out. length p \<le> 1411"
    using udpout_all_fine [of 1400 "tun_encoder tun" dgs s addr res junk] assms k(2) by (auto simp: tunnel_ok_def)
  obtain tr e1 where t: "fec_encode_update_time (word_of_int millisec) e = (tr, e1)" by (rule prod.exhaust)
  obtain ret flushed e2 where f: "(if tr > 0 then manager_flush flush_res e1 else (0, [], e1)) = (ret, flushed, e2)"
    by (rule prod_cases3)
  have "encoder_fine 1400 e2" "\<forall>p\<in>set flushed. length p \<le> 1411"
    using update_time_fine [OF u(2) t] f manager_flush_fine [of 1400 e1 flush_res ret flushed e2]
    by (auto split: if_splits)
  then show ?thesis
    using assms up u t f k(1) by (auto simp: timer_tick_def tunnel_ok_def)
qed

lemma tunnel_ok_server_timer:
  assumes "tunnel_ok tun s" and "server_on_timer addr millisec res junk flush_res app_res tun s = Some (out, messages, tun', s')"
  shows "tunnel_ok tun' s' \<and> (\<forall>p\<in>set out. length p \<le> 1411)"
proof -
  obtain tun1 where t: "timer_tick addr millisec res junk flush_res tun s = Some (out, tun1, s')" "tunnel_ok tun1 s'"
      "\<forall>p\<in>set out. length p \<le> 1411"
    using tunnel_ok_tick [OF assms(1), of addr millisec res junk flush_res] assms(2)
    by (auto simp: server_on_timer_def split: option.splits)
  with assms(2) recv_loops_end(1) [of "tun_kcp tun1" app_res] show ?thesis
    by (auto simp: server_on_timer_def tunnel_ok_def split: option.splits)
qed

lemma tunnel_ok_client_timer:
  assumes "tunnel_ok tun s" and "client_on_timer addr millisec res junk flush_res tun s = Some (out, messages, tun', s')"
  shows "tunnel_ok tun' s' \<and> (\<forall>p\<in>set out. length p \<le> 1411)"
proof -
  obtain tun1 where t: "timer_tick addr millisec res junk flush_res tun s = Some (out, tun1, s')" "tunnel_ok tun1 s'"
      "\<forall>p\<in>set out. length p \<le> 1411"
    using tunnel_ok_tick [OF assms(1), of addr millisec res junk flush_res] assms(2)
    by (auto simp: client_on_timer_def split: option.splits)
  with assms(2) recv_loops_end(2) [of "tun_kcp tun1"] show ?thesis
    by (auto simp: client_on_timer_def tunnel_ok_def split: option.splits)
qed

lemma tunnel_ok_server:
  assumes "tunnel_ok tun s" and "event_ok ev" and "server_handle addr mem ev tun s = Some (out, messages, tun', s')"
  shows "tunnel_ok tun' s'"
proof (cases ev)
  case (App_data input)
  with assms show ?thesis
    by (cases input) (auto simp: server_handle_def server_on_app_data_def intro: tunnel_ok_app split: option.splits)
next
  case (Peer_data now now' clock input)
  with assms show ?thesis
    by (cases input) (auto simp: server_handle_def server_on_peer_data_def Let_def intro: tunnel_ok_peer [rotated])
next
  case (Timer millisec res junk flush_res app_res)
  with assms tunnel_ok_server_timer [OF assms(1), of addr millisec res junk flush_res app_res] show ?thesis
    by (auto simp: server_handle_def)
qed

lemma tunnel_ok_client:
  assumes "tunnel_ok tun s" and "event_ok ev" and "client_handle addr mem ev tun s = Some (out, messages, tun', s')"
  shows "tunnel_ok tun' s'"
proof (cases ev)
  case (App_data input)
  with assms show ?thesis
    by (cases input) (auto simp: client_handle_def client_on_app_data_def intro: tunnel_ok_app [rotated 2] split: option.splits)
next
  case (Peer_data now now' clock input)
  with assms show ?thesis
    by (cases input) (auto simp: client_handle_def client_on_peer_data_def intro: tunnel_ok_peer)
next
  case (Timer millisec res junk flush_res app_res)
  with assms tunnel_ok_client_timer [OF assms(1), of addr millisec res junk flush_res] show ?thesis
    by (auto simp: client_handle_def)
qed

lemma tunnel_run_ok: "tunnel_run is_client tun s \<Longrightarrow> tunnel_ok tun s"
  by (induction rule: tunnel_run.induct) (auto intro: tunnel_ok_start tunnel_ok_server tunnel_ok_client)

section \<open>Properties\<close>

lemma fresh_tunnel:
  obtains tun where "tunnel_new True True (0, 5) 0 = Some tun" and "tunnel_run is_client tun rs_static_start"
proof -
  obtain tun where "tunnel_new True True (0, 5) 0 = Some tun" by (simp add: tunnel_new_def ikcp_create_def)
  moreover have "get_random_number_u16 [Some 5] = Some (0, 5)" by simp
  ultimately show ?thesis using that run_start by blast
qed

text \<open>
  In every state a sample can reach, whatever its sockets deliver and however
  sends fail, kcp is in a state that a run of calls on one endpoint reaches, so that every invariant of
  such runs holds; its mtu is the initial one, and the encoder holds at most one datagram.
\<close>

theorem samples_run_endpoint:
  assumes "tunnel_run is_client tun s"
  shows "endpoint_run 0x11111111 (tun_kcp tun) \<and> mtu (tun_kcp tun) = 1400 \<and>
    (\<exists>ds. holds 2 1 (tun_encoder tun) ds \<and> length ds < 2)"
  using tunnel_run_ok [OF assms] by (auto simp: tunnel_ok_def kcp_fine_def encoder_fine_def)

theorem samples_run_endpoint_witness:
  "\<exists>tun tun'. tunnel_new True True (0, 5) 0 = Some tun \<and>
    client_handle 0 mem_ok (App_data (Some ([7, 8], 1, 2))) tun rs_static_start = Some ([], [], tun', rs_static_start) \<and>
    endpoint_run 0x11111111 (tun_kcp tun')"
proof -
  obtain tun where tun: "tunnel_new True True (0, 5) 0 = Some tun" "tunnel_run True tun rs_static_start"
    by (rule fresh_tunnel)
  obtain ret kcp where "ikcp_send mem_ok (Some [7, 8]) 2 (tun_kcp tun) = Some (ret, kcp)"
  proof -
    have "tun_kcp tun = kcp_fresh 0x11111111"
      using tun(1) by (auto simp: tunnel_new_def kcp_fresh_def split: option.splits)
    moreover have "ikcp_send mem_ok (Some [7, 8]) 2 (kcp_fresh 0x11111111) \<noteq> None" by code_simp
    ultimately show ?thesis using that by auto
  qed
  then have h: "client_handle 0 mem_ok (App_data (Some ([7, 8], 1, 2))) tun rs_static_start =
      Some ([], [], tun\<lparr>tun_addr := (1, 2), tun_kcp := kcp\<rparr>, rs_static_start)"
    by (simp add: client_handle_def client_on_app_data_def send_app_data_def)
  have "tunnel_run True (tun\<lparr>tun_addr := (1, 2), tun_kcp := kcp\<rparr>) rs_static_start"
    by (rule run_client [OF tun(2) _ _ h]) simp_all
  from samples_run_endpoint [OF this] tun(1) h show ?thesis by blast
qed






end
