(* ===== verification/Fec_Sockets.thy ===== *)
theory Fec_Sockets
  imports Prelude
begin

text \<open>
  \<open>source/fec_kcp_common.cpp\<close>: the sockets, the timer and the epoll descriptor of the samples. A system call is
  an entry of a history with its result; \<open>sys\<close> decides the result of a call after a history, and the
  descriptors that are open are read off the history. The texts of the log are not modelled.
\<close>

section \<open>System calls\<close>

text \<open>An address is the text of the IPv4 address and the port in 16 bits.\<close>

datatype sys_call =
    Epoll_create
  | Socket
  | Bind int string u16
  | Connect int string u16
  | Epoll_add int int
  | Timerfd_create
  | Timerfd_settime int
  | Close int

type_synonym history = "(sys_call \<times> int) list"

definition perform :: "(history \<Rightarrow> sys_call \<Rightarrow> int) \<Rightarrow> sys_call \<Rightarrow> history \<Rightarrow> int \<times> history" where
  "perform sys c w = (sys w c, w @ [(c, sys w c)])"

fun opens :: "sys_call \<Rightarrow> bool" where
  "opens Epoll_create = True"
| "opens Socket = True"
| "opens Timerfd_create = True"
| "opens c = False"

fun step_fds :: "sys_call \<times> int \<Rightarrow> int set \<Rightarrow> int set" where
  "step_fds (Close fd, r) fds = fds - {fd}"
| "step_fds (c, r) fds = (if opens c \<and> 0 \<le> r then insert r fds else fds)"

definition open_fds :: "history \<Rightarrow> int set" where
  "open_fds w = fold step_fds w {}"

section \<open>The code\<close>

definition add_event2_epoll :: "(history \<Rightarrow> sys_call \<Rightarrow> int) \<Rightarrow> int \<Rightarrow> int \<Rightarrow> history \<Rightarrow> int \<times> history" where
  "add_event2_epoll sys epoll_fd fd w =
     (let (ret, w) = perform sys (Epoll_add epoll_fd fd) w
      in if ret \<noteq> 0 then (-1, w) else (0, w))"

text \<open>
  The function ends without a \<open>return\<close> when all is well, which the C++ standard leaves undefined. The missing return is
  read as the return of an arbitrary integer, the argument \<open>junk\<close>.
\<close>

definition new_listen_socket ::
  "(history \<Rightarrow> sys_call \<Rightarrow> int) \<Rightarrow> int \<Rightarrow> string \<Rightarrow> int \<Rightarrow> history \<Rightarrow> int \<times> int \<times> history" where
  "new_listen_socket sys junk ip port w =
     (let (fd, w) = perform sys Socket w
      in if fd = -1 then (-1, fd, w)
         else let (r, w) = perform sys (Bind fd ip (word_of_int port)) w
              in if r = -1 then (-1, fd, w) else (junk, fd, w))"

definition new_connected_socket ::
  "(history \<Rightarrow> sys_call \<Rightarrow> int) \<Rightarrow> string \<Rightarrow> int \<Rightarrow> history \<Rightarrow> int \<times> int \<times> history" where
  "new_connected_socket sys remote_ip remote_port w =
     (let (fd, w) = perform sys Socket w
      in if fd < 0 then (-1, fd, w)
         else let (ret, w) = perform sys (Connect fd remote_ip (word_of_int remote_port)) w
              in if ret < 0 then let (_, w) = perform sys (Close fd) w in (-1, fd, w)
                 else (0, fd, w))"

definition close_all :: "(history \<Rightarrow> sys_call \<Rightarrow> int) \<Rightarrow> int list \<Rightarrow> history \<Rightarrow> history" where
  "close_all sys fds w = fold (\<lambda>fd w. snd (perform sys (Close fd) w)) fds w"

text \<open>The descriptors handed back are -1 as \<open>main\<close> initialises them until they are assigned.\<close>

record descriptors =
  epoll_fd :: int
  local_listen_fd :: int
  remote_connected_fd :: int
  timer_fd :: int

definition no_descriptors :: descriptors where
  "no_descriptors = \<lparr>epoll_fd = -1, local_listen_fd = -1, remote_connected_fd = -1, timer_fd = -1\<rparr>"

definition init_timer ::
  "(history \<Rightarrow> sys_call \<Rightarrow> int) \<Rightarrow> descriptors \<Rightarrow> history \<Rightarrow> int \<times> descriptors \<times> history" where
  "init_timer sys d w =
     (let (timerfd, w) = perform sys Timerfd_create w;
          d = d\<lparr>timer_fd := timerfd\<rparr>
      in if timerfd = -1 then (-1, d, w)
         else
           let (ret, w) = perform sys (Timerfd_settime timerfd) w
           in if ret = -1 then (-1, d, w)
              else
                let (ret, w) = add_event2_epoll sys (epoll_fd d) timerfd w
                in if ret \<noteq> 0
                   then (-1, d, close_all sys [remote_connected_fd d, local_listen_fd d, timerfd, epoll_fd d] w)
                   else (0, d, w))"

definition init_remote ::
  "(history \<Rightarrow> sys_call \<Rightarrow> int) \<Rightarrow> string \<Rightarrow> int \<Rightarrow> descriptors \<Rightarrow> history \<Rightarrow> int \<times> descriptors \<times> history" where
  "init_remote sys remote_ip remote_port d w =
     (let (ret, fd, w) = new_connected_socket sys remote_ip remote_port w;
          d = d\<lparr>remote_connected_fd := fd\<rparr>
      in if ret \<noteq> 0 then (-1, d, close_all sys [local_listen_fd d, epoll_fd d] w)
         else
           let (ret, w) = add_event2_epoll sys (epoll_fd d) fd w
           in if ret \<noteq> 0 then (-1, d, close_all sys [fd, local_listen_fd d, epoll_fd d] w)
              else init_timer sys d w)"

definition init ::
  "(history \<Rightarrow> sys_call \<Rightarrow> int) \<Rightarrow> int \<Rightarrow> string \<Rightarrow> int \<Rightarrow> string \<Rightarrow> int \<Rightarrow> history \<Rightarrow> int \<times> descriptors \<times> history" where
  "init sys junk remote_ip remote_port local_listen_ip local_listen_port w =
     (let (ep, w) = perform sys Epoll_create w;
          d = no_descriptors\<lparr>epoll_fd := ep\<rparr>
      in if ep < 0 then (-1, d, w)
         else
           let (ret, fd, w) = new_listen_socket sys junk local_listen_ip local_listen_port w;
               d = d\<lparr>local_listen_fd := fd\<rparr>
           in if ret < 0 then (-1, d, close_all sys [ep] w)
              else
                let (ret, w) = add_event2_epoll sys ep fd w
                in if ret \<noteq> 0 then (-1, d, close_all sys [fd, ep] w)
                   else init_remote sys remote_ip remote_port d w)"

text \<open>
  \<open>main\<close> of the samples up to the event loop: the result of \<open>main\<close>, or the descriptors for \<open>run\<close>. \<open>port\<close> is what
  \<open>strtol\<close> returns for the second argument; the local port is 5555 in the server and 9999 in the client.
\<close>

definition sample_main ::
  "(history \<Rightarrow> sys_call \<Rightarrow> int) \<Rightarrow> int \<Rightarrow> int \<Rightarrow> string \<Rightarrow> int \<Rightarrow> int \<Rightarrow> history \<Rightarrow> (int + descriptors) \<times> history" where
  "sample_main sys junk local_port remote_ip argc port w =
     (if argc < 3 then (Inl (-1), w)
      else let remote_port = sint (word_of_int port :: 32 word)
        in if remote_port < 0 then (Inl (-1), w)
           else let (ret, d, w) = init sys junk remote_ip remote_port ''0.0.0.0'' local_port w
             in if ret < 0 then (Inl (-1), w) else (Inr d, w))"

text \<open>The result of \<open>gettimeofday\<close>, which is not negative, in milliseconds.\<close>

definition get_milliseconds :: "int \<Rightarrow> int \<Rightarrow> int" where
  "get_milliseconds tv_sec tv_usec = tv_sec * 1000 + tv_usec div 1000"

section \<open>Which descriptors stay open\<close>

text \<open>A call that opens a descriptor fails with -1 or returns one that is not open.\<close>

definition kernel_ok :: "(history \<Rightarrow> sys_call \<Rightarrow> int) \<Rightarrow> bool" where
  "kernel_ok sys \<longleftrightarrow> (\<forall>w c. opens c \<longrightarrow> sys w c = -1 \<or> 0 \<le> sys w c \<and> sys w c \<notin> open_fds w)"

fun is_close :: "sys_call \<Rightarrow> bool" where
  "is_close (Close fd) = True"
| "is_close c = False"

text \<open>The last call that was not the closing of a descriptor: the one that failed.\<close>

definition last_request :: "history \<Rightarrow> sys_call" where
  "last_request w = last (filter (\<lambda>c. \<not> is_close c) (map fst w))"

definition left_open :: "descriptors \<Rightarrow> sys_call \<Rightarrow> int set" where
  "left_open d c =
     (case c of
        Bind fd ip port \<Rightarrow> {local_listen_fd d}
      | Timerfd_create \<Rightarrow> {epoll_fd d, local_listen_fd d, remote_connected_fd d}
      | Timerfd_settime fd \<Rightarrow> {epoll_fd d, local_listen_fd d, remote_connected_fd d, timer_fd d}
      | _ \<Rightarrow> {})"

lemma open_fds_snoc [simp]: "open_fds (w @ [e]) = step_fds e (open_fds w)"
  by (simp add: open_fds_def)

lemma last_request_snoc [simp]: "last_request (w @ [(c, r)]) = (if is_close c then last_request w else c)"
  by (simp add: last_request_def)

lemma close_all_fds [simp]:
  "open_fds (close_all sys fds w) = open_fds w - set fds" "last_request (close_all sys fds w) = last_request w"
  by (induction fds arbitrary: w) (auto simp: close_all_def perform_def)

lemma kernel_opens:
  "kernel_ok sys \<Longrightarrow> opens c \<Longrightarrow> sys w c \<noteq> -1 \<Longrightarrow> 0 \<le> sys w c \<and> sys w c \<notin> open_fds w"
  "kernel_ok sys \<Longrightarrow> opens c \<Longrightarrow> sys w c < 0 \<longleftrightarrow> sys w c = -1"
  by (force simp: kernel_ok_def)+

text \<open>The descriptors that \<open>init\<close> holds at a stage, none of them open before.\<close>

definition holds_fds :: "int list \<Rightarrow> int set \<Rightarrow> history \<Rightarrow> bool" where
  "holds_fds fds old w \<longleftrightarrow> open_fds w = old \<union> set fds \<and> distinct fds \<and> set fds \<inter> old = {}"

lemma init_timer_fds:
  assumes k: "kernel_ok sys" and h: "holds_fds [remote_connected_fd d, local_listen_fd d, epoll_fd d] old w"
    and run: "init_timer sys d w = (ret, d', w')"
  shows "if ret = 0 then holds_fds [timer_fd d', remote_connected_fd d', local_listen_fd d', epoll_fd d'] old w'
    else ret = -1 \<and> open_fds w' = old \<union> left_open d' (last_request w')"
proof -
  define t where "t = sys w Timerfd_create"
  define w1 where "w1 = w @ [(Timerfd_create, t)]"
  have fds: "open_fds w = old \<union> {remote_connected_fd d, local_listen_fd d, epoll_fd d}" using h by (auto simp: holds_fds_def)
  show ?thesis
  proof (cases "t = -1")
    case True
    then have "ret = -1" "d' = d\<lparr>timer_fd := t\<rparr>" "w' = w1"
      using run by (auto simp: init_timer_def perform_def t_def w1_def)
    then show ?thesis using fds True by (auto simp: w1_def left_open_def)
  next
    case False
    then have t: "0 \<le> t" "t \<notin> open_fds w" using kernel_opens(1) [OF k, of Timerfd_create w] by (simp_all add: t_def)
    then have fds1: "open_fds w1 = insert t (open_fds w)" by (simp add: w1_def)
    define r where "r = sys w1 (Timerfd_settime t)"
    define w2 where "w2 = w1 @ [(Timerfd_settime t, r)]"
    have fds2: "open_fds w2 = insert t (open_fds w)" using fds1 by (simp add: w2_def)
    show ?thesis
    proof (cases "r = -1")
      case True
      then have "ret = -1" "d' = d\<lparr>timer_fd := t\<rparr>" "w' = w2"
        using run False by (auto simp: init_timer_def perform_def t_def w1_def r_def w2_def)
      then show ?thesis using fds fds2 by (auto simp: w2_def left_open_def)
    next
      case r: False
      define a where "a = sys w2 (Epoll_add (epoll_fd d) t)"
      define w3 where "w3 = w2 @ [(Epoll_add (epoll_fd d) t, a)]"
      have fds3: "open_fds w3 = insert t (open_fds w)" using fds2 by (simp add: w3_def)
      have run3: "(ret, d', w') = (if a \<noteq> 0
          then (-1, d\<lparr>timer_fd := t\<rparr>, close_all sys [remote_connected_fd d, local_listen_fd d, t, epoll_fd d] w3)
          else (0, d\<lparr>timer_fd := t\<rparr>, w3))"
        using run False r by (auto simp: init_timer_def perform_def add_event2_epoll_def t_def w1_def r_def w2_def a_def w3_def)
      show ?thesis
      proof (cases "a = 0")
        case True
        then have "ret = 0" "d' = d\<lparr>timer_fd := t\<rparr>" "w' = w3" using run3 by simp_all
        then show ?thesis using fds3 fds h t(2) by (simp add: holds_fds_def)
      next
        case False
        then have w': "ret = -1" "w' = close_all sys [remote_connected_fd d, local_listen_fd d, t, epoll_fd d] w3"
          using run3 by simp_all
        have "open_fds w' = old" using fds3 fds t(2) h unfolding holds_fds_def by (auto simp: w'(2))
        moreover have "last_request w' = Epoll_add (epoll_fd d) t" by (simp add: w'(2) w3_def)
        ultimately show ?thesis using w'(1) by (simp add: left_open_def)
      qed
    qed
  qed
qed

lemma add_event2_epoll_fds:
  assumes "add_event2_epoll sys ep fd w = (ret, w')"
  shows "open_fds w' = open_fds w \<and> last_request w' = Epoll_add ep fd"
  using assms by (auto simp: add_event2_epoll_def perform_def split: if_splits)

lemma new_connected_socket_fds:
  assumes k: "kernel_ok sys" and run: "new_connected_socket sys ip port w = (ret, fd, w')"
  shows "if ret = 0 then 0 \<le> fd \<and> fd \<notin> open_fds w \<and> open_fds w' = insert fd (open_fds w)
    else ret = -1 \<and> open_fds w' = open_fds w \<and> left_open d (last_request w') = {}"
proof (cases "sys w Socket < 0")
  case True
  then show ?thesis
    using run by (auto simp: new_connected_socket_def perform_def left_open_def)
next
  case False
  then have "sys w Socket \<notin> open_fds w" using kernel_opens [OF k, of Socket w] by auto
  with False run show ?thesis
    by (auto simp: new_connected_socket_def perform_def Let_def left_open_def simp flip: append_assoc split: if_splits)
qed

lemma init_remote_fds:
  assumes k: "kernel_ok sys" and h: "holds_fds [local_listen_fd d, epoll_fd d] old w"
    and run: "init_remote sys ip port d w = (ret, d', w')"
  shows "if ret = 0 then holds_fds [timer_fd d', remote_connected_fd d', local_listen_fd d', epoll_fd d'] old w'
    else ret = -1 \<and> open_fds w' = old \<union> left_open d' (last_request w')"
proof -
  have fds: "open_fds w = old \<union> {local_listen_fd d, epoll_fd d}" using h by (auto simp: holds_fds_def)
  obtain r fd w1 where c: "new_connected_socket sys ip port w = (r, fd, w1)" by (rule prod_cases3)
  note n = new_connected_socket_fds [OF k c]
  let ?d = "d\<lparr>remote_connected_fd := fd\<rparr>"
  show ?thesis
  proof (cases "r = 0")
    case False
    then have w': "ret = -1" "d' = ?d" "w' = close_all sys [local_listen_fd d, epoll_fd d] w1"
      using run c by (simp_all add: init_remote_def)
    have "open_fds w' = old" using n [of d'] False fds h by (auto simp: w'(3) holds_fds_def)
    then show ?thesis using n [of d'] False w' by simp
  next
    case r: True
    then have fd: "fd \<notin> open_fds w" "open_fds w1 = insert fd (open_fds w)" using n by simp_all
    obtain a w2 where e: "add_event2_epoll sys (epoll_fd d) fd w1 = (a, w2)" by (rule prod.exhaust)
    note added = add_event2_epoll_fds [OF e]
    show ?thesis
    proof (cases "a = 0")
      case True
      have "holds_fds [remote_connected_fd ?d, local_listen_fd ?d, epoll_fd ?d] old w2"
        using h fds fd added by (auto simp: holds_fds_def)
      moreover have "init_timer sys ?d w2 = (ret, d', w')" using run c r e True by (simp add: init_remote_def)
      ultimately show ?thesis by (rule init_timer_fds [OF k])
    next
      case False
      then have w': "ret = -1" "w' = close_all sys [fd, local_listen_fd d, epoll_fd d] w2"
        using run c r e by (simp_all add: init_remote_def)
      have "open_fds w' = old" using added fds fd h by (auto simp: w'(2) holds_fds_def)
      moreover have "last_request w' = Epoll_add (epoll_fd d) fd" using added by (simp add: w'(2))
      ultimately show ?thesis using w'(1) by (simp add: left_open_def)
    qed
  qed
qed

lemma init_fds:
  assumes k: "kernel_ok sys" and run: "init sys junk rip rport lip lport w = (ret, d, w')"
  shows "if ret = 0 then holds_fds [timer_fd d, remote_connected_fd d, local_listen_fd d, epoll_fd d] (open_fds w) w'
    else ret = -1 \<and> open_fds w' = open_fds w \<union> left_open d (last_request w')"
proof -
  define ep where "ep = sys w Epoll_create"
  define w1 where "w1 = w @ [(Epoll_create, ep)]"
  show ?thesis
  proof (cases "ep < 0")
    case True
    then have "ret = -1" "w' = w1" using run by (simp_all add: init_def perform_def ep_def w1_def)
    with True show ?thesis by (simp add: w1_def left_open_def)
  next
    case ep: False
    then have e: "ep \<notin> open_fds w" "open_fds w1 = insert ep (open_fds w)"
      using kernel_opens [OF k, of Epoll_create w] by (auto simp: ep_def w1_def)
    define l where "l = sys w1 Socket"
    define w2 where "w2 = w1 @ [(Socket, l)]"
    let ?d = "no_descriptors\<lparr>epoll_fd := ep, local_listen_fd := l\<rparr>"
    show ?thesis
    proof (cases "l = -1")
      case True
      then have "new_listen_socket sys junk lip lport w1 = (-1, l, w2)"
        by (simp add: new_listen_socket_def perform_def Let_def l_def w2_def)
      then have w': "ret = -1" "w' = close_all sys [ep] w2"
        using run ep by (simp_all add: init_def perform_def Let_def ep_def w1_def)
      show ?thesis using w' True e by (auto simp: w2_def left_open_def)
    next
      case l: False
      then have lf: "l \<notin> open_fds w1" "open_fds w2 = insert l (open_fds w1)"
        using kernel_opens(1) [OF k, of Socket w1] by (auto simp: l_def w2_def)
      define b where "b = sys w2 (Bind l lip (word_of_int lport))"
      define w3 where "w3 = w2 @ [(Bind l lip (word_of_int lport), b)]"
      have w3: "open_fds w3 = insert l (open_fds w1)" "last_request w3 = Bind l lip (word_of_int lport)"
        using lf by (simp_all add: w3_def)
      define lr where "lr = (if b = -1 then -1 else junk)"
      have s: "new_listen_socket sys junk lip lport w1 = (lr, l, w3)"
        using l by (simp add: new_listen_socket_def perform_def Let_def l_def w2_def b_def w3_def lr_def)
      have "init sys junk rip rport lip lport w = (if lr < 0 then (-1, ?d, close_all sys [ep] w3)
          else let (r, w) = add_event2_epoll sys ep l w3
               in if r \<noteq> 0 then (-1, ?d, close_all sys [l, ep] w) else init_remote sys rip rport ?d w)"
        using ep s by (simp add: init_def perform_def Let_def flip: ep_def w1_def)
      note run1 = this [unfolded run]
      show ?thesis
      proof (cases "lr < 0")
        case True
        then have w': "ret = -1" "d = ?d" "w' = close_all sys [ep] w3" using run1 by (simp_all split: if_splits)
        have "open_fds w' = insert l (open_fds w)" using w3(1) e lf by (auto simp: w'(3))
        then show ?thesis using w'(1,2) w3(2) by (simp add: w'(3) left_open_def)
      next
        case False
        obtain r w4 where ev: "add_event2_epoll sys ep l w3 = (r, w4)" by (rule prod.exhaust)
        note added = add_event2_epoll_fds [OF ev]
        show ?thesis
        proof (cases "r = 0")
          case True
          have "holds_fds [local_listen_fd ?d, epoll_fd ?d] (open_fds w) w4"
            using added w3 e lf by (auto simp: holds_fds_def)
          moreover have "init_remote sys rip rport ?d w4 = (ret, d, w')" using run1 False ev True by (simp split: if_splits)
          ultimately show ?thesis by (rule init_remote_fds [OF k])
        next
          case r: False
          then have w': "ret = -1" "w' = close_all sys [l, ep] w4" using run1 False ev by (simp_all split: if_splits)
          have "open_fds w' = open_fds w" using added w3 e lf by (auto simp: w'(2))
          moreover have "last_request w' = Epoll_add ep l" using added by (simp add: w'(2))
          ultimately show ?thesis using w'(1) by (simp add: left_open_def)
        qed
      qed
    qed
  qed
qed

section \<open>Properties\<close>

text \<open>
  C40 (descriptors of a start). When \<open>init\<close> succeeds, exactly its four new descriptors are open in addition. When it
  fails with -1, everything is closed again, except after three calls: a failed \<open>bind\<close> leaves the socket open,
  and a failed \<open>timerfd_create\<close> or \<open>timerfd_settime\<close> leaves everything open that was opened until then. The socket also
  stays open when \<open>bind\<close> succeeded but the result that \<open>new_listen_socket\<close> does not return is taken for negative.
\<close>

theorem init_descriptors:
  assumes "kernel_ok sys" and "init sys junk rip rport lip lport w = (ret, d, w')"
  shows "if ret = 0 then holds_fds [timer_fd d, remote_connected_fd d, local_listen_fd d, epoll_fd d] (open_fds w) w'
    else ret = -1 \<and> open_fds w' = open_fds w \<union> left_open d (last_request w')"
  using assms by (rule init_fds)

text \<open>A kernel that numbers the descriptors and refuses to bind.\<close>

definition fresh_fd :: "history \<Rightarrow> int" where
  "fresh_fd w = 1 + fold (\<lambda>e m. max (snd e) m) w 0"

definition no_bind :: "history \<Rightarrow> sys_call \<Rightarrow> int" where
  "no_bind w c = (case c of Bind fd ip port \<Rightarrow> -1 | _ \<Rightarrow> if opens c then fresh_fd w else 0)"

lemma fresh_fd_snoc: "fresh_fd (w @ [e]) = max (1 + snd e) (fresh_fd w)"
  by (simp add: fresh_fd_def)

lemma fresh_fd_open: "1 \<le> fresh_fd w \<and> (\<forall>fd\<in>open_fds w. fd < fresh_fd w)"
proof (induction w rule: rev_induct)
  case (snoc e w)
  then show ?case by (cases e; cases "fst e") (auto simp: fresh_fd_snoc)
qed (simp add: open_fds_def fresh_fd_def)

lemma no_bind_ok: "kernel_ok no_bind"
  unfolding kernel_ok_def
proof (intro allI impI)
  fix w c
  assume "opens c"
  then show "no_bind w c = -1 \<or> 0 \<le> no_bind w c \<and> no_bind w c \<notin> open_fds w"
    using fresh_fd_open [of w] by (cases c) (auto simp: no_bind_def)
qed

theorem init_descriptors_witness:
  "fst (init no_bind 0 ''10.0.0.1'' 5555 ''0.0.0.0'' 9999 []) = -1 \<and>
    open_fds (snd (snd (init no_bind 0 ''10.0.0.1'' 5555 ''0.0.0.0'' 9999 []))) = {2}"
proof -
  obtain ret d w where i: "init no_bind 0 ''10.0.0.1'' 5555 ''0.0.0.0'' 9999 [] = (ret, d, w)" by (rule prod_cases3)
  have "ret = -1 \<and> left_open d (last_request w) = {2}"
    using i by (auto simp: init_def new_listen_socket_def perform_def no_bind_def fresh_fd_def left_open_def no_descriptors_def last_request_def close_all_def)
  with init_descriptors [OF no_bind_ok i] i show ?thesis by (simp add: open_fds_def)
qed

end
