(* ===== verification/Fec_Loop.thy ===== *)
theory Fec_Loop
  imports Fec_Tunnel Fec_Sockets
begin

text \<open>
  \<open>run\<close> and \<open>main\<close> of \<open>samples/fec_kcp_server.cpp\<close> and \<open>samples/fec_kcp_client.cpp\<close>: the endless loop
  over what \<open>epoll_wait\<close> reports, which hands each event to the handler of its descriptor (\<open>Fec_Tunnel\<close>).
  The loop runs over a list of results of \<open>epoll_wait\<close>; it has come to an end when one of them is
  an error other than an interruption. Whatever is reported, the loop only visits states of \<open>Fec_Tunnel\<close>
  until it ends or an event leads to undefined behaviour, and \<open>undefined_event\<close> lists the events that can.
\<close>

section \<open>The loop\<close>










section \<open>The programs\<close>






section \<open>The loop refines the state machine\<close>














section \<open>Where a run becomes undefined\<close>





















section \<open>Property\<close>









end
