(* ===== verification/Kcp_Delivery.thy ===== *)
theory Kcp_Delivery
  imports Fec_Kcp
begin

text \<open>
  From one endpoint to the other: what a flush of kcp writes, a peer that gets all of its datagrams in order
  puts into the queue of the application. With \<open>ikcp_send\<close> before and \<open>ikcp_recv\<close> after it, a message
  arrives.
\<close>

section \<open>What arrives\<close>

definition rcv_part :: "ikcpcb \<Rightarrow> u32 \<times> u32 \<times> u32 \<times> u32 \<times> ikcpseg list \<times> ikcpseg list" where
  "rcv_part k = (rcv_wnd k, rcv_nxt k, nrcv_buf k, nrcv_que k, rcv_buf k, rcv_queue k)"

lemma rcv_part_frame [simp]:
  "rcv_part (ikcp_parse_una una k) = rcv_part k" "rcv_part (ikcp_parse_ack sn k) = rcv_part k"
  "rcv_part (ikcp_shrink_buf k) = rcv_part k" "rcv_part (ikcp_parse_fastack sn ts k) = rcv_part k"
  "rcv_part (ikcp_ack_push sn ts k) = rcv_part k" "rcv_part (ikcp_update_ack rtt k) = rcv_part k"
  "rcv_part (input_cwnd k) = rcv_part k" "rcv_part (k\<lparr>rmt_wnd := w\<rparr>) = rcv_part k"
  "rcv_part (k\<lparr>probe := p\<rparr>) = rcv_part k"
  by (simp_all add: rcv_part_def ikcp_parse_una_def ikcp_parse_ack_def ikcp_shrink_buf_eq
      ikcp_parse_fastack_def ikcp_update_ack_def input_cwnd_def Let_def split_beta frame_simps)

text \<open>The identity of a segment: its number, its place in the message, and its bytes.\<close>

definition content :: "ikcpseg \<Rightarrow> u32 \<times> u32 \<times> u8 list" where
  "content s = (seg_sn s, seg_frg s, seg_data s)"

text \<open>The receiver has put the segments into its queue, and nothing waits behind a gap.\<close>

definition took :: "ikcpseg list \<Rightarrow> ikcpcb \<Rightarrow> ikcpcb \<Rightarrow> bool" where
  "took segs k k' \<longleftrightarrow> kcp_inv k' \<and> conv k' = conv k \<and> rcv_wnd k' = rcv_wnd k \<and> rcv_buf k' = [] \<and>
     rcv_nxt k' = rcv_nxt k + of_nat (length segs) \<and> nrcv_que k' = nrcv_que k + of_nat (length segs) \<and>
     (\<exists>ms. rcv_queue k' = rcv_queue k @ ms \<and> map content ms = map content segs)"

lemma took_trans: "took xs k k' \<Longrightarrow> took ys k' k'' \<Longrightarrow> took (xs @ ys) k k''"
  unfolding took_def by (auto simp: algebra_simps)

lemma took_nothing:
  "kcp_inv k' \<Longrightarrow> conv k' = conv k \<Longrightarrow> rcv_part k' = rcv_part k \<Longrightarrow> rcv_buf k = [] \<Longrightarrow> took [] k k'"
  by (simp add: took_def rcv_part_def)

text \<open>The next segment in order goes straight to the queue.\<close>

lemma parse_data_next:
  assumes "rcv_inv k" and "seg_sn s = rcv_nxt k" and "rcv_buf k = []" and "nrcv_que k < rcv_wnd k"
  shows "ikcp_parse_data s k = k\<lparr>nrcv_buf := 0, rcv_queue := rcv_queue k @ [s], nrcv_que := nrcv_que k + 1,
    rcv_nxt := rcv_nxt k + 1\<rparr>"
proof -
  have "in_rcv_window (seg_sn s) k" using assms(1,2) by (simp add: in_rcv_window_def rcv_inv_def)
  moreover have "nrcv_buf k = 0" using assms(1,3) by (simp add: rcv_inv_def)
  ultimately show ?thesis
    using assms by (simp add: ikcp_parse_data_eq rcv_store_def insert_by_sn_def ikcp_move_ready_eq take_ready_def)
qed

lemma input_push_window:
  assumes "itimediff sn (rcv_nxt k + rcv_wnd k) < 0" and "\<not> itimediff sn (rcv_nxt k) < 0"
  shows "\<exists>seg. input_push cmd frg wnd ts sn una len data k = ikcp_parse_data seg (ikcp_ack_push sn ts k) \<and>
    content seg = (sn, ucast frg, take (unat len) data)"
  using assms by (auto simp: input_push_def Let_def content_def frame_simps)

lemma receive_data:
  assumes inv: "kcp_inv k" and s: "wire_ok (conv k) s" "seg_cmd s = IKCP_CMD_PUSH" "seg_sn s = rcv_nxt k"
    and room: "rcv_buf k = []" "nrcv_que k < rcv_wnd k" and r: "receive s (f, m, l, k) = (f', m', l', k')"
  shows "took [s] k k'"
proof -
  let ?k = "ikcp_shrink_buf (ikcp_parse_una (seg_una s) (k\<lparr>rmt_wnd := ucast (ucast (seg_wnd s) :: u16)\<rparr>))"
  have part: "rcv_part ?k = rcv_part k" by simp
  have ok: "unat (seg_len s) \<le> length (seg_data s)" "take (unat (seg_len s)) (seg_data s) = seg_data s"
      "ucast (ucast (seg_frg s) :: u8) = seg_frg s" "ucast (ucast (seg_cmd s) :: u8) = seg_cmd s"
    using s(1) ucast_ucast_small [of "seg_frg s"] by (auto simp: wire_ok_def seg_ok_def)
  have inv': "kcp_inv k'"
    using kcp_inv_input_segment [OF inv ok(1)] r by (simp add: receive_def)
  have cv: "conv k' = conv k" using receive_conv [of s f m l k] r by simp
  have "itimediff (seg_sn s) (rcv_nxt ?k + rcv_wnd ?k) < 0" "\<not> itimediff (seg_sn s) (rcv_nxt ?k) < 0"
  proof -
    have "rcv_inv k" using inv by (simp add: kcp_inv_def)
    moreover have "in_rcv_window (seg_sn s) k" using s(3) \<open>rcv_inv k\<close> by (simp add: in_rcv_window_def rcv_inv_def)
    ultimately show "itimediff (seg_sn s) (rcv_nxt ?k + rcv_wnd ?k) < 0" "\<not> itimediff (seg_sn s) (rcv_nxt ?k) < 0"
      using window_test [of k "seg_sn s"] part by (auto simp: rcv_part_def rcv_inv_def)
  qed
  then obtain seg where seg: "input_push (ucast (seg_cmd s)) (ucast (seg_frg s)) (ucast (seg_wnd s)) (seg_ts s)
      (seg_sn s) (seg_una s) (seg_len s) (seg_data s) ?k = ikcp_parse_data seg (ikcp_ack_push (seg_sn s) (seg_ts s) ?k)"
      "content seg = (seg_sn s, ucast (ucast (seg_frg s) :: u8), take (unat (seg_len s)) (seg_data s))"
    using input_push_window by blast
  have "k' = ikcp_parse_data seg (ikcp_ack_push (seg_sn s) (seg_ts s) ?k)"
    using r ok(4) s(2) seg(1) by (simp add: receive_def input_segment_def)
  moreover have "content seg = content s" using seg(2) ok by (simp add: content_def)
  ultimately have seg: "k' = ikcp_parse_data seg (ikcp_ack_push (seg_sn s) (seg_ts s) ?k)" "content seg = content s"
    by blast+
  let ?k2 = "ikcp_ack_push (seg_sn s) (seg_ts s) ?k"
  have part2: "rcv_part ?k2 = rcv_part k" by simp
  have "rcv_inv ?k2" using inv by (simp add: kcp_inv_def)
  moreover have "seg_sn seg = rcv_nxt ?k2" "rcv_buf ?k2 = []" "nrcv_que ?k2 < rcv_wnd ?k2"
    using seg(2) s(3) room part2 by (simp_all add: rcv_part_def content_def)
  ultimately have "k' = ?k2\<lparr>nrcv_buf := 0, rcv_queue := rcv_queue ?k2 @ [seg], nrcv_que := nrcv_que ?k2 + 1,
      rcv_nxt := rcv_nxt ?k2 + 1\<rparr>"
    using seg(1) parse_data_next by blast
  then have "rcv_wnd k' = rcv_wnd ?k2 \<and> rcv_buf k' = rcv_buf ?k2 \<and> rcv_nxt k' = rcv_nxt ?k2 + 1 \<and>
      nrcv_que k' = nrcv_que ?k2 + 1 \<and> rcv_queue k' = rcv_queue ?k2 @ [seg]"
    by simp
  then show ?thesis
    using inv' cv part2 room(1) seg(2) by (simp add: took_def rcv_part_def)
qed

lemma receive_control:
  assumes inv: "kcp_inv k" and s: "wire_ok (conv k) s" "seg_cmd s \<noteq> IKCP_CMD_PUSH" and buf: "rcv_buf k = []"
    and r: "receive s (f, m, l, k) = (f', m', l', k')"
  shows "took [] k k'"
proof (rule took_nothing)
  have ok: "unat (seg_len s) \<le> length (seg_data s)" using s(1) by (simp add: wire_ok_def seg_ok_def)
  show "kcp_inv k'" using kcp_inv_input_segment [OF inv ok] r by (simp add: receive_def)
  show "conv k' = conv k" using receive_conv [of s f m l k] r by simp
  have cmd: "ucast (ucast (seg_cmd s) :: u8) = seg_cmd s" using s(1) by (auto simp: wire_ok_def)
  have ack: "rcv_part k'' = rcv_part k1" if "input_ack sn ts f m l k1 = (f', m', l', k'')" for sn ts f m l k1 f' m' l' k''
    using that by (auto simp: input_ack_def Let_def split: if_splits)
  let ?k = "ikcp_shrink_buf (ikcp_parse_una (seg_una s) (k\<lparr>rmt_wnd := ucast (ucast (seg_wnd s) :: u16)\<rparr>))"
  have "rcv_part k' = rcv_part ?k"
    using r s(2) cmd ack [of "seg_sn s" "seg_ts s" f m l ?k f' m' l' k']
    by (auto simp: receive_def input_segment_def Let_def split: if_splits)
  then show "rcv_part k' = rcv_part k" by simp
qed (rule buf)

section \<open>Segments and datagrams\<close>

abbreviation data_of :: "ikcpseg list \<Rightarrow> ikcpseg list" where
  "data_of segs \<equiv> filter (\<lambda>s. seg_cmd s = IKCP_CMD_PUSH) segs"

text \<open>The data continues where the receiver is, and there is room for it.\<close>

definition in_sequence :: "ikcpseg list \<Rightarrow> ikcpcb \<Rightarrow> bool" where
  "in_sequence segs k \<longleftrightarrow> (\<forall>s\<in>set segs. wire_ok (conv k) s) \<and> rcv_buf k = [] \<and>
     consecutive (rcv_nxt k) (map seg_sn (data_of segs)) \<and>
     unat (nrcv_que k) + length (data_of segs) \<le> unat (rcv_wnd k)"

lemma in_sequence_took:
  assumes "in_sequence (xs @ ys) k" and "took (data_of xs) k k'"
  shows "in_sequence ys k'"
proof -
  have n: "unat (nrcv_que k) + length (data_of xs) \<le> unat (rcv_wnd k)" using assms(1) by (simp add: in_sequence_def)
  have "unat (rcv_wnd k) < 4294967296" using unsigned_less [where 'a = nat, of "rcv_wnd k"] by simp
  then have "length (data_of xs) < 4294967296" using n by linarith
  then have u: "unat (of_nat (length (data_of xs)) :: u32) = length (data_of xs)"
    by (simp add: unat_of_nat)
  have "unat (nrcv_que k + of_nat (length (data_of xs))) = unat (nrcv_que k) + length (data_of xs)"
    using le_less_trans [OF n \<open>unat (rcv_wnd k) < 4294967296\<close>] u by (simp add: unat_word_ariths)
  then show ?thesis
    using assms by (auto simp: in_sequence_def took_def consecutive_append)
qed

lemma receive_all_takes:
  assumes "kcp_inv k" and "in_sequence segs k"
    and "receive_all segs (f, m, l, k) = (f', m', l', k')"
  shows "took (data_of segs) k k'"
  using assms
proof (induction segs arbitrary: f m l k)
  case Nil
  then show ?case by (auto simp: receive_all_def in_sequence_def intro: took_nothing)
next
  case (Cons s segs)
  obtain f1 m1 l1 k1 where r: "receive s (f, m, l, k) = (f1, m1, l1, k1)" by (rule prod_cases4)
  have s: "wire_ok (conv k) s" "rcv_buf k = []" using Cons.prems(2) by (simp_all add: in_sequence_def)
  have "took (data_of [s]) k k1"
  proof (cases "seg_cmd s = IKCP_CMD_PUSH")
    case True
    then have "seg_sn s = rcv_nxt k" "nrcv_que k < rcv_wnd k"
      using Cons.prems(2) by (simp_all add: in_sequence_def word_less_nat_alt)
    with True receive_data [OF Cons.prems(1) s(1) True _ s(2) _ r] show ?thesis by simp
  next
    case False
    with receive_control [OF Cons.prems(1) s(1) False s(2) r] show ?thesis by simp
  qed
  moreover from this have "took (data_of segs) k1 k'"
    using Cons.IH [of k1 f1 m1 l1] Cons.prems(2,3) in_sequence_took [of "[s]" segs k k1] r
    by (simp add: receive_all_def took_def)
  ultimately show ?case using took_trans [of "data_of [s]" k k1] by (cases "seg_cmd s = IKCP_CMD_PUSH") auto
qed

text \<open>Zeros may follow a datagram, as they do when it comes out of the packet codec.\<close>

definition zero_padded :: "u8 list list \<Rightarrow> u8 list list \<Rightarrow> bool" where
  "zero_padded = list_all2 (\<lambda>y x. \<exists>z. y = x @ replicate z 0)"

lemma zero_padded_refl: "zero_padded xs xs"
  unfolding zero_padded_def by (rule list_all2_refl) (rule exI [of _ 0], simp)

lemma input_datagram_takes:
  assumes inv: "kcp_inv k" and segs: "in_sequence segs k" "segs \<noteq> []"
    and y: "y = datagram segs @ replicate z 0" "conv k \<noteq> 0 \<or> y = datagram segs"
  shows "took (data_of segs) k (snd (ikcp_input (Some y) k))"
proof -
  obtain f m l k1 where r: "receive_all segs (False, 0, 0, k) = (f, m, l, k1)" by (rule prod_cases4)
  have t: "took (data_of segs) k k1" by (rule receive_all_takes [OF inv segs(1) r])
  have wire: "\<forall>s\<in>set segs. wire_ok (conv k) s" using segs(1) by (simp add: in_sequence_def)
  have plain: "ikcp_input (Some (datagram segs)) k = (0, input_end (snd_una k) (f, m, l, k1))"
    using ikcp_input_wire [OF segs(2) wire] r by (simp add: datagram_def)
  have "took [] k1 (input_end (snd_una k) (f, m, l, k1))"
  proof (rule took_nothing)
    show "kcp_inv (input_end (snd_una k) (f, m, l, k1))" using t by (simp add: input_end_def Let_def took_def)
    show "rcv_part (input_end (snd_una k) (f, m, l, k1)) = rcv_part k1" by (simp add: input_end_def Let_def)
    show "conv (input_end (snd_una k) (f, m, l, k1)) = conv k1"
      by (simp add: input_end_def Let_def ikcp_parse_fastack_def input_cwnd_def)
    show "rcv_buf k1 = []" using t by (simp add: took_def)
  qed
  then have ok: "took (data_of segs) k (snd (ikcp_input (Some (datagram segs)) k))"
    using took_trans [OF t, of "[]"] by (simp add: plain)
  show ?thesis
  proof (cases "y = datagram segs")
    case False
    then have "ikcp_input (Some y) k = (if z < 24 then ikcp_input (Some (datagram segs)) k else (-2, k1))"
      using ikcp_input_padded [OF segs(2) wire, of z] y r by simp
    with ok t show ?thesis by simp
  qed (use ok in simp)
qed

lemma deliver_takes:
  assumes "kcp_inv k" and "in_sequence (concat gs) k" and "\<forall>g\<in>set gs. g \<noteq> []"
    and "zero_padded ys (map datagram gs)" and "conv k \<noteq> 0 \<or> ys = map datagram gs"
  shows "took (data_of (concat gs)) k (deliver ys k)"
  using assms
proof (induction gs arbitrary: ys k)
  case Nil
  then show ?case by (auto simp: in_sequence_def zero_padded_def intro: took_nothing)
next
  case (Cons g gs)
  then obtain y z ys' where ys: "ys = y # ys'" "y = datagram g @ replicate z 0" "zero_padded ys' (map datagram gs)"
    by (auto simp: zero_padded_def list_all2_Cons2)
  let ?k = "snd (ikcp_input (Some y) k)"
  have "in_sequence g k" using Cons.prems(2) by (auto simp: in_sequence_def consecutive_append)
  then have t: "took (data_of g) k ?k"
    using input_datagram_takes [OF Cons.prems(1) _ _ ys(2)] Cons.prems(3,5) ys(1) by auto
  then have "in_sequence (concat gs) ?k" using in_sequence_took [of g "concat gs" k ?k] Cons.prems(2) by simp
  then have "took (data_of (concat gs)) ?k (deliver ys' ?k)"
    using Cons.IH [of ?k ys'] t Cons.prems(3,5) ys(1,3) by (auto simp: took_def)
  with took_trans [OF t] ys(1) show ?case by simp
qed

section \<open>A flush and the peer\<close>

text \<open>Everything in flight is unacknowledged, without gaps, and due for transmission.\<close>

definition all_due :: "ikcpcb \<Rightarrow> bool" where
  "all_due k \<longleftrightarrow> consecutive (snd_una k) (map seg_sn (snd_buf k)) \<and>
     snd_nxt k = snd_una k + of_nat (length (snd_buf k)) \<and>
     (\<forall>s\<in>set (snd_buf k). due (flush_resent k) k s)"

lemma consecutive_stamp_all: "consecutive sn (map seg_sn (stamp_all k wnd sn q))"
  by (induction q arbitrary: sn) (simp_all add: stamp_def)

lemma stamped_first: "s \<in> set (stamp_all k wnd sn q) \<Longrightarrow> first_send s"
  by (induction q arbitrary: sn) (auto simp: stamp_def first_send_def)

lemma flush_data_all:
  assumes "all_due k"
  shows "map seg_sn (flush_data k) = map seg_sn (snd_buf (flush_ready k))"
    and "map payload (flush_data k) = map payload (snd_buf k @ take (flush_moved k) (snd_queue k))"
    and "consecutive (snd_una k) (map seg_sn (flush_data k))"
    and "length (flush_data k) = length (snd_buf k) + flush_moved k"
proof -
  have "due (flush_resent k) (flush_ready k) s" if "s \<in> set (snd_buf (flush_ready k))" for s
    using that assms stamped_first [of s k] unfolding flush_ready_queues all_due_def set_append
    by (auto simp: due_def)
  then have f: "filter (due (flush_resent k) (flush_ready k)) (snd_buf (flush_ready k)) = snd_buf (flush_ready k)"
    by simp
  show sn: "map seg_sn (flush_data k) = map seg_sn (snd_buf (flush_ready k))"
    unfolding flush_data_def transmissions_def f by simp
  show p: "map payload (flush_data k) = map payload (snd_buf k @ take (flush_moved k) (snd_queue k))"
    unfolding flush_data_def transmissions_def f by (simp add: flush_ready_queues comp_def)
  show "consecutive (snd_una k) (map seg_sn (flush_data k))"
    using assms unfolding sn by (simp add: flush_ready_queues consecutive_append all_due_def consecutive_stamp_all)
  from arg_cong [OF p, of length] show "length (flush_data k) = length (snd_buf k) + flush_moved k"
    by (simp add: flush_moved_def)
qed

lemma data_of_flush:
  assumes "snd_stamped k"
  shows "data_of (flush_control k @ flush_data k) = flush_data k"
proof -
  have "seg_cmd s \<noteq> IKCP_CMD_PUSH" if "s \<in> set (flush_control k)" for s
    using that by (auto simp: flush_control_def ack_segments_def probe_segments_def flush_template_def
        last_map split: if_splits)
  then have "data_of (flush_control k) = []" by (auto simp: filter_empty_conv)
  moreover have "seg_cmd s = IKCP_CMD_PUSH" if "s \<in> set (flush_data k)" for s
    using that snd_stamped_ready [OF assms]
    by (auto simp: flush_data_def transmissions_def snd_stamped_def)
  ultimately show ?thesis by simp
qed

lemma flush_takes:
  assumes a: "endpoint_inv a" "updated a \<noteq> 0" "all_due a"
    and p: "kcp_inv p" "conv p = conv a" "rcv_nxt p = snd_una a" "rcv_buf p = []"
    and room: "length (rcv_queue p) + length (snd_buf a) + flush_moved a \<le> unat (rcv_wnd p)"
    and ys: "zero_padded ys (snd (ikcp_flush a))" "conv p \<noteq> 0 \<or> ys = snd (ikcp_flush a)"
  shows "took (flush_data a) p (deliver ys p)"
proof -
  have inv: "kcp_inv a" "snd_sized a" "snd_stamped a" using a(1) by (simp_all add: endpoint_inv_def)
  obtain gs where gs: "snd (ikcp_flush a) = map (\<lambda>g. concat (map wire g)) gs"
      "concat gs = flush_control a @ flush_data a" "\<forall>g\<in>set gs. g \<noteq> []"
    using ikcp_flush_groups [OF inv(1,2) a(2)] by blast
  have "unat (nrcv_que p) = length (rcv_queue p)" using p(1) rcv_inv_nrcv_que by (simp add: kcp_inv_def)
  then have "in_sequence (concat gs) p"
    using flush_written_ok [OF inv] p(2-4) room flush_data_all(3,4) [OF a(3)]
    unfolding in_sequence_def gs(2) data_of_flush [OF inv(3)] by simp
  from deliver_takes [OF p(1) this gs(3), of ys] ys show ?thesis
    unfolding gs(2) data_of_flush [OF inv(3)] by (simp add: gs(1) datagram_def [abs_def])
qed

lemma payload_eq: "payload = (\<lambda>s. (seg_frg s, seg_data s))"
  by (simp add: payload_def [abs_def])

lemma payload_content: "payload s = snd (content s)"
  by (simp add: payload_def content_def)

lemma took_payload:
  assumes "took segs k k'"
  obtains ms where "rcv_queue k' = rcv_queue k @ ms" "map payload ms = map payload segs"
proof -
  obtain ms where ms: "rcv_queue k' = rcv_queue k @ ms" "map content ms = map content segs"
    using assms by (auto simp: took_def)
  from arg_cong [OF ms(2), of "map snd"] have "map payload ms = map payload segs"
    by (simp add: payload_content [abs_def] comp_def)
  with ms(1) show ?thesis by (rule that)
qed

lemma flush_arrives:
  assumes a: "endpoint_inv a" "updated a \<noteq> 0" "all_due a"
    and p: "kcp_inv p" "conv p = conv a" "rcv_nxt p = snd_una a" "rcv_buf p = []"
    and room: "length (rcv_queue p) + length (snd_buf a) + flush_moved a \<le> unat (rcv_wnd p)"
    and ys: "zero_padded ys (snd (ikcp_flush a))" "conv p \<noteq> 0 \<or> ys = snd (ikcp_flush a)" and p': "p' = deliver ys p"
  shows "kcp_inv p' \<and> rcv_nxt p' = snd_nxt (fst (ikcp_flush a)) \<and>
    (\<exists>ms. rcv_queue p' = rcv_queue p @ ms \<and>
       map payload ms = map payload (snd_buf a @ take (flush_moved a) (snd_queue a)))"
proof -
  have t: "took (flush_data a) p p'" unfolding p' by (rule flush_takes [OF a p room ys])
  have inv: "kcp_inv a" "snd_sized a" using a(1) by (simp_all add: endpoint_inv_def)
  obtain ms where "rcv_queue p' = rcv_queue p @ ms" "map payload ms = map payload (flush_data a)"
    by (rule took_payload [OF t])
  moreover have "rcv_nxt p' = snd_nxt (fst (ikcp_flush a))"
    using t p(3) a(3) ikcp_flush_sent [OF inv a(2)] flush_data_all(4) [OF a(3)]
    by (simp add: took_def all_due_def flush_ready_queues)
  ultimately show ?thesis using t flush_data_all(2) [OF a(3)] by (simp add: took_def)
qed

section \<open>A message, with losses on the way\<close>

text \<open>
  Any number of flushes whose datagrams are lost, after each of them the clock set to a time \<open>t\<close> at which
  everything in flight has timed out.
\<close>

inductive lost_flushes :: "ikcpcb \<Rightarrow> ikcpcb \<Rightarrow> bool" for a where
  none_lost: "lost_flushes a a"
| flush_lost: "lost_flushes a k \<Longrightarrow>
    \<forall>s\<in>set (snd_buf (fst (ikcp_flush k))). itimediff t (seg_resendts s) \<ge> 0 \<Longrightarrow>
    lost_flushes a ((fst (ikcp_flush k))\<lparr>current := t\<rparr>)"

text \<open>What the sender still has to bring to the peer: the payloads, the first number, and all of it may go out.\<close>

definition owes :: "(u32 \<times> u8 list) list \<Rightarrow> u32 \<Rightarrow> u32 \<Rightarrow> ikcpcb \<Rightarrow> bool" where
  "owes ps sn cv k \<longleftrightarrow> endpoint_inv k \<and> updated k \<noteq> 0 \<and> all_due k \<and> snd_una k = sn \<and> conv k = cv \<and>
     flush_moved k = length (snd_queue k) \<and> map payload (snd_buf k @ snd_queue k) = ps"

lemma owes_after_loss:
  assumes "owes ps sn cv k"
    and t: "\<forall>s\<in>set (snd_buf (fst (ikcp_flush k))). itimediff t (seg_resendts s) \<ge> 0"
  shows "owes ps sn cv ((fst (ikcp_flush k))\<lparr>current := t\<rparr>)"
proof -
  let ?k = "fst (ikcp_flush k)"
  have k: "kcp_inv k" "snd_sized k" "updated k \<noteq> 0" "all_due k" "flush_moved k = length (snd_queue k)"
    using assms(1) by (simp_all add: owes_def endpoint_inv_def)
  have eq: "?k = flush_state k" using ikcp_flush_sent [OF k(1-3)] by simp
  have queue: "snd_queue ?k = []" unfolding eq by (simp add: flush_ready_queues k(5))
  have sn: "map seg_sn (snd_buf ?k) = map seg_sn (flush_data k)"
    unfolding flush_data_all(1) [OF k(4)] eq by (simp add: comp_def)
  have len: "length (snd_buf ?k) = length (flush_data k)" using arg_cong [OF sn, of length] by simp
  have "snd_nxt ?k = snd_una k + of_nat (length (snd_buf ?k))"
    using k(4) unfolding len flush_data_all(4) [OF k(4)] unfolding eq
    by (simp add: flush_ready_queues all_due_def)
  moreover have "due resent (?k\<lparr>current := t\<rparr>) s" if "s \<in> set (snd_buf ?k)" for s resent
    using t that by (auto simp: due_def first_send_def timed_out_def)
  moreover have "consecutive (snd_una k) (map seg_sn (snd_buf ?k))"
    unfolding sn by (rule flush_data_all(3) [OF k(4)])
  moreover have "snd_una ?k = snd_una k" by (simp add: eq)
  ultimately have "all_due (?k\<lparr>current := t\<rparr>)" by (simp add: all_due_def flush_resent_def)
  moreover have "endpoint_inv ?k" using assms(1) by (simp add: owes_def endpoint_inv_flush)
  moreover have "map payload (snd_buf ?k @ snd_queue ?k) = ps"
    using assms(1) ikcp_flush_payload [OF k(1,2)] by (simp add: owes_def)
  ultimately show ?thesis using assms(1) queue eq by (simp add: owes_def flush_moved_def)
qed

lemma owes_lost_flushes: "lost_flushes a k \<Longrightarrow> owes ps sn cv a \<Longrightarrow> owes ps sn cv k"
  by (induction rule: lost_flushes.induct) (auto intro: owes_after_loss)

lemma owed_arrives:
  assumes "owes ps (rcv_nxt p) (conv p) a" and p: "kcp_inv p" "rcv_buf p = []"
    and room: "length (rcv_queue p) + length ps \<le> unat (rcv_wnd p)"
    and ys: "zero_padded ys (snd (ikcp_flush a))" "conv p \<noteq> 0 \<or> ys = snd (ikcp_flush a)"
  shows "\<exists>ms. kcp_inv (deliver ys p) \<and> rcv_queue (deliver ys p) = rcv_queue p @ ms \<and> map payload ms = ps"
proof -
  have "length ps = length (snd_buf a) + flush_moved a" using assms(1) by (auto simp: owes_def)
  then show ?thesis
    using assms(1) p room flush_arrives [OF _ _ _ _ _ _ _ _ ys refl] by (auto simp: owes_def)
qed

text \<open>What \<open>ikcp_send\<close> leaves behind in an idle block.\<close>

lemma send_owes:
  assumes a: "endpoint_inv a" "updated a \<noteq> 0" "stream a = 0" "snd_buf a = []" "snd_queue a = []"
    and send: "ikcp_send mem_ok (Some b) (int (length b)) a = Some (0, a')" "length b < half32"
    and w: "length (snd_queue a') \<le> unat (flush_cwnd a)"
  shows "length (chunks (unat (mss a)) b) < 128"
    and "owes (map payload (fragment_segs 0 (chunks (unat (mss a)) b))) (snd_nxt a) (conv a) a'"
    and "snd_buf a' = []" and "mtu a' = mtu a"
proof -
  let ?m = "unat (mss a)"
  have inv: "kcp_inv a" using a(1) by (simp add: endpoint_inv_def)
  have m: "0 < ?m" "?m < half32" using cfg_inv_mss inv by (auto simp: kcp_inv_def)
  show "length (chunks ?m b) < 128"
    using ikcp_send_message [OF a(3) m send(2)] send(1) by (auto split: if_splits)
  have a': "a' = enqueue (fragment_segs 0 (chunks ?m b)) a"
    using ikcp_send_message [OF a(3) m send(2)] send(1) by (auto split: if_splits)
  have una: "snd_una a = snd_nxt a" using inv a(4) by (simp add: kcp_inv_def snd_inv_def first_sn_def)
  have q: "snd_queue a' = fragment_segs 0 (chunks ?m b)" using a(5) by (simp add: a' enqueue_def)
  have "flush_cwnd a' = flush_cwnd a" by (simp add: a' flush_cwnd_def enqueue_def Let_def)
  moreover have "flight a' = 0" using una by (simp add: a' flight_def enqueue_def)
  ultimately have "flush_moved a' = length (snd_queue a')" using w by (simp add: flush_moved_def)
  moreover have "endpoint_inv a'" by (rule endpoint_inv_send [OF a(1) send(2,1)])
  moreover show buf: "snd_buf a' = []" and "mtu a' = mtu a" using a(4) by (simp_all add: a' enqueue_def)
  moreover have "updated a' = updated a" "conv a' = conv a" "snd_una a' = snd_una a"
      "snd_nxt a' = snd_nxt a"
    using a(4) by (simp_all add: a' enqueue_def)
  ultimately show "owes (map payload (fragment_segs 0 (chunks ?m b))) (snd_nxt a) (conv a) a'"
    using una a(2) by (simp add: owes_def all_due_def q)
qed

section \<open>Properties\<close>

text \<open>
  C5 (a flush reaches the peer). When everything in flight is due and the peer waits for the first of its
  numbers with room in its window, the datagrams of one \<open>ikcp_flush\<close> put all of it, and the data the
  flush moved to \<open>snd_buf\<close>, into the queue of the peer's application, once and in order.
\<close>

theorem flush_reaches_peer:
  assumes "endpoint_inv a" and "updated a \<noteq> 0" and "all_due a"
    and "kcp_inv p" and "conv p = conv a" and "rcv_nxt p = snd_una a" and "rcv_buf p = []"
    and "length (rcv_queue p) + length (snd_buf a) + flush_moved a \<le> unat (rcv_wnd p)"
    and "p' = deliver (snd (ikcp_flush a)) p"
  shows "kcp_inv p' \<and> rcv_nxt p' = snd_nxt (fst (ikcp_flush a)) \<and>
    (\<exists>ms. rcv_queue p' = rcv_queue p @ ms \<and>
       map payload ms = map payload (snd_buf a @ take (flush_moved a) (snd_queue a)))"
  using assms(9) flush_arrives [OF assms(1-8) zero_padded_refl] by blast

lemma ready_to_send_endpoint: "endpoint_inv ready_to_send" "all_due ready_to_send" "flush_moved ready_to_send = 1"
  using ready_to_send_inv
  by (simp_all add: endpoint_inv_def)
    (simp_all add: all_due_def ready_to_send_def kcp_fresh_def ikcp_create_def flush_moved_def flush_cwnd_def
      flight_def imin_def)

theorem flush_reaches_peer_witness:
  "\<exists>s. rcv_queue (deliver (snd (ikcp_flush ready_to_send)) (kcp_fresh 9)) = [s] \<and> payload s = (0, [7, 8])"
proof -
  have p: "kcp_inv (kcp_fresh 9)" "conv (kcp_fresh 9) = conv ready_to_send"
      "rcv_nxt (kcp_fresh 9) = snd_una ready_to_send" "rcv_buf (kcp_fresh 9) = []"
      "length (rcv_queue (kcp_fresh 9)) + length (snd_buf ready_to_send) + flush_moved ready_to_send
        \<le> unat (rcv_wnd (kcp_fresh 9))"
    using ready_to_send_endpoint(3) endpoint_inv_create [of True True 9 "kcp_fresh 9"]
    by (simp_all add: endpoint_inv_def ready_to_send_def) (simp_all add: kcp_fresh_def ikcp_create_def)
  from flush_reaches_peer [OF ready_to_send_endpoint(1) ready_to_send_inv(4) ready_to_send_endpoint(2) p refl]
  obtain ms where ms: "rcv_queue (deliver (snd (ikcp_flush ready_to_send)) (kcp_fresh 9)) = rcv_queue (kcp_fresh 9) @ ms"
      "map payload ms = map payload (snd_buf ready_to_send @ take 1 (snd_queue ready_to_send))"
    by (auto simp: ready_to_send_endpoint(3))
  have "rcv_queue (kcp_fresh 9) = []" "map payload (snd_buf ready_to_send @ take 1 (snd_queue ready_to_send)) = [(0, [7, 8])]"
    by (simp_all add: ready_to_send_def kcp_fresh_def ikcp_create_def payload_def sample_seg_def ikcp_segment_zero_def)
  with ms have "rcv_queue (deliver (snd (ikcp_flush ready_to_send)) (kcp_fresh 9)) = ms" "map payload ms = [(0, [7, 8])]"
    by simp_all
  then show ?thesis by (auto simp: map_eq_Cons_conv)
qed

text \<open>
  C4 (a message arrives, whatever is lost before). An idle sender queues a message that fits the windows.
  However many flushes lose all their datagrams, each after the timeout of the one before: the datagrams of
  the next flush that gets through make the peer's \<open>ikcp_recv\<close> return exactly the message.
\<close>

theorem message_arrives:
  assumes "endpoint_inv a" and "updated a \<noteq> 0" and "stream a = 0" and "snd_buf a = []" and "snd_queue a = []"
    and "ikcp_send mem_ok (Some b) (int (length b)) a = Some (0, a')" and "length b < half32"
    and "length (snd_queue a') \<le> unat (flush_cwnd a)" and "lost_flushes a' k"
    and "kcp_inv p" and "conv p = conv a" and "rcv_nxt p = snd_nxt a" and "rcv_buf p = []" and "rcv_queue p = []"
    and "int (length b) \<le> len"
  shows "\<exists>p'. ikcp_recv True len (deliver (snd (ikcp_flush k)) p) = Some (int (length b), b, p')"
proof -
  let ?ps = "map payload (fragment_segs 0 (chunks (unat (mss a)) b))"
  note s = send_owes [OF assms(1-8)]
  have "owes ?ps (rcv_nxt p) (conv p) k"
    using owes_lost_flushes [OF assms(9) s(2)] assms(11,12) by simp
  moreover have "length (rcv_queue p) + length ?ps \<le> unat (rcv_wnd p)"
    using s(1) assms(10,14) by (simp add: kcp_inv_def rcv_inv_def)
  ultimately obtain ms where ms: "kcp_inv (deliver (snd (ikcp_flush k)) p)"
      "rcv_queue (deliver (snd (ikcp_flush k)) p) = ms @ []" "map payload ms = ?ps"
    using owed_arrives [OF _ assms(10,13) _ zero_padded_refl] assms(14) by fastforce
  have "rcv_inv (deliver (snd (ikcp_flush k)) p)" using ms(1) by (simp add: kcp_inv_def)
  from recv_fragments [OF s(1) assms(7) this ms(2) ms(3) [unfolded payload_eq] assms(15)] show ?thesis by blast
qed

theorem message_arrives_witness:
  "\<exists>a' k p'. ikcp_send mem_ok (Some [7, 8]) 2 (kcp_fresh 9\<lparr>updated := 1, cwnd := 4\<rparr>) = Some (0, a') \<and>
    k = (fst (ikcp_flush a'))\<lparr>current := 1000\<rparr> \<and>
    ikcp_recv True 10 (deliver (snd (ikcp_flush k)) (kcp_fresh 9)) = Some (2, [7, 8], p')"
proof -
  let ?a = "kcp_fresh 9\<lparr>updated := 1, cwnd := 4\<rparr>" and ?segs = "[new_fragment 2 [7, 8] 0]"
  let ?k = "(fst (ikcp_flush (enqueue ?segs ?a)))\<lparr>current := 1000\<rparr>"
  have inv: "endpoint_inv (kcp_fresh 9)"
    using endpoint_inv_create [of True True 9 "kcp_fresh 9"] by (simp add: kcp_fresh_def ikcp_create_def)
  have send: "ikcp_send mem_ok (Some [7, 8]) (int (length [7, 8 :: u8])) ?a = Some (0, enqueue ?segs ?a)"
    using ikcp_send_message [of ?a "[7, 8]"] by (simp add: kcp_fresh_send_fields chunks_short)
  have "\<forall>s\<in>set (snd_buf (fst (ikcp_flush (enqueue ?segs ?a)))). itimediff 1000 (seg_resendts s) \<ge> 0"
    by code_simp
  then have lost: "lost_flushes (enqueue ?segs ?a) ?k" by (rule flush_lost [OF none_lost])
  have a: "endpoint_inv ?a"
    by (simp add: kcp_fresh_def ikcp_create_def endpoint_inv_def kcp_inv_def rcv_inv_def snd_inv_def snd_order_def
        cfg_inv_def flight_def first_sn_def snd_sized_def snd_stamped_def window_sorted_Nil)
  have "length (snd_queue (enqueue ?segs ?a)) \<le> unat (flush_cwnd ?a)"
    by (simp add: enqueue_def flush_cwnd_def kcp_fresh_def ikcp_create_def imin_def)
  from message_arrives [OF a _ _ _ _ send _ this lost, of "kcp_fresh 9" 10] inv
  have "\<exists>p'. ikcp_recv True 10 (deliver (snd (ikcp_flush ?k)) (kcp_fresh 9)) = Some (2, [7, 8], p')"
    by (simp add: endpoint_inv_def) (simp add: kcp_fresh_def ikcp_create_def)
  with send show ?thesis by auto
qed

end
