(* ===== verification/Fec_Delivery.thy ===== *)
theory Fec_Delivery
  imports Kcp_Delivery
begin

text \<open>
  From application to application: a message given to the kcp of one \<open>FecKcp\<close>, the packets its update sends,
  any \<open>k\<close> of them given to the \<open>DataInput\<close> of another, and the message that its \<open>DataOutput\<close> returns.
\<close>

section \<open>What the codec does to datagrams\<close>

text \<open>It hands them out in order, with zeros behind some of them.\<close>

lemma padded_exists: "\<exists>z. padded m d = d @ replicate z 0"
  by (auto simp: padded_def)

lemma passed_on_zero_padded:
  assumes "ds \<noteq> []"
  shows "zero_padded (passed_on ds lens n 0) ds"
proof -
  obtain d rest where ds: "ds = d # rest" using assms by (cases ds) auto
  have "passed_on ds lens n 0 = padded n d # map (\<lambda>j. padded (nat (lens ! Suc j)) (rest ! j)) [0..<length rest]"
    by (simp add: passed_on_def ds map_Suc_upt [symmetric] del: upt_Suc)
  then show ?thesis
    by (simp add: zero_padded_def ds padded_exists) (simp add: list_all2_conv_all_nth padded_exists)
qed

section \<open>The update that sends the message\<close>

lemma owes_clock:
  assumes "owes ps sn cv k" and "snd_buf k = []" and "u \<noteq> 0"
  shows "owes ps sn cv (k\<lparr>current := c, updated := u, ts_flush := t\<rparr>)"
proof -
  have "flush_moved (k\<lparr>current := c, updated := u, ts_flush := t\<rparr>) = flush_moved k"
    by (simp add: flush_moved_def flush_cwnd_def flight_def Let_def)
  with assms show ?thesis by (simp add: owes_def all_due_def)
qed

lemma update_flushes:
  assumes "owes ps sn cv k" and "snd_buf k = []" and "snd (ikcp_update c k) \<noteq> []"
  obtains k' where "ikcp_update c k = ikcp_flush k'" "owes ps sn cv k'"
proof -
  have "flush_due c k" using assms(3) by (auto simp: ikcp_update_eq split: if_splits)
  then have "ikcp_update c k = ikcp_flush (k\<lparr>current := c, updated := (if updated k = 0 then 1 else updated k),
      ts_flush := next_flush c k\<rparr>)"
    by (simp add: ikcp_update_eq)
  moreover have "owes ps sn cv (k\<lparr>current := c, updated := (if updated k = 0 then 1 else updated k),
      ts_flush := next_flush c k\<rparr>)"
    by (rule owes_clock [OF assms(1,2)]) simp
  ultimately show ?thesis by (rule that)
qed

section \<open>Properties\<close>

text \<open>
  C1 (a message through the codec). An idle \<open>FecKcp\<close> queues a message, and the next \<open>FecKcpUpdate\<close>
  emits the datagrams of one group. It sends \<open>k + r\<close> packets; whichever \<open>k\<close> of them reach the \<open>DataInput\<close> of
  the peer, in whatever order, its \<open>DataOutput\<close> then returns exactly the message.
\<close>

theorem message_through_codec:
  assumes a: "endpoint_inv (fk_kcp a)" "updated (fk_kcp a) \<noteq> 0" "stream (fk_kcp a) = 0"
      "snd_buf (fk_kcp a) = []" "snd_queue (fk_kcp a) = []" "unat (mtu (fk_kcp a)) \<le> 65535"
      "holds k r (fk_encoder a) []" "k + r \<le> 127"
    and send: "user_data_send mem_ok (Some b) (int (length b)) a = Some (0, a1)" "length b < half32"
      "length (snd_queue (fk_kcp a1)) \<le> unat (flush_cwnd (fk_kcp a))"
    and update: "snd (ikcp_update (word_of_int ms) (fk_kcp a1)) = dgs" "length dgs = k"
    and p: "receptive (ucast (enc_seq (fk_encoder a))) t (fk_decoder p)" "kcp_inv (fk_kcp p)"
      "conv (fk_kcp p) = conv (fk_kcp a)" "conv (fk_kcp p) \<noteq> 0" "rcv_nxt (fk_kcp p) = snd_nxt (fk_kcp a)"
      "rcv_buf (fk_kcp p) = []" "rcv_queue (fk_kcp p) = []"
    and s: "rs_static_ok s" "rs_static_ok s'" and len: "int (length b) \<le> len"
  shows "\<exists>out a2 s1. fec_kcp_update addr ms a1 s = Some (out, a2, s1) \<and> length out = k + r \<and>
    (\<forall>as. length as = k \<and> distinct_arrivals out as \<and>
       timely (timeout_limit_ms (timeout_keys (fk_decoder p))) t as \<longrightarrow>
       (\<exists>rets p1 s2 p2. data_inputs addr' clock (received_calls dgs as) p s' = Some (rets, p1, s2) \<and>
          data_output True len p1 = Some (int (length b), b, p2)))"
proof -
  let ?m = "unat (mss (fk_kcp a))" and ?e = "fk_encoder a"
  let ?ps = "map payload (fragment_segs 0 (chunks ?m b))"
  obtain ka where ka: "ikcp_send mem_ok (Some b) (int (length b)) (fk_kcp a) = Some (0, ka)" "a1 = a\<lparr>fk_kcp := ka\<rparr>"
    using send(1) by (auto simp: user_data_send_def)
  have owed: "length (chunks ?m b) < 128" "owes ?ps (snd_nxt (fk_kcp a)) (conv (fk_kcp a)) ka" "snd_buf ka = []"
      "mtu ka = mtu (fk_kcp a)"
    using send_owes [OF a(1-5) ka(1) send(2)] send(3) by (simp_all add: ka(2))
  have k: "1 \<le> k" "1 \<le> unat (enc_seq ?e)" using a(7) by (simp_all add: holds_def enc_params_def)
  then have "dgs \<noteq> []" using update(2) by auto
  then obtain k' where k': "ikcp_update (word_of_int ms) ka = ikcp_flush k'"
      "owes ?ps (snd_nxt (fk_kcp a)) (conv (fk_kcp a)) k'"
    using update_flushes [OF owed(2,3)] update(1) by (auto simp: ka(2))
  have dgs: "snd (ikcp_flush k') = dgs" using update(1) k'(1) by (simp add: ka(2))
  have "endpoint_inv ka" using owed(2) by (simp add: owes_def)
  then have ok: "\<forall>x\<in>set dgs. packet_ok x"
    using endpoint_inv_update_datagrams [of ka "word_of_int ms"] a(6) update(1) owed(4)
    by (fastforce simp: packet_ok_def ka(2))
  obtain e' s1 cw where sent: "send_datagrams addr dgs ?e s = Some (group_packets (enc_seq ?e) k r dgs cw, e', s1)"
      "group_codeword k r dgs cw"
    using send_datagrams_group [OF a(7) ok _ \<open>dgs \<noteq> []\<close> s(1), of addr] update(2) by auto
  obtain kcp where kcp: "ikcp_update (word_of_int ms) ka = (kcp, dgs)" using dgs k'(1) by (metis surjective_pairing)
  have "fec_kcp_update addr ms a1 s =
      Some (group_packets (enc_seq ?e) k r dgs cw, a1\<lparr>fk_kcp := kcp, fk_encoder := e'\<rparr>, s1)"
    using kcp sent(1) by (simp add: fec_kcp_update_def ka(2))
  moreover have "\<exists>rets p1 s2 p2. data_inputs addr' clock (received_calls dgs as) p s' = Some (rets, p1, s2) \<and>
      data_output True len p1 = Some (int (length b), b, p2)"
    if as: "length as = k" "distinct_arrivals (group_packets (enc_seq ?e) k r dgs cw) as"
      "timely (timeout_limit_ms (timeout_keys (fk_decoder p))) t as" for as
  proof -
    let ?ys = "passed_on dgs (decoded_lengths dgs (set (map arrival_index as))) (longest dgs) 0"
    obtain rets d s2 where recv: "data_inputs addr' clock (received_calls dgs as) p s' =
        Some (rets, p\<lparr>fk_decoder := d, fk_kcp := deliver ?ys (fk_kcp p)\<rparr>, s2)"
      using receive_group [OF p(1) as sent(2) update(2) ok k(1) a(8) k(2) s(2), of addr' clock] by blast
    have ys: "zero_padded ?ys (snd (ikcp_flush k'))" using passed_on_zero_padded [OF \<open>dgs \<noteq> []\<close>] dgs by simp
    have "length (rcv_queue (fk_kcp p)) + length ?ps \<le> unat (rcv_wnd (fk_kcp p))"
      using owed(1) p(2,7) by (simp add: kcp_inv_def rcv_inv_def)
    with owed_arrives [OF _ p(2,6) _ ys] obtain ms where ms: "kcp_inv (deliver ?ys (fk_kcp p))"
        "rcv_queue (deliver ?ys (fk_kcp p)) = ms @ []" "map payload ms = ?ps"
      using k'(2) p(3,4,5,7) by auto
    have "rcv_inv (deliver ?ys (fk_kcp p))" using ms(1) by (simp add: kcp_inv_def)
    from recv_fragments [OF owed(1) send(2) this ms(2) ms(3) [unfolded payload_eq] len]
    obtain k2 where "ikcp_recv True len (deliver ?ys (fk_kcp p)) = Some (int (length b), b, k2)" by blast
    then show ?thesis using recv by (auto simp: data_output_def)
  qed
  ultimately show ?thesis by force
qed

text \<open>One packet of data and one redundant packet per group; the redundant one arrives.\<close>

definition sending :: fec_kcp where
  "sending = \<lparr>fk_kcp = kcp_fresh 9\<lparr>updated := 1, cwnd := 4\<rparr>, fk_encoder = fec_encoder_new 1 1 1 (0, 5) 0,
     fk_decoder = fec_decoder_new 10000\<rparr>"

definition listening :: fec_kcp where
  "listening = \<lparr>fk_kcp = kcp_fresh 9, fk_encoder = fec_encoder_new 1 1 1 (0, 7) 0, fk_decoder = fec_decoder_new 10000\<rparr>"

definition queued :: fec_kcp where
  "queued = sending\<lparr>fk_kcp := enqueue [new_fragment 2 [7, 8] 0] (fk_kcp sending)\<rparr>"

lemma sending_ok:
  "endpoint_inv (fk_kcp sending)" "updated (fk_kcp sending) \<noteq> 0" "stream (fk_kcp sending) = 0"
  "snd_buf (fk_kcp sending) = []" "snd_queue (fk_kcp sending) = []" "unat (mtu (fk_kcp sending)) \<le> 65535"
  by (simp_all add: sending_def kcp_fresh_def ikcp_create_def endpoint_inv_def kcp_inv_def rcv_inv_def snd_inv_def
      snd_order_def cfg_inv_def flight_def first_sn_def snd_sized_def snd_stamped_def window_sorted_Nil)

lemma listening_ok:
  "kcp_inv (fk_kcp listening)" "conv (fk_kcp listening) = conv (fk_kcp sending)" "conv (fk_kcp listening) \<noteq> 0"
  "rcv_nxt (fk_kcp listening) = snd_nxt (fk_kcp sending)" "rcv_buf (fk_kcp listening) = []" "rcv_queue (fk_kcp listening) = []"
  by (simp_all add: listening_def sending_def kcp_fresh_def ikcp_create_def kcp_inv_def rcv_inv_def snd_inv_def
      snd_order_def cfg_inv_def flight_def first_sn_def window_sorted_Nil)

lemma queued_update: "length (snd (ikcp_update (word_of_int 100) (fk_kcp queued))) = 1"
  unfolding of_int_numeral by code_simp

theorem message_through_codec_witness:
  "\<exists>dgs out a2 s1 rets p1 s2 p2. snd (ikcp_update (word_of_int 100) (fk_kcp queued)) = dgs \<and>
    fec_kcp_update 0 100 queued rs_static_start = Some (out, a2, s1) \<and> length out = 2 \<and>
    data_inputs 8 (\<lambda>i. 30) (received_calls dgs [(10, 10, 1, out ! 1 @ [0])]) listening rs_static_start = Some (rets, p1, s2) \<and>
    data_output True 10 p1 = Some (2, [7, 8], p2)"
proof -
  have e: "holds 1 1 (fk_encoder sending) []" using fec_encoder_new_holds [of 1 1 "[Some 5]"] by (simp add: sending_def)
  have send: "user_data_send mem_ok (Some [7, 8]) (int (length [7, 8 :: u8])) sending = Some (0, queued)"
    using ikcp_send_message [of "fk_kcp sending" "[7, 8]"]
    by (simp add: user_data_send_def queued_def sending_def kcp_fresh_send_fields chunks_short)
  have w: "length (snd_queue (fk_kcp queued)) \<le> unat (flush_cwnd (fk_kcp sending))"
    by (simp add: queued_def sending_def enqueue_def flush_cwnd_def kcp_fresh_def ikcp_create_def imin_def)
  have b: "receptive (ucast (enc_seq (fk_encoder sending))) 0 (fk_decoder listening)"
    using fec_decoder_new_ok [of 10000]
    by (simp add: receptive_def waiting_def sending_def listening_def)
      (simp add: fec_decoder_new_def fetch_def fec_encoder_new_def)
  obtain out a2 s1 where sent: "fec_kcp_update 0 100 queued rs_static_start = Some (out, a2, s1)" "length out = 2"
    and recv: "\<And>as. length as = 1 \<Longrightarrow> distinct_arrivals out as \<Longrightarrow>
       timely (timeout_limit_ms (timeout_keys (fk_decoder listening))) 0 as \<Longrightarrow>
       (\<exists>rets p1 s2 p2. data_inputs 8 (\<lambda>i. 30) (received_calls (snd (ikcp_update (word_of_int 100) (fk_kcp queued))) as)
          listening rs_static_start = Some (rets, p1, s2) \<and>
          data_output True 10 p1 = Some (int (length [7, 8 :: u8]), [7, 8], p2))"
    using message_through_codec [OF sending_ok e _ send _ w refl queued_update b listening_ok rs_static_start_ok
        rs_static_start_ok, of 10 0 8 "\<lambda>i. 30"] by auto
  have as: "distinct_arrivals out [(10, 10, 1, out ! 1 @ [0])]"
    using sent(2) by (simp add: distinct_arrivals_def arrives_def arrival_index_def)
  have "timely (timeout_limit_ms (timeout_keys (fk_decoder listening))) 0 [(10, 10, 1, out ! 1 @ [0])]"
    by (simp add: listening_def fec_decoder_new_def timeout_map_new_def)
  from recv [OF _ as this] sent show ?thesis by auto
qed

end
