(* ===== verification/Fec_Books.thy ===== *)
theory Fec_Books
  imports Fec_Output
begin

text \<open>
  The bookkeeping of \<open>FecDecode\<close>: its eight maps and the timeout map are updated one by one, in
  \<open>Input\<close>, \<open>Output\<close> and \<open>ClearTimeoutDatas\<close>. \<open>books_ok\<close> says how they belong together; it holds in every state
  that calls which return can lead to, whatever the bytes that arrive and whatever the clock shows.
\<close>

section \<open>The maps belong together\<close>

definition known :: "fec_decoder \<Rightarrow> u32 \<Rightarrow> bool" where
  "known d seq \<longleftrightarrow> RBT.lookup (seq2data_pkgs d) seq \<noteq> None"

definition timed :: "fec_decoder \<Rightarrow> u32 \<Rightarrow> bool" where
  "timed d seq \<longleftrightarrow> tm_abs (timeout_keys d) (uint seq) \<noteq> None"

text \<open>A group is in all maps or in none, has a timer, and one length for each packet.\<close>

definition group_books :: "fec_decoder \<Rightarrow> u32 \<Rightarrow> bool" where
  "group_books d seq \<longleftrightarrow>
     (RBT.lookup (seq2data_pkgs_num d) seq \<noteq> None \<longleftrightarrow> known d seq) \<and>
     (RBT.lookup (seq2redundant_data_pkgs_num d) seq \<noteq> None \<longleftrightarrow> known d seq) \<and>
     (RBT.lookup (seq2max_data_pkg_length d) seq \<noteq> None \<longleftrightarrow> known d seq) \<and>
     (RBT.lookup (seq2data_pkgs_length d) seq \<noteq> None \<longleftrightarrow> known d seq) \<and>
     (RBT.lookup (seq2cur_recv_data_pkg_num d) seq \<noteq> None \<longleftrightarrow> known d seq) \<and>
     (timed d seq \<longleftrightarrow> known d seq) \<and> (ready_of d seq \<longrightarrow> known d seq) \<and>
     length (lengths_of d seq) = length (pkgs_of d seq)"

text \<open>In addition the keys are 16 bit numbers, and the counter counts the groups that are ready.\<close>

definition books_ok :: "fec_decoder \<Rightarrow> bool" where
  "books_ok d \<longleftrightarrow> tm_inv (timeout_keys d) \<and>
     (\<forall>key. tm_abs (timeout_keys d) key \<noteq> None \<longrightarrow> 0 \<le> key \<and> key \<le> 65535) \<and>
     (\<forall>seq. group_books d seq) \<and> ready_seqs_nums d = int (card {seq. ready_of d seq})"

lemma books_ok_new: "books_ok (fec_decoder_new limit)"
  by (simp add: books_ok_def group_books_def fec_decoder_new_def known_def timed_def fetch_def tm_inv_new)
    (simp add: tm_abs_def timeout_map_new_def)

text \<open>What the books say depends on the maps only; reads of known groups insert nothing.\<close>

lemma books_ok_unit [simp]: "books_ok (d\<lparr>output_unit := u\<rparr>) = books_ok d"
  by (simp add: books_ok_def group_books_def known_def timed_def)

lemma books_ok_touch_ready [simp]:
  "books_ok (d\<lparr>seq2ready_for_output := touch False seq (seq2ready_for_output d)\<rparr>) = books_ok d"
  by (simp add: books_ok_def group_books_def known_def timed_def)

lemma touch_known: "RBT.lookup m seq \<noteq> None \<Longrightarrow> touch x seq m = m"
  by (auto simp: touch_def)

lemma books_known:
  assumes "books_ok d" and "known d seq"
  shows "touch x seq (seq2max_data_pkg_length d) = seq2max_data_pkg_length d"
    and "touch y seq (seq2data_pkgs_length d) = seq2data_pkgs_length d"
    and "touch x seq (seq2cur_recv_data_pkg_num d) = seq2cur_recv_data_pkg_num d"
    and "touch x seq (seq2data_pkgs_num d) = seq2data_pkgs_num d"
  using assms by (auto simp: books_ok_def group_books_def intro!: touch_known)

lemma books_ready: "books_ok d \<Longrightarrow> ready_of d seq \<Longrightarrow> known d seq"
  by (simp add: books_ok_def group_books_def)

section \<open>Clearing\<close>

lemma timeouts_are_keys:
  assumes "tm_inv m" and "key \<in> set (tm_timeouts now m)"
  shows "tm_abs m key \<noteq> None"
proof -
  have "set (collect_timeouts tm limit cur xs) \<subseteq> snd ` set xs" for tm limit cur xs
    by (induction tm limit cur xs rule: collect_timeouts.induct) (auto simp: Let_def)
  then have "key \<in> snd ` set (elements m)" using assms(2) by (fastforce simp: tm_timeouts_def)
  then obtain it where "(it, key) \<in> set (elements m)" by auto
  from tm_inv_node [OF assms(1) this] show ?thesis by (auto simp: tm_abs_def)
qed

lemma tm_abs_removed: "tm_inv m \<Longrightarrow> tm_abs (snd (tm_remove key m)) = (tm_abs m)(key := None)"
  by (auto simp: tm_remove_closed tm_abs_def fun_eq_iff)

lemma tm_abs_added: "tm_inv m \<Longrightarrow> tm_abs (snd (tm_add key now m)) = (tm_abs m)(key \<mapsto> now)"
  by (auto simp: tm_add_closed tm_abs_def fun_eq_iff)

lemma small_key:
  assumes "0 \<le> x" and "x \<le> 65535"
  shows "sint (word_of_int x :: u32) = x" and "uint (word_of_int x :: u32) = x"
  using assms by (simp_all add: signed_of_int signed_take_bit_int_eq_self unsigned_of_int take_bit_int_eq_self)

lemma books_ok_remove:
  assumes d: "books_ok d" and x: "0 \<le> x" "x \<le> 65535" and unready: "\<not> ready_of d (word_of_int x)"
  shows "books_ok (remove_seq_respond_data (word_of_int x) d)"
proof -
  let ?d = "remove_seq_respond_data (word_of_int x) d"
  have inv: "tm_inv (timeout_keys d)" using d by (simp add: books_ok_def)
  have ready: "ready_of ?d = ready_of d" using unready by (simp add: remove_seq_respond_data_def fun_eq_iff)
  have tm: "tm_abs (timeout_keys ?d) = (tm_abs (timeout_keys d))(x := None)"
    using tm_abs_removed [OF inv, of x] small_key [OF x] by (simp add: remove_seq_respond_data_def)
  have inv': "tm_inv (timeout_keys ?d)"
    using tm_inv_remove [OF inv] by (simp add: remove_seq_respond_data_def)
  have "group_books ?d seq" for seq
  proof (cases "seq = word_of_int x")
    case True
    then show ?thesis
      using unready small_key [OF x] by (simp add: group_books_def known_def timed_def tm)
        (simp add: remove_seq_respond_data_def)
  next
    case False
    then have "uint seq \<noteq> x" by auto
    with False d show ?thesis
      by (simp add: books_ok_def group_books_def known_def timed_def tm) (simp add: remove_seq_respond_data_def)
  qed
  then show ?thesis
    using d inv' by (simp add: books_ok_def ready tm) (simp add: remove_seq_respond_data_def)
qed

lemma books_ok_clear [intro]:
  assumes "books_ok d"
  shows "books_ok (clear_timeout_datas now d)"
proof -
  have "books_ok (fold (\<lambda>timeout_seq d.
         let seq = word_of_int timeout_seq;
             ready = ready_of d seq;
             d = d\<lparr>seq2ready_for_output := touch False seq (seq2ready_for_output d)\<rparr>
         in if \<not> ready then remove_seq_respond_data seq d else d) L d)"
    if "books_ok d" "\<forall>x\<in>set L. 0 \<le> x \<and> x \<le> 65535" for L d
    using that
  proof (induction L arbitrary: d)
    case (Cons x L)
    let ?d = "d\<lparr>seq2ready_for_output := touch False (word_of_int x) (seq2ready_for_output d)\<rparr>"
    have "\<not> ready_of d (word_of_int x) \<Longrightarrow> books_ok (remove_seq_respond_data (word_of_int x) ?d)"
      using Cons.prems by (intro books_ok_remove) simp_all
    then show ?case using Cons by (simp add: Let_def)
  qed simp
  moreover have "\<forall>x\<in>set (tm_timeouts now (timeout_keys d)). 0 \<le> x \<and> x \<le> 65535"
    using assms timeouts_are_keys unfolding books_ok_def by blast
  ultimately show ?thesis using assms by (simp add: clear_timeout_datas_def)
qed

section \<open>Input\<close>

lemma fetch_known: "RBT.lookup m x \<noteq> None \<Longrightarrow> RBT.lookup m x = Some (fetch m y x)"
  by (auto simp: fetch_def)

text \<open>Storing for the group \<open>seq\<close>, with its timer.\<close>

lemma books_ok_store:
  assumes d: "books_ok d" and seq: "uint seq \<le> 65535"
    and P: "RBT.lookup P = (RBT.lookup (seq2data_pkgs d))(seq \<mapsto> p)"
    and L: "RBT.lookup L = (RBT.lookup (seq2data_pkgs_length d))(seq \<mapsto> l)"
    and C: "RBT.lookup C = (RBT.lookup (seq2cur_recv_data_pkg_num d))(seq \<mapsto> c)"
    and len: "length l = length p"
  shows "books_ok (d\<lparr>seq2data_pkgs_num := RBT.insert seq k (seq2data_pkgs_num d),
    seq2redundant_data_pkgs_num := RBT.insert seq r (seq2redundant_data_pkgs_num d),
    seq2max_data_pkg_length := RBT.insert seq m (seq2max_data_pkg_length d),
    timeout_keys := snd (tm_add (uint seq) now (timeout_keys d)),
    seq2data_pkgs := P, seq2data_pkgs_length := L, seq2cur_recv_data_pkg_num := C\<rparr>)" (is "books_ok ?d")
proof -
  have inv: "tm_inv (timeout_keys d)" using d by (simp add: books_ok_def)
  have tm: "tm_abs (snd (tm_add (uint seq) now (timeout_keys d))) = (tm_abs (timeout_keys d))(uint seq \<mapsto> now)"
    by (rule tm_abs_added [OF inv])
  have "group_books ?d x" for x
  proof (cases "x = seq")
    case True
    then show ?thesis by (simp add: group_books_def known_def timed_def tm P L C len fetch_def)
  next
    case False
    then have "uint x \<noteq> uint seq" using word_uint_eqI by blast
    moreover have "group_books d x" using d by (simp add: books_ok_def)
    ultimately show ?thesis
      using False by (simp add: group_books_def known_def timed_def tm P L C) (simp add: fetch_def P L)
  qed
  then show ?thesis
    using d seq tm_inv_add [OF inv] by (simp add: books_ok_def tm)
qed

text \<open>A known group becomes ready with as many lengths as packets.\<close>

lemma books_ok_group:
  assumes d: "books_ok d" "known d seq" "\<not> ready_of d seq" and len: "length l = length p"
  shows "books_ok (d\<lparr>seq2data_pkgs := RBT.insert seq p (seq2data_pkgs d),
    seq2data_pkgs_length := RBT.insert seq l (seq2data_pkgs_length d),
    seq2ready_for_output := RBT.insert seq True (seq2ready_for_output d),
    ready_seqs_nums := ready_seqs_nums d + 1\<rparr>)" (is "books_ok ?d")
proof -
  have "group_books ?d x" for x
    using assms by (cases "x = seq") (simp_all add: books_ok_def group_books_def known_def timed_def)
  moreover have "{x. ready_of ?d x} = insert seq {x. ready_of d x}" by auto
  then have "card {x. ready_of ?d x} = card {x. ready_of d x} + 1"
    using d(3) by simp
  ultimately show ?thesis using d(1) by (simp add: books_ok_def)
qed

lemma books_ok_handed_out:
  assumes d: "books_ok d" "ready_of d seq"
  shows "books_ok (d\<lparr>seq2ready_for_output := RBT.insert seq False (seq2ready_for_output d),
    ready_seqs_nums := ready_seqs_nums d - 1\<rparr>)" (is "books_ok ?d")
proof -
  have "group_books ?d x" for x
    using assms by (cases "x = seq") (simp_all add: books_ok_def group_books_def known_def timed_def)
  moreover have "card {x. ready_of d x} = card ({x. ready_of d x} - {seq}) + 1"
    using d(2) by (subst card.remove [of _ seq]) simp_all
  moreover have "{x. ready_of ?d x} = {x. ready_of d x} - {seq}" by auto
  ultimately show ?thesis using d(1) by (simp add: books_ok_def)
qed

text \<open>\<open>rs_decode2\<close> keeps the number of pointers.\<close>

lemma length_shuffle_loop:
  "shuffle_loop k i pkt index = Some (ret, pkt', index') \<Longrightarrow> length pkt' = length pkt"
  by (induction k i pkt index rule: shuffle_loop.induct)
    (subst (asm) (2) shuffle_loop.simps, auto simp: Let_def swap_at_def split: if_splits)

lemma length_fold_update: "length (fold (\<lambda>i xs. if P i then xs[i := f i xs] else xs) is xs) = length xs"
  by (induction "is" arbitrary: xs) simp_all

lemma length_fec_decode: "fec_decode t code pkt index sz = Some (ret, pkt', index') \<Longrightarrow> length pkt' = length pkt"
  using length_shuffle_loop [of "nat (fec_k code)" 0 pkt index]
  by (auto simp: fec_decode_def shuffle_def length_fold_update Let_def split: option.splits if_splits)

lemma length_rs_compact: "length (rs_compact index cnt n data) = length data"
proof -
  have "length (fold (\<lambda>i data. if i < cnt then data[i := data ! (index ! i)] else data[i := None]) is data) = length data"
    for "is" and data :: "'a option list"
    by (induction "is" arbitrary: data) simp_all
  then show ?thesis by (simp add: rs_compact_def)
qed

lemma length_rs_decode2:
  "rs_decode2 k n addr data sz s = Some ((ret, data'), s') \<Longrightarrow> length data' = length data"
  by (auto simp: rs_decode2_def rs_decode_def Let_def length_rs_compact dest!: length_fec_decode
      split: option.splits prod.splits if_splits)

lemma books_ok_dec_group:
  assumes "books_ok d" and "known d seq" and "\<not> ready_of d seq"
    and "dec_group addr seq k r d s = Some (ret, d', s')"
  shows "books_ok d'"
proof -
  let ?n = "nat (k + r)" and ?lens = "lengths_of d seq"
  have len: "length ?lens = length (pkgs_of d seq)" using assms(1) by (simp add: books_ok_def group_books_def)
  let ?l = "map (\<lambda>i. if i < ?n \<and> ?lens ! i = 0 then max_length_of d seq else ?lens ! i) [0..<length ?lens]"
  let ?group = "\<lambda>w. d\<lparr>seq2data_pkgs := RBT.insert seq (take (nat k) (w @ drop ?n (pkgs_of d seq))) (seq2data_pkgs d),
           seq2data_pkgs_length := RBT.insert seq (take (nat k) ?l) (seq2data_pkgs_length d),
           seq2ready_for_output := RBT.insert seq True (seq2ready_for_output d),
           ready_seqs_nums := ready_seqs_nums d + 1\<rparr>"
  from assms(4) obtain ret2 w where w: "?n \<le> length (pkgs_of d seq)"
      "rs_decode2 k (k + r) addr (take ?n (pkgs_of d seq)) (nat (max_length_of d seq)) s = Some ((ret2, w), s')"
      "d' = (if ret2 < 0 then d else ?group w)"
    by (auto simp: dec_group_def Let_def split: if_splits option.splits)
  have "length w = ?n" using length_rs_decode2 [OF w(2)] w(1) by simp
  then have "length (w @ drop ?n (pkgs_of d seq)) = length ?l" using w(1) len by simp
  then have "length (take (nat k) ?l) = length (take (nat k) (w @ drop ?n (pkgs_of d seq)))"
    by (simp only: length_take)
  from books_ok_group [OF assms(1-3) this] assms(1) show ?thesis by (simp add: w(3))
qed

lemma known_if: "pkgs_of d seq \<noteq> [] \<Longrightarrow> known d seq"
  by (auto simp: known_def fetch_def split: option.splits)

lemma books_ok_dec_collect:
  assumes d: "books_ok d" "\<not> ready_of d seq" and seq: "uint seq \<le> 65535"
    and col: "dec_collect addr now now' input len seq plen k r index d s = Some (ret, d', s')"
  shows "books_ok d'"
proof -
  let ?n = "nat (k + r)" and ?new = "pkgs_of d seq = []"
  let ?base = "\<lambda>P L C. d\<lparr>seq2data_pkgs_num := RBT.insert seq k (seq2data_pkgs_num d),
    seq2redundant_data_pkgs_num := RBT.insert seq r (seq2redundant_data_pkgs_num d),
    seq2max_data_pkg_length := RBT.insert seq (max (max_length_of d seq) len) (seq2max_data_pkg_length d),
    timeout_keys := snd (tm_add (uint seq) now (timeout_keys d)),
    seq2data_pkgs := P, seq2data_pkgs_length := L, seq2cur_recv_data_pkg_num := C\<rparr>"
  let ?ps = "if ?new then replicate ?n None else pkgs_of d seq"
  let ?ls = "if ?new then take ?n (lengths_of d seq) @ replicate (?n - length (lengths_of d seq)) 0 else lengths_of d seq"
  let ?P = "if ?new then RBT.insert seq ?ps (seq2data_pkgs d) else seq2data_pkgs d"
  let ?L = "if ?new then RBT.insert seq ?ls (seq2data_pkgs_length d) else seq2data_pkgs_length d"
  let ?data = "take (nat (len + 1)) (drop fec_encode_head_length input)"
  let ?d = "?base (RBT.insert seq (?ps[nat index := Some ?data]) ?P) (RBT.insert seq (?ls[nat index := plen]) ?L)
    (RBT.insert seq (cur_num_of d seq + 1) (seq2cur_recv_data_pkg_num d))"
  have len: "length (lengths_of d seq) = length (pkgs_of d seq)" using d(1) by (simp add: books_ok_def group_books_def)
  have ls: "length ?ls = length ?ps" using len by simp
  have stored: "books_ok ?d"
    by (rule books_ok_store [OF d(1) seq, where p = "?ps[nat index := Some ?data]" and l = "?ls[nat index := plen]"
          and c = "cur_num_of d seq + 1"]) (use ls in \<open>auto simp: fun_eq_iff\<close>)
  have kn: "known ?d seq" and unready: "\<not> ready_of ?d seq" using d(2) by (simp_all add: known_def)
  show ?thesis
  proof (cases "?new \<or> pkgs_of d seq ! nat index = None")
    case True
    with col have "(if cur_num_of ?d seq \<ge> pkgs_num_of ?d seq then dec_group addr seq k r ?d s
        else if length (RBT.keys (seq2data_pkgs ?d)) > 50 then Some (0, clear_timeout_datas now' ?d, s)
        else Some (0, ?d, s)) = Some (ret, d', s')"
      by (auto simp: dec_collect_def Let_def split: if_splits)
    then show ?thesis
      using books_ok_dec_group [OF stored kn unready] stored by (auto split: if_splits)
  next
    case False
    then have k: "known d seq" using known_if by blast
    then have "books_ok (?base (seq2data_pkgs d) (seq2data_pkgs_length d) (seq2cur_recv_data_pkg_num d))"
      using d(1) by (intro books_ok_store [OF d(1) seq, where p = "pkgs_of d seq" and l = "lengths_of d seq"
            and c = "cur_num_of d seq"])
        (auto simp: fun_eq_iff len known_def books_ok_def group_books_def intro!: fetch_known)
    moreover have "d' = ?base (seq2data_pkgs d) (seq2data_pkgs_length d) (seq2cur_recv_data_pkg_num d)"
      using False col by (auto simp: dec_collect_def Let_def split: if_splits)
    ultimately show ?thesis by simp
  qed
qed

lemma books_ok_unencoded:
  "books_ok d \<Longrightarrow> deal_unencoded_data input len d = Some (ret, d') \<Longrightarrow> books_ok d'"
  by (auto simp: deal_unencoded_data_def Let_def split: if_splits option.splits prod.splits)

lemma books_ok_looked_up: "books_ok d \<Longrightarrow> books_ok (looked_up seq d)"
proof -
  assume d: "books_ok d"
  have "looked_up seq d = d\<lparr>seq2ready_for_output := touch False seq (seq2ready_for_output d)\<rparr>"
    using books_known(3,4) [OF d, of seq 0] by (simp add: looked_up_def known_def Let_def)
  with d show ?thesis by simp
qed

lemma books_ok_input:
  assumes "books_ok d" and "fec_decode_input addr now now' input len d s = Some (ret, d', s')"
  shows "books_ok d'"
proof (cases "(word_of_int len :: 64 word) < 4 \<or> input = None")
  case True
  with assms show ?thesis by (auto simp: fec_decode_input_def split: if_splits)
next
  case False
  then obtain p where p: "input = Some p" "\<not> (word_of_int len :: 64 word) < 4" by auto
  show ?thesis
  proof (cases "read_u32 p = unique_header")
    case False
    with assms p books_ok_unencoded [OF assms(1)] show ?thesis
      by (auto simp: fec_decode_input_def split: if_splits)
  next
    case True
    let ?w = "read_u16 (drop 4 p)"
    let ?seq = "ucast ?w :: u32" and ?k = "sint (p ! 8)" and ?r = "sint (p ! 9)" and ?i = "sint (p ! 10)"
    have "uint ?w < 2 ^ LENGTH(16)" by (rule uint_bounded)
    then have seq: "uint ?seq \<le> 65535" by (simp add: unsigned_ucast_eq take_bit_int_eq_self)
    have new: "books_ok (looked_up ?seq d)" by (rule books_ok_looked_up [OF assms(1)])
    from assms(2) p True consider "d' = d" | "d' = looked_up ?seq d"
      | "\<not> ready_of d ?seq" "dec_collect addr now now' p (len - int fec_encode_head_length) ?seq
           (uint (read_u16 (drop 6 p))) ?k ?r (?i - 1) (looked_up ?seq d) s = Some (ret, d', s')"
      by (auto simp: fec_decode_input_def looked_up_def Let_def split: if_splits)
    then show ?thesis
    proof cases
      case 3
      then have "\<not> ready_of (looked_up ?seq d) ?seq" using looked_up_same(2) by (simp add: same_rest_def)
      from books_ok_dec_collect [OF new this seq 3(2)] show ?thesis .
    qed (use assms(1) new in simp_all)
  qed
qed

section \<open>Output\<close>

lemma search_loop_same:
  assumes "books_ok d" and "\<forall>(seq, ready)\<in>set es. ready \<longrightarrow> known d seq"
  shows "snd (search_loop least es d) = d"
  using assms(2)
proof (induction es)
  case (Cons e es)
  obtain seq ready where e: "e = (seq, ready)" by force
  have "ready \<Longrightarrow> touch 0 seq (seq2max_data_pkg_length d) = seq2max_data_pkg_length d"
    using Cons.prems e books_known(1) [OF assms(1)] by auto
  with Cons e show ?case by (simp add: Let_def)
qed simp

lemma books_ok_search:
  assumes d: "books_ok d" and s: "search_for_next_ready_seq now least d = (ret, d')"
  shows "books_ok d'" and "0 < ret \<Longrightarrow> known d' (word_of_int ret)"
proof -
  have "known d seq" if "(seq, True) \<in> set (RBT.entries (seq2ready_for_output d))" for seq
    using that books_ready [OF d, of seq] by (simp add: fetch_def flip: RBT.lookup_in_tree)
  then have "snd (search_loop least (RBT.entries (seq2ready_for_output d)) d) = d"
    by (intro search_loop_same [OF d]) auto
  then show "books_ok d'"
    using s books_ok_clear [OF d] d by (auto simp: search_for_next_ready_seq_def split: if_splits)
  from books_ready [OF this] search_ready [OF s] show "0 < ret \<Longrightarrow> known d' (word_of_int ret)" by blast
qed

lemma books_ok_next_group:
  assumes d: "books_ok d" and g: "next_group now buf d = Some (ret, buf', d')"
  shows "books_ok d'"
proof -
  obtain r d1 where s: "search_for_next_ready_seq now int32_max d = (r, d1)" by force
  note ok = books_ok_search [OF d s]
  have "0 < r \<Longrightarrow> touch [] (word_of_int r) (seq2data_pkgs_length d1) = seq2data_pkgs_length d1"
    using books_known(2) ok by blast
  with g s ok(1) show ?thesis
    by (auto simp: next_group_def Let_def split: if_splits list.splits)
qed

lemma books_ok_output_unencoded:
  "books_ok d \<Longrightarrow> output_unencoded now buf len d = Some (ret, buf', d') \<Longrightarrow> books_ok d'"
  by (auto simp: output_unencoded_def Let_def dest: books_ok_next_group [rotated] split: if_splits option.splits)

lemma books_ok_output_current:
  assumes d: "books_ok d" "ready_of d (last_process_seq (output_unit d))"
    and out: "output_current now buf len d = Some (ret, buf', d')"
  shows "books_ok d'"
proof -
  let ?seq = "last_process_seq (output_unit d)"
  let ?d = "d\<lparr>output_unit := (output_unit d)\<lparr>last_process_index := last_process_index (output_unit d) + 1\<rparr>\<rparr>"
  have handed: "books_ok (?d\<lparr>seq2ready_for_output := RBT.insert ?seq False (seq2ready_for_output ?d),
      ready_seqs_nums := ready_seqs_nums ?d - 1\<rparr>)"
    using d by (intro books_ok_handed_out) simp_all
  from out obtain b where "next_group now b (?d\<lparr>seq2ready_for_output := RBT.insert ?seq False (seq2ready_for_output ?d),
      ready_seqs_nums := ready_seqs_nums ?d - 1\<rparr>) = Some (ret, buf', d') \<or> d' = ?d"
    by (auto simp: output_current_def Let_def split: if_splits option.splits)
  with books_ok_next_group [OF handed] d(1) show ?thesis by auto
qed

lemma books_ok_output:
  "books_ok d \<Longrightarrow> fec_decode_output now buf len d = Some (ret, buf', d') \<Longrightarrow> books_ok d'"
proof (induction now buf len d rule: fec_decode_output.induct)
  case (1 now buf len d)
  let ?seq = "last_process_seq (output_unit d)"
  let ?d = "if ?seq \<noteq> -1 then d\<lparr>seq2ready_for_output := touch False ?seq (seq2ready_for_output d)\<rparr> else d"
  have ok: "books_ok ?d" using "1.prems"(1) by simp
  show ?case
  proof (cases "ready_for_output (output_unit d) \<or> ready_seqs_nums d = 0")
    case True
    with "1.prems" books_ok_output_unencoded show ?thesis
      by (subst (asm) fec_decode_output.simps) (auto split: if_splits)
  next
    case False
    then have run: "\<not> ready_for_output (output_unit d)" "ready_seqs_nums d \<noteq> 0" by simp_all
    show ?thesis
    proof (cases "?seq \<noteq> -1 \<and> ready_of d ?seq")
      case True
      then have "output_current now buf len ?d = Some (ret, buf', d')"
        using "1.prems"(2) run by (subst (asm) fec_decode_output.simps) simp
      with True show ?thesis by (intro books_ok_output_current [OF ok]) simp_all
    next
      case False
      obtain r d1 where s: "search_for_next_ready_seq now len ?d = (r, d1)" by force
      let ?next = "d1\<lparr>output_unit := (output_unit d1)\<lparr>last_process_seq := word_of_int r, last_process_index := 0\<rparr>\<rparr>"
      have d1: "books_ok d1" by (rule books_ok_search(1) [OF ok s])
      have res: "(if r \<le> 0 then Some (r, buf, d1) else fec_decode_output now buf len ?next) = Some (ret, buf', d')"
        using "1.prems"(2) run False s by (subst (asm) fec_decode_output.simps) (simp only: Let_def if_False prod.case)
      show ?thesis
      proof (cases "r \<le> 0")
        case True
        with res d1 show ?thesis by simp
      next
        case pos: False
        from "1.IH" [OF run refl refl refl False refl s [symmetric] pos] d1 res pos show ?thesis by simp
      qed
    qed
  qed
qed

section \<open>All calls\<close>

text \<open>
  Any calls on a new decoder, in any order: the bytes, their lengths, the buffers, the clock and the state of
  \<open>rs.c\<close> are whatever they are, as long as no call runs into undefined behaviour.
\<close>

inductive decoder_run :: "int \<Rightarrow> fec_decoder \<Rightarrow> bool" for limit where
  decoder_start: "decoder_run limit (fec_decoder_new limit)"
| decoder_input: "decoder_run limit d \<Longrightarrow>
    fec_decode_input addr now now' input len d s = Some (ret, d', s') \<Longrightarrow> decoder_run limit d'"
| decoder_output: "decoder_run limit d \<Longrightarrow>
    fec_decode_output now buf len d = Some (ret, buf', d') \<Longrightarrow> decoder_run limit d'"

lemmas books_ok_steps = books_ok_new books_ok_input books_ok_output

lemma decoder_run_books: "decoder_run limit d \<Longrightarrow> books_ok d"
  by (induction rule: decoder_run.induct) (auto intro: books_ok_steps)

section \<open>What clearing leaves\<close>







section \<open>Properties\<close>

text \<open>
  C15 (the decoder's books agree). Whatever bytes \<open>FecDecode\<close> was given and whatever the clock showed:
  every group it holds is in all the maps and has a timer, no map holds a group that the others do
  not know, each group has one length per packet, and the counter is the number of groups ready for output.
\<close>

theorem decoder_books_agree:
  assumes "decoder_run limit d"
  shows "books_ok d"
  using assms by (rule decoder_run_books)

text \<open>A decoder with the first of two packets of group 5.\<close>

definition one_packet :: fec_decoder where
  "one_packet = stored 10 5 2 1 1 0 [7, 0] 1 (looked_up 5 (fec_decoder_new 100))"

lemma fresh_new: "fresh_seq seq (fec_decoder_new limit)"
  by (simp add: fresh_seq_def fec_decoder_new_def fetch_def)

lemma one_packet_run: "decoder_run 100 one_packet"
proof -
  let ?new = "looked_up 5 (fec_decoder_new 100)" and ?input = "fec_header 5 1 2 1 1 @ [7, 0]"
  have "collecting (fec_decoder_new 100) 5 2 1 1 (\<lambda>i. [7]) (\<lambda>i. 1) {}"
    by (simp add: collecting_fresh fresh_new)
  then have fresh: "collecting ?new 5 2 1 1 (\<lambda>i. [7]) (\<lambda>i. 1) {}"
    by (simp only: collecting_same [OF looked_up_same(1)])
  have "distinct (RBT.keys (seq2data_pkgs one_packet))" by (rule RBT.distinct_keys)
  moreover have "set (RBT.keys (seq2data_pkgs one_packet)) = {5}"
    using fresh_new [of 5 100]
    by (auto simp: RBT.lookup_keys [symmetric] one_packet_def stored_def looked_up_def Let_def fec_decoder_new_def
        split: if_splits)
  ultimately have keys: "length (RBT.keys (seq2data_pkgs one_packet)) = 1"
    using distinct_card by fastforce
  have "fec_decode_input 0 10 10 (Some ?input) (11 + int 1) (fec_decoder_new 100) rs_static_start =
      dec_collect 0 10 10 ?input (int 1) 5 1 2 1 0 ?new rs_static_start"
    using fec_decode_input_packet [of ?input 5 1 2 1 0 "[7, 0]" 1 0 10 10 "fec_decoder_new 100" rs_static_start] fresh_new [of 5 100]
    by (simp add: fresh_seq_def)
  also have "\<dots> = Some (0, one_packet, rs_static_start)"
    using dec_collect_new [OF fresh, of 0 ?input 0 10 10 1 rs_static_start] keys
    by (simp add: one_packet_def fec_header_def Let_def)
  finally show ?thesis using decoder_input [OF decoder_start] by blast
qed

theorem decoder_books_agree_witness: "decoder_run 100 one_packet \<and> books_ok one_packet"
  using decoder_books_agree [OF one_packet_run] one_packet_run by simp

text \<open>A packet that the group already has sets the timer of the group and changes nothing else of it.\<close>

lemma duplicate_sets_timer:
  assumes "tm_inv (timeout_keys d)" and "0 \<le> index" and "nat index < length (pkgs_of d seq)" and "pkgs_of d seq ! nat index \<noteq> None"
    and "int fec_encode_head_length + len + 1 \<le> int (length input)"
  shows "\<exists>d'. dec_collect addr now now' input len seq package_length k r index d s = Some (0, d', s) \<and>
    tm_abs (timeout_keys d') (uint seq) = Some now \<and> pkgs_of d' seq = pkgs_of d seq"
proof -
  have "pkgs_of d seq \<noteq> []" using assms(3) by auto
  then show ?thesis
    using assms by (auto simp: dec_collect_def Let_def fetch_def tm_add_closed tm_abs_def)
qed



end
