(* ===== verification/Fec_System.thy ===== *)
theory Fec_System
  imports Fec_Kcp
begin

text \<open>
  Where libfec and \<open>FecEncodeManager\<close> meet the operating system: the random device of
  \<open>lib/libfec/source/random_generator.cpp\<close>, the clock of \<open>common.cpp\<close>, the choice of the
  system call in \<open>source/fec_manager.cpp\<close>, and the destructors of the encoder and the decoder. What a system
  call returns is an argument.
\<close>

section \<open>The random device\<close>

datatype device_call = Open_urandom | Close_device int

record random_generator =
  random_number_fd :: int

text \<open>\<open>open\<close> returned \<open>fd\<close>; a failure is only logged, and the reads fail later.\<close>

definition random_generator_new :: "int \<Rightarrow> random_generator \<times> device_call list" where
  "random_generator_new fd = (\<lparr>random_number_fd = fd\<rparr>, [Open_urandom])"

definition random_generator_delete :: "random_generator \<Rightarrow> device_call list" where
  "random_generator_delete g = [Close_device (random_number_fd g)]"

text \<open>The object is static: it is made by the first call.\<close>

definition get_instance :: "int \<Rightarrow> random_generator option \<Rightarrow> random_generator \<times> device_call list" where
  "get_instance fd inst = (case inst of None \<Rightarrow> random_generator_new fd | Some g \<Rightarrow> (g, []))"

text \<open>A read returned a size and left a number in the variable.\<close>

definition get_random_number32 :: "int \<times> u32 \<Rightarrow> int \<times> u32" where
  "get_random_number32 rd = (case rd of (sz, n) \<Rightarrow> if sz \<noteq> 4 then (-1, n) else (0, n))"

definition get_random_number16 :: "int \<times> u16 \<Rightarrow> int \<times> u16" where
  "get_random_number16 rd = (case rd of (sz, n) \<Rightarrow> if sz \<noteq> 2 then (-1, n) else (0, n))"

fun get_random_number_u32 :: "(int \<times> u32) list \<Rightarrow> (int \<times> u32) option" where
  "get_random_number_u32 [] = None"
| "get_random_number_u32 (rd # rds) =
     (let (ret, n) = get_random_number32 rd
      in if ret = 0 \<and> n = 0 then get_random_number_u32 rds else Some (ret, n))"

fun read_random_number_u16 :: "(int \<times> u16) list \<Rightarrow> (int \<times> u16) option" where
  "read_random_number_u16 [] = None"
| "read_random_number_u16 (rd # rds) =
     (let (ret, n) = get_random_number16 rd
      in if ret = 0 \<and> n = 0 then read_random_number_u16 rds else Some (ret, n))"

text \<open>\<open>Fec_Encode\<close> forgets the number of a failed read, which its caller does not look at.\<close>

lemma read_random_number_u16_eq:
  "map_option (\<lambda>(ret, n). (ret, if ret < 0 then 0 else n)) (read_random_number_u16 rds) =
     get_random_number_u16 (map (\<lambda>(sz, n). if sz = 2 then Some n else None) rds)"
  by (induction rds rule: read_random_number_u16.induct) (auto simp: get_random_number16_def)

theorem get_random_number_u32_nonzero:
  "get_random_number_u32 rds = Some (ret, n) \<Longrightarrow> ret = -1 \<or> ret = 0 \<and> n \<noteq> 0"
  by (induction rds) (auto simp: get_random_number32_def split: if_splits)

text \<open>Whatever the device does, a new encoder counts its groups from 1 to 65520, never 0.\<close>

theorem encoder_start_number:
  assumes "read_random_number_u16 rds = Some rnd"
  shows "1 \<le> unat (enc_seq (fec_encoder_new k r timeout rnd junk)) \<and>
    unat (enc_seq (fec_encoder_new k r timeout rnd junk)) < 65521"
proof -
  have "fst rnd < 0 \<or> snd rnd \<noteq> 0"
    using assms by (induction rds) (auto simp: get_random_number16_def split: if_splits)
  then show ?thesis
    by (auto simp: fec_encoder_new_def Let_def word_le_nat_alt Suc_le_eq unat_gt_0 split: prod.splits)
qed

section \<open>The clock\<close>

definition getnowtime_ms :: "int \<Rightarrow> int \<Rightarrow> int" where
  "getnowtime_ms tv_sec tv_usec = 1000 * tv_sec + tv_usec div 1000"

lemma getnowtime_ms_microseconds: "getnowtime_ms tv_sec tv_usec = (1000000 * tv_sec + tv_usec) div 1000"
  using div_mult_self2 [of 1000 tv_usec "1000 * tv_sec"] by (simp add: getnowtime_ms_def add.commute)

section \<open>Sending\<close>

record connection_info =
  conn_addr :: "u32 \<times> u16"
  conn_socket_fd :: int
  conn_isclient :: bool

datatype send_call = Send int "u8 list" | Sendto int "u8 list" "u32 \<times> u16"

definition manager_send_data :: "connection_info \<Rightarrow> u8 list \<Rightarrow> int \<Rightarrow> send_call" where
  "manager_send_data conn data len =
     (if conn_isclient conn then Send (conn_socket_fd conn) (take (nat len) data)
      else Sendto (conn_socket_fd conn) (take (nat len) data) (conn_addr conn))"

record fec_manager =
  man_conn :: connection_info
  man_encoder :: fec_encoder

definition fec_manager_new :: "connection_info \<Rightarrow> fec_encoder \<Rightarrow> fec_manager" where
  "fec_manager_new conn e = \<lparr>man_conn = conn, man_encoder = e\<rparr>"

section \<open>Destructors\<close>

text \<open>The buffers that are freed, and what is left of the object.\<close>

definition fec_encoder_delete :: "fec_encoder \<Rightarrow> u8 list list \<times> fec_encoder" where
  "fec_encoder_delete e = (map the (filter (\<lambda>p. p \<noteq> None) (data_pkgs e)), reset_data_pkgs e)"

definition fec_decoder_delete :: "fec_decoder \<Rightarrow> u8 list option \<times> fec_decoder" where
  "fec_decoder_delete d =
     (out_data (output_unit d), d\<lparr>output_unit := (output_unit d)\<lparr>actural_len := 0, max_len := 0\<rparr>\<rparr>)"

text \<open>The encoder frees all it holds; the packets of incomplete groups in the decoder are not freed.\<close>

lemma fec_encoder_delete_frees_all: "\<forall>p\<in>set (data_pkgs (snd (fec_encoder_delete e))). p = None"
  by (simp add: fec_encoder_delete_def reset_data_pkgs_def)

lemma fec_decoder_delete_keeps: "seq2data_pkgs (snd (fec_decoder_delete d)) = seq2data_pkgs d"
  by (simp add: fec_decoder_delete_def)

end
