(* ===== verification/Iqueue.thy ===== *)
theory Iqueue
  imports Kcp_Recv "HOL-Library.Monad_Syntax"
begin

text \<open>
  The queues of \<open>ikcp.h\<close> as they are in memory: a queue is a ring of nodes through its head, linked in both
  directions, and the macros assign to the links one after the other. \<open>queue h p xs\<close> says that the ring at
  \<open>p\<close> consists of the nodes \<open>xs\<close>; each macro is then an operation on lists, which is what the models of
  the operations of kcp use.

  Memory maps the address of a node to its two links; an access to any other address is undefined
  behaviour, \<open>None\<close>. A node is the first member of its segment, so that \<open>iqueue_entry\<close> does not change
  the address.
\<close>

section \<open>The macros\<close>

type_synonym addr = "64 word"

record iqueue_head =
  nxt :: addr
  prv :: addr

type_synonym links = "addr \<Rightarrow> iqueue_head option"

definition next_of :: "links \<Rightarrow> addr \<Rightarrow> addr option" where
  "next_of h p = map_option nxt (h p)"

definition prev_of :: "links \<Rightarrow> addr \<Rightarrow> addr option" where
  "prev_of h p = map_option prv (h p)"

definition set_next :: "addr \<Rightarrow> addr \<Rightarrow> links \<Rightarrow> links option" where
  "set_next p v h = map_option (\<lambda>n. h(p \<mapsto> n\<lparr>nxt := v\<rparr>)) (h p)"

definition set_prev :: "addr \<Rightarrow> addr \<Rightarrow> links \<Rightarrow> links option" where
  "set_prev p v h = map_option (\<lambda>n. h(p \<mapsto> n\<lparr>prv := v\<rparr>)) (h p)"

definition iqueue_init :: "addr \<Rightarrow> links \<Rightarrow> links option" where
  "iqueue_init p h = do {h \<leftarrow> set_next p p h; set_prev p p h}"

definition iqueue_add :: "addr \<Rightarrow> addr \<Rightarrow> links \<Rightarrow> links option" where
  "iqueue_add n p h = do {
     h \<leftarrow> set_prev n p h;
     q \<leftarrow> next_of h p; h \<leftarrow> set_next n q h;
     q \<leftarrow> next_of h p; h \<leftarrow> set_prev q n h;
     set_next p n h}"

definition iqueue_add_tail :: "addr \<Rightarrow> addr \<Rightarrow> links \<Rightarrow> links option" where
  "iqueue_add_tail n p h = do {
     q \<leftarrow> prev_of h p; h \<leftarrow> set_prev n q h;
     h \<leftarrow> set_next n p h;
     q \<leftarrow> prev_of h p; h \<leftarrow> set_next q n h;
     set_prev p n h}"

definition iqueue_del :: "addr \<Rightarrow> links \<Rightarrow> links option" where
  "iqueue_del e h = do {
     q \<leftarrow> next_of h e; r \<leftarrow> prev_of h e; h \<leftarrow> set_prev q r h;
     r \<leftarrow> prev_of h e; q \<leftarrow> next_of h e; h \<leftarrow> set_next r q h;
     h \<leftarrow> set_next e 0 h;
     set_prev e 0 h}"

definition iqueue_del_init :: "addr \<Rightarrow> links \<Rightarrow> links option" where
  "iqueue_del_init e h = do {h \<leftarrow> iqueue_del e h; iqueue_init e h}"

definition iqueue_is_empty :: "addr \<Rightarrow> links \<Rightarrow> bool option" where
  "iqueue_is_empty p h = map_option (\<lambda>q. p = q) (next_of h p)"

text \<open>The loop of \<open>iqueue_foreach\<close>: the entries it visits when the body leaves the links alone.\<close>

partial_function (option) foreach_from :: "links \<Rightarrow> addr \<Rightarrow> addr \<Rightarrow> addr list option" where
  "foreach_from h p q =
     (if q = p then Some []
      else Option.bind (next_of h q) (\<lambda>r. Option.bind (foreach_from h p r) (\<lambda>xs. Some (q # xs))))"

definition iqueue_foreach :: "addr \<Rightarrow> links \<Rightarrow> addr list option" where
  "iqueue_foreach p h = do {q \<leftarrow> next_of h p; foreach_from h p q}"

definition iqueue_splice :: "addr \<Rightarrow> addr \<Rightarrow> links \<Rightarrow> links option" where
  "iqueue_splice l p h = do {
     e \<leftarrow> iqueue_is_empty l h;
     if e then Some h
     else do {
       first \<leftarrow> next_of h l; last \<leftarrow> prev_of h l; q \<leftarrow> next_of h p;
       h \<leftarrow> set_prev first p h; h \<leftarrow> set_next p first h;
       h \<leftarrow> set_next last q h; set_prev q last h}}"

definition iqueue_splice_init :: "addr \<Rightarrow> addr \<Rightarrow> links \<Rightarrow> links option" where
  "iqueue_splice_init l p h = do {h \<leftarrow> iqueue_splice l p h; iqueue_init l h}"

section \<open>Links\<close>

lemma set_next_links:
  assumes "set_next p v h = Some h'"
  shows "next_of h' = (next_of h)(p \<mapsto> v)" "prev_of h' = prev_of h" "dom h' = dom h"
proof -
  obtain n where "h p = Some n" "h' = h(p \<mapsto> n\<lparr>nxt := v\<rparr>)" using assms by (auto simp: set_next_def)
  then show "next_of h' = (next_of h)(p \<mapsto> v)" "prev_of h' = prev_of h" "dom h' = dom h"
    by (auto simp: next_of_def prev_of_def fun_eq_iff split: if_splits)
qed

lemma set_prev_links:
  assumes "set_prev p v h = Some h'"
  shows "prev_of h' = (prev_of h)(p \<mapsto> v)" "next_of h' = next_of h" "dom h' = dom h"
proof -
  obtain n where "h p = Some n" "h' = h(p \<mapsto> n\<lparr>prv := v\<rparr>)" using assms by (auto simp: set_prev_def)
  then show "prev_of h' = (prev_of h)(p \<mapsto> v)" "next_of h' = next_of h" "dom h' = dom h"
    by (auto simp: next_of_def prev_of_def fun_eq_iff split: if_splits)
qed

lemma set_links_defined:
  "p \<in> dom h \<Longrightarrow> \<exists>h'. set_next p v h = Some h'" "p \<in> dom h \<Longrightarrow> \<exists>h'. set_prev p v h = Some h'"
  by (auto simp: set_next_def set_prev_def)

lemma next_of_dom: "next_of h p = Some q \<Longrightarrow> p \<in> dom h"
  by (auto simp: next_of_def)

lemma prev_of_dom: "prev_of h p = Some q \<Longrightarrow> p \<in> dom h"
  by (auto simp: prev_of_def)

text \<open>The links after a macro, given those it reads.\<close>

lemma add_links:
  assumes "n \<in> dom h" and "next_of h p = Some q" and "q \<in> dom h" and "n \<noteq> p"
  shows "\<exists>h'. iqueue_add n p h = Some h' \<and> dom h' = dom h \<and>
    next_of h' = (next_of h)(n \<mapsto> q, p \<mapsto> n) \<and> prev_of h' = (prev_of h)(n \<mapsto> p, q \<mapsto> n)"
proof -
  obtain h1 where h1: "set_prev n p h = Some h1" using set_links_defined assms(1) by metis
  note l1 = set_prev_links [OF h1]
  obtain h2 where h2: "set_next n q h1 = Some h2" using set_links_defined assms(1) l1(3) by metis
  note l2 = set_next_links [OF h2]
  obtain h3 where h3: "set_prev q n h2 = Some h3" using set_links_defined assms(3) l1(3) l2(3) by metis
  note l3 = set_prev_links [OF h3]
  obtain h4 where h4: "set_next p n h3 = Some h4" using set_links_defined next_of_dom [OF assms(2)] l1(3) l2(3) l3(3) by metis
  note l4 = set_next_links [OF h4]
  show ?thesis
    using h1 h2 h3 h4 l1 l2 l3 l4 assms(2,4) by (intro exI [of _ h4]) (simp add: iqueue_add_def)
qed

lemma add_tail_links:
  assumes "n \<in> dom h" and "prev_of h p = Some q" and "q \<in> dom h" and "n \<noteq> p"
  shows "\<exists>h'. iqueue_add_tail n p h = Some h' \<and> dom h' = dom h \<and>
    next_of h' = (next_of h)(n \<mapsto> p, q \<mapsto> n) \<and> prev_of h' = (prev_of h)(n \<mapsto> q, p \<mapsto> n)"
proof -
  obtain h1 where h1: "set_prev n q h = Some h1" using set_links_defined assms(1) by metis
  note l1 = set_prev_links [OF h1]
  obtain h2 where h2: "set_next n p h1 = Some h2" using set_links_defined assms(1) l1(3) by metis
  note l2 = set_next_links [OF h2]
  obtain h3 where h3: "set_next q n h2 = Some h3" using set_links_defined assms(3) l1(3) l2(3) by metis
  note l3 = set_next_links [OF h3]
  obtain h4 where h4: "set_prev p n h3 = Some h4" using set_links_defined prev_of_dom [OF assms(2)] l1(3) l2(3) l3(3) by metis
  note l4 = set_prev_links [OF h4]
  show ?thesis
    using h1 h2 h3 h4 l1 l2 l3 l4 assms(2,4) by (intro exI [of _ h4]) (simp add: iqueue_add_tail_def)
qed

lemma del_links:
  assumes "next_of h e = Some q" and "prev_of h e = Some r" and "q \<in> dom h" and "r \<in> dom h" and "q \<noteq> e" and "r \<noteq> e"
  shows "\<exists>h'. iqueue_del e h = Some h' \<and> dom h' = dom h \<and>
    next_of h' = (next_of h)(r \<mapsto> q, e \<mapsto> 0) \<and> prev_of h' = (prev_of h)(q \<mapsto> r, e \<mapsto> 0)"
proof -
  obtain h1 where h1: "set_prev q r h = Some h1" using set_links_defined assms(3) by metis
  note l1 = set_prev_links [OF h1]
  obtain h2 where h2: "set_next r q h1 = Some h2" using set_links_defined assms(4) l1(3) by metis
  note l2 = set_next_links [OF h2]
  obtain h3 where h3: "set_next e 0 h2 = Some h3" using set_links_defined next_of_dom [OF assms(1)] l1(3) l2(3) by metis
  note l3 = set_next_links [OF h3]
  obtain h4 where h4: "set_prev e 0 h3 = Some h4" using set_links_defined next_of_dom [OF assms(1)] l1(3) l2(3) l3(3) by metis
  note l4 = set_prev_links [OF h4]
  show ?thesis
    using h1 h2 h3 h4 l1 l2 l3 l4 assms by (intro exI [of _ h4]) (simp add: iqueue_del_def)
qed

section \<open>Rings\<close>

text \<open>The nodes \<open>xs\<close> lead from \<open>a\<close> to \<open>b\<close> and back.\<close>

fun linked :: "(addr \<Rightarrow> addr option) \<Rightarrow> (addr \<Rightarrow> addr option) \<Rightarrow> addr \<Rightarrow> addr list \<Rightarrow> addr \<Rightarrow> bool" where
  "linked f g a [] b \<longleftrightarrow> f a = Some b \<and> g b = Some a"
| "linked f g a (x # xs) b \<longleftrightarrow> f a = Some x \<and> g x = Some a \<and> linked f g x xs b"

definition queue :: "links \<Rightarrow> addr \<Rightarrow> addr list \<Rightarrow> bool" where
  "queue h p xs \<longleftrightarrow> linked (next_of h) (prev_of h) p xs p \<and> distinct (p # xs)"

text \<open>The node before and the node after a place in the ring.\<close>

abbreviation node_before :: "addr \<Rightarrow> addr list \<Rightarrow> addr" where
  "node_before a xs \<equiv> last (a # xs)"

abbreviation node_after :: "addr list \<Rightarrow> addr \<Rightarrow> addr" where
  "node_after ys b \<equiv> hd (ys @ [b])"

lemma linked_cong:
  assumes "\<And>p. p \<in> insert a (set xs) \<Longrightarrow> f' p = f p" and "\<And>p. p \<in> insert b (set xs) \<Longrightarrow> g' p = g p"
  shows "linked f' g' a xs b = linked f g a xs b"
  using assms by (induction xs arbitrary: a) auto

lemma linked_append: "linked f g a (xs @ x # ys) b \<longleftrightarrow> linked f g a xs x \<and> linked f g x ys b"
  by (induction xs arbitrary: a) auto

lemma linked_ends:
  "linked f g a xs b \<Longrightarrow> f a = Some (node_after xs b)" "linked f g a xs b \<Longrightarrow> g b = Some (node_before a xs)"
  by (induction xs arbitrary: a) auto

lemma linked_place:
  assumes "linked f g a (xs @ ys) b"
  shows "f (node_before a xs) = Some (node_after ys b)" and "g (node_after ys b) = Some (node_before a xs)"
proof -
  have "f (node_before a xs) = Some (node_after ys b) \<and> g (node_after ys b) = Some (node_before a xs)"
    using assms
  proof (induction xs arbitrary: a)
    case Nil
    then show ?case by (cases ys) auto
  qed simp
  then show "f (node_before a xs) = Some (node_after ys b)" "g (node_after ys b) = Some (node_before a xs)" by simp_all
qed

text \<open>A node put between its two neighbours, and a node taken out.\<close>

lemma linked_insert:
  assumes "linked f g a (xs @ ys) b" and "distinct (a # xs @ ys)" and "b \<notin> set (xs @ ys)"
    and "f' n = Some (node_after ys b)" and "f' (node_before a xs) = Some n"
    and "g' n = Some (node_before a xs)" and "g' (node_after ys b) = Some n"
    and "\<And>u. u \<in> set (a # xs @ ys) \<Longrightarrow> u \<noteq> node_before a xs \<Longrightarrow> f' u = f u"
    and "\<And>u. u \<in> set (xs @ ys @ [b]) \<Longrightarrow> u \<noteq> node_after ys b \<Longrightarrow> g' u = g u"
  shows "linked f' g' a (xs @ n # ys) b"
  using assms
proof (induction xs arbitrary: a)
  case Nil
  show ?case
  proof (cases ys)
    case (Cons y zs)
    have "linked f' g' y zs b = linked f g y zs b"
      using Nil.prems by (intro linked_cong) (auto simp: Cons)
    with Nil.prems show ?thesis by (simp add: Cons)
  qed (use Nil in auto)
next
  case (Cons x xs)
  have "linked f' g' x (xs @ n # ys) b"
    using Cons.prems by (intro Cons.IH) auto
  moreover have "a \<noteq> node_before x xs"
    using Cons.prems(2) last_in_set [of "x # xs"] by auto
  moreover have "x \<noteq> node_after ys b"
    using Cons.prems(2,3) by (cases ys) auto
  ultimately show ?case using Cons.prems(1,8,9) by simp
qed

lemma linked_remove:
  assumes "linked f g a (xs @ n # ys) b" and "distinct (a # xs @ n # ys)" and "b \<notin> set (xs @ n # ys)"
    and "f' (node_before a xs) = Some (node_after ys b)" and "g' (node_after ys b) = Some (node_before a xs)"
    and "\<And>u. u \<in> set (a # xs @ ys) \<Longrightarrow> u \<noteq> node_before a xs \<Longrightarrow> f' u = f u"
    and "\<And>u. u \<in> set (xs @ ys @ [b]) \<Longrightarrow> u \<noteq> node_after ys b \<Longrightarrow> g' u = g u"
  shows "linked f' g' a (xs @ ys) b"
  using assms
proof (induction xs arbitrary: a)
  case Nil
  show ?case
  proof (cases ys)
    case (Cons y zs)
    have "linked f' g' y zs b = linked f g y zs b"
      using Nil.prems by (intro linked_cong) (auto simp: Cons)
    with Nil.prems show ?thesis by (simp add: Cons)
  qed (use Nil in auto)
next
  case (Cons x xs)
  have "linked f' g' x (xs @ ys) b"
    using Cons.prems by (intro Cons.IH) auto
  moreover have "a \<noteq> node_before x xs"
    using Cons.prems(2) last_in_set [of "x # xs"] by auto
  moreover have "x \<noteq> node_after ys b"
    using Cons.prems(2,3) by (cases ys) auto
  ultimately show ?case using Cons.prems(1,6,7) by simp
qed

text \<open>Two pieces of rings joined: from \<open>a\<close> over \<open>xs\<close>, then over \<open>ys\<close> to \<open>p\<close>.\<close>

lemma linked_join:
  assumes "linked f g a xs l" and "linked f g p ys p" and "distinct (a # xs)" and "distinct (p # ys)"
    and "f' (node_before a xs) = Some (node_after ys p)" and "g' (node_after ys p) = Some (node_before a xs)"
    and "\<And>u. u \<in> set (butlast (a # xs)) \<union> set ys \<Longrightarrow> f' u = f u"
    and "\<And>u. u \<in> set xs \<union> set (tl (ys @ [p])) \<Longrightarrow> g' u = g u"
  shows "linked f' g' a (xs @ ys) p"
  using assms
proof (induction xs arbitrary: a)
  case Nil
  show ?case
  proof (cases ys)
    case (Cons y zs)
    have "linked f' g' y zs p = linked f g y zs p"
      using Nil.prems(4,7,8) by (intro linked_cong) (auto simp: Cons)
    with Nil Cons show ?thesis by auto
  qed (use Nil in auto)
next
  case (Cons x xs)
  have "linked f' g' x (xs @ ys) p"
    using Cons.prems by (intro Cons.IH) auto
  moreover have "f' a = f a" "g' x = g x" using Cons.prems(7,8) by auto
  ultimately show ?case using Cons.prems(1) by simp
qed

section \<open>The macros on lists\<close>

text \<open>The memory a queue uses, and a change outside it.\<close>

definition ring :: "addr \<Rightarrow> addr list \<Rightarrow> addr set" where
  "ring p xs = set (p # xs)"

definition unchanged :: "addr set \<Rightarrow> links \<Rightarrow> links \<Rightarrow> bool" where
  "unchanged A h h' \<longleftrightarrow> dom h' = dom h \<and> (\<forall>q. q \<notin> A \<longrightarrow> next_of h' q = next_of h q \<and> prev_of h' q = prev_of h q)"

lemma queue_unchanged:
  assumes "queue h p xs" and "unchanged A h h'" and "ring p xs \<inter> A = {}"
  shows "queue h' p xs"
proof -
  have "linked (next_of h') (prev_of h') p xs p = linked (next_of h) (prev_of h) p xs p"
    using assms(2,3) by (intro linked_cong) (auto simp: unchanged_def ring_def)
  with assms(1) show ?thesis by (simp add: queue_def)
qed

lemma linked_dom: "linked (next_of h) (prev_of h) a xs b \<Longrightarrow> insert a (set xs) \<subseteq> dom h"
  by (induction xs arbitrary: a) (auto dest: next_of_dom)

lemma queue_dom: "queue h p xs \<Longrightarrow> ring p xs \<subseteq> dom h"
  using linked_dom by (fastforce simp: queue_def ring_def)

lemma node_places: "node_before p xs \<in> ring p xs" "node_after ys p \<in> ring p ys"
  by (auto simp: ring_def) (cases ys; simp)

lemma init_queue:
  assumes "p \<in> dom h"
  shows "\<exists>h'. iqueue_init p h = Some h' \<and> queue h' p [] \<and> unchanged {p} h h'"
proof -
  obtain h1 where h1: "set_next p p h = Some h1" using set_links_defined assms by metis
  note l1 = set_next_links [OF h1]
  obtain h2 where h2: "set_prev p p h1 = Some h2" using set_links_defined assms l1(3) by metis
  note l2 = set_prev_links [OF h2]
  show ?thesis using h1 h2 l1 l2 by (intro exI [of _ h2]) (simp add: iqueue_init_def queue_def unchanged_def)
qed

lemma inserted_queue:
  assumes q: "queue h p (xs @ ys)" and n: "n \<notin> ring p (xs @ ys)" and same: "dom h' = dom h"
    and f: "next_of h' = (next_of h)(n \<mapsto> node_after ys p, node_before p xs \<mapsto> n)"
    and g: "prev_of h' = (prev_of h)(n \<mapsto> node_before p xs, node_after ys p \<mapsto> n)"
  shows "queue h' p (xs @ n # ys) \<and> unchanged (insert n (ring p (xs @ ys))) h h'"
proof
  let ?b = "node_before p xs" and ?a = "node_after ys p"
  have l: "linked (next_of h) (prev_of h) p (xs @ ys) p" and d: "distinct (p # xs @ ys)"
    using q by (simp_all add: queue_def)
  have in_ring: "?b \<in> ring p (xs @ ys)" "?a \<in> ring p (xs @ ys)"
    using node_places(1) [of p xs] node_places(2) [of ys p] by (auto simp: ring_def)
  then have mem: "n \<noteq> ?b" "n \<noteq> ?a" using n by blast+
  have "linked (next_of h') (prev_of h') p (xs @ n # ys) p"
  proof (rule linked_insert [OF l d])
    show "p \<notin> set (xs @ ys)" using d by simp
    show "next_of h' n = Some ?a" "next_of h' ?b = Some n" "prev_of h' n = Some ?b" "prev_of h' ?a = Some n"
      using mem f g by simp_all
    fix u assume "u \<in> set (p # xs @ ys)" "u \<noteq> ?b"
    then show "next_of h' u = next_of h u" using n f by (auto simp: ring_def)
  next
    fix u assume "u \<in> set (xs @ ys @ [p])" "u \<noteq> ?a"
    then show "prev_of h' u = prev_of h u" using n g by (auto simp: ring_def)
  qed
  then show "queue h' p (xs @ n # ys)" using d n by (auto simp: queue_def ring_def)
  show "unchanged (insert n (ring p (xs @ ys))) h h'"
    using same f g in_ring by (auto simp: unchanged_def)
qed

text \<open>\<open>iqueue_add\<close> with any node of a ring in the place of the head inserts behind that node.\<close>

lemma add_queue:
  assumes q: "queue h p (xs @ ys)" and n: "n \<in> dom h" "n \<notin> ring p (xs @ ys)"
  shows "\<exists>h'. iqueue_add n (node_before p xs) h = Some h' \<and> queue h' p (xs @ n # ys) \<and>
    unchanged (insert n (ring p (xs @ ys))) h h'"
proof -
  let ?b = "node_before p xs" and ?a = "node_after ys p"
  have l: "linked (next_of h) (prev_of h) p (xs @ ys) p" using q by (simp add: queue_def)
  have "?b \<in> ring p (xs @ ys)" "?a \<in> ring p (xs @ ys)"
    using node_places(1) [of p xs] node_places(2) [of ys p] by (auto simp: ring_def)
  then have mem: "?a \<in> dom h" "n \<noteq> ?b" using queue_dom [OF q] n by blast+
  from add_links [OF n(1) linked_place(1) [OF l] mem] inserted_queue [OF q n(2)] show ?thesis by blast
qed

lemma add_tail_queue:
  assumes q: "queue h p xs" and n: "n \<in> dom h" "n \<notin> ring p xs"
  shows "\<exists>h'. iqueue_add_tail n p h = Some h' \<and> queue h' p (xs @ [n]) \<and> unchanged (insert n (ring p xs)) h h'"
proof -
  let ?b = "node_before p xs"
  have l: "linked (next_of h) (prev_of h) p xs p" using q by (simp add: queue_def)
  have mem: "?b \<in> dom h" "n \<noteq> p" using queue_dom [OF q] n node_places(1) [of p xs] by (auto simp: ring_def)
  from add_tail_links [OF n(1) linked_ends(2) [OF l] mem] inserted_queue [of h p xs "[]" n] q n(2)
  show ?thesis by auto
qed

lemma del_queue:
  assumes q: "queue h p (xs @ n # ys)"
  shows "\<exists>h'. iqueue_del n h = Some h' \<and> queue h' p (xs @ ys) \<and> unchanged (ring p (xs @ n # ys)) h h'"
proof -
  let ?b = "node_before p xs" and ?a = "node_after ys p"
  have l: "linked (next_of h) (prev_of h) p (xs @ n # ys) p" and d: "distinct (p # xs @ n # ys)"
    using q by (simp_all add: queue_def)
  have l1: "linked (next_of h) (prev_of h) p xs n" and l2: "linked (next_of h) (prev_of h) n ys p"
    using l by (simp_all add: linked_append)
  note links = linked_ends(1) [OF l2] linked_ends(2) [OF l1]
  have in_ring: "?b \<in> ring p xs" "?a \<in> ring p ys" by (rule node_places)+
  then have mem: "?a \<in> dom h" "?b \<in> dom h" "?a \<noteq> n" "?b \<noteq> n"
    using queue_dom [OF q] d by (auto simp: ring_def)
  obtain h' where h': "iqueue_del n h = Some h'" "dom h' = dom h"
      "next_of h' = (next_of h)(?b \<mapsto> ?a, n \<mapsto> 0)" "prev_of h' = (prev_of h)(?a \<mapsto> ?b, n \<mapsto> 0)"
    using del_links [OF links mem] by blast
  have "linked (next_of h') (prev_of h') p (xs @ ys) p"
  proof (rule linked_remove [OF l d])
    show "p \<notin> set (xs @ n # ys)" using d by simp
    show "next_of h' ?b = Some ?a" "prev_of h' ?a = Some ?b" using mem h'(3,4) by simp_all
    fix u assume "u \<in> set (p # xs @ ys)" "u \<noteq> ?b"
    then show "next_of h' u = next_of h u" using d h'(3) by auto
  next
    fix u assume "u \<in> set (xs @ ys @ [p])" "u \<noteq> ?a"
    then show "prev_of h' u = prev_of h u" using d h'(4) by auto
  qed
  then have "queue h' p (xs @ ys)" using d by (auto simp: queue_def)
  moreover have "unchanged (ring p (xs @ n # ys)) h h'"
    using h'(2-4) in_ring by (auto simp: unchanged_def ring_def)
  ultimately show ?thesis using h'(1) by blast
qed

lemma is_empty_queue: "queue h p xs \<Longrightarrow> iqueue_is_empty p h = Some (xs = [])"
  using linked_ends(1) [of "next_of h" "prev_of h" p xs p]
  by (cases xs) (auto simp: queue_def iqueue_is_empty_def)

lemma next_queue: "queue h p xs \<Longrightarrow> next_of h p = Some (node_after xs p)"
  unfolding queue_def by (elim conjE) (rule linked_ends(1))

lemma prev_queue: "queue h p (xs @ ys) \<Longrightarrow> prev_of h (node_after ys p) = Some (node_before p xs)"
  unfolding queue_def by (elim conjE) (rule linked_place(2))

lemma foreach_linked: "linked (next_of h) g a xs p \<Longrightarrow> p \<notin> set xs \<Longrightarrow> foreach_from h p (node_after xs p) = Some xs"
proof (induction xs arbitrary: a)
  case Nil
  then show ?case by (subst foreach_from.simps) simp
next
  case (Cons x xs)
  then have "next_of h x = Some (node_after xs p)" "foreach_from h p (node_after xs p) = Some xs"
    using linked_ends(1) [of "next_of h" g x xs p] by auto
  moreover have "x \<noteq> p" using Cons.prems(2) by auto
  ultimately show ?case by (subst foreach_from.simps) simp
qed

lemma foreach_queue: "queue h p xs \<Longrightarrow> iqueue_foreach p h = Some xs"
  using next_queue [of h p xs] foreach_linked [of h "prev_of h" p xs p] by (simp add: iqueue_foreach_def queue_def)

lemma splice_queue:
  assumes l: "queue h l xs" and p: "queue h p ys" and apart: "ring l xs \<inter> ring p ys = {}"
  shows "\<exists>h'. iqueue_splice_init l p h = Some h' \<and> queue h' l [] \<and> queue h' p (xs @ ys) \<and>
    unchanged (ring l xs \<union> ring p ys) h h'"
proof -
  have dl: "l \<in> dom h" and dp: "p \<in> dom h" using queue_dom [OF l] queue_dom [OF p] by (auto simp: ring_def)
  show ?thesis
  proof (cases xs)
    case Nil
    obtain h' where h': "iqueue_init l h = Some h'" "queue h' l []" "unchanged {l} h h'"
      using init_queue [OF dl] by blast
    moreover have "queue h' p ys" using queue_unchanged [OF p h'(3)] apart by (auto simp: ring_def)
    moreover have "unchanged (ring l xs \<union> ring p ys) h h'" using h'(3) by (auto simp: unchanged_def ring_def)
    ultimately show ?thesis
      using is_empty_queue [OF l] Nil by (simp add: iqueue_splice_init_def iqueue_splice_def)
  next
    case (Cons x zs)
    let ?last = "node_before x zs" and ?q = "node_after ys p"
    have ll: "linked (next_of h) (prev_of h) l (x # zs) l" "distinct (l # x # zs)" using l Cons by (simp_all add: queue_def)
    have lp: "linked (next_of h) (prev_of h) p ys p" "distinct (p # ys)" using p by (simp_all add: queue_def)
    have ends: "next_of h l = Some x" "prev_of h l = Some ?last" "next_of h p = Some ?q"
      using linked_ends [OF ll(1)] linked_ends [OF lp(1)] by simp_all
    have mem: "?last \<in> set xs" "?q \<in> ring p ys" using node_places(2) [of ys p] by (simp_all add: Cons)
    have dom: "x \<in> dom h" "?last \<in> dom h" "?q \<in> dom h"
      using queue_dom [OF l] queue_dom [OF p] mem by (auto simp: ring_def Cons)
    obtain h1 where h1: "set_prev x p h = Some h1" using set_links_defined(2) [OF dom(1)] by blast
    note l1 = set_prev_links [OF h1]
    obtain h2 where h2: "set_next p x h1 = Some h2" using set_links_defined(1) [of p h1] dp l1(3) by blast
    note l2 = set_next_links [OF h2]
    obtain h3 where h3: "set_next ?last ?q h2 = Some h3" using set_links_defined(1) [of ?last h2] dom(2) l1(3) l2(3) by blast
    note l3 = set_next_links [OF h3]
    obtain h4 where h4: "set_prev ?q ?last h3 = Some h4" using set_links_defined(2) [of ?q h3] dom(3) l1(3) l2(3) l3(3) by blast
    note l4 = set_prev_links [OF h4]
    have f: "next_of h4 = (next_of h)(p \<mapsto> x, ?last \<mapsto> ?q)" and g: "prev_of h4 = (prev_of h)(x \<mapsto> p, ?q \<mapsto> ?last)"
      and d4: "dom h4 = dom h" using l1 l2 l3 l4 by simp_all
    have apart': "p \<notin> set xs" "l \<notin> set ys" "l \<noteq> p" "set xs \<inter> set ys = {}" using apart by (auto simp: ring_def)
    have "linked (next_of h4) (prev_of h4) x (zs @ ys) p"
    proof (rule linked_join)
      show "linked (next_of h) (prev_of h) x zs l" "linked (next_of h) (prev_of h) p ys p" using ll(1) lp(1) by simp_all
      show "distinct (x # zs)" "distinct (p # ys)" using ll(2) lp(2) by simp_all
      show "next_of h4 ?last = Some ?q" "prev_of h4 ?q = Some ?last" using f g by simp_all
      fix u assume u: "u \<in> set (butlast (x # zs)) \<union> set ys"
      obtain as a where as: "x # zs = as @ [a]" by (cases "x # zs" rule: rev_cases) auto
      then have "distinct (as @ [a])" using ll(2) by (metis distinct.simps(2))
      then have "u \<noteq> ?last" using u apart'(4) mem(1) unfolding as Cons by auto
      moreover have "u \<noteq> p" using u lp(2) apart'(1) in_set_butlastD [of u "x # zs"] by (auto simp: Cons)
      ultimately show "next_of h4 u = next_of h u" using f by simp
    next
      fix u assume u: "u \<in> set zs \<union> set (tl (ys @ [p]))"
      have "u \<noteq> x" using u ll(2) apart' by (cases ys) (auto simp: Cons)
      moreover have "u \<noteq> ?q" using u lp(2) apart' by (cases ys) (auto simp: Cons)
      ultimately show "prev_of h4 u = prev_of h u" using g by simp
    qed
    moreover have "next_of h4 p = Some x" "prev_of h4 x = Some p"
      using f g mem apart' by (auto simp: Cons ring_def)
    ultimately have q4: "queue h4 p (xs @ ys)" using ll(2) lp(2) apart' by (auto simp: queue_def Cons)
    obtain h' where h': "iqueue_init l h4 = Some h'" "queue h' l []" "unchanged {l} h4 h'"
      using init_queue [of l h4] dl d4 by auto
    have "queue h' p (xs @ ys)" using queue_unchanged [OF q4 h'(3)] ll(2) apart' by (auto simp: ring_def Cons)
    moreover have "unchanged (ring l xs \<union> ring p ys) h h'"
      using h'(3) d4 f g mem by (auto simp: unchanged_def ring_def Cons)
    moreover have "iqueue_splice_init l p h = Some h'"
      using is_empty_queue [OF l] Cons ends h1 h2 h3 h4 h'(1)
      by (simp add: iqueue_splice_init_def iqueue_splice_def)
    ultimately show ?thesis using h'(2) by blast
  qed
qed

section \<open>The interface\<close>

text \<open>
  What the operations of kcp rely on, whatever the memory looks like: \<open>que h p xs\<close> is a queue, \<open>keeps A h h'\<close>
  a change of the nodes in \<open>A\<close> only.
\<close>

locale node_queues =
  fixes que :: "'h \<Rightarrow> addr \<Rightarrow> addr list \<Rightarrow> bool"
    and nodes :: "'h \<Rightarrow> addr set"
    and keeps :: "addr set \<Rightarrow> 'h \<Rightarrow> 'h \<Rightarrow> bool"
    and init :: "addr \<Rightarrow> 'h \<Rightarrow> 'h option"
    and add :: "addr \<Rightarrow> addr \<Rightarrow> 'h \<Rightarrow> 'h option"
    and add_tail :: "addr \<Rightarrow> addr \<Rightarrow> 'h \<Rightarrow> 'h option"
    and del :: "addr \<Rightarrow> 'h \<Rightarrow> 'h option"
  assumes que_nodes: "que h p xs \<Longrightarrow> ring p xs \<subseteq> nodes h"
    and que_distinct: "que h p xs \<Longrightarrow> distinct (p # xs)"
    and que_keeps: "que h p xs \<Longrightarrow> keeps A h h' \<Longrightarrow> ring p xs \<inter> A = {} \<Longrightarrow> que h' p xs"
    and keeps_nodes: "keeps A h h' \<Longrightarrow> nodes h' = nodes h"
    and keeps_trans: "keeps A h h' \<Longrightarrow> keeps B h' h'' \<Longrightarrow> keeps (A \<union> B) h h''"
    and init_law: "p \<in> nodes h \<Longrightarrow> \<exists>h'. init p h = Some h' \<and> que h' p [] \<and> keeps {p} h h'"
    and add_law: "que h p (xs @ ys) \<Longrightarrow> n \<in> nodes h \<Longrightarrow> n \<notin> ring p (xs @ ys) \<Longrightarrow>
      \<exists>h'. add n (node_before p xs) h = Some h' \<and> que h' p (xs @ n # ys) \<and> keeps (insert n (ring p (xs @ ys))) h h'"
    and add_tail_law: "que h p xs \<Longrightarrow> n \<in> nodes h \<Longrightarrow> n \<notin> ring p xs \<Longrightarrow>
      \<exists>h'. add_tail n p h = Some h' \<and> que h' p (xs @ [n]) \<and> keeps (insert n (ring p xs)) h h'"
    and del_law: "que h p (xs @ n # ys) \<Longrightarrow>
      \<exists>h'. del n h = Some h' \<and> que h' p (xs @ ys) \<and> keeps (ring p (xs @ n # ys)) h h'"
begin

text \<open>The first node of one queue moves to the end of another, as in \<open>ikcp_flush\<close> and \<open>ikcp_parse_data\<close>.\<close>

lemma move_first:
  assumes p: "que h p (x # xs)" and q: "que h q ys" and apart: "ring p (x # xs) \<inter> ring q ys = {}"
  shows "\<exists>h1 h2. del x h = Some h1 \<and> add_tail x q h1 = Some h2 \<and> que h2 p xs \<and> que h2 q (ys @ [x]) \<and>
    keeps (ring p (x # xs) \<union> ring q ys) h h2"
proof -
  obtain h1 where h1: "del x h = Some h1" "que h1 p xs" "keeps (ring p (x # xs)) h h1"
    using del_law [of h p "[]" x xs] p by auto
  have q1: "que h1 q ys" using que_keeps [OF q h1(3)] apart by blast
  have x: "x \<in> nodes h1" "x \<notin> ring q ys"
    using que_nodes [OF p] keeps_nodes [OF h1(3)] apart by (auto simp: ring_def)
  obtain h2 where h2: "add_tail x q h1 = Some h2" "que h2 q (ys @ [x])" "keeps (insert x (ring q ys)) h1 h2"
    using add_tail_law [OF q1 x] by blast
  have "ring p xs \<inter> insert x (ring q ys) = {}"
    using apart que_distinct [OF p] by (auto simp: ring_def)
  then have "que h2 p xs" using que_keeps [OF h1(2) h2(3)] by blast
  moreover have "ring p (x # xs) \<union> insert x (ring q ys) = ring p (x # xs) \<union> ring q ys" by (auto simp: ring_def)
  ultimately show ?thesis using h1(1) h2(1,2) keeps_trans [OF h1(3) h2(3)] by auto
qed

text \<open>A new node is initialised and inserted behind the nodes \<open>xs\<close>.\<close>

lemma init_add:
  assumes p: "que h p (xs @ ys)" and n: "n \<in> nodes h" "n \<notin> ring p (xs @ ys)"
  shows "\<exists>h1 h2. init n h = Some h1 \<and> add n (node_before p xs) h1 = Some h2 \<and> que h2 p (xs @ n # ys) \<and>
    keeps (insert n (ring p (xs @ ys))) h h2"
proof -
  obtain h1 where h1: "init n h = Some h1" "keeps {n} h h1" using init_law [OF n(1)] by blast
  have p1: "que h1 p (xs @ ys)" using que_keeps [OF p h1(2)] n(2) by blast
  have "n \<in> nodes h1" using keeps_nodes [OF h1(2)] n(1) by simp
  then obtain h2 where "add n (node_before p xs) h1 = Some h2" "que h2 p (xs @ n # ys)"
      "keeps (insert n (ring p (xs @ ys))) h1 h2"
    using add_law [OF p1 _ n(2)] by blast
  with h1 keeps_trans [of "{n}" h h1 "insert n (ring p (xs @ ys))" h2] show ?thesis by auto
qed

end

interpretation iq: node_queues queue dom unchanged iqueue_init iqueue_add iqueue_add_tail iqueue_del
proof unfold_locales
  fix h h' h'' p xs ys n A B
  show "queue h p xs \<Longrightarrow> ring p xs \<subseteq> dom h" by (rule queue_dom)
  show "queue h p xs \<Longrightarrow> distinct (p # xs)" by (simp add: queue_def)
  show "queue h p xs \<Longrightarrow> unchanged A h h' \<Longrightarrow> ring p xs \<inter> A = {} \<Longrightarrow> queue h' p xs" by (rule queue_unchanged)
  show "unchanged A h h' \<Longrightarrow> dom h' = dom h" by (simp add: unchanged_def)
  show "unchanged A h h' \<Longrightarrow> unchanged B h' h'' \<Longrightarrow> unchanged (A \<union> B) h h''" by (simp add: unchanged_def)
  show "p \<in> dom h \<Longrightarrow> \<exists>h'. iqueue_init p h = Some h' \<and> queue h' p [] \<and> unchanged {p} h h'" by (rule init_queue)
  show "queue h p (xs @ ys) \<Longrightarrow> n \<in> dom h \<Longrightarrow> n \<notin> ring p (xs @ ys) \<Longrightarrow>
      \<exists>h'. iqueue_add n (node_before p xs) h = Some h' \<and> queue h' p (xs @ n # ys) \<and>
        unchanged (insert n (ring p (xs @ ys))) h h'" by (rule add_queue)
  show "queue h p xs \<Longrightarrow> n \<in> dom h \<Longrightarrow> n \<notin> ring p xs \<Longrightarrow>
      \<exists>h'. iqueue_add_tail n p h = Some h' \<and> queue h' p (xs @ [n]) \<and> unchanged (insert n (ring p xs)) h h'"
    by (rule add_tail_queue)
  show "queue h p (xs @ n # ys) \<Longrightarrow>
      \<exists>h'. iqueue_del n h = Some h' \<and> queue h' p (xs @ ys) \<and> unchanged (ring p (xs @ n # ys)) h h'"
    by (rule del_queue)
qed

section \<open>Properties\<close>

text \<open>
  Adding a node behind any place of a queue and deleting it again: both
  succeed, the queue is then the list with the node in this place and the list without it, the loop of
  \<open>iqueue_foreach\<close> visits exactly the list, the test for emptiness is that of the list, and no
  queue on other nodes changes.
\<close>

theorem queue_add_del:
  assumes "queue h p (xs @ ys)" and "n \<in> dom h" and "n \<notin> ring p (xs @ ys)"
    and "queue h q zs" and "ring q zs \<inter> insert n (ring p (xs @ ys)) = {}"
  shows "\<exists>h1 h2. iqueue_add n (node_before p xs) h = Some h1 \<and> queue h1 p (xs @ n # ys) \<and>
    iqueue_foreach p h1 = Some (xs @ n # ys) \<and> queue h1 q zs \<and>
    iqueue_del n h1 = Some h2 \<and> queue h2 p (xs @ ys) \<and> iqueue_is_empty p h2 = Some (xs @ ys = []) \<and> queue h2 q zs"
proof -
  obtain h1 where h1: "iqueue_add n (node_before p xs) h = Some h1" "queue h1 p (xs @ n # ys)"
      "unchanged (insert n (ring p (xs @ ys))) h h1"
    using iq.add_law [OF assms(1-3)] by blast
  have q1: "queue h1 q zs" by (rule iq.que_keeps [OF assms(4) h1(3) assms(5)])
  obtain h2 where h2: "iqueue_del n h1 = Some h2" "queue h2 p (xs @ ys)" "unchanged (ring p (xs @ n # ys)) h1 h2"
    using iq.del_law [OF h1(2)] by blast
  have "ring q zs \<inter> ring p (xs @ n # ys) = {}" using assms(5) by (auto simp: ring_def)
  from iq.que_keeps [OF q1 h2(3) this] show ?thesis
    using h1 h2 q1 foreach_queue [OF h1(2)] is_empty_queue [OF h2(2)] by blast
qed

text \<open>Two heads at 8 and 16 and a free node at 24.\<close>

definition sample_links :: links where
  "sample_links = [8 \<mapsto> \<lparr>nxt = 8, prv = 8\<rparr>, 16 \<mapsto> \<lparr>nxt = 16, prv = 16\<rparr>, 24 \<mapsto> \<lparr>nxt = 0, prv = 0\<rparr>]"

theorem queue_add_del_witness:
  "\<exists>h1. iqueue_add 24 8 sample_links = Some h1 \<and> iqueue_foreach 8 h1 = Some [24] \<and> queue h1 16 []"
proof -
  have "queue sample_links 8 ([] @ [])" "queue sample_links 16 []"
    by (simp_all add: queue_def sample_links_def next_of_def prev_of_def)
  from queue_add_del [OF this(1) _ _ this(2), of 24] show ?thesis
    by (auto simp: sample_links_def ring_def)
qed

text \<open>
  \<open>iqueue_splice_init\<close> moves all nodes of one queue to the front of another, in order, leaves
  the first empty, and does nothing else; also when one of them is empty.
\<close>

theorem queue_splice_moves:
  assumes "queue h l xs" and "queue h p ys" and "ring l xs \<inter> ring p ys = {}"
  shows "\<exists>h'. iqueue_splice_init l p h = Some h' \<and> queue h' l [] \<and> queue h' p (xs @ ys) \<and>
    unchanged (ring l xs \<union> ring p ys) h h'"
  using assms by (rule splice_queue)

theorem queue_splice_moves_witness:
  "\<exists>h'. iqueue_splice_init 8 16 sample_links = Some h' \<and> queue h' 8 [] \<and> queue h' 16 []"
proof -
  have "queue sample_links 8 []" "queue sample_links 16 []"
    by (simp_all add: queue_def sample_links_def next_of_def prev_of_def)
  from queue_splice_moves [OF this] show ?thesis by (auto simp: ring_def)
qed

end
