(* ===== verification/Kcp_Memory.thy ===== *)
theory Kcp_Memory
  imports Iqueue
begin

text \<open>
  The operations of \<open>ikcp.c\<close> that allocate, link and free, on the memory they work on: \<open>ikcp_parse_data\<close> with
  its walk along the links of \<open>rcv_buf\<close>, and \<open>ikcp_release\<close>. The scalar fields of the control block are those
  of \<open>ikcpcb\<close>, whose four lists are not used here: the queues are in memory.

  The first operation is shown to be \<open>ikcp_parse_data\<close> of \<open>Kcp_Recv\<close>, on the lists of segments that the
  queues hold; the second to free every block once. An access to memory that is not allocated, and freeing
  what is not allocated, is undefined behaviour, \<open>None\<close>.
\<close>

section \<open>Memory\<close>

text \<open>Segments are at the address of their node; the links are those of the nodes in allocated blocks.\<close>

record kcp_memory =
  links_of :: links
  seg_at :: "addr \<Rightarrow> ikcpseg"
  blocks :: "addr set"

text \<open>The addresses of the control block, of the heads in it, and of what it points to.\<close>

record kcp_pointers =
  kcp_at :: addr
  snd_queue_at :: addr
  rcv_queue_at :: addr
  snd_buf_at :: addr
  rcv_buf_at :: addr
  buffer_at :: addr
  acklist_at :: addr

definition ikcp_free :: "addr \<Rightarrow> kcp_memory \<Rightarrow> kcp_memory option" where
  "ikcp_free p m =
     (if p \<in> blocks m
      then Some (m\<lparr>blocks := blocks m - {p}, links_of := (links_of m)(p := None)\<rparr>) else None)"

definition ikcp_segment_delete :: "addr \<Rightarrow> kcp_memory \<Rightarrow> kcp_memory option" where
  "ikcp_segment_delete seg m = ikcp_free seg m"

definition on_links :: "(links \<Rightarrow> links option) \<Rightarrow> kcp_memory \<Rightarrow> kcp_memory option" where
  "on_links f m = map_option (\<lambda>h. m\<lparr>links_of := h\<rparr>) (f (links_of m))"

section \<open>Receiving\<close>

text \<open>The walk back from \<open>p\<close>: whether the number is there already, and the node where the walk stopped.\<close>

partial_function (option) find_place :: "kcp_memory \<Rightarrow> u32 \<Rightarrow> addr \<Rightarrow> addr \<Rightarrow> (bool \<times> addr) option" where
  "find_place m sn p0 p =
     (if p = p0 then Some (False, p)
      else case prev_of (links_of m) p of
          None \<Rightarrow> None
        | Some prev \<Rightarrow>
            if seg_sn (seg_at m p) = sn then Some (True, p)
            else if itimediff sn (seg_sn (seg_at m p)) > 0 then Some (False, p)
            else find_place m sn p0 prev)"

partial_function (option) mem_move_ready ::
  "kcp_pointers \<Rightarrow> kcp_memory \<Rightarrow> ikcpcb \<Rightarrow> (kcp_memory \<times> ikcpcb) option" where
  "mem_move_ready a m k =
     (case iqueue_is_empty (rcv_buf_at a) (links_of m) of
        None \<Rightarrow> None
      | Some e \<Rightarrow>
          if e then Some (m, k)
          else case next_of (links_of m) (rcv_buf_at a) of
              None \<Rightarrow> None
            | Some seg \<Rightarrow>
                if seg_sn (seg_at m seg) = rcv_nxt k \<and> nrcv_que k < rcv_wnd k
                then case on_links (iqueue_del seg) m of
                    None \<Rightarrow> None
                  | Some m \<Rightarrow>
                      (case on_links (iqueue_add_tail seg (rcv_queue_at a)) m of
                         None \<Rightarrow> None
                       | Some m \<Rightarrow>
                           mem_move_ready a m (k\<lparr>nrcv_buf := nrcv_buf k - 1, nrcv_que := nrcv_que k + 1,
                             rcv_nxt := rcv_nxt k + 1\<rparr>))
                else Some (m, k))"

definition mem_parse_data ::
  "kcp_pointers \<Rightarrow> addr \<Rightarrow> kcp_memory \<Rightarrow> ikcpcb \<Rightarrow> (kcp_memory \<times> ikcpcb) option" where
  "mem_parse_data a newseg m k =
     (let sn = seg_sn (seg_at m newseg)
      in if itimediff sn (rcv_nxt k + rcv_wnd k) \<ge> 0 \<or> itimediff sn (rcv_nxt k) < 0
         then do {m \<leftarrow> ikcp_segment_delete newseg m; Some (m, k)}
         else do {
           p \<leftarrow> prev_of (links_of m) (rcv_buf_at a);
           (repeat, p) \<leftarrow> find_place m sn (rcv_buf_at a) p;
           (m, k) \<leftarrow> (if \<not> repeat
             then do {
               m \<leftarrow> on_links (iqueue_init newseg) m;
               m \<leftarrow> on_links (iqueue_add newseg p) m;
               Some (m, k\<lparr>nrcv_buf := nrcv_buf k + 1\<rparr>)}
             else do {m \<leftarrow> ikcp_segment_delete newseg m; Some (m, k)});
           mem_move_ready a m k})"

section \<open>Release\<close>

partial_function (option) drain :: "addr \<Rightarrow> kcp_memory \<Rightarrow> kcp_memory option" where
  "drain p m =
     (case iqueue_is_empty p (links_of m) of
        None \<Rightarrow> None
      | Some e \<Rightarrow>
          if e then Some m
          else case next_of (links_of m) p of
              None \<Rightarrow> None
            | Some seg \<Rightarrow>
                (case on_links (iqueue_del seg) m of
                   None \<Rightarrow> None
                 | Some m \<Rightarrow>
                     (case ikcp_segment_delete seg m of
                        None \<Rightarrow> None
                      | Some m \<Rightarrow> drain p m)))"

text \<open>With the control block its four heads are gone, and the counters it sets to 0 before.\<close>

definition ikcp_release :: "kcp_pointers \<Rightarrow> kcp_memory \<Rightarrow> kcp_memory option" where
  "ikcp_release a m = do {
     m \<leftarrow> drain (snd_buf_at a) m;
     m \<leftarrow> drain (rcv_buf_at a) m;
     m \<leftarrow> drain (snd_queue_at a) m;
     m \<leftarrow> drain (rcv_queue_at a) m;
     m \<leftarrow> (if buffer_at a \<noteq> 0 then ikcp_free (buffer_at a) m else Some m);
     m \<leftarrow> (if acklist_at a \<noteq> 0 then ikcp_free (acklist_at a) m else Some m);
     m \<leftarrow> ikcp_free (kcp_at a) m;
     Some (m\<lparr>links_of := links_of m |` (- {snd_queue_at a, rcv_queue_at a, snd_buf_at a, rcv_buf_at a})\<rparr>)}"

section \<open>The lists in memory\<close>

text \<open>The four queues, on different nodes, with every node of a segment in a block of its own.\<close>

record kcp_nodes =
  snd_queue_nodes :: "addr list"
  rcv_queue_nodes :: "addr list"
  snd_buf_nodes :: "addr list"
  rcv_buf_nodes :: "addr list"

definition all_nodes :: "kcp_nodes \<Rightarrow> addr list" where
  "all_nodes q = snd_buf_nodes q @ rcv_buf_nodes q @ snd_queue_nodes q @ rcv_queue_nodes q"

definition heads :: "kcp_pointers \<Rightarrow> addr list" where
  "heads a = [snd_queue_at a, rcv_queue_at a, snd_buf_at a, rcv_buf_at a]"

definition queues_in :: "kcp_pointers \<Rightarrow> kcp_memory \<Rightarrow> kcp_nodes \<Rightarrow> bool" where
  "queues_in a m q \<longleftrightarrow>
     queue (links_of m) (snd_queue_at a) (snd_queue_nodes q) \<and> queue (links_of m) (rcv_queue_at a) (rcv_queue_nodes q) \<and>
     queue (links_of m) (snd_buf_at a) (snd_buf_nodes q) \<and> queue (links_of m) (rcv_buf_at a) (rcv_buf_nodes q) \<and>
     distinct (heads a @ all_nodes q) \<and> set (all_nodes q) \<subseteq> blocks m"

text \<open>The control block of the list model.\<close>

definition abs_kcp :: "kcp_memory \<Rightarrow> kcp_nodes \<Rightarrow> ikcpcb \<Rightarrow> ikcpcb" where
  "abs_kcp m q k = k\<lparr>snd_queue := map (seg_at m) (snd_queue_nodes q), rcv_queue := map (seg_at m) (rcv_queue_nodes q),
     snd_buf := map (seg_at m) (snd_buf_nodes q), rcv_buf := map (seg_at m) (rcv_buf_nodes q)\<rparr>"

lemma on_links_Some: "f (links_of m) = Some h \<Longrightarrow> on_links f m = Some (m\<lparr>links_of := h\<rparr>)"
  by (simp add: on_links_def)

lemma queues_in_apart:
  assumes "queues_in a m q"
  shows "ring (rcv_buf_at a) (rcv_buf_nodes q) \<inter> ring (rcv_queue_at a) (rcv_queue_nodes q) = {}"
    and "ring (snd_buf_at a) (snd_buf_nodes q) \<inter>
      (ring (rcv_buf_at a) (rcv_buf_nodes q) \<union> ring (rcv_queue_at a) (rcv_queue_nodes q)) = {}"
    and "ring (snd_queue_at a) (snd_queue_nodes q) \<inter>
      (ring (rcv_buf_at a) (rcv_buf_nodes q) \<union> ring (rcv_queue_at a) (rcv_queue_nodes q)) = {}"
    and "ring (snd_buf_at a) (snd_buf_nodes q) \<inter> ring (snd_queue_at a) (snd_queue_nodes q) = {}"
  using assms by (auto simp: queues_in_def heads_def all_nodes_def ring_def)

section \<open>The walk back\<close>

lemma find_place_back:
  assumes "queue (links_of m) p0 (xs @ ys)"
  shows "case rcv_insert_back new (rev (map (seg_at m) xs)) (map (seg_at m) ys) of
      None \<Rightarrow> \<exists>p. find_place m (seg_sn new) p0 (node_before p0 xs) = Some (True, p)
    | Some l \<Rightarrow> \<exists>us vs. us @ vs = xs @ ys \<and> l = map (seg_at m) us @ new # map (seg_at m) vs \<and>
        find_place m (seg_sn new) p0 (node_before p0 xs) = Some (False, node_before p0 us)"
  using assms
proof (induction xs arbitrary: ys rule: rev_induct)
  case Nil
  have "find_place m (seg_sn new) p0 p0 = Some (False, p0)" by (subst find_place.simps) simp
  then show ?case by (simp, intro exI [of _ "[]"] exI [of _ ys], simp)
next
  case (snoc z zs)
  have q: "queue (links_of m) p0 (zs @ z # ys)" using snoc.prems by simp
  have z: "z \<noteq> p0" "prev_of (links_of m) z = Some (node_before p0 zs)"
    using prev_queue [OF q] q by (auto simp: queue_def)
  have step: "find_place m (seg_sn new) p0 (node_before p0 (zs @ [z])) =
      (if seg_sn (seg_at m z) = seg_sn new then Some (True, z)
       else if itimediff (seg_sn new) (seg_sn (seg_at m z)) > 0 then Some (False, z)
       else find_place m (seg_sn new) p0 (node_before p0 zs))"
    using z by (subst find_place.simps) simp
  show ?case
  proof (cases "seg_sn (seg_at m z) \<noteq> seg_sn new \<and> itimediff (seg_sn new) (seg_sn (seg_at m z)) > 0")
    case True
    then have "rcv_insert_back new (rev (map (seg_at m) (zs @ [z]))) (map (seg_at m) ys) =
        Some (map (seg_at m) (zs @ [z]) @ new # map (seg_at m) ys)" by simp
    moreover have "find_place m (seg_sn new) p0 (node_before p0 (zs @ [z])) = Some (False, node_before p0 (zs @ [z]))"
      using step True by simp
    ultimately show ?thesis by (simp only: option.case) blast
  next
    case False
    with snoc.IH [OF q] step show ?thesis
      by (cases "seg_sn (seg_at m z) = seg_sn new";
          cases "rcv_insert_back new (rev (map (seg_at m) zs)) (map (seg_at m) (z # ys))") auto
  qed
qed

section \<open>Steps\<close>

lemma move_step:
  assumes q: "queues_in a m q" and buf: "rcv_buf_nodes q = x # xs"
  shows "\<exists>m1 m2. on_links (iqueue_del x) m = Some m1 \<and> on_links (iqueue_add_tail x (rcv_queue_at a)) m1 = Some m2 \<and>
    queues_in a m2 (q\<lparr>rcv_buf_nodes := xs, rcv_queue_nodes := rcv_queue_nodes q @ [x]\<rparr>) \<and>
    seg_at m2 = seg_at m \<and> blocks m2 = blocks m"
proof -
  note apart = queues_in_apart [OF q]
  have qs: "queue (links_of m) (rcv_buf_at a) (x # xs)" "queue (links_of m) (rcv_queue_at a) (rcv_queue_nodes q)"
      "queue (links_of m) (snd_buf_at a) (snd_buf_nodes q)" "queue (links_of m) (snd_queue_at a) (snd_queue_nodes q)"
    using q buf by (simp_all add: queues_in_def)
  obtain h1 h2 where h: "iqueue_del x (links_of m) = Some h1" "iqueue_add_tail x (rcv_queue_at a) h1 = Some h2"
      "queue h2 (rcv_buf_at a) xs" "queue h2 (rcv_queue_at a) (rcv_queue_nodes q @ [x])"
      "unchanged (ring (rcv_buf_at a) (x # xs) \<union> ring (rcv_queue_at a) (rcv_queue_nodes q)) (links_of m) h2"
    using iq.move_first [OF qs(1,2)] apart(1) buf by auto
  have "queue h2 (snd_buf_at a) (snd_buf_nodes q)" "queue h2 (snd_queue_at a) (snd_queue_nodes q)"
    using iq.que_keeps [OF qs(3) h(5)] iq.que_keeps [OF qs(4) h(5)] apart(2,3) buf by simp_all
  with h(3,4) q buf have "queues_in a (m\<lparr>links_of := h2\<rparr>) (q\<lparr>rcv_buf_nodes := xs, rcv_queue_nodes := rcv_queue_nodes q @ [x]\<rparr>)"
    by (auto simp: queues_in_def all_nodes_def)
  then show ?thesis
    using on_links_Some [of "iqueue_del x" m h1] h(1,2) by (simp add: on_links_def)
qed

lemma insert_step:
  assumes q: "queues_in a m q" and buf: "rcv_buf_nodes q = us @ vs"
    and n: "n \<in> dom (links_of m)" "n \<in> blocks m" "n \<notin> set (heads a @ all_nodes q)"
  shows "\<exists>m1 m2. on_links (iqueue_init n) m = Some m1 \<and>
    on_links (iqueue_add n (node_before (rcv_buf_at a) us)) m1 = Some m2 \<and>
    queues_in a m2 (q\<lparr>rcv_buf_nodes := us @ n # vs\<rparr>) \<and> seg_at m2 = seg_at m \<and> blocks m2 = blocks m"
proof -
  note apart = queues_in_apart [OF q]
  have qs: "queue (links_of m) (rcv_buf_at a) (us @ vs)" "queue (links_of m) (rcv_queue_at a) (rcv_queue_nodes q)"
      "queue (links_of m) (snd_buf_at a) (snd_buf_nodes q)" "queue (links_of m) (snd_queue_at a) (snd_queue_nodes q)"
    using q buf by (simp_all add: queues_in_def)
  have fresh: "n \<notin> ring (rcv_buf_at a) (us @ vs)" "n \<notin> ring (rcv_queue_at a) (rcv_queue_nodes q)"
      "n \<notin> ring (snd_buf_at a) (snd_buf_nodes q)" "n \<notin> ring (snd_queue_at a) (snd_queue_nodes q)"
    using n(3) buf by (auto simp: ring_def heads_def all_nodes_def)
  obtain h1 h2 where h: "iqueue_init n (links_of m) = Some h1" "iqueue_add n (node_before (rcv_buf_at a) us) h1 = Some h2"
      "queue h2 (rcv_buf_at a) (us @ n # vs)" "unchanged (insert n (ring (rcv_buf_at a) (us @ vs))) (links_of m) h2"
    using iq.init_add [OF qs(1) n(1) fresh(1)] by blast
  have "queue h2 (rcv_queue_at a) (rcv_queue_nodes q)" "queue h2 (snd_buf_at a) (snd_buf_nodes q)"
      "queue h2 (snd_queue_at a) (snd_queue_nodes q)"
    using iq.que_keeps [OF qs(2) h(4)] iq.que_keeps [OF qs(3) h(4)] iq.que_keeps [OF qs(4) h(4)] apart buf fresh by auto
  with h(3) q n buf have "queues_in a (m\<lparr>links_of := h2\<rparr>) (q\<lparr>rcv_buf_nodes := us @ n # vs\<rparr>)"
    by (auto simp: queues_in_def all_nodes_def)
  then show ?thesis
    using on_links_Some [of "iqueue_init n" m h1] h(1,2) by (simp add: on_links_def)
qed

lemma queue_free:
  assumes "queue h p xs" and "n \<notin> ring p xs"
  shows "queue (h(n := None)) p xs"
proof -
  have "linked (next_of (h(n := None))) (prev_of (h(n := None))) p xs p = linked (next_of h) (prev_of h) p xs p"
    using assms(2) by (intro linked_cong) (auto simp: ring_def next_of_def prev_of_def)
  with assms(1) show ?thesis by (simp add: queue_def)
qed

lemma delete_step:
  assumes q: "queues_in a m q" and n: "n \<in> blocks m" "n \<notin> set (heads a @ all_nodes q)"
  shows "\<exists>m'. ikcp_segment_delete n m = Some m' \<and> queues_in a m' q \<and> seg_at m' = seg_at m \<and> blocks m' = blocks m - {n}"
proof -
  have "queue ((links_of m)(n := None)) p xs" if "queue (links_of m) p xs" "ring p xs \<subseteq> set (heads a @ all_nodes q)" for p xs
    using that n(2) by (intro queue_free) auto
  then have "queues_in a (m\<lparr>blocks := blocks m - {n}, links_of := (links_of m)(n := None)\<rparr>) q"
    using q n(2) by (auto simp: queues_in_def ring_def heads_def all_nodes_def)
  then show ?thesis using n(1) by (simp add: ikcp_segment_delete_def ikcp_free_def)
qed

section \<open>\<open>ikcp_parse_data\<close>\<close>

text \<open>The loop moves nodes from the front of one queue to the end of the other.\<close>

definition received_nodes :: "kcp_nodes \<Rightarrow> addr list" where
  "received_nodes q = rcv_queue_nodes q @ rcv_buf_nodes q"

definition same_sent :: "kcp_nodes \<Rightarrow> kcp_nodes \<Rightarrow> bool" where
  "same_sent q q' \<longleftrightarrow> snd_queue_nodes q' = snd_queue_nodes q \<and> snd_buf_nodes q' = snd_buf_nodes q"

lemma mem_move_ready_refines:
  assumes "queues_in a m q"
  shows "\<exists>m' k' q'. mem_move_ready a m k = Some (m', k') \<and> queues_in a m' q' \<and>
    abs_kcp m' q' k' = ikcp_move_ready (abs_kcp m q k) \<and> seg_at m' = seg_at m \<and> blocks m' = blocks m \<and>
    received_nodes q' = received_nodes q \<and> same_sent q q'"
  using assms
proof (induction "rcv_buf_nodes q" arbitrary: m k q)
  case Nil
  then have "queue (links_of m) (rcv_buf_at a) []" by (simp add: queues_in_def)
  from is_empty_queue [OF this] have "mem_move_ready a m k = Some (m, k)"
    by (subst mem_move_ready.simps) simp
  moreover have "ikcp_move_ready (abs_kcp m q k) = abs_kcp m q k"
    using Nil.hyps by (subst ikcp_move_ready.simps) (simp add: abs_kcp_def)
  ultimately show ?case using Nil.prems by (auto simp: same_sent_def)
next
  case (Cons x xs)
  note buf = Cons.hyps(2) [symmetric]
  have q: "queue (links_of m) (rcv_buf_at a) (x # xs)" using Cons.prems buf by (simp add: queues_in_def)
  note start = is_empty_queue [OF q] next_queue [OF q]
  show ?case
  proof (cases "seg_sn (seg_at m x) = rcv_nxt k \<and> nrcv_que k < rcv_wnd k")
    case False
    then have "mem_move_ready a m k = Some (m, k)"
      using start by (subst mem_move_ready.simps) auto
    moreover have "ikcp_move_ready (abs_kcp m q k) = abs_kcp m q k"
      using False by (subst ikcp_move_ready.simps) (auto simp: abs_kcp_def buf)
    ultimately show ?thesis using Cons.prems by (auto simp: same_sent_def)
  next
    case True
    let ?q = "q\<lparr>rcv_buf_nodes := xs, rcv_queue_nodes := rcv_queue_nodes q @ [x]\<rparr>"
      and ?k = "k\<lparr>nrcv_buf := nrcv_buf k - 1, nrcv_que := nrcv_que k + 1, rcv_nxt := rcv_nxt k + 1\<rparr>"
    obtain m1 m2 where s: "on_links (iqueue_del x) m = Some m1" "on_links (iqueue_add_tail x (rcv_queue_at a)) m1 = Some m2"
        "queues_in a m2 ?q" "seg_at m2 = seg_at m" "blocks m2 = blocks m"
      using move_step [OF Cons.prems buf] by blast
    have run: "mem_move_ready a m k = mem_move_ready a m2 ?k"
      using start s(1,2) True by (subst mem_move_ready.simps) simp
    have "ikcp_move_ready (abs_kcp m q k) = ikcp_move_ready (abs_kcp m2 ?q ?k)"
      using True s(4) by (subst ikcp_move_ready.simps) (cases k; simp add: abs_kcp_def buf)
    moreover obtain m' k' q' where "mem_move_ready a m2 ?k = Some (m', k')" "queues_in a m' q'"
        "abs_kcp m' q' k' = ikcp_move_ready (abs_kcp m2 ?q ?k)" "seg_at m' = seg_at m2" "blocks m' = blocks m2"
        "received_nodes q' = received_nodes ?q" "same_sent ?q q'"
      using Cons.hyps(1) [of ?q m2 ?k] s(3) by auto
    ultimately show ?thesis
      using run s(4,5) by (auto simp: received_nodes_def same_sent_def buf)
  qed
qed

lemma parse_data_refines:
  assumes q: "queues_in a m q" and n: "n \<in> dom (links_of m)" "n \<in> blocks m" "n \<notin> set (heads a @ all_nodes q)"
  shows "\<exists>m' k' q'. mem_parse_data a n m k = Some (m', k') \<and> queues_in a m' q' \<and>
    abs_kcp m' q' k' = ikcp_parse_data (seg_at m n) (abs_kcp m q k) \<and> same_sent q q' \<and> seg_at m' = seg_at m \<and>
    (if n \<in> set (received_nodes q')
     then set (received_nodes q') = insert n (set (received_nodes q)) \<and> blocks m' = blocks m
     else received_nodes q' = received_nodes q \<and> blocks m' = blocks m - {n})"
proof -
  let ?sn = "seg_sn (seg_at m n)"
  have new: "n \<notin> set (received_nodes q)" using n(3) by (auto simp: received_nodes_def all_nodes_def)
  obtain md where del: "ikcp_segment_delete n m = Some md" "queues_in a md q" "seg_at md = seg_at m" "blocks md = blocks m - {n}"
    using delete_step [OF q n(2,3)] by blast
  have absd: "abs_kcp md q k = abs_kcp m q k" for k using del(3) by (simp add: abs_kcp_def)
  have fields: "rcv_nxt (abs_kcp m q k) = rcv_nxt k" "rcv_wnd (abs_kcp m q k) = rcv_wnd k"
      "rcv_buf (abs_kcp m q k) = map (seg_at m) (rcv_buf_nodes q)" for k
    by (simp_all add: abs_kcp_def)
  show ?thesis
  proof (cases "itimediff ?sn (rcv_nxt k + rcv_wnd k) \<ge> 0 \<or> itimediff ?sn (rcv_nxt k) < 0")
    case True
    then have "mem_parse_data a n m k = Some (md, k)" using del(1) by (simp add: mem_parse_data_def)
    moreover have "ikcp_parse_data (seg_at m n) (abs_kcp m q k) = abs_kcp m q k"
      using True by (simp add: ikcp_parse_data_def fields)
    ultimately show ?thesis using del absd new by (auto simp: same_sent_def)
  next
    case window: False
    have buf: "queue (links_of m) (rcv_buf_at a) (rcv_buf_nodes q @ [])" using q by (simp add: queues_in_def)
    have prev: "prev_of (links_of m) (rcv_buf_at a) = Some (node_before (rcv_buf_at a) (rcv_buf_nodes q))"
      using prev_queue [OF buf] by simp
    note walk = find_place_back [OF buf, of "seg_at m n"]
    show ?thesis
    proof (cases "rcv_insert_back (seg_at m n) (rev (map (seg_at m) (rcv_buf_nodes q))) []")
      case None
      then obtain p where f: "find_place m ?sn (rcv_buf_at a) (node_before (rcv_buf_at a) (rcv_buf_nodes q)) = Some (True, p)"
        using walk by auto
      obtain m' k' q' where r: "mem_move_ready a md k = Some (m', k')" "queues_in a m' q'"
          "abs_kcp m' q' k' = ikcp_move_ready (abs_kcp md q k)" "seg_at m' = seg_at md" "blocks m' = blocks md"
          "received_nodes q' = received_nodes q" "same_sent q q'"
        using mem_move_ready_refines [OF del(2), of k] by blast
      have "mem_parse_data a n m k = Some (m', k')"
        using window prev f del(1) r(1) by (simp add: mem_parse_data_def)
      moreover have "ikcp_parse_data (seg_at m n) (abs_kcp m q k) = ikcp_move_ready (abs_kcp m q k)"
        using window None by (simp add: ikcp_parse_data_def fields)
      ultimately show ?thesis using r del absd new by auto
    next
      case (Some l)
      then obtain us vs where f: "us @ vs = rcv_buf_nodes q" "l = map (seg_at m) us @ seg_at m n # map (seg_at m) vs"
          "find_place m ?sn (rcv_buf_at a) (node_before (rcv_buf_at a) (rcv_buf_nodes q)) = Some (False, node_before (rcv_buf_at a) us)"
        using walk by auto
      let ?q = "q\<lparr>rcv_buf_nodes := us @ n # vs\<rparr>" and ?k = "k\<lparr>nrcv_buf := nrcv_buf k + 1\<rparr>"
      obtain m1 m2 where s: "on_links (iqueue_init n) m = Some m1"
          "on_links (iqueue_add n (node_before (rcv_buf_at a) us)) m1 = Some m2" "queues_in a m2 ?q"
          "seg_at m2 = seg_at m" "blocks m2 = blocks m"
        using insert_step [OF q f(1) [symmetric] n] by blast
      obtain m' k' q' where r: "mem_move_ready a m2 ?k = Some (m', k')" "queues_in a m' q'"
          "abs_kcp m' q' k' = ikcp_move_ready (abs_kcp m2 ?q ?k)" "seg_at m' = seg_at m2" "blocks m' = blocks m2"
          "received_nodes q' = received_nodes ?q" "same_sent ?q q'"
        using mem_move_ready_refines [OF s(3), of ?k] by blast
      have "mem_parse_data a n m k = Some (m', k')"
        using window prev f(3) s(1,2) r(1) by (simp add: mem_parse_data_def)
      moreover have "ikcp_parse_data (seg_at m n) (abs_kcp m q k) = ikcp_move_ready (abs_kcp m2 ?q ?k)"
        using window Some f(2) s(4) by (simp add: ikcp_parse_data_def fields) (cases k; simp add: abs_kcp_def)
      moreover have "n \<in> set (received_nodes q')" "set (received_nodes q') = insert n (set (received_nodes q))"
        using r(6) f(1) [symmetric] by (auto simp: received_nodes_def)
      ultimately show ?thesis using r s(4,5) by (auto simp: same_sent_def)
    qed
  qed
qed

section \<open>\<open>ikcp_release\<close>\<close>

lemma drain_frees:
  assumes "queue (links_of m) p xs" and "set xs \<subseteq> blocks m"
  shows "\<exists>m'. drain p m = Some m' \<and> queue (links_of m') p [] \<and> blocks m' = blocks m - set xs \<and>
    (\<forall>q zs. queue (links_of m) q zs \<longrightarrow> ring q zs \<inter> ring p xs = {} \<longrightarrow> queue (links_of m') q zs)"
  using assms
proof (induction xs arbitrary: m)
  case Nil
  from is_empty_queue [OF Nil(1)] have "drain p m = Some m" by (subst drain.simps) simp
  with Nil show ?case by auto
next
  case (Cons x xs)
  note start = is_empty_queue [OF Cons.prems(1)] next_queue [OF Cons.prems(1)]
  obtain h where h: "iqueue_del x (links_of m) = Some h" "queue h p xs" "unchanged (ring p (x # xs)) (links_of m) h"
    using iq.del_law [of "links_of m" p "[]" x xs] Cons.prems(1) by auto
  let ?m = "m\<lparr>blocks := blocks m - {x}, links_of := h(x := None)\<rparr>"
  have d: "distinct (p # x # xs)" using Cons.prems(1) by (simp add: queue_def)
  have run: "drain p m = drain p ?m"
    using start h(1) Cons.prems(2)
    by (subst drain.simps) (simp add: on_links_def ikcp_segment_delete_def ikcp_free_def)
  have "queue (links_of ?m) p xs" using h(2) d by (auto simp: ring_def intro!: queue_free)
  moreover have "set xs \<subseteq> blocks ?m" using Cons.prems(2) d by auto
  ultimately obtain m' where m': "drain p ?m = Some m'" "queue (links_of m') p []" "blocks m' = blocks ?m - set xs"
      "\<forall>q zs. queue (links_of ?m) q zs \<longrightarrow> ring q zs \<inter> ring p xs = {} \<longrightarrow> queue (links_of m') q zs"
    using Cons.IH by blast
  have "queue (links_of m') q zs" if q: "queue (links_of m) q zs" "ring q zs \<inter> ring p (x # xs) = {}" for q zs
  proof -
    have "queue h q zs" using iq.que_keeps [OF q(1) h(3) q(2)] .
    then have "queue (links_of ?m) q zs" using q(2) by (auto simp: ring_def intro!: queue_free)
    moreover have "ring q zs \<inter> ring p xs = {}" using q(2) by (auto simp: ring_def)
    ultimately show ?thesis using m'(4) by blast
  qed
  moreover have "blocks m' = blocks m - set (x # xs)" using m'(3) by auto
  ultimately show ?case using run m'(1,2) by auto
qed

text \<open>The blocks of a control block, and the state in which it may be released.\<close>

definition kcp_blocks :: "kcp_pointers \<Rightarrow> kcp_nodes \<Rightarrow> addr list" where
  "kcp_blocks a q = all_nodes q @ filter (\<lambda>p. p \<noteq> 0) [buffer_at a, acklist_at a] @ [kcp_at a]"

definition owns_blocks :: "kcp_pointers \<Rightarrow> kcp_memory \<Rightarrow> kcp_nodes \<Rightarrow> bool" where
  "owns_blocks a m q \<longleftrightarrow> queues_in a m q \<and> distinct (kcp_blocks a q) \<and> set (kcp_blocks a q) \<subseteq> blocks m"

lemma free_block: "p \<in> blocks m \<Longrightarrow> \<exists>m'. ikcp_free p m = Some m' \<and> blocks m' = blocks m - {p}"
  by (auto simp: ikcp_free_def)

lemma free_pointer:
  "p \<noteq> 0 \<longrightarrow> p \<in> blocks m \<Longrightarrow>
    \<exists>m'. (if p \<noteq> 0 then ikcp_free p m else Some m) = Some m' \<and> blocks m' = blocks m - set (filter (\<lambda>p. p \<noteq> 0) [p])"
  by (auto simp: ikcp_free_def)

lemma release_frees:
  assumes "owns_blocks a m q"
  shows "\<exists>m'. ikcp_release a m = Some m' \<and> blocks m' = blocks m - set (kcp_blocks a q)"
proof -
  have q: "queues_in a m q" and d: "distinct (kcp_blocks a q)" and own: "set (kcp_blocks a q) \<subseteq> blocks m"
    using assms by (simp_all add: owns_blocks_def)
  have qs: "queue (links_of m) (snd_buf_at a) (snd_buf_nodes q)" "queue (links_of m) (rcv_buf_at a) (rcv_buf_nodes q)"
      "queue (links_of m) (snd_queue_at a) (snd_queue_nodes q)" "queue (links_of m) (rcv_queue_at a) (rcv_queue_nodes q)"
    and dn: "distinct (heads a @ all_nodes q)"
    using q by (simp_all add: queues_in_def)
  let ?r1 = "ring (snd_buf_at a) (snd_buf_nodes q)" and ?r2 = "ring (rcv_buf_at a) (rcv_buf_nodes q)"
    and ?r3 = "ring (snd_queue_at a) (snd_queue_nodes q)" and ?r4 = "ring (rcv_queue_at a) (rcv_queue_nodes q)"
  have apart: "?r2 \<inter> ?r1 = {}" "?r3 \<inter> ?r1 = {}" "?r4 \<inter> ?r1 = {}" "?r3 \<inter> ?r2 = {}" "?r4 \<inter> ?r2 = {}" "?r4 \<inter> ?r3 = {}"
    using dn by (auto simp: heads_def all_nodes_def ring_def)
  have sub: "set (snd_buf_nodes q) \<subseteq> blocks m" "set (rcv_buf_nodes q) \<subseteq> blocks m - set (snd_buf_nodes q)"
      "set (snd_queue_nodes q) \<subseteq> blocks m - set (snd_buf_nodes q) - set (rcv_buf_nodes q)"
      "set (rcv_queue_nodes q) \<subseteq> blocks m - set (snd_buf_nodes q) - set (rcv_buf_nodes q) - set (snd_queue_nodes q)"
    using own dn by (auto simp: kcp_blocks_def all_nodes_def)
  obtain m1 where m1: "drain (snd_buf_at a) m = Some m1" "blocks m1 = blocks m - set (snd_buf_nodes q)"
    and k1: "\<And>q zs. queue (links_of m) q zs \<Longrightarrow> ring q zs \<inter> ?r1 = {} \<Longrightarrow> queue (links_of m1) q zs"
    using drain_frees [OF qs(1) sub(1)] by blast
  note q1 = k1 [OF qs(2) apart(1)] k1 [OF qs(3) apart(2)] k1 [OF qs(4) apart(3)]
  obtain m2 where m2: "drain (rcv_buf_at a) m1 = Some m2" "blocks m2 = blocks m1 - set (rcv_buf_nodes q)"
    and k2: "\<And>q zs. queue (links_of m1) q zs \<Longrightarrow> ring q zs \<inter> ?r2 = {} \<Longrightarrow> queue (links_of m2) q zs"
    using drain_frees [OF q1(1)] sub(2) m1(2) by metis
  note q2 = k2 [OF q1(2) apart(4)] k2 [OF q1(3) apart(5)]
  obtain m3 where m3: "drain (snd_queue_at a) m2 = Some m3" "blocks m3 = blocks m2 - set (snd_queue_nodes q)"
    and k3: "\<And>q zs. queue (links_of m2) q zs \<Longrightarrow> ring q zs \<inter> ?r3 = {} \<Longrightarrow> queue (links_of m3) q zs"
    using drain_frees [OF q2(1)] sub(3) m1(2) m2(2) by metis
  note q3 = k3 [OF q2(2) apart(6)]
  obtain m4 where m4: "drain (rcv_queue_at a) m3 = Some m4" "blocks m4 = blocks m3 - set (rcv_queue_nodes q)"
    using drain_frees [OF q3] sub(4) m1(2) m2(2) m3(2) by metis
  have b4: "blocks m4 = blocks m - set (all_nodes q)" using m1(2) m2(2) m3(2) m4(2) by (auto simp: all_nodes_def)
  have "buffer_at a \<noteq> 0 \<longrightarrow> buffer_at a \<in> blocks m4" using b4 own d by (auto simp: kcp_blocks_def)
  then obtain m5 where m5: "(if buffer_at a \<noteq> 0 then ikcp_free (buffer_at a) m4 else Some m4) = Some m5"
      "blocks m5 = blocks m4 - set (filter (\<lambda>p. p \<noteq> 0) [buffer_at a])"
    using free_pointer by blast
  have "acklist_at a \<noteq> 0 \<longrightarrow> acklist_at a \<in> blocks m5"
    using b4 m5(2) own d by (auto simp: kcp_blocks_def split: if_splits)
  then obtain m6 where m6: "(if acklist_at a \<noteq> 0 then ikcp_free (acklist_at a) m5 else Some m5) = Some m6"
      "blocks m6 = blocks m5 - set (filter (\<lambda>p. p \<noteq> 0) [acklist_at a])"
    using free_pointer by blast
  have "kcp_at a \<in> blocks m6"
    using b4 m5(2) m6(2) own d by (auto simp: kcp_blocks_def split: if_splits)
  then obtain m7 where m7: "ikcp_free (kcp_at a) m6 = Some m7" "blocks m7 = blocks m6 - {kcp_at a}"
    using free_block by blast
  have "blocks m7 = blocks m - set (kcp_blocks a q)"
    using b4 m5(2) m6(2) m7(2) by (auto simp: kcp_blocks_def split: if_splits)
  then show ?thesis
    using m1(1) m2(1) m3(1) m4(1) m5(1) m6(1) m7(1) by (simp add: ikcp_release_def)
qed

section \<open>Properties\<close>

text \<open>
  \<open>ikcp_parse_data\<close> on the linked queues does to the lists of segments they hold what the
  model on lists does: it never follows a bad link, its two loops end, the segment that was handed over is then
  either in one of the receive queues or has been freed, no other block is freed and no other segment is lost.
\<close>

theorem parse_data_in_memory:
  assumes "queues_in a m q" and "n \<in> dom (links_of m)" and "n \<in> blocks m" and "n \<notin> set (heads a @ all_nodes q)"
  shows "\<exists>m' k' q'. mem_parse_data a n m k = Some (m', k') \<and> queues_in a m' q' \<and>
    abs_kcp m' q' k' = ikcp_parse_data (seg_at m n) (abs_kcp m q k) \<and> same_sent q q' \<and> seg_at m' = seg_at m \<and>
    (if n \<in> set (received_nodes q')
     then set (received_nodes q') = insert n (set (received_nodes q)) \<and> blocks m' = blocks m
     else received_nodes q' = received_nodes q \<and> blocks m' = blocks m - {n})"
  using assms by (rule parse_data_refines)

text \<open>A control block at 1 with its heads, a buffer at 5, and a new segment at 6.\<close>

definition sample_pointers :: kcp_pointers where
  "sample_pointers = \<lparr>kcp_at = 1, snd_queue_at = 1, rcv_queue_at = 2, snd_buf_at = 3, rcv_buf_at = 4, buffer_at = 5, acklist_at = 0\<rparr>"

definition sample_memory :: kcp_memory where
  "sample_memory = \<lparr>links_of = (\<lambda>p. if p \<in> {1, 2, 3, 4, 6} then Some \<lparr>nxt = p, prv = p\<rparr> else None),
     seg_at = (\<lambda>p. sample_seg 0 [7]), blocks = {1, 5, 6}\<rparr>"

definition sample_nodes :: kcp_nodes where
  "sample_nodes = \<lparr>snd_queue_nodes = [], rcv_queue_nodes = [], snd_buf_nodes = [], rcv_buf_nodes = []\<rparr>"

lemma sample_queues: "queues_in sample_pointers sample_memory sample_nodes"
  by (simp add: queues_in_def queue_def sample_pointers_def sample_memory_def sample_nodes_def
      heads_def all_nodes_def next_of_def prev_of_def)

theorem parse_data_in_memory_witness:
  "\<exists>m' k' q'. mem_parse_data sample_pointers 6 sample_memory (kcp_fresh 9) = Some (m', k') \<and>
    abs_kcp m' q' k' = ikcp_parse_data (sample_seg 0 [7]) (kcp_fresh 9)"
proof -
  have "6 \<in> dom (links_of sample_memory)" "6 \<in> blocks sample_memory" "6 \<notin> set (heads sample_pointers @ all_nodes sample_nodes)"
    by (simp_all add: sample_memory_def sample_pointers_def sample_nodes_def heads_def all_nodes_def domIff)
  from parse_data_in_memory [OF sample_queues this, of "kcp_fresh 9"]
  obtain m' k' q' where "mem_parse_data sample_pointers 6 sample_memory (kcp_fresh 9) = Some (m', k')"
      "abs_kcp m' q' k' = ikcp_parse_data (seg_at sample_memory 6) (abs_kcp sample_memory sample_nodes (kcp_fresh 9))"
    by blast
  moreover have "abs_kcp sample_memory sample_nodes (kcp_fresh 9) = kcp_fresh 9"
    by (simp add: abs_kcp_def sample_nodes_def kcp_fresh_def ikcp_create_def)
  ultimately show ?thesis by (auto simp: sample_memory_def)
qed

text \<open>
  \<open>ikcp_release\<close> comes to an end without touching freed memory, and frees exactly the blocks of the control
  block, each once: all segments of its four queues, the buffer, the list of acknowledgements, and itself.
\<close>

theorem release_frees_all:
  assumes "owns_blocks a m q"
  shows "\<exists>m'. ikcp_release a m = Some m' \<and> blocks m' = blocks m - set (kcp_blocks a q)"
  using assms by (rule release_frees)

theorem release_frees_all_witness:
  "\<exists>m'. ikcp_release sample_pointers sample_memory = Some m' \<and> blocks m' = {6}"
proof -
  have "owns_blocks sample_pointers sample_memory sample_nodes"
    using sample_queues by (simp add: owns_blocks_def kcp_blocks_def all_nodes_def sample_pointers_def
        sample_memory_def sample_nodes_def)
  from release_frees_all [OF this] show ?thesis
    by (auto simp: kcp_blocks_def all_nodes_def sample_pointers_def sample_memory_def sample_nodes_def)
qed

end
