(* ===== verification/Kcp_Heap.thy ===== *)
theory Kcp_Heap
  imports Kcp_Memory Kcp_Endpoint
begin

text \<open>
  The operations of \<open>ikcp.c\<close> that take segments out of the linked queues, move them, or walk along the
  links: \<open>ikcp_recv\<close> with \<open>ikcp_peeksize\<close>, \<open>ikcp_parse_una\<close>, \<open>ikcp_parse_ack\<close>, \<open>ikcp_parse_fastack\<close> and
  \<open>ikcp_shrink_buf\<close>, on memory as in \<open>Kcp_Memory\<close>.

  Each is shown to do to the lists of segments what its model on lists does, and to keep \<open>heap a m q B\<close>: the four
  queues of the control block at \<open>a\<close> have the nodes \<open>q\<close>, the control block owns these, its buffer, its list of
  acknowledgements and itself, and the other blocks in memory are \<open>B\<close>. A segment between two queues, or about to be
  freed, is in \<open>B\<close>, so that all steps are of the same kind: a node is taken out of a queue, put into one, freed.
\<close>

section \<open>The four queues\<close>

datatype kcp_queue = Snd_queue | Rcv_queue | Snd_buf | Rcv_buf

fun head_of :: "kcp_pointers \<Rightarrow> kcp_queue \<Rightarrow> addr" where
  "head_of a Snd_queue = snd_queue_at a"
| "head_of a Rcv_queue = rcv_queue_at a"
| "head_of a Snd_buf = snd_buf_at a"
| "head_of a Rcv_buf = rcv_buf_at a"

fun nodes_of :: "kcp_nodes \<Rightarrow> kcp_queue \<Rightarrow> addr list" where
  "nodes_of q Snd_queue = snd_queue_nodes q"
| "nodes_of q Rcv_queue = rcv_queue_nodes q"
| "nodes_of q Snd_buf = snd_buf_nodes q"
| "nodes_of q Rcv_buf = rcv_buf_nodes q"

fun put_nodes :: "kcp_queue \<Rightarrow> addr list \<Rightarrow> kcp_nodes \<Rightarrow> kcp_nodes" where
  "put_nodes Snd_queue xs q = q\<lparr>snd_queue_nodes := xs\<rparr>"
| "put_nodes Rcv_queue xs q = q\<lparr>rcv_queue_nodes := xs\<rparr>"
| "put_nodes Snd_buf xs q = q\<lparr>snd_buf_nodes := xs\<rparr>"
| "put_nodes Rcv_buf xs q = q\<lparr>rcv_buf_nodes := xs\<rparr>"

lemma nodes_of_put [simp]: "nodes_of (put_nodes w xs q) v = (if v = w then xs else nodes_of q v)"
  by (cases w; cases v) simp_all

lemma all_queues: "(\<forall>w. P w) \<longleftrightarrow> P Snd_queue \<and> P Rcv_queue \<and> P Snd_buf \<and> P Rcv_buf"
  by (metis kcp_queue.exhaust)

lemma set_all_nodes: "set (all_nodes q) = (\<Union>w. set (nodes_of q w))"
proof -
  have "(\<Union>w. set (nodes_of q w)) = {x. \<not> (\<forall>w. x \<notin> set (nodes_of q w))}" by auto
  then show ?thesis by (auto simp: all_nodes_def all_queues)
qed

lemma queues_in_iff:
  "queues_in a m q \<longleftrightarrow> (\<forall>w. queue (links_of m) (head_of a w) (nodes_of q w)) \<and>
     distinct (heads a @ all_nodes q) \<and> set (all_nodes q) \<subseteq> blocks m"
  by (auto simp: queues_in_def all_queues)

lemma queues_in_queue: "queues_in a m q \<Longrightarrow> queue (links_of m) (head_of a w) (nodes_of q w)"
  by (simp add: queues_in_iff)

lemma queues_apart:
  assumes "queues_in a m q" and "w \<noteq> v"
  shows "ring (head_of a w) (nodes_of q w) \<inter> ring (head_of a v) (nodes_of q v) = {}"
  using assms by (cases w; cases v) (auto simp: queues_in_def heads_def all_nodes_def ring_def)

lemma ring_nodes: "ring (head_of a w) (nodes_of q w) \<subseteq> set (heads a @ all_nodes q)"
  by (cases w) (auto simp: ring_def heads_def all_nodes_def)

lemma mset_put_remove: "nodes_of q w = xs @ x # ys \<Longrightarrow> mset (all_nodes q) = mset (x # all_nodes (put_nodes w (xs @ ys) q))"
  by (cases w) (simp_all add: all_nodes_def)

lemma mset_put_tail: "mset (all_nodes (put_nodes w (nodes_of q w @ [x]) q)) = mset (x # all_nodes q)"
  by (cases w) (simp_all add: all_nodes_def)

lemma distinct_put_remove:
  assumes "distinct (heads a @ all_nodes q)" and "nodes_of q w = xs @ x # ys"
  shows "distinct (heads a @ all_nodes (put_nodes w (xs @ ys) q)) \<and> x \<notin> set (heads a @ all_nodes (put_nodes w (xs @ ys) q))"
proof -
  have "mset (heads a @ all_nodes q) = mset (x # heads a @ all_nodes (put_nodes w (xs @ ys) q))"
    using mset_put_remove [OF assms(2)] by simp
  from mset_eq_imp_distinct_iff [OF this] assms(1) show ?thesis by simp
qed

lemma distinct_put_tail:
  assumes "distinct (heads a @ all_nodes q)" and "x \<notin> set (heads a @ all_nodes q)"
  shows "distinct (heads a @ all_nodes (put_nodes w (nodes_of q w @ [x]) q))"
proof -
  have "mset (heads a @ all_nodes (put_nodes w (nodes_of q w @ [x]) q)) = mset (x # heads a @ all_nodes q)"
    using mset_put_tail [of w q x] by simp
  from mset_eq_imp_distinct_iff [OF this] assms show ?thesis by simp
qed

lemma set_put_nodes:
  "set (all_nodes (put_nodes w (nodes_of q w @ [x]) q)) = insert x (set (all_nodes q))"
  "nodes_of q w = xs @ x # ys \<Longrightarrow> insert x (set (all_nodes (put_nodes w (xs @ ys) q))) = set (all_nodes q)"
  using mset_eq_setD [OF mset_put_tail [of w q x]] mset_eq_setD [OF mset_put_remove [of q w xs x ys]] by simp_all

section \<open>Ownership\<close>

definition own_blocks :: "kcp_pointers \<Rightarrow> addr list" where
  "own_blocks a = filter (\<lambda>p. p \<noteq> 0) [buffer_at a, acklist_at a] @ [kcp_at a]"

definition heap :: "kcp_pointers \<Rightarrow> kcp_memory \<Rightarrow> kcp_nodes \<Rightarrow> addr set \<Rightarrow> bool" where
  "heap a m q B \<longleftrightarrow> queues_in a m q \<and> distinct (own_blocks a) \<and> set (own_blocks a) \<inter> set (all_nodes q) = {} \<and>
     blocks m = set (own_blocks a) \<union> set (all_nodes q) \<union> B \<and> B \<inter> (set (own_blocks a) \<union> set (heads a @ all_nodes q)) = {} \<and>
     buffer_at a \<noteq> 0 \<and> {buffer_at a, acklist_at a} \<inter> set (heads a) = {}"

lemma heap_queues: "heap a m q B \<Longrightarrow> queues_in a m q"
  by (simp add: heap_def)

lemma heap_queue: "heap a m q B \<Longrightarrow> queue (links_of m) (head_of a w) (nodes_of q w)"
  by (simp add: heap_def queues_in_queue)

lemma heap_owns: "heap a m q B \<Longrightarrow> owns_blocks a m q"
  by (auto simp: heap_def owns_blocks_def kcp_blocks_def own_blocks_def queues_in_def)

lemma heap_rest: "heap a m q B \<Longrightarrow> blocks m - set (kcp_blocks a q) = B"
  by (auto simp: heap_def kcp_blocks_def own_blocks_def split: if_splits)

text \<open>Nodes and other blocks may change places.\<close>

lemma heap_exchange:
  assumes h: "heap a m q B" and q: "queues_in a m' q'" and same: "blocks m' = blocks m"
    and parts: "set (all_nodes q') \<union> B' = set (all_nodes q) \<union> B" "set (all_nodes q') \<inter> B' = {}"
  shows "heap a m' q' B'"
proof -
  have "set (own_blocks a) \<inter> (set (all_nodes q) \<union> B) = {}" "set (heads a) \<inter> (set (all_nodes q) \<union> B) = {}"
    using h by (auto simp: heap_def queues_in_def)
  then have apart: "set (own_blocks a) \<inter> (set (all_nodes q') \<union> B') = {}" "set (heads a) \<inter> (set (all_nodes q') \<union> B') = {}"
    using parts(1) by simp_all
  have "blocks m' = set (own_blocks a) \<union> (set (all_nodes q) \<union> B)" using h same by (simp add: heap_def Un_assoc)
  then have "blocks m' = set (own_blocks a) \<union> set (all_nodes q') \<union> B'" using parts(1) by (simp add: Un_assoc)
  with h q apart parts(2) show ?thesis by (auto simp: heap_def)
qed

lemma heap_data: "heap a m q B \<Longrightarrow> heap a (m\<lparr>seg_at := s\<rparr>) q B"
  by (auto simp: heap_def queues_in_def)

section \<open>Steps\<close>

text \<open>A node is taken out of a queue.\<close>

lemma take_step:
  assumes h: "heap a m q B" and x: "nodes_of q w = xs @ x # ys"
  shows "\<exists>m'. on_links (iqueue_del x) m = Some m' \<and> heap a m' (put_nodes w (xs @ ys) q) (insert x B) \<and>
    x \<in> dom (links_of m') \<and> seg_at m' = seg_at m"
proof -
  have q: "queues_in a m q" using h by (rule heap_queues)
  have qw: "queue (links_of m) (head_of a w) (xs @ x # ys)" using queues_in_queue [OF q, of w] x by simp
  obtain l where l: "iqueue_del x (links_of m) = Some l" "queue l (head_of a w) (xs @ ys)"
      "unchanged (ring (head_of a w) (nodes_of q w)) (links_of m) l"
    using iq.del_law [OF qw] x by auto
  have "queue l (head_of a v) (nodes_of q v)" if "v \<noteq> w" for v
    using iq.que_keeps [OF queues_in_queue [OF q] l(3) queues_apart [OF q that]] .
  then have "\<forall>v. queue l (head_of a v) (nodes_of (put_nodes w (xs @ ys) q) v)" using l(2) by simp
  moreover note d = distinct_put_remove [OF _ x, of a]
  moreover have dq: "distinct (heads a @ all_nodes q)" "set (all_nodes q) \<subseteq> blocks m" using q by (simp_all add: queues_in_def)
  moreover have nodes: "insert x (set (all_nodes (put_nodes w (xs @ ys) q))) = set (all_nodes q)"
    by (rule set_put_nodes(2) [OF x])
  ultimately have q': "queues_in a (m\<lparr>links_of := l\<rparr>) (put_nodes w (xs @ ys) q)"
    unfolding queues_in_iff by simp blast
  have "set (all_nodes (put_nodes w (xs @ ys) q)) \<union> insert x B = set (all_nodes q) \<union> B" using nodes by blast
  moreover have "set (all_nodes (put_nodes w (xs @ ys) q)) \<inter> insert x B = {}"
    using nodes d [OF dq(1)] h unfolding heap_def by (simp add: disjoint_iff) blast
  ultimately have "heap a (m\<lparr>links_of := l\<rparr>) (put_nodes w (xs @ ys) q) (insert x B)"
    using heap_exchange [OF h q'] by simp
  moreover have "x \<in> dom l" using l(3) queue_dom [OF qw] by (auto simp: unchanged_def ring_def)
  ultimately show ?thesis using on_links_Some [of "iqueue_del x" m l] l(1) by auto
qed

text \<open>A block that is not in a queue is freed.\<close>

lemma free_step:
  assumes h: "heap a m q (insert x B)" and x: "x \<notin> B"
  shows "\<exists>m'. ikcp_segment_delete x m = Some m' \<and> heap a m' q B \<and> seg_at m' = seg_at m"
proof -
  have "x \<in> blocks m" "x \<notin> set (heads a @ all_nodes q)" using h by (auto simp: heap_def)
  then obtain m' where m': "ikcp_segment_delete x m = Some m'" "queues_in a m' q" "seg_at m' = seg_at m" "blocks m' = blocks m - {x}"
    using delete_step [OF heap_queues [OF h]] by blast
  have "heap a m' q B" using h x m'(2,4) by (auto simp: heap_def)
  with m' show ?thesis by blast
qed

text \<open>A node that is in no queue is put at the end of one.\<close>

lemma put_step:
  assumes h: "heap a m q (insert x B)" and x: "x \<notin> B" "x \<in> dom (links_of m)"
  shows "\<exists>m'. on_links (iqueue_add_tail x (head_of a w)) m = Some m' \<and>
    heap a m' (put_nodes w (nodes_of q w @ [x]) q) B \<and> seg_at m' = seg_at m"
proof -
  have q: "queues_in a m q" using h by (rule heap_queues)
  have fresh: "x \<notin> set (heads a @ all_nodes q)" "x \<in> blocks m" using h by (auto simp: heap_def)
  have out: "x \<notin> ring (head_of a v) (nodes_of q v)" for v using fresh(1) ring_nodes [of a v q] by blast
  obtain l where l: "iqueue_add_tail x (head_of a w) (links_of m) = Some l" "queue l (head_of a w) (nodes_of q w @ [x])"
      "unchanged (insert x (ring (head_of a w) (nodes_of q w))) (links_of m) l"
    using iq.add_tail_law [OF queues_in_queue [OF q] x(2) out] by blast
  have "queue l (head_of a v) (nodes_of q v)" if "v \<noteq> w" for v
    using iq.que_keeps [OF queues_in_queue [OF q] l(3)] queues_apart [OF q that] out by simp
  then have "\<forall>v. queue l (head_of a v) (nodes_of (put_nodes w (nodes_of q w @ [x]) q) v)" using l(2) by simp
  moreover have "distinct (heads a @ all_nodes q)" "set (all_nodes q) \<subseteq> blocks m" using q by (simp_all add: queues_in_def)
  ultimately have "queues_in a (m\<lparr>links_of := l\<rparr>) (put_nodes w (nodes_of q w @ [x]) q)"
    using distinct_put_tail [OF _ fresh(1)] fresh(2) unfolding queues_in_iff by (simp add: set_put_nodes(1))
  note q' = this
  have "set (all_nodes q) \<inter> B = {}" using h by (auto simp: heap_def)
  then have "heap a (m\<lparr>links_of := l\<rparr>) (put_nodes w (nodes_of q w @ [x]) q) B"
    using heap_exchange [OF h q', of B] x(1) by (simp add: set_put_nodes(1))
  then show ?thesis using on_links_Some [of "iqueue_add_tail x (head_of a w)" m l] l(1) by auto
qed

text \<open>The links that a walk along a queue follows.\<close>

lemma heap_first: "heap a m q B \<Longrightarrow> next_of (links_of m) (head_of a w) = Some (node_after (nodes_of q w) (head_of a w))"
  by (rule next_queue [OF heap_queue])

lemma heap_empty: "heap a m q B \<Longrightarrow> iqueue_is_empty (head_of a w) (links_of m) = Some (nodes_of q w = [])"
  by (rule is_empty_queue [OF heap_queue])

lemma heap_next:
  assumes "heap a m q B" and "nodes_of q w = xs @ x # ys"
  shows "next_of (links_of m) x = Some (node_after ys (head_of a w))" and "x \<noteq> head_of a w"
  using heap_queue [OF assms(1), of w] linked_ends(1) [of "next_of (links_of m)" _ x ys "head_of a w"]
  unfolding assms(2) queue_def linked_append by auto

lemma heap_last:
  assumes "heap a m q B" and "nodes_of q w = xs @ [x]"
  shows "prev_of (links_of m) (head_of a w) = Some x"
  using prev_queue [of "links_of m" "head_of a w" "xs @ [x]" "[]"] heap_queue [OF assms(1), of w] assms(2) by simp

section \<open>The operations\<close>

text \<open>A segment is taken out of its queue and freed, as the loops of \<open>ikcp_recv\<close>, \<open>ikcp_parse_ack\<close> and \<open>ikcp_parse_una\<close> do.\<close>

definition remove_segment :: "addr \<Rightarrow> kcp_memory \<Rightarrow> kcp_memory option" where
  "remove_segment p m = do {m \<leftarrow> on_links (iqueue_del p) m; ikcp_segment_delete p m}"

partial_function (option) mem_peek_len :: "addr \<Rightarrow> addr \<Rightarrow> u32 \<Rightarrow> kcp_memory \<Rightarrow> u32 option" where
  "mem_peek_len p0 p l m =
     (if p = p0 then Some l
      else let l = l + seg_len (seg_at m p)
           in if seg_frg (seg_at m p) = 0 then Some l
              else case next_of (links_of m) p of None \<Rightarrow> None | Some p \<Rightarrow> mem_peek_len p0 p l m)"

definition mem_peeksize :: "kcp_pointers \<Rightarrow> kcp_memory \<Rightarrow> ikcpcb \<Rightarrow> int option" where
  "mem_peeksize a m k = do {
     e \<leftarrow> iqueue_is_empty (rcv_queue_at a) (links_of m);
     if e then Some (-1)
     else do {
       p \<leftarrow> next_of (links_of m) (rcv_queue_at a);
       let seg = seg_at m p
       in if seg_frg seg = 0 then Some (sint (seg_len seg))
          else if nrcv_que k < seg_frg seg + 1 then Some (-1)
          else map_option sint (mem_peek_len (rcv_queue_at a) p 0 m)}}"

partial_function (option) mem_merge ::
  "addr \<Rightarrow> bool \<Rightarrow> bool \<Rightarrow> addr \<Rightarrow> u32 \<Rightarrow> u8 list \<Rightarrow> kcp_memory \<Rightarrow> ikcpcb \<Rightarrow> (u32 \<times> u8 list \<times> kcp_memory \<times> ikcpcb) option" where
  "mem_merge p0 has_buffer ispeek p l out m k =
     (if p = p0 then Some (l, out, m, k)
      else case next_of (links_of m) p of
          None \<Rightarrow> None
        | Some p' \<Rightarrow>
            let seg = seg_at m p;
                out = (if has_buffer then out @ seg_data seg else out);
                l = l + seg_len seg;
                fragment = seg_frg seg
            in case (if \<not> ispeek then map_option (\<lambda>m. (m, k\<lparr>nrcv_que := nrcv_que k - 1\<rparr>)) (remove_segment p m)
                     else Some (m, k)) of
                 None \<Rightarrow> None
               | Some (m, k) \<Rightarrow>
                   if fragment = 0 then Some (l, out, m, k) else mem_merge p0 has_buffer ispeek p' l out m k)"

definition mem_recv ::
  "kcp_pointers \<Rightarrow> bool \<Rightarrow> int \<Rightarrow> kcp_memory \<Rightarrow> ikcpcb \<Rightarrow> (int \<times> u8 list \<times> kcp_memory \<times> ikcpcb) option" where
  "mem_recv a has_buffer len m k = do {
     e \<leftarrow> iqueue_is_empty (rcv_queue_at a) (links_of m);
     if e then Some (-1, [], m, k)
     else
       let ispeek = (len < 0);
           len = (if len < 0 then - len else len)
       in do {
         peeksize \<leftarrow> mem_peeksize a m k;
         if peeksize < 0 then Some (-2, [], m, k)
         else if peeksize > len then Some (-3, [], m, k)
         else
           let recover = (nrcv_que k \<ge> rcv_wnd k)
           in do {
             p \<leftarrow> next_of (links_of m) (rcv_queue_at a);
             (l, out, m, k) \<leftarrow> mem_merge (rcv_queue_at a) has_buffer ispeek p 0 [] m k;
             if sint l \<noteq> peeksize then None
             else do {
               (m, k) \<leftarrow> mem_move_ready a m k;
               let k = (if nrcv_que k < rcv_wnd k \<and> recover then k\<lparr>probe := probe k OR IKCP_ASK_TELL\<rparr> else k)
               in Some (sint l, out, m, k)}}}}"

definition mem_shrink_buf :: "kcp_pointers \<Rightarrow> kcp_memory \<Rightarrow> ikcpcb \<Rightarrow> ikcpcb option" where
  "mem_shrink_buf a m k = do {
     p \<leftarrow> next_of (links_of m) (snd_buf_at a);
     if p \<noteq> snd_buf_at a then Some (k\<lparr>snd_una := seg_sn (seg_at m p)\<rparr>) else Some (k\<lparr>snd_una := snd_nxt k\<rparr>)}"

partial_function (option) mem_parse_ack_loop ::
  "addr \<Rightarrow> u32 \<Rightarrow> addr \<Rightarrow> kcp_memory \<Rightarrow> ikcpcb \<Rightarrow> (kcp_memory \<times> ikcpcb) option" where
  "mem_parse_ack_loop p0 sn p m k =
     (if p = p0 then Some (m, k)
      else case next_of (links_of m) p of
          None \<Rightarrow> None
        | Some p' \<Rightarrow>
            if sn = seg_sn (seg_at m p)
            then map_option (\<lambda>m. (m, k\<lparr>nsnd_buf := nsnd_buf k - 1\<rparr>)) (remove_segment p m)
            else if itimediff sn (seg_sn (seg_at m p)) < 0 then Some (m, k)
            else mem_parse_ack_loop p0 sn p' m k)"

definition mem_parse_ack :: "kcp_pointers \<Rightarrow> u32 \<Rightarrow> kcp_memory \<Rightarrow> ikcpcb \<Rightarrow> (kcp_memory \<times> ikcpcb) option" where
  "mem_parse_ack a sn m k =
     (if outside_flight sn k then Some (m, k)
      else do {p \<leftarrow> next_of (links_of m) (snd_buf_at a); mem_parse_ack_loop (snd_buf_at a) sn p m k})"

partial_function (option) mem_parse_una_loop ::
  "addr \<Rightarrow> u32 \<Rightarrow> addr \<Rightarrow> kcp_memory \<Rightarrow> ikcpcb \<Rightarrow> (kcp_memory \<times> ikcpcb) option" where
  "mem_parse_una_loop p0 una p m k =
     (if p = p0 then Some (m, k)
      else case next_of (links_of m) p of
          None \<Rightarrow> None
        | Some p' \<Rightarrow>
            if itimediff una (seg_sn (seg_at m p)) > 0
            then case remove_segment p m of
                None \<Rightarrow> None
              | Some m \<Rightarrow> mem_parse_una_loop p0 una p' m (k\<lparr>nsnd_buf := nsnd_buf k - 1\<rparr>)
            else Some (m, k))"

definition mem_parse_una :: "kcp_pointers \<Rightarrow> u32 \<Rightarrow> kcp_memory \<Rightarrow> ikcpcb \<Rightarrow> (kcp_memory \<times> ikcpcb) option" where
  "mem_parse_una a una m k =
     do {p \<leftarrow> next_of (links_of m) (snd_buf_at a); mem_parse_una_loop (snd_buf_at a) una p m k}"

text \<open>A segment is changed in place.\<close>

definition set_seg :: "addr \<Rightarrow> ikcpseg \<Rightarrow> kcp_memory \<Rightarrow> kcp_memory" where
  "set_seg p seg m = m\<lparr>seg_at := (seg_at m)(p := seg)\<rparr>"

partial_function (option) mem_fastack_loop :: "addr \<Rightarrow> u32 \<Rightarrow> addr \<Rightarrow> kcp_memory \<Rightarrow> kcp_memory option" where
  "mem_fastack_loop p0 sn p m =
     (if p = p0 then Some m
      else case next_of (links_of m) p of
          None \<Rightarrow> None
        | Some p' \<Rightarrow>
            let seg = seg_at m p
            in if itimediff sn (seg_sn seg) < 0 then Some m
               else if sn \<noteq> seg_sn seg
               then mem_fastack_loop p0 sn p' (set_seg p (seg\<lparr>seg_fastack := seg_fastack seg + 1\<rparr>) m)
               else mem_fastack_loop p0 sn p' m)"

definition mem_parse_fastack :: "kcp_pointers \<Rightarrow> u32 \<Rightarrow> u32 \<Rightarrow> kcp_memory \<Rightarrow> ikcpcb \<Rightarrow> kcp_memory option" where
  "mem_parse_fastack a sn ts m k =
     (if outside_flight sn k then Some m
      else do {p \<leftarrow> next_of (links_of m) (snd_buf_at a); mem_fastack_loop (snd_buf_at a) sn p m})"

section \<open>Removing a segment\<close>

lemma remove_step:
  assumes h: "heap a m q B" and x: "nodes_of q w = xs @ x # ys"
  shows "\<exists>m'. remove_segment x m = Some m' \<and> heap a m' (put_nodes w (xs @ ys) q) B \<and> seg_at m' = seg_at m"
proof -
  obtain m1 where m1: "on_links (iqueue_del x) m = Some m1" "heap a m1 (put_nodes w (xs @ ys) q) (insert x B)"
      "seg_at m1 = seg_at m" using take_step [OF h x] by blast
  have "x \<in> set (nodes_of q w)" by (simp add: x)
  then have "x \<notin> B" using h by (auto simp: heap_def set_all_nodes)
  with free_step [OF m1(2)] m1 show ?thesis by (auto simp: remove_segment_def)
qed

text \<open>The lists of segments.\<close>

lemma abs_scalars [simp]:
  "conv (abs_kcp m q k) = conv k" "mtu (abs_kcp m q k) = mtu k" "mss (abs_kcp m q k) = mss k"
  "snd_una (abs_kcp m q k) = snd_una k" "snd_nxt (abs_kcp m q k) = snd_nxt k" "rcv_nxt (abs_kcp m q k) = rcv_nxt k"
  "rx_rto (abs_kcp m q k) = rx_rto k" "snd_wnd (abs_kcp m q k) = snd_wnd k" "rcv_wnd (abs_kcp m q k) = rcv_wnd k"
  "rmt_wnd (abs_kcp m q k) = rmt_wnd k" "cwnd (abs_kcp m q k) = cwnd k" "probe (abs_kcp m q k) = probe k"
  "current (abs_kcp m q k) = current k" "xmit (abs_kcp m q k) = xmit k" "nrcv_que (abs_kcp m q k) = nrcv_que k"
  "nsnd_que (abs_kcp m q k) = nsnd_que k" "nrcv_buf (abs_kcp m q k) = nrcv_buf k" "nsnd_buf (abs_kcp m q k) = nsnd_buf k"
  "nodelay (abs_kcp m q k) = nodelay k" "updated (abs_kcp m q k) = updated k" "dead_link (abs_kcp m q k) = dead_link k"
  "acklist (abs_kcp m q k) = acklist k" "ackcount (abs_kcp m q k) = ackcount k" "ackblock (abs_kcp m q k) = ackblock k"
  "fastresend (abs_kcp m q k) = fastresend k" "fastlimit (abs_kcp m q k) = fastlimit k" "nocwnd (abs_kcp m q k) = nocwnd k"
  "stream (abs_kcp m q k) = stream k" "interval (abs_kcp m q k) = interval k" "ts_flush (abs_kcp m q k) = ts_flush k"
  "ssthresh (abs_kcp m q k) = ssthresh k" "incr (abs_kcp m q k) = incr k"
  by (simp_all add: abs_kcp_def)

lemma abs_lists [simp]:
  "snd_queue (abs_kcp m q k) = map (seg_at m) (nodes_of q Snd_queue)" "rcv_queue (abs_kcp m q k) = map (seg_at m) (nodes_of q Rcv_queue)"
  "snd_buf (abs_kcp m q k) = map (seg_at m) (nodes_of q Snd_buf)" "rcv_buf (abs_kcp m q k) = map (seg_at m) (nodes_of q Rcv_buf)"
  by (simp_all add: abs_kcp_def)

section \<open>Receiving a message\<close>

lemma mem_peek_len_eq:
  assumes h: "heap a m q B" and q: "nodes_of q w = us @ xs"
  shows "mem_peek_len (head_of a w) (node_after xs (head_of a w)) l m = Some (peek_len (map (seg_at m) xs) l)"
  using q
proof (induction xs arbitrary: us l)
  case Nil
  then show ?case by (subst mem_peek_len.simps) simp
next
  case (Cons x xs)
  note nx = heap_next [OF h Cons.prems]
  show ?case using nx Cons.IH [of "us @ [x]"] Cons.prems by (subst mem_peek_len.simps) (simp add: Let_def)
qed

lemma mem_peeksize_eq:
  assumes h: "heap a m q B"
  shows "mem_peeksize a m k = Some (ikcp_peeksize (abs_kcp m q k))"
proof (cases "nodes_of q Rcv_queue")
  case Nil
  then show ?thesis using heap_empty [OF h, of Rcv_queue] by (simp add: mem_peeksize_def ikcp_peeksize_def)
next
  case (Cons x xs)
  have "mem_peek_len (rcv_queue_at a) x 0 m = Some (peek_len (map (seg_at m) (x # xs)) 0)"
    using mem_peek_len_eq [OF h, of Rcv_queue "[]" "x # xs" 0] Cons by simp
  then show ?thesis
    using heap_empty [OF h, of Rcv_queue] heap_first [OF h, of Rcv_queue] Cons
    by (simp add: mem_peeksize_def ikcp_peeksize_def Let_def)
qed

lemma mem_merge_eq:
  assumes "heap a m q B" and "nodes_of q Rcv_queue = us @ xs" and "ispeek \<or> us = []"
  shows "\<exists>m' q' k'. mem_merge (rcv_queue_at a) has_buffer ispeek (node_after xs (rcv_queue_at a)) l out m k =
      Some (fst (recv_merge has_buffer ispeek (map (seg_at m) xs) l out (abs_kcp m q k)),
        fst (snd (recv_merge has_buffer ispeek (map (seg_at m) xs) l out (abs_kcp m q k))), m', k') \<and>
    heap a m' q' B \<and> abs_kcp m' q' k' = snd (snd (recv_merge has_buffer ispeek (map (seg_at m) xs) l out (abs_kcp m q k)))"
  using assms
proof (induction xs arbitrary: us m q k l out)
  case Nil
  then show ?case by (intro exI [of _ m] exI [of _ q] exI [of _ k]) (simp add: mem_merge.simps)
next
  case (Cons x xs)
  note nx = heap_next [OF Cons.prems(1,2)]
  let ?l = "l + seg_len (seg_at m x)" and ?out = "if has_buffer then out @ seg_data (seg_at m x) else out"
  show ?case
  proof (cases ispeek)
    case True
    have "nodes_of q Rcv_queue = (us @ [x]) @ xs" using Cons.prems(2) by simp
    from Cons.IH [OF Cons.prems(1) this, of ?l ?out k] True show ?thesis
      using nx Cons.prems(1) by (subst mem_merge.simps) (simp add: Let_def, blast)
  next
    case False
    then have us: "us = []" using Cons.prems(3) by simp
    obtain m1 where m1: "remove_segment x m = Some m1" "heap a m1 (put_nodes Rcv_queue xs q) B" "seg_at m1 = seg_at m"
      using remove_step [OF Cons.prems(1,2)] us by auto
    let ?k = "k\<lparr>nrcv_que := nrcv_que k - 1\<rparr>"
    have abs1: "abs_kcp m1 (put_nodes Rcv_queue xs q) ?k =
        (abs_kcp m q k)\<lparr>rcv_queue := tl (rcv_queue (abs_kcp m q k)), nrcv_que := nrcv_que k - 1\<rparr>"
      using Cons.prems(2) us m1(3) by (cases k) (simp add: abs_kcp_def)
    have ih: "\<exists>m' q' k'. mem_merge (rcv_queue_at a) has_buffer ispeek (node_after xs (rcv_queue_at a)) ?l ?out m1 ?k =
        Some (fst (recv_merge has_buffer ispeek (map (seg_at m) xs) ?l ?out (abs_kcp m1 (put_nodes Rcv_queue xs q) ?k)),
          fst (snd (recv_merge has_buffer ispeek (map (seg_at m) xs) ?l ?out (abs_kcp m1 (put_nodes Rcv_queue xs q) ?k))), m', k') \<and>
        heap a m' q' B \<and>
        abs_kcp m' q' k' = snd (snd (recv_merge has_buffer ispeek (map (seg_at m) xs) ?l ?out (abs_kcp m1 (put_nodes Rcv_queue xs q) ?k)))"
      using Cons.IH [OF m1(2), of "[]" ?l ?out ?k] m1(3) by simp
    have run: "mem_merge (rcv_queue_at a) has_buffer ispeek x l out m k =
        (if seg_frg (seg_at m x) = 0 then Some (?l, ?out, m1, ?k)
         else mem_merge (rcv_queue_at a) has_buffer ispeek (node_after xs (rcv_queue_at a)) ?l ?out m1 ?k)"
      using nx m1(1) False by (subst mem_merge.simps) (simp add: Let_def)
    have rec: "recv_merge has_buffer ispeek (map (seg_at m) (x # xs)) l out (abs_kcp m q k) =
        (if seg_frg (seg_at m x) = 0 then (?l, ?out, abs_kcp m1 (put_nodes Rcv_queue xs q) ?k)
         else recv_merge has_buffer ispeek (map (seg_at m) xs) ?l ?out (abs_kcp m1 (put_nodes Rcv_queue xs q) ?k))"
      unfolding abs1 using False by (simp add: Let_def)
    show ?thesis
    proof (cases "seg_frg (seg_at m x) = 0")
      case True
      with run rec m1(2) show ?thesis by auto
    next
      case False
      with run rec ih show ?thesis by simp
    qed
  qed
qed

text \<open>The loop over the ready segments, from \<open>Kcp_Memory\<close>.\<close>

lemma heap_received:
  assumes h: "heap a m q B" and q: "queues_in a m' q'" and same: "blocks m' = blocks m"
    and parts: "set (received_nodes q') = set (received_nodes q)" "same_sent q q'"
  shows "heap a m' q' B"
proof -
  have "set (all_nodes q') = set (all_nodes q)"
    using parts by (auto simp: all_nodes_def received_nodes_def same_sent_def)
  then show ?thesis using heap_exchange [OF h q same, of B] h by (simp add: heap_def) blast
qed

lemma mem_move_ready_eq:
  assumes h: "heap a m q B"
  shows "\<exists>m' q' k'. mem_move_ready a m k = Some (m', k') \<and> heap a m' q' B \<and>
    abs_kcp m' q' k' = ikcp_move_ready (abs_kcp m q k)"
proof -
  obtain m' k' q' where r: "mem_move_ready a m k = Some (m', k')" "queues_in a m' q'"
      "abs_kcp m' q' k' = ikcp_move_ready (abs_kcp m q k)" "blocks m' = blocks m"
      "received_nodes q' = received_nodes q" "same_sent q q'"
    using mem_move_ready_refines [OF heap_queues [OF h], of k] by blast
  have "heap a m' q' B" using heap_received [OF h r(2,4) _ r(6)] r(5) by simp
  with r show ?thesis by blast
qed

lemma abs_probe: "abs_kcp m q (k\<lparr>probe := x\<rparr>) = (abs_kcp m q k)\<lparr>probe := x\<rparr>"
  by (cases k) (simp add: abs_kcp_def)

lemma mem_recv_eq:
  assumes h: "heap a m q B"
  shows "case ikcp_recv has_buffer len (abs_kcp m q k) of
      None \<Rightarrow> mem_recv a has_buffer len m k = None
    | Some (ret, out, K) \<Rightarrow> \<exists>m' q' k'. mem_recv a has_buffer len m k = Some (ret, out, m', k') \<and>
        heap a m' q' B \<and> abs_kcp m' q' k' = K"
proof (cases "nodes_of q Rcv_queue = []")
  case True
  with h heap_empty [OF h, of Rcv_queue] show ?thesis by (auto simp: ikcp_recv_def mem_recv_def)
next
  case ne: False
  let ?K = "abs_kcp m q k" and ?peek = "len < 0" and ?len = "if len < 0 then - len else len"
  have empty: "iqueue_is_empty (rcv_queue_at a) (links_of m) = Some False"
    using heap_empty [OF h, of Rcv_queue] ne by simp
  have first: "next_of (links_of m) (rcv_queue_at a) = Some (node_after (nodes_of q Rcv_queue) (rcv_queue_at a))"
    using heap_first [OF h, of Rcv_queue] by simp
  note size = mem_peeksize_eq [OF h, of k]
  show ?thesis
  proof (cases "ikcp_peeksize ?K < 0 \<or> ikcp_peeksize ?K > ?len")
    case True
    with h ne empty size show ?thesis by (auto simp: ikcp_recv_def mem_recv_def Let_def)
  next
    case ok: False
    obtain l out K1 where r: "recv_merge has_buffer ?peek (map (seg_at m) (nodes_of q Rcv_queue)) 0 [] ?K = (l, out, K1)"
      by (rule prod_cases3)
    obtain m1 q1 k1 where m1: "mem_merge (rcv_queue_at a) has_buffer ?peek (node_after (nodes_of q Rcv_queue) (rcv_queue_at a)) 0 [] m k =
        Some (l, out, m1, k1)" "heap a m1 q1 B" "abs_kcp m1 q1 k1 = K1"
      using mem_merge_eq [OF h, of "[]" "nodes_of q Rcv_queue" ?peek has_buffer 0 "[]" k] r by auto
    obtain m2 q2 k2 where m2: "mem_move_ready a m1 k1 = Some (m2, k2)" "heap a m2 q2 B"
        "abs_kcp m2 q2 k2 = ikcp_move_ready K1"
      using mem_move_ready_eq [OF m1(2), of k1] m1(3) by auto
    define k3 where "k3 = (if nrcv_que k2 < rcv_wnd k2 \<and> nrcv_que k \<ge> rcv_wnd k then k2\<lparr>probe := probe k2 OR IKCP_ASK_TELL\<rparr> else k2)"
    have list: "ikcp_recv has_buffer len ?K =
        (if sint l \<noteq> ikcp_peeksize ?K then None else Some (sint l, out, abs_kcp m2 q2 k3))"
    proof -
      have "nrcv_que (ikcp_move_ready K1) = nrcv_que k2" "rcv_wnd (ikcp_move_ready K1) = rcv_wnd k2"
          "probe (ikcp_move_ready K1) = probe k2" by (simp_all flip: m2(3))
      then have "abs_kcp m2 q2 k3 =
          (if nrcv_que (ikcp_move_ready K1) < rcv_wnd (ikcp_move_ready K1) \<and> nrcv_que k \<ge> rcv_wnd k
           then (ikcp_move_ready K1)\<lparr>probe := probe (ikcp_move_ready K1) OR IKCP_ASK_TELL\<rparr> else ikcp_move_ready K1)"
        by (simp add: k3_def abs_probe m2(3))
      then show ?thesis using ne ok r by (cases "sint l = ikcp_peeksize ?K") (simp_all add: ikcp_recv_def Let_def)
    qed
    have "mem_recv a has_buffer len m k = (if sint l \<noteq> ikcp_peeksize ?K then None else Some (sint l, out, m2, k3))"
      using empty size first ok m1(1) m2(1) by (simp add: mem_recv_def Let_def k3_def)
    with list m2(2) show ?thesis by auto
  qed
qed

section \<open>Acknowledgements\<close>

lemma mem_shrink_buf_eq:
  assumes h: "heap a m q B"
  shows "\<exists>k'. mem_shrink_buf a m k = Some k' \<and> abs_kcp m q k' = ikcp_shrink_buf (abs_kcp m q k)"
proof (cases "nodes_of q Snd_buf")
  case Nil
  then show ?thesis using heap_first [OF h, of Snd_buf]
    by (simp add: mem_shrink_buf_def ikcp_shrink_buf_def) (cases k, simp add: abs_kcp_def)
next
  case (Cons x xs)
  then show ?thesis using heap_first [OF h, of Snd_buf] heap_next(2) [OF h, of Snd_buf "[]" x xs]
    by (simp add: mem_shrink_buf_def ikcp_shrink_buf_def) (cases k, simp add: abs_kcp_def)
qed

lemma abs_snd_buf:
  "abs_kcp m (put_nodes Snd_buf xs q) (k\<lparr>nsnd_buf := n\<rparr>) = (abs_kcp m q k)\<lparr>snd_buf := map (seg_at m) xs, nsnd_buf := n\<rparr>"
  by (cases k) (simp add: abs_kcp_def)

lemma mem_parse_una_loop_eq:
  assumes "heap a m q B" and "nodes_of q Snd_buf = xs"
  shows "\<exists>m' q' k'. mem_parse_una_loop (snd_buf_at a) una (node_after xs (snd_buf_at a)) m k = Some (m', k') \<and>
    heap a m' q' B \<and>
    abs_kcp m' q' k' = (let (buf, n) = parse_una_loop una (map (seg_at m) xs) (nsnd_buf k)
      in (abs_kcp m q k)\<lparr>snd_buf := buf, nsnd_buf := n\<rparr>)"
  using assms
proof (induction xs arbitrary: m q k)
  case Nil
  have "(abs_kcp m q k)\<lparr>snd_buf := [], nsnd_buf := nsnd_buf k\<rparr> = abs_kcp m q k"
    using Nil.prems(2) by (cases k) (simp add: abs_kcp_def)
  with Nil.prems(1) show ?case by (intro exI [of _ m] exI [of _ q] exI [of _ k]) (simp add: mem_parse_una_loop.simps)
next
  case (Cons x xs)
  have at_x: "nodes_of q Snd_buf = [] @ x # xs" using Cons.prems(2) by simp
  note nx = heap_next [OF Cons.prems(1) at_x]
  show ?case
  proof (cases "itimediff una (seg_sn (seg_at m x)) > 0")
    case True
    obtain m1 where m1: "remove_segment x m = Some m1" "heap a m1 (put_nodes Snd_buf xs q) B" "seg_at m1 = seg_at m"
      using remove_step [OF Cons.prems(1) at_x] by auto
    let ?k = "k\<lparr>nsnd_buf := nsnd_buf k - 1\<rparr>"
    have "mem_parse_una_loop (snd_buf_at a) una x m k = mem_parse_una_loop (snd_buf_at a) una (node_after xs (snd_buf_at a)) m1 ?k"
      using nx m1(1) True by (subst mem_parse_una_loop.simps) simp
    moreover have "(abs_kcp m1 (put_nodes Snd_buf xs q) ?k)\<lparr>snd_buf := buf, nsnd_buf := n\<rparr> = (abs_kcp m q k)\<lparr>snd_buf := buf, nsnd_buf := n\<rparr>" for buf n
      by (cases k) (simp add: abs_kcp_def m1(3))
    ultimately show ?thesis using Cons.IH [OF m1(2), of ?k] True m1(3) by simp
  next
    case False
    have "mem_parse_una_loop (snd_buf_at a) una x m k = Some (m, k)"
      using nx False by (subst mem_parse_una_loop.simps) simp
    moreover have "(abs_kcp m q k)\<lparr>snd_buf := map (seg_at m) (x # xs), nsnd_buf := nsnd_buf k\<rparr> = abs_kcp m q k"
      using Cons.prems(2) by (cases k) (simp add: abs_kcp_def)
    ultimately show ?thesis using False Cons.prems(1) by auto
  qed
qed

lemma mem_parse_una_eq:
  assumes h: "heap a m q B"
  shows "\<exists>m' q' k'. mem_parse_una a una m k = Some (m', k') \<and> heap a m' q' B \<and>
    abs_kcp m' q' k' = ikcp_parse_una una (abs_kcp m q k)"
  using mem_parse_una_loop_eq [OF h refl, of una k] heap_first [OF h, of Snd_buf]
  by (simp add: mem_parse_una_def ikcp_parse_una_def)

lemma mem_parse_ack_loop_eq:
  assumes h: "heap a m q B" and q: "nodes_of q Snd_buf = us @ xs"
  shows "\<exists>m' q' k'. mem_parse_ack_loop (snd_buf_at a) sn (node_after xs (snd_buf_at a)) m k = Some (m', k') \<and>
    heap a m' q' B \<and>
    abs_kcp m' q' k' = (let (buf, n) = parse_ack_loop sn (map (seg_at m) xs) (nsnd_buf k)
      in (abs_kcp m q k)\<lparr>snd_buf := map (seg_at m) us @ buf, nsnd_buf := n\<rparr>)"
  using q
proof (induction xs arbitrary: us)
  case Nil
  have "(abs_kcp m q k)\<lparr>snd_buf := map (seg_at m) us, nsnd_buf := nsnd_buf k\<rparr> = abs_kcp m q k"
    using Nil by (cases k) (simp add: abs_kcp_def)
  with h show ?case by (intro exI [of _ m] exI [of _ q] exI [of _ k]) (simp add: mem_parse_ack_loop.simps)
next
  case (Cons x xs)
  note nx = heap_next [OF h Cons.prems]
  have keep: "(abs_kcp m q k)\<lparr>snd_buf := map (seg_at m) us @ map (seg_at m) (x # xs), nsnd_buf := nsnd_buf k\<rparr> = abs_kcp m q k"
    using Cons.prems by (cases k) (simp add: abs_kcp_def)
  consider (hit) "sn = seg_sn (seg_at m x)" | (stop) "sn \<noteq> seg_sn (seg_at m x)" "itimediff sn (seg_sn (seg_at m x)) < 0"
    | (go) "sn \<noteq> seg_sn (seg_at m x)" "\<not> itimediff sn (seg_sn (seg_at m x)) < 0" by blast
  then show ?case
  proof cases
    case hit
    obtain m1 where m1: "remove_segment x m = Some m1" "heap a m1 (put_nodes Snd_buf (us @ xs) q) B" "seg_at m1 = seg_at m"
      using remove_step [OF h Cons.prems] by auto
    have "mem_parse_ack_loop (snd_buf_at a) sn x m k = Some (m1, k\<lparr>nsnd_buf := nsnd_buf k - 1\<rparr>)"
      using nx m1(1) hit by (subst mem_parse_ack_loop.simps) simp
    moreover have "abs_kcp m1 (put_nodes Snd_buf (us @ xs) q) (k\<lparr>nsnd_buf := nsnd_buf k - 1\<rparr>) =
        (abs_kcp m q k)\<lparr>snd_buf := map (seg_at m) us @ map (seg_at m) xs, nsnd_buf := nsnd_buf k - 1\<rparr>"
      by (cases k) (simp add: abs_kcp_def m1(3))
    ultimately show ?thesis using hit m1(2) by auto
  next
    case stop
    have "mem_parse_ack_loop (snd_buf_at a) sn x m k = Some (m, k)"
      using nx stop by (subst mem_parse_ack_loop.simps) simp
    then show ?thesis using stop h keep by auto
  next
    case go
    have "mem_parse_ack_loop (snd_buf_at a) sn x m k = mem_parse_ack_loop (snd_buf_at a) sn (node_after xs (snd_buf_at a)) m k"
      using nx go by (subst mem_parse_ack_loop.simps) simp
    with Cons.IH [of "us @ [x]"] Cons.prems go show ?thesis by (simp add: split_beta Let_def)
  qed
qed

lemma mem_parse_ack_eq:
  assumes h: "heap a m q B"
  shows "\<exists>m' q' k'. mem_parse_ack a sn m k = Some (m', k') \<and> heap a m' q' B \<and>
    abs_kcp m' q' k' = ikcp_parse_ack sn (abs_kcp m q k)"
proof -
  have "outside_flight sn (abs_kcp m q k) = outside_flight sn k" by (simp add: outside_flight_def)
  then show ?thesis
    using mem_parse_ack_loop_eq [OF h, of "[]" _ sn k] heap_first [OF h, of Snd_buf] h
    by (auto simp: mem_parse_ack_def ikcp_parse_ack_def)
qed

text \<open>A segment of a queue is changed in place.\<close>

lemma heap_set_seg: "heap a m q B \<Longrightarrow> heap a (set_seg p seg m) q B"
  by (simp add: set_seg_def heap_data)

lemma set_seg_links [simp]: "links_of (set_seg p seg m) = links_of m" "blocks (set_seg p seg m) = blocks m"
  by (simp_all add: set_seg_def)

lemma set_seg_other: "p \<notin> set xs \<Longrightarrow> map (seg_at (set_seg p seg m)) xs = map (seg_at m) xs"
  by (auto simp: set_seg_def)

lemma heap_distinct: "heap a m q B \<Longrightarrow> distinct (nodes_of q w)"
  by (cases w) (auto simp: heap_def queues_in_def all_nodes_def)

lemma heap_elsewhere: "heap a m q B \<Longrightarrow> p \<in> set (nodes_of q w) \<Longrightarrow> v \<noteq> w \<Longrightarrow> p \<notin> set (nodes_of q v)"
  by (cases w; cases v) (auto simp: heap_def queues_in_def all_nodes_def)

lemma abs_set_seg:
  assumes h: "heap a m q B" and q: "nodes_of q Snd_buf = us @ x # xs"
  shows "abs_kcp (set_seg x seg m) q k = (abs_kcp m q k)\<lparr>snd_buf := map (seg_at m) us @ seg # map (seg_at m) xs\<rparr>"
proof -
  have x: "x \<in> set (nodes_of q Snd_buf)" "x \<notin> set us" "x \<notin> set xs"
    using heap_distinct [OF h, of Snd_buf] q by auto
  have "map (seg_at (set_seg x seg m)) (nodes_of q v) = map (seg_at m) (nodes_of q v)" if "v \<noteq> Snd_buf" for v
    using heap_elsewhere [OF h x(1) that] by (rule set_seg_other)
  from this [of Snd_queue] this [of Rcv_queue] this [of Rcv_buf] q x(2,3) show ?thesis
    by (cases k) (auto simp: abs_kcp_def set_seg_def)
qed

lemma mem_fastack_loop_eq:
  assumes "heap a m q B" and "nodes_of q Snd_buf = us @ xs"
  shows "\<exists>m'. mem_fastack_loop (snd_buf_at a) sn (node_after xs (snd_buf_at a)) m = Some m' \<and> heap a m' q B \<and>
    abs_kcp m' q k = (abs_kcp m q k)\<lparr>snd_buf := map (seg_at m) us @ parse_fastack_loop sn (map (seg_at m) xs)\<rparr>"
  using assms
proof (induction xs arbitrary: m us)
  case Nil
  have "(abs_kcp m q k)\<lparr>snd_buf := map (seg_at m) us\<rparr> = abs_kcp m q k"
    using Nil.prems(2) by (cases k) (simp add: abs_kcp_def)
  with Nil.prems(1) show ?case by (intro exI [of _ m]) (simp add: mem_fastack_loop.simps)
next
  case (Cons x xs)
  note nx = heap_next [OF Cons.prems]
  have q': "nodes_of q Snd_buf = (us @ [x]) @ xs" using Cons.prems(2) by simp
  have out: "x \<notin> set us" "x \<notin> set xs" using heap_distinct [OF Cons.prems(1), of Snd_buf] Cons.prems(2) by auto
  consider (stop) "itimediff sn (seg_sn (seg_at m x)) < 0"
    | (mark) "\<not> itimediff sn (seg_sn (seg_at m x)) < 0" "sn \<noteq> seg_sn (seg_at m x)"
    | (skip) "\<not> itimediff sn (seg_sn (seg_at m x)) < 0" "sn = seg_sn (seg_at m x)" by blast
  then show ?case
  proof cases
    case stop
    have "(abs_kcp m q k)\<lparr>snd_buf := map (seg_at m) us @ map (seg_at m) (x # xs)\<rparr> = abs_kcp m q k"
      using Cons.prems(2) by (cases k) (simp add: abs_kcp_def)
    moreover have "mem_fastack_loop (snd_buf_at a) sn x m = Some m"
      using nx stop by (subst mem_fastack_loop.simps) (simp add: Let_def)
    ultimately show ?thesis using stop Cons.prems(1) by simp
  next
    case mark
    let ?s = "(seg_at m x)\<lparr>seg_fastack := seg_fastack (seg_at m x) + 1\<rparr>"
    let ?m = "set_seg x ?s m"
    have step: "mem_fastack_loop (snd_buf_at a) sn x m = mem_fastack_loop (snd_buf_at a) sn (node_after xs (snd_buf_at a)) ?m"
      using nx mark by (subst mem_fastack_loop.simps) (simp add: Let_def)
    obtain m' where m': "mem_fastack_loop (snd_buf_at a) sn (node_after xs (snd_buf_at a)) ?m = Some m'" "heap a m' q B"
        "abs_kcp m' q k = (abs_kcp ?m q k)\<lparr>snd_buf := map (seg_at ?m) (us @ [x]) @ parse_fastack_loop sn (map (seg_at ?m) xs)\<rparr>"
      using Cons.IH [OF heap_set_seg [OF Cons.prems(1), of x ?s] q'] by blast
    have maps: "map (seg_at ?m) (us @ [x]) = map (seg_at m) us @ [?s]" "map (seg_at ?m) xs = map (seg_at m) xs"
      using out by (auto simp: set_seg_def)
    have "abs_kcp m' q k = (abs_kcp m q k)\<lparr>snd_buf := map (seg_at m) us @ parse_fastack_loop sn (map (seg_at m) (x # xs))\<rparr>"
      unfolding m'(3) abs_set_seg [OF Cons.prems] maps using mark by simp
    with step m'(1,2) show ?thesis by simp
  next
    case skip
    then have "mem_fastack_loop (snd_buf_at a) sn x m = mem_fastack_loop (snd_buf_at a) sn (node_after xs (snd_buf_at a)) m"
      using nx by (subst mem_fastack_loop.simps) (simp add: Let_def)
    with Cons.IH [OF Cons.prems(1) q'] skip show ?thesis by simp
  qed
qed

lemma mem_parse_fastack_eq:
  assumes h: "heap a m q B"
  shows "\<exists>m'. mem_parse_fastack a sn ts m k = Some m' \<and> heap a m' q B \<and>
    abs_kcp m' q k = ikcp_parse_fastack sn ts (abs_kcp m q k)"
proof -
  have "outside_flight sn (abs_kcp m q k) = outside_flight sn k" by (simp add: outside_flight_def)
  then show ?thesis
    using mem_fastack_loop_eq [OF h, of "[]" _ sn k] heap_first [OF h, of Snd_buf] h
    by (auto simp: mem_parse_fastack_def ikcp_parse_fastack_def)
qed

end
