(* ===== verification/Kcp_Heap_Flush.thy ===== *)
theory Kcp_Heap_Flush
  imports Kcp_Heap
begin

text \<open>
  \<open>ikcp_flush\<close> and \<open>ikcp_update\<close> on memory: segments move between the linked queues, and the loop over
  \<open>snd_buf\<close> follows the links and changes the segments in place. What the flush writes and how it changes the scalar
  fields is that of \<open>Kcp_Flush\<close>, whose steps do not look at the queues.
\<close>

section \<open>The operations\<close>

partial_function (option) mem_flush_move ::
  "kcp_pointers \<Rightarrow> u32 \<Rightarrow> u32 \<Rightarrow> kcp_memory \<Rightarrow> ikcpcb \<Rightarrow> (kcp_memory \<times> ikcpcb) option" where
  "mem_flush_move a w wnd m k =
     (if itimediff (snd_nxt k) (snd_una k + w) < 0 then
        case iqueue_is_empty (snd_queue_at a) (links_of m) of
          None \<Rightarrow> None
        | Some e \<Rightarrow>
            if e then Some (m, k)
            else case next_of (links_of m) (snd_queue_at a) of
                None \<Rightarrow> None
              | Some newseg \<Rightarrow>
                  (case on_links (iqueue_del newseg) m of
                     None \<Rightarrow> None
                   | Some m \<Rightarrow>
                       (case on_links (iqueue_add_tail newseg (snd_buf_at a)) m of
                          None \<Rightarrow> None
                        | Some m \<Rightarrow>
                            mem_flush_move a w wnd
                              (set_seg newseg ((seg_at m newseg)\<lparr>seg_conv := conv k, seg_cmd := IKCP_CMD_PUSH, seg_wnd := wnd,
                                 seg_ts := current k, seg_sn := snd_nxt k, seg_una := rcv_nxt k,
                                 seg_resendts := current k, seg_rto := rx_rto k, seg_fastack := 0, seg_xmit := 0\<rparr>) m)
                              (k\<lparr>nsnd_que := nsnd_que k - 1, nsnd_buf := nsnd_buf k + 1, snd_nxt := snd_nxt k + 1\<rparr>)))
      else Some (m, k))"

text \<open>One turn of the loop over \<open>snd_buf\<close>: the segment, and whether \<open>change\<close> and \<open>lost\<close> are raised.\<close>

definition flush_turn ::
  "u32 \<Rightarrow> u32 \<Rightarrow> u32 \<Rightarrow> ikcpseg \<Rightarrow> ikcpcb \<Rightarrow> outbuf \<Rightarrow> ikcpseg \<times> ikcpcb \<times> outbuf \<times> bool \<times> bool" where
  "flush_turn resent rtomin wnd segment k b =
     (let (needsend, segment, xm, ch, lo) = flush_mark resent rtomin k segment;
          k = k\<lparr>xmit := xm\<rparr>
      in if needsend then
           let segment = segment\<lparr>seg_ts := current k, seg_wnd := wnd, seg_una := rcv_nxt k\<rparr>;
               need = sint (IKCP_OVERHEAD + seg_len segment);
               b = flush_room (mtu k) need b;
               b = (fst b @ ikcp_encode_seg segment, snd b);
               b = (if seg_len segment > 0
                    then (fst b @ take (unat (seg_len segment)) (seg_data segment), snd b) else b);
               k = (if seg_xmit segment \<ge> dead_link k then k\<lparr>state := -1\<rparr> else k)
           in (segment, k, b, ch, lo)
         else (segment, k, b, ch, lo))"

partial_function (option) mem_flush_segments ::
  "addr \<Rightarrow> u32 \<Rightarrow> u32 \<Rightarrow> u32 \<Rightarrow> addr \<Rightarrow> kcp_memory \<Rightarrow> ikcpcb \<Rightarrow> outbuf \<Rightarrow> nat \<Rightarrow> bool \<Rightarrow>
   (kcp_memory \<times> ikcpcb \<times> outbuf \<times> nat \<times> bool) option" where
  "mem_flush_segments p0 resent rtomin wnd p m k b change lost =
     (if p = p0 then Some (m, k, b, change, lost)
      else
        let (segment, k, b, ch, lo) = flush_turn resent rtomin wnd (seg_at m p) k b;
            m = set_seg p segment m
        in case next_of (links_of m) p of
             None \<Rightarrow> None
           | Some p \<Rightarrow>
               mem_flush_segments p0 resent rtomin wnd p m k b (if ch then change + 1 else change) (lost \<or> lo))"

definition mem_flush_send ::
  "kcp_pointers \<Rightarrow> u32 \<Rightarrow> u32 \<Rightarrow> kcp_memory \<Rightarrow> ikcpcb \<Rightarrow> outbuf \<Rightarrow> (kcp_memory \<times> ikcpcb \<times> u8 list list) option" where
  "mem_flush_send a w wnd m k b =
     (let resent = (if fastresend k > 0 then word_of_int (fastresend k) else 0xffffffff);
          rtomin = (if nodelay k = 0 then signed_drop_bit 3 (rx_rto k) else 0)
      in do {
        p \<leftarrow> next_of (links_of m) (snd_buf_at a);
        (m, k, b, change, lost) \<leftarrow> mem_flush_segments (snd_buf_at a) resent rtomin wnd p m k b 0 False;
        let out = (if length (fst b) > 0 then ikcp_output b else snd b)
        in Some (m, flush_congestion w resent change lost k, out)})"

text \<open>
  The flush writes to the buffer, and reads the list of acknowledgements when there are some. It puts the bytes
  one behind the other from the start of the buffer and hands them to the callback before it starts again, so it
  has written behind the end of the buffer if and only if one of the datagrams is longer than the buffer.
\<close>

definition overrun :: "u32 \<Rightarrow> u8 list list \<Rightarrow> bool" where
  "overrun sz out \<longleftrightarrow> (\<exists>d\<in>set out. unat sz < length d)"

definition mem_flush :: "kcp_pointers \<Rightarrow> kcp_memory \<Rightarrow> ikcpcb \<Rightarrow> (kcp_memory \<times> ikcpcb \<times> u8 list list) option" where
  "mem_flush a m k =
     (if updated k = 0 then Some (m, k, [])
      else if buffer_at a \<notin> blocks m \<or> ackcount k \<noteq> 0 \<and> acklist_at a \<notin> blocks m then None
      else
        let sz = buffer k;
            (k, seg, b) = flush_owed k;
            w = flush_cwnd k
        in do {
          (m, k) \<leftarrow> mem_flush_move a w (seg_wnd seg) m k;
          (m, k, out) \<leftarrow> mem_flush_send a w (seg_wnd seg) m k b;
          if overrun sz out then None else Some (m, k, out)})"

definition mem_update :: "kcp_pointers \<Rightarrow> u32 \<Rightarrow> kcp_memory \<Rightarrow> ikcpcb \<Rightarrow> (kcp_memory \<times> ikcpcb \<times> u8 list list) option" where
  "mem_update a cur m k =
     (let k = k\<lparr>current := cur\<rparr>;
          k = (if updated k = 0 then k\<lparr>updated := 1, ts_flush := current k\<rparr> else k);
          slap = itimediff (current k) (ts_flush k);
          (k, slap) = (if slap \<ge> 10000 \<or> slap < -10000 then (k\<lparr>ts_flush := current k\<rparr>, 0) else (k, slap))
      in if slap \<ge> 0 then
           let k = k\<lparr>ts_flush := ts_flush k + interval k\<rparr>;
               k = (if itimediff (current k) (ts_flush k) \<ge> 0 then k\<lparr>ts_flush := current k + interval k\<rparr> else k)
           in mem_flush a m k
         else Some (m, k, []))"

text \<open>The move to \<open>snd_buf\<close>.\<close>

lemma move_between:
  assumes h: "heap a m q B" and w: "nodes_of q w = x # xs" and v: "v \<noteq> w"
  shows "\<exists>m1 m2. on_links (iqueue_del x) m = Some m1 \<and> on_links (iqueue_add_tail x (head_of a v)) m1 = Some m2 \<and>
    heap a m2 (put_nodes v (nodes_of q v @ [x]) (put_nodes w xs q)) B \<and> seg_at m2 = seg_at m"
proof -
  obtain m1 where m1: "on_links (iqueue_del x) m = Some m1" "heap a m1 (put_nodes w xs q) (insert x B)"
      "x \<in> dom (links_of m1)" "seg_at m1 = seg_at m" using take_step [OF h, of w "[]" x xs] w by auto
  have "x \<in> set (nodes_of q w)" by (simp add: w)
  then have "x \<notin> B" using h by (auto simp: heap_def set_all_nodes)
  from put_step [OF m1(2) this m1(3), of v] v m1(1,4) show ?thesis by auto
qed

lemma mem_flush_move_eq:
  assumes "heap a m q B"
  shows "\<exists>m' q' k'. mem_flush_move a w wnd m k = Some (m', k') \<and> heap a m' q' B \<and>
    abs_kcp m' q' k' = flush_move w wnd (abs_kcp m q k)"
  using assms
proof (induction "nodes_of q Snd_queue" arbitrary: m q k)
  case Nil
  note e = heap_empty [OF Nil.prems, of Snd_queue]
  have "mem_flush_move a w wnd m k = Some (m, k)"
    using e Nil.hyps by (subst mem_flush_move.simps) simp
  moreover have "flush_move w wnd (abs_kcp m q k) = abs_kcp m q k"
    using Nil.hyps [symmetric] by (simp add: flush_move.simps [of w wnd "abs_kcp m q k"])
  ultimately show ?case using Nil.prems by auto
next
  case (Cons x xs)
  note sq = Cons.hyps(2) [symmetric]
  note e = heap_empty [OF Cons.prems, of Snd_queue] and f = heap_first [OF Cons.prems, of Snd_queue]
  show ?case
  proof (cases "itimediff (snd_nxt k) (snd_una k + w) < 0")
    case False
    then have "mem_flush_move a w wnd m k = Some (m, k)" "flush_move w wnd (abs_kcp m q k) = abs_kcp m q k"
      by (simp_all add: mem_flush_move.simps [of a w wnd m k] flush_move.simps [of w wnd "abs_kcp m q k"])
    then show ?thesis using Cons.prems by auto
  next
    case True
    let ?q = "put_nodes Snd_buf (nodes_of q Snd_buf @ [x]) (put_nodes Snd_queue xs q)"
    let ?s = "stamp k wnd (snd_nxt k) (seg_at m x)"
    let ?k = "k\<lparr>nsnd_que := nsnd_que k - 1, nsnd_buf := nsnd_buf k + 1, snd_nxt := snd_nxt k + 1\<rparr>"
    obtain m1 m2 where m: "on_links (iqueue_del x) m = Some m1" "on_links (iqueue_add_tail x (snd_buf_at a)) m1 = Some m2"
        "heap a m2 ?q B" "seg_at m2 = seg_at m"
      using move_between [OF Cons.prems sq, of Snd_buf] by auto
    have run: "mem_flush_move a w wnd m k = mem_flush_move a w wnd (set_seg x ?s m2) ?k"
      using e f sq m(1,2,4) True by (subst mem_flush_move.simps) (simp add: stamp_def)
    have nodes: "nodes_of ?q Snd_buf = nodes_of q Snd_buf @ x # []" by simp
    have abs1: "abs_kcp (set_seg x ?s m2) ?q ?k = (abs_kcp m q k)\<lparr>snd_queue := map (seg_at m) xs,
        snd_buf := map (seg_at m) (nodes_of q Snd_buf) @ [?s], nsnd_que := nsnd_que k - 1, nsnd_buf := nsnd_buf k + 1,
        snd_nxt := snd_nxt k + 1\<rparr>"
      unfolding abs_set_seg [OF m(3) nodes] using m(4) by (cases k) (simp add: abs_kcp_def)
    have rec: "flush_move w wnd (abs_kcp m q k) = flush_move w wnd (abs_kcp (set_seg x ?s m2) ?q ?k)"
      unfolding abs1 using True sq by (subst flush_move.simps) (simp add: stamp_def)
    have "nodes_of ?q Snd_queue = xs" by simp
    from Cons.hyps(1) [OF this [symmetric] heap_set_seg [OF m(3)], of x ?s ?k] show ?thesis unfolding run rec .
  qed
qed

text \<open>The loop over \<open>snd_buf\<close>.\<close>

lemma flush_segments_turn:
  "flush_segments resent rtomin wnd (s # p) k b change lost =
    (let (s, k, b, ch, lo) = flush_turn resent rtomin wnd s k b;
         (p, k, b, change, lost) = flush_segments resent rtomin wnd p k b (if ch then change + 1 else change) (lost \<or> lo)
     in (s # p, k, b, change, lost))"
  by (simp add: flush_turn_def Let_def split_beta)

lemma abs_flush_turn:
  assumes "flush_turn resent rtomin wnd s k b = (s', k', b', ch, lo)"
  shows "flush_turn resent rtomin wnd s (abs_kcp m q k) b = (s', abs_kcp m q k', b', ch, lo)"
proof -
  have mark: "flush_mark resent rtomin (abs_kcp m q k) s = flush_mark resent rtomin k s"
    by (auto simp: flush_mark_def)
  have x: "(abs_kcp m q k)\<lparr>xmit := x\<rparr> = abs_kcp m q (k\<lparr>xmit := x\<rparr>)" for x by (cases k) (simp add: abs_kcp_def)
  have st: "(abs_kcp m q k)\<lparr>state := x\<rparr> = abs_kcp m q (k\<lparr>state := x\<rparr>)" for x k by (cases k) (simp add: abs_kcp_def)
  obtain n t xm c l where fm: "flush_mark resent rtomin k s = (n, t, xm, c, l)" by (metis prod_cases5)
  show ?thesis using assms unfolding flush_turn_def mark fm by (cases n) (auto simp: Let_def x st split: if_splits)
qed

lemma abs_flush_segments:
  assumes "flush_segments resent rtomin wnd ss k b change lost = (buf, k', b', change', lost')"
  shows "flush_segments resent rtomin wnd ss (abs_kcp m q k) b change lost = (buf, abs_kcp m q k', b', change', lost')"
  using assms
proof (induction ss arbitrary: k b change lost buf)
  case (Cons s ss)
  obtain s1 k1 b1 ch lo where t: "flush_turn resent rtomin wnd s k b = (s1, k1, b1, ch, lo)" by (metis prod_cases5)
  obtain buf1 where r: "flush_segments resent rtomin wnd ss k1 b1 (if ch then change + 1 else change) (lost \<or> lo) =
      (buf1, k', b', change', lost')" "buf = s1 # buf1"
    using Cons.prems unfolding flush_segments_turn t by (auto simp: Let_def split: prod.splits)
  show ?case unfolding flush_segments_turn abs_flush_turn [OF t] by (simp add: Cons.IH [OF r(1)] r(2))
qed simp

lemma mem_flush_segments_eq:
  assumes "heap a m q B" and "nodes_of q Snd_buf = us @ xs"
    and "flush_segments resent rtomin wnd (map (seg_at m) xs) k b change lost = (buf, k', b', change', lost')"
  shows "\<exists>m'. mem_flush_segments (snd_buf_at a) resent rtomin wnd (node_after xs (snd_buf_at a)) m k b change lost =
      Some (m', k', b', change', lost') \<and> heap a m' q B \<and>
    abs_kcp m' q k' = (abs_kcp m q k')\<lparr>snd_buf := map (seg_at m) us @ buf\<rparr>"
  using assms
proof (induction xs arbitrary: m us k b change lost buf)
  case Nil
  have "(abs_kcp m q k)\<lparr>snd_buf := map (seg_at m) us\<rparr> = abs_kcp m q k" for k
    using Nil.prems(2) by (cases k) (simp add: abs_kcp_def)
  with Nil.prems(1,3) show ?case by (simp add: mem_flush_segments.simps)
next
  case (Cons x xs)
  note nx = heap_next [OF Cons.prems(1,2)]
  have q': "nodes_of q Snd_buf = (us @ [x]) @ xs" using Cons.prems(2) by simp
  have out: "x \<notin> set us" "x \<notin> set xs" using heap_distinct [OF Cons.prems(1), of Snd_buf] Cons.prems(2) by auto
  obtain s k1 b1 ch lo where t: "flush_turn resent rtomin wnd (seg_at m x) k b = (s, k1, b1, ch, lo)" by (metis prod_cases5)
  let ?m = "set_seg x s m" and ?change = "if ch then change + 1 else change" and ?lost = "lost \<or> lo"
  have maps: "map (seg_at ?m) (us @ [x]) = map (seg_at m) us @ [s]" "map (seg_at ?m) xs = map (seg_at m) xs"
    using out by (auto simp: set_seg_def)
  obtain buf1 where r: "flush_segments resent rtomin wnd (map (seg_at m) xs) k1 b1 ?change ?lost = (buf1, k', b', change', lost')"
      "buf = s # buf1"
    using Cons.prems(3) unfolding list.map flush_segments_turn t by (auto simp: Let_def split: prod.splits)
  have r': "flush_segments resent rtomin wnd (map (seg_at ?m) xs) k1 b1 ?change ?lost = (buf1, k', b', change', lost')"
    unfolding maps(2) by (rule r(1))
  obtain m' where ih: "mem_flush_segments (snd_buf_at a) resent rtomin wnd (node_after xs (snd_buf_at a)) ?m k1 b1 ?change ?lost =
      Some (m', k', b', change', lost')" "heap a m' q B" "abs_kcp m' q k' = (abs_kcp ?m q k')\<lparr>snd_buf := map (seg_at ?m) (us @ [x]) @ buf1\<rparr>"
    using Cons.IH [OF heap_set_seg [OF Cons.prems(1), of x s] q' r'] by blast
  have "mem_flush_segments (snd_buf_at a) resent rtomin wnd x m k b change lost = Some (m', k', b', change', lost')"
    using nx t ih(1) by (subst mem_flush_segments.simps) (simp add: Let_def)
  moreover have "abs_kcp m' q k' = (abs_kcp m q k')\<lparr>snd_buf := map (seg_at m) us @ buf\<rparr>"
    unfolding ih(3) maps(1) abs_set_seg [OF Cons.prems(1,2)] r(2) by simp
  ultimately show ?case using ih(2) by simp
qed

text \<open>What the flush does besides does not look at the four queues.\<close>

lemma abs_owed:
  assumes "flush_owed k = (k', sb)"
  shows "flush_owed (abs_kcp m q k) = (abs_kcp m q k', sb)"
proof -
  have acks: "flush_acks (abs_kcp m q k) is seg b = flush_acks k is seg b" for "is" seg b
    by (induction "is" arbitrary: seg b) (simp_all add: ikcp_ack_get_def)
  have template: "flush_template (abs_kcp m q k) = flush_template k" by (simp add: flush_template_def ikcp_wnd_unused_def)
  have count: "(abs_kcp m q k)\<lparr>ackcount := n\<rparr> = abs_kcp m q (k\<lparr>ackcount := n\<rparr>)" for n by (cases k) (simp add: abs_kcp_def)
  have timer: "flush_probe_timer (abs_kcp m q k) = abs_kcp m q (flush_probe_timer k)" for k
  proof -
    have set: "abs_kcp m q (k\<lparr>probe_wait := x\<rparr>) = (abs_kcp m q k)\<lparr>probe_wait := x\<rparr>"
      "abs_kcp m q (k\<lparr>ts_probe := y\<rparr>) = (abs_kcp m q k)\<lparr>ts_probe := y\<rparr>"
      "probe_wait (abs_kcp m q k) = probe_wait k" "ts_probe (abs_kcp m q k) = ts_probe k" for k x y
      by (cases k; simp add: abs_kcp_def)+
    show ?thesis
      by (cases "probe_wait k < IKCP_PROBE_INIT") (simp_all add: flush_probe_timer_def set abs_probe Let_def)
  qed
  have flag: "flush_probe flag cmd (abs_kcp m q k) sb = flush_probe flag cmd k sb" for flag cmd k sb
    by (simp add: flush_probe_def)
  have last: "(abs_kcp m q k)\<lparr>probe := x\<rparr> = abs_kcp m q (k\<lparr>probe := x\<rparr>)" for x k by (simp add: abs_probe)
  show ?thesis
    using assms by (auto simp: flush_owed_def Let_def acks template count timer flag last)
qed

lemma abs_congestion: "flush_congestion w resent change lost (abs_kcp m q k) = abs_kcp m q (flush_congestion w resent change lost k)"
proof -
  have set: "abs_kcp m q (k\<lparr>ssthresh := x\<rparr>) = (abs_kcp m q k)\<lparr>ssthresh := x\<rparr>"
    "abs_kcp m q (k\<lparr>cwnd := x\<rparr>) = (abs_kcp m q k)\<lparr>cwnd := x\<rparr>" "abs_kcp m q (k\<lparr>incr := x\<rparr>) = (abs_kcp m q k)\<lparr>incr := x\<rparr>" for k x
    by (cases k; simp add: abs_kcp_def)+
  have change: "congestion_change resent (abs_kcp m q k) = abs_kcp m q (congestion_change resent k)" for k
    by (simp add: congestion_change_def Let_def set)
  have lose: "congestion_lost w (abs_kcp m q k) = abs_kcp m q (congestion_lost w k)" for k
    by (simp add: congestion_lost_def Let_def set)
  show ?thesis by (simp add: flush_congestion_def Let_def change lose set)
qed

lemma mem_flush_send_eq:
  assumes h: "heap a m q B"
  shows "case flush_send w wnd (abs_kcp m q k) b of (K, out) \<Rightarrow>
    \<exists>m' k'. mem_flush_send a w wnd m k b = Some (m', k', out) \<and> heap a m' q B \<and> abs_kcp m' q k' = K"
proof -
  let ?resent = "if fastresend k > 0 then word_of_int (fastresend k) else 0xffffffff :: u32"
  let ?rtomin = "if nodelay k = 0 then signed_drop_bit 3 (rx_rto k) else 0"
  obtain buf k' b' change' lost' where
      r: "flush_segments ?resent ?rtomin wnd (map (seg_at m) (nodes_of q Snd_buf)) k b 0 False = (buf, k', b', change', lost')"
    by (metis prod_cases5)
  obtain m' where m': "mem_flush_segments (snd_buf_at a) ?resent ?rtomin wnd (node_after (nodes_of q Snd_buf) (snd_buf_at a)) m k b 0 False =
      Some (m', k', b', change', lost')" "heap a m' q B" "abs_kcp m' q k' = (abs_kcp m q k')\<lparr>snd_buf := buf\<rparr>"
    using mem_flush_segments_eq [OF h, of "[]", OF _ r] by auto
  have first: "next_of (links_of m) (snd_buf_at a) = Some (node_after (nodes_of q Snd_buf) (snd_buf_at a))"
    using heap_first [OF h, of Snd_buf] by simp
  have mem: "mem_flush_send a w wnd m k b = Some (m', flush_congestion w ?resent change' lost' k',
      if length (fst b') > 0 then ikcp_output b' else snd b')"
    unfolding mem_flush_send_def Let_def first using m'(1) by simp
  have "flush_send w wnd (abs_kcp m q k) b = (abs_kcp m' q (flush_congestion w ?resent change' lost' k'),
      if length (fst b') > 0 then ikcp_output b' else snd b')"
    unfolding flush_send_def abs_scalars abs_lists Let_def abs_flush_segments [OF r]
    by (simp add: m'(3) [symmetric] abs_congestion)
  with mem m'(2) show ?thesis by simp
qed

text \<open>When the list of acknowledgements is missing it is empty, and the buffer has room for the mtu.\<close>

definition blocks_fit :: "kcp_pointers \<Rightarrow> ikcpcb \<Rightarrow> bool" where
  "blocks_fit a k \<longleftrightarrow> (acklist_at a = 0 \<longrightarrow> ackblock k = 0 \<and> ackcount k = 0) \<and> unat (mtu k) \<le> unat (buffer k)"

lemma heap_own: "heap a m q B \<Longrightarrow> buffer_at a \<in> blocks m" "heap a m q B \<Longrightarrow> acklist_at a \<noteq> 0 \<Longrightarrow> acklist_at a \<in> blocks m"
  by (auto simp: heap_def own_blocks_def)

lemma mem_flush_eq:
  assumes h: "heap a m q B" and ack: "blocks_fit a k" and fits: "\<not> overrun (buffer k) (snd (ikcp_flush (abs_kcp m q k)))"
  shows "case ikcp_flush (abs_kcp m q k) of (K, out) \<Rightarrow>
    \<exists>m' q' k'. mem_flush a m k = Some (m', k', out) \<and> heap a m' q' B \<and> abs_kcp m' q' k' = K"
proof (cases "updated k = 0")
  case True
  then show ?thesis using h by (auto simp: ikcp_flush_def mem_flush_def)
next
  case False
  obtain k1 seg b where o: "flush_owed k = (k1, seg, b)" by (rule prod_cases3)
  let ?w = "flush_cwnd k1"
  have w: "flush_cwnd (abs_kcp m q k1) = ?w" by (simp add: flush_cwnd_def Let_def)
  obtain m2 q2 k2 where m2: "mem_flush_move a ?w (seg_wnd seg) m k1 = Some (m2, k2)" "heap a m2 q2 B"
      "abs_kcp m2 q2 k2 = flush_move ?w (seg_wnd seg) (abs_kcp m q k1)"
    using mem_flush_move_eq [OF h] by blast
  have live: "\<not> (buffer_at a \<notin> blocks m \<or> ackcount k \<noteq> 0 \<and> acklist_at a \<notin> blocks m)"
    using heap_own [OF h] ack by (auto simp: blocks_fit_def)
  have send: "ikcp_flush (abs_kcp m q k) = flush_send ?w (seg_wnd seg) (abs_kcp m2 q2 k2) b"
    using False by (simp add: ikcp_flush_def abs_owed [OF o] w m2(3) Let_def)
  obtain K out where K: "flush_send ?w (seg_wnd seg) (abs_kcp m2 q2 k2) b = (K, out)" by (rule prod.exhaust)
  obtain m' k' where m': "mem_flush_send a ?w (seg_wnd seg) m2 k2 b = Some (m', k', out)" "heap a m' q2 B" "abs_kcp m' q2 k' = K"
    using mem_flush_send_eq [OF m2(2), of ?w "seg_wnd seg" k2 b] by (auto simp: K)
  have "\<not> overrun (buffer k) out" using fits send K by simp
  then have "mem_flush a m k = Some (m', k', out)"
    unfolding mem_flush_def if_not_P [OF live] using False o m2(1) m'(1) by (simp add: Let_def)
  with m'(2,3) show ?thesis by (auto simp: send K)
qed

lemma abs_clock:
  "abs_kcp m q (k\<lparr>current := t\<rparr>) = (abs_kcp m q k)\<lparr>current := t\<rparr>" "abs_kcp m q (k\<lparr>updated := t\<rparr>) = (abs_kcp m q k)\<lparr>updated := t\<rparr>"
  "abs_kcp m q (k\<lparr>ts_flush := t\<rparr>) = (abs_kcp m q k)\<lparr>ts_flush := t\<rparr>"
  by (cases k; simp add: abs_kcp_def)+

lemma mem_update_eq:
  assumes h: "heap a m q B" and ack: "blocks_fit a k" and fits: "\<not> overrun (buffer k) (snd (ikcp_update cur (abs_kcp m q k)))"
  shows "case ikcp_update cur (abs_kcp m q k) of (K, out) \<Rightarrow>
    \<exists>m' q' k'. mem_update a cur m k = Some (m', k', out) \<and> heap a m' q' B \<and> abs_kcp m' q' k' = K"
proof -
  define k1 where "k1 = (if updated k = 0 then k\<lparr>current := cur, updated := 1, ts_flush := cur\<rparr> else k\<lparr>current := cur\<rparr>)"
  define far where "far \<longleftrightarrow> itimediff cur (ts_flush k1) \<ge> 10000 \<or> itimediff cur (ts_flush k1) < -10000"
  define k2 where "k2 = (if far then k1\<lparr>ts_flush := cur\<rparr> else k1)"
  define k3 where "k3 = (if itimediff cur (ts_flush k2 + interval k2) \<ge> 0 then k2\<lparr>ts_flush := cur + interval k2\<rparr>
      else k2\<lparr>ts_flush := ts_flush k2 + interval k2\<rparr>)"
  have cur: "current k1 = cur" by (simp add: k1_def)
  have mem: "mem_update a cur m k = (if far \<or> itimediff cur (ts_flush k1) \<ge> 0 then mem_flush a m k3 else Some (m, k2, []))"
    unfolding mem_update_def Let_def k3_def k2_def far_def k1_def by simp
  have list: "ikcp_update cur (abs_kcp m q k) =
      (if far \<or> itimediff cur (ts_flush k1) \<ge> 0 then ikcp_flush (abs_kcp m q k3) else (abs_kcp m q k2, []))"
    unfolding ikcp_update_def Let_def k3_def k2_def far_def k1_def by (simp add: abs_clock)
  have b: "blocks_fit a k3" "buffer k3 = buffer k" using ack by (simp_all add: blocks_fit_def k3_def k2_def k1_def)
  show ?thesis
  proof (cases "far \<or> itimediff cur (ts_flush k1) \<ge> 0")
    case True
    with fits b(2) have "\<not> overrun (buffer k3) (snd (ikcp_flush (abs_kcp m q k3)))" by (simp add: list)
    from mem_flush_eq [OF h b(1) this] show ?thesis by (simp only: mem list if_P [OF True])
  next
    case False
    with h show ?thesis by (simp only: mem list if_not_P [OF False]) auto
  qed
qed

end
