(* ===== verification/Kcp_Alloc.thy ===== *)
theory Kcp_Alloc
  imports Kcp_Heap_Flush
begin

text \<open>
  The operations of \<open>ikcp.c\<close> that allocate, on memory: \<open>ikcp_create\<close>, \<open>ikcp_setmtu\<close> and \<open>ikcp_send\<close>; \<open>ikcp_input\<close>
  follows in \<open>Kcp_Heap_Input\<close>. What \<open>malloc\<close> or the hook of \<open>ikcp_allocator\<close> returns is any function of the
  size and the memory; \<open>allocates\<close> is what it promises.

  A run that needs memory which it does not get ends as \<open>No_memory n m\<close>, the request that failed: \<open>ikcp_send\<close> and
  \<open>ikcp_ack_push\<close> fail an assertion then, and \<open>ikcp_input\<close> writes through the null pointer, which it does not test. \<open>Undefined\<close> is any other
  access to memory that is not allocated, and a failed assertion otherwise.
\<close>

section \<open>Outcomes\<close>

datatype 'a outcome = Undefined | No_memory nat kcp_memory | Done 'a

fun and_then :: "'a outcome \<Rightarrow> ('a \<Rightarrow> 'b outcome) \<Rightarrow> 'b outcome" where
  "and_then Undefined f = Undefined"
| "and_then (No_memory n m) f = No_memory n m"
| "and_then (Done x) f = f x"

fun checked :: "'a option \<Rightarrow> 'a outcome" where
  "checked None = Undefined"
| "checked (Some x) = Done x"

section \<open>Allocation\<close>

record allocator =
  malloc_hook :: "(nat \<Rightarrow> kcp_memory \<Rightarrow> addr) option"
  libc_malloc :: "nat \<Rightarrow> kcp_memory \<Rightarrow> addr"

definition ikcp_allocator :: "(nat \<Rightarrow> kcp_memory \<Rightarrow> addr) option \<Rightarrow> allocator \<Rightarrow> allocator" where
  "ikcp_allocator new_malloc al = al\<lparr>malloc_hook := new_malloc\<rparr>"

definition ikcp_malloc :: "allocator \<Rightarrow> nat \<Rightarrow> kcp_memory \<Rightarrow> addr \<times> kcp_memory" where
  "ikcp_malloc al n m =
     (let p = (case malloc_hook al of Some hook \<Rightarrow> hook n m | None \<Rightarrow> libc_malloc al n m)
      in (p, if p = 0 then m else m\<lparr>blocks := insert p (blocks m)\<rparr>))"

text \<open>\<open>sizeof(IKCPSEG)\<close> and \<open>sizeof(struct IKCPCB)\<close>, and the places of the heads, on a machine with 64 bit addresses.\<close>

definition sizeof_seg :: nat where
  "sizeof_seg = 72"

definition sizeof_kcp :: nat where
  "sizeof_kcp = 272"

text \<open>The fields of a new segment, and its links, are undefined; the model has them zero.\<close>

definition ikcp_segment_new :: "allocator \<Rightarrow> int \<Rightarrow> kcp_memory \<Rightarrow> addr \<times> kcp_memory" where
  "ikcp_segment_new al sz m =
     (let (p, m) = ikcp_malloc al (sizeof_seg + nat sz) m
      in (p, if p = 0 then m
             else m\<lparr>links_of := (links_of m)(p \<mapsto> \<lparr>nxt = 0, prv = 0\<rparr>), seg_at := (seg_at m)(p := ikcp_segment_zero)\<rparr>))"

text \<open>A successful allocation is a range of addresses that is not in use.\<close>

definition allocates :: "allocator \<Rightarrow> bool" where
  "allocates al \<longleftrightarrow> (\<forall>n m. let p = fst (ikcp_malloc al n m) in
     p = 0 \<or> unat p + n \<le> 2 ^ 64 \<and> (\<forall>i<n. p + of_nat i \<notin> blocks m \<union> dom (links_of m)))"

text \<open>No undefined behaviour: a request that failed is one that the allocator refuses, and the results are right.\<close>

fun safely :: "allocator \<Rightarrow> 'a outcome \<Rightarrow> ('a \<Rightarrow> bool) \<Rightarrow> bool" where
  "safely al Undefined P = False"
| "safely al (No_memory n m) P = (fst (ikcp_malloc al n m) = 0)"
| "safely al (Done x) P = P x"

lemma safely_and_then: "safely al r Q \<Longrightarrow> (\<And>x. Q x \<Longrightarrow> safely al (f x) P) \<Longrightarrow> safely al (and_then r f) P"
  by (cases r) auto

text \<open>The request for a segment with \<open>sz\<close> bytes fails.\<close>

definition no_segment :: "int \<Rightarrow> kcp_memory \<Rightarrow> 'a outcome" where
  "no_segment sz m = No_memory (sizeof_seg + nat sz) m"

lemma safely_no_segment: "ikcp_segment_new al sz m = (0, m') \<Longrightarrow> safely al (no_segment sz m) P"
  by (auto simp: no_segment_def ikcp_segment_new_def split: prod.splits)

section \<open>\<open>ikcp_create\<close>\<close>

definition pointers_in :: "addr \<Rightarrow> addr \<Rightarrow> kcp_pointers" where
  "pointers_in p b = \<lparr>kcp_at = p, snd_queue_at = p + 136, rcv_queue_at = p + 152, snd_buf_at = p + 168,
     rcv_buf_at = p + 184, buffer_at = b, acklist_at = 0\<rparr>"

definition put_heads :: "kcp_pointers \<Rightarrow> kcp_memory \<Rightarrow> kcp_memory" where
  "put_heads a m = m\<lparr>links_of := (\<lambda>q. if q \<in> set (heads a) then Some \<lparr>nxt = 0, prv = 0\<rparr> else links_of m q)\<rparr>"

definition drop_heads :: "kcp_pointers \<Rightarrow> kcp_memory \<Rightarrow> kcp_memory" where
  "drop_heads a m = m\<lparr>links_of := links_of m |` (- set (heads a))\<rparr>"

text \<open>The memory, and the control block unless there is no memory for it.\<close>

definition mem_create ::
  "allocator \<Rightarrow> u32 \<Rightarrow> kcp_memory \<Rightarrow> (kcp_memory \<times> (kcp_pointers \<times> ikcpcb) option) outcome" where
  "mem_create al cv m =
     (let (p, m) = ikcp_malloc al sizeof_kcp m
      in if p = 0 then Done (m, None)
         else
           let m = put_heads (pointers_in p 0) m;
               k = kcp_fresh cv;
               (b, m) = ikcp_malloc al (unat ((mtu k + IKCP_OVERHEAD) * 3)) m;
               a = pointers_in p b
           in if b = 0 then and_then (checked (ikcp_free p m)) (\<lambda>m. Done (drop_heads a m, None))
              else and_then (checked (do {
                     m \<leftarrow> on_links (iqueue_init (snd_queue_at a)) m;
                     m \<leftarrow> on_links (iqueue_init (rcv_queue_at a)) m;
                     m \<leftarrow> on_links (iqueue_init (snd_buf_at a)) m;
                     on_links (iqueue_init (rcv_buf_at a)) m}))
                   (\<lambda>m. Done (m, Some (a, k))))"

definition mem_setmtu ::
  "allocator \<Rightarrow> int \<Rightarrow> kcp_pointers \<Rightarrow> kcp_memory \<Rightarrow> ikcpcb \<Rightarrow> (int \<times> kcp_pointers \<times> kcp_memory \<times> ikcpcb) outcome" where
  "mem_setmtu al mt a m k =
     (if mt < 50 \<or> mt < sint IKCP_OVERHEAD then Done (-1, a, m, k)
      else
        let (b, m) = ikcp_malloc al (unat ((word_of_int mt + IKCP_OVERHEAD) * 3 :: u32)) m
        in if b = 0 then Done (-2, a, m, k)
           else
             let k = k\<lparr>mtu := word_of_int mt, mss := word_of_int mt - IKCP_OVERHEAD,
                       buffer := (word_of_int mt + IKCP_OVERHEAD) * 3\<rparr>
             in and_then (checked (ikcp_free (buffer_at a) m)) (\<lambda>m. Done (0, a\<lparr>buffer_at := b\<rparr>, m, k)))"

section \<open>\<open>ikcp_send\<close>\<close>

fun mem_send_fragments ::
  "allocator \<Rightarrow> nat \<Rightarrow> nat \<Rightarrow> int \<Rightarrow> u8 list option \<Rightarrow> kcp_pointers \<Rightarrow> kcp_memory \<Rightarrow> ikcpcb \<Rightarrow> (kcp_memory \<times> ikcpcb) outcome" where
  "mem_send_fragments al cnt 0 len buf a m k = Done (m, k)"
| "mem_send_fragments al cnt (Suc n) len buf a m k =
     (let i = cnt - Suc n;
          sz = (if len > sint (mss k) then sint (mss k) else len);
          (seg, m') = ikcp_segment_new al sz m
      in if seg = 0 then no_segment sz m
         else
           let bytes = (case buf of Some b \<Rightarrow> if len > 0 then take (nat sz) b else [] | None \<Rightarrow> []);
               frg = (if stream k = 0 then of_nat (cnt - i - 1) else 0);
               m = set_seg seg ((seg_at m' seg)\<lparr>seg_data := bytes, seg_len := word_of_int sz, seg_frg := frg\<rparr>) m'
           in and_then (checked (do {
                  m \<leftarrow> on_links (iqueue_init seg) m;
                  on_links (iqueue_add_tail seg (snd_queue_at a)) m}))
                (\<lambda>m. mem_send_fragments al cnt n (len - sz) (map_option (drop (nat sz)) buf) a m
                  (k\<lparr>nsnd_que := nsnd_que k + 1\<rparr>)))"

definition mem_send_extend ::
  "allocator \<Rightarrow> u8 list option \<Rightarrow> int \<Rightarrow> kcp_pointers \<Rightarrow> kcp_memory \<Rightarrow> ikcpcb \<Rightarrow> (u8 list option \<times> int \<times> kcp_memory) outcome" where
  "mem_send_extend al buf len a m k =
     and_then (checked (iqueue_is_empty (snd_queue_at a) (links_of m))) (\<lambda>e.
       if e then Done (buf, len, m)
       else and_then (checked (prev_of (links_of m) (snd_queue_at a))) (\<lambda>old_at.
         let old = seg_at m old_at
         in if seg_len old < mss k then
              let capacity = sint (mss k - seg_len old);
                  extend = (if len < capacity then len else capacity);
                  sz = sint (seg_len old + word_of_int extend);
                  (seg, m') = ikcp_segment_new al sz m
              in if seg = 0 then no_segment sz m
                 else and_then (checked (on_links (iqueue_add_tail seg (snd_queue_at a)) m')) (\<lambda>m.
                   let bytes = seg_data old @ (case buf of Some b \<Rightarrow> take (nat extend) b | None \<Rightarrow> []);
                       m = set_seg seg ((seg_at m seg)\<lparr>seg_data := bytes, seg_len := seg_len old + word_of_int extend, seg_frg := 0\<rparr>) m
                   in and_then (checked (do {
                          m \<leftarrow> on_links (iqueue_del_init old_at) m;
                          ikcp_segment_delete old_at m}))
                        (\<lambda>m. Done (map_option (drop (nat extend)) buf, len - extend, m)))
            else Done (buf, len, m)))"

definition mem_send_queue ::
  "allocator \<Rightarrow> u8 list option \<Rightarrow> int \<Rightarrow> kcp_pointers \<Rightarrow> kcp_memory \<Rightarrow> ikcpcb \<Rightarrow> (int \<times> kcp_memory \<times> ikcpcb) outcome" where
  "mem_send_queue al buf len a m k =
     (let cnt = fragment_count len (mss k)
      in if cnt \<ge> sint IKCP_WND_RCV then Done (-2, m, k)
         else
           let cnt = (if cnt = 0 then 1 else cnt)
           in and_then (mem_send_fragments al (nat cnt) (nat cnt) len buf a m k) (\<lambda>(m, k). Done (0, m, k)))"

definition mem_send ::
  "allocator \<Rightarrow> u8 list option \<Rightarrow> int \<Rightarrow> kcp_pointers \<Rightarrow> kcp_memory \<Rightarrow> ikcpcb \<Rightarrow> (int \<times> kcp_memory \<times> ikcpcb) outcome" where
  "mem_send al buf len a m k =
     (if \<not> mss k > 0 then Undefined
      else if len < 0 then Done (-1, m, k)
      else if stream k \<noteq> 0 then
        and_then (mem_send_extend al buf len a m k)
          (\<lambda>(buf, len, m). if len \<le> 0 then Done (0, m, k) else mem_send_queue al buf len a m k)
      else mem_send_queue al buf len a m k)"

section \<open>Steps\<close>

lemma malloc_fresh:
  assumes "allocates al" and "ikcp_malloc al n m = (p, m')" and "0 < n" and "p \<noteq> 0"
  shows "m' = m\<lparr>blocks := insert p (blocks m)\<rparr>" and "p \<notin> blocks m" and "p \<notin> dom (links_of m)"
proof -
  have p: "p = fst (ikcp_malloc al n m)" using assms(2) by simp
  show "m' = m\<lparr>blocks := insert p (blocks m)\<rparr>" using assms(2,4) by (auto simp: ikcp_malloc_def Let_def)
  have "p + of_nat 0 \<notin> blocks m \<union> dom (links_of m)"
    using assms(1,3,4) unfolding allocates_def p Let_def by blast
  then show "p \<notin> blocks m" "p \<notin> dom (links_of m)" by simp_all
qed

lemma malloc_null: "ikcp_malloc al n m = (0, m') \<Longrightarrow> m' = m"
  by (auto simp: ikcp_malloc_def Let_def)

lemma heads_dom: "queues_in a m q \<Longrightarrow> set (heads a @ all_nodes q) \<subseteq> dom (links_of m)"
proof -
  assume q: "queues_in a m q"
  have "ring (head_of a w) (nodes_of q w) \<subseteq> dom (links_of m)" for w by (rule queue_dom [OF queues_in_queue [OF q]])
  from this [of Snd_queue] this [of Rcv_queue] this [of Snd_buf] this [of Rcv_buf] show ?thesis
    by (auto simp: ring_def heads_def all_nodes_def)
qed

text \<open>A new block that is not a segment.\<close>

lemma block_step:
  assumes "allocates al" and "ikcp_malloc al n m = (p, m')" and "0 < n" and "p \<noteq> 0" and h: "heap a m q B"
  shows "heap a m' q (insert p B)" and "p \<notin> B" and "p \<notin> set (heads a)" and "seg_at m' = seg_at m" and "links_of m' = links_of m"
proof -
  note p = malloc_fresh [OF assms(1-4)]
  have out: "p \<notin> set (heads a @ all_nodes q)" "p \<notin> set (own_blocks a)"
    using p(2,3) heads_dom [OF heap_queues [OF h]] h by (auto simp: heap_def)
  with h show "heap a m' q (insert p B)" by (auto simp: p(1) heap_def queues_in_def)
  show "p \<notin> B" using h p(2) by (auto simp: heap_def)
  show "p \<notin> set (heads a)" using out by simp
  show "seg_at m' = seg_at m" "links_of m' = links_of m" by (simp_all add: p(1))
qed

lemma queue_other:
  assumes "queue h p xs" and "n \<notin> ring p xs"
  shows "queue (h(n := v)) p xs"
proof -
  have "linked (next_of (h(n := v))) (prev_of (h(n := v))) p xs p = linked (next_of h) (prev_of h) p xs p"
    using assms(2) by (intro linked_cong) (auto simp: ring_def next_of_def prev_of_def)
  with assms(1) show ?thesis by (simp add: queue_def)
qed

lemma new_step:
  assumes al: "allocates al" and new: "ikcp_segment_new al sz m = (p, m')" and "p \<noteq> 0" and h: "heap a m q B"
  shows "heap a m' q (insert p B)" and "p \<notin> B" and "p \<in> dom (links_of m')" and "p \<notin> set (all_nodes q)"
    and "seg_at m' = (seg_at m)(p := ikcp_segment_zero)"
proof -
  obtain m1 where m1: "ikcp_malloc al (sizeof_seg + nat sz) m = (p, m1)"
      "m' = m1\<lparr>links_of := (links_of m1)(p \<mapsto> \<lparr>nxt = 0, prv = 0\<rparr>), seg_at := (seg_at m1)(p := ikcp_segment_zero)\<rparr>"
    using new \<open>p \<noteq> 0\<close> by (auto simp: ikcp_segment_new_def split: prod.splits if_splits)
  have "0 < sizeof_seg + nat sz" by (simp add: sizeof_seg_def)
  note b = block_step [OF al m1(1) this \<open>p \<noteq> 0\<close> h]
  have out: "p \<notin> set (heads a @ all_nodes q)" using b(1) by (auto simp: heap_def)
  have "queue ((links_of m1)(p := v)) (head_of a w) (nodes_of q w)" for v w
    using queue_other [OF heap_queue [OF b(1)]] out ring_nodes [of a w q] by blast
  with heap_queues [OF b(1)] have "queues_in a m' q" by (simp add: queues_in_iff m1(2))
  with b(1) show "heap a m' q (insert p B)" unfolding heap_def by (simp add: m1(2))
  show "p \<notin> B" "p \<in> dom (links_of m')" "p \<notin> set (all_nodes q)" "seg_at m' = (seg_at m)(p := ikcp_segment_zero)"
    using b out by (simp_all add: m1(2))
qed

lemma free_block_step:
  assumes h: "heap a m q (insert x B)" and x: "x \<notin> B"
  shows "\<exists>m'. ikcp_free x m = Some m' \<and> heap a m' q B \<and> seg_at m' = seg_at m"
  using free_step [OF h x] by (simp add: ikcp_segment_delete_def)

lemma init_step:
  assumes h: "heap a m q (insert x B)" and x: "x \<notin> B" "x \<in> dom (links_of m)"
  shows "\<exists>m'. on_links (iqueue_init x) m = Some m' \<and> heap a m' q (insert x B) \<and> x \<in> dom (links_of m') \<and> seg_at m' = seg_at m"
proof -
  obtain l where l: "iqueue_init x (links_of m) = Some l" "unchanged {x} (links_of m) l"
    using iq.init_law [OF x(2)] by blast
  have out: "x \<notin> set (heads a @ all_nodes q)" using h by (auto simp: heap_def)
  have "queue l (head_of a w) (nodes_of q w)" for w
    using iq.que_keeps [OF heap_queue [OF h] l(2)] ring_nodes [of a w q] out by blast
  with heap_queues [OF h] have "queues_in a (m\<lparr>links_of := l\<rparr>) q" by (simp add: queues_in_iff)
  with h have "heap a (m\<lparr>links_of := l\<rparr>) q (insert x B)" unfolding heap_def by simp
  moreover have "x \<in> dom l" using l(2) x(2) by (simp add: unchanged_def)
  ultimately show ?thesis using on_links_Some [of "iqueue_init x" m l] l(1) by auto
qed

lemma on_links_bind:
  "on_links (\<lambda>h. Option.bind (f h) g) m = Option.bind (on_links f m) (on_links g)"
  by (cases "f (links_of m)") (simp_all add: on_links_def)

text \<open>The list of acknowledgements and the buffer are replaced.\<close>

lemma own_acklist:
  assumes h: "heap a m q (insert p B)" and p: "p \<notin> B" "p \<noteq> 0" "p \<notin> set (heads a)"
  shows "acklist_at a = 0 \<Longrightarrow> heap (a\<lparr>acklist_at := p\<rparr>) m q B"
    and "acklist_at a \<noteq> 0 \<Longrightarrow> \<exists>m'. ikcp_free (acklist_at a) m = Some m' \<and> heap (a\<lparr>acklist_at := p\<rparr>) m' q B \<and> seg_at m' = seg_at m"
proof -
  have eqs: "heads (a\<lparr>acklist_at := x\<rparr>) = heads a" "queues_in (a\<lparr>acklist_at := x\<rparr>) m q = queues_in a m q" for x m q
    by (simp_all add: heads_def queues_in_def)
  show "heap (a\<lparr>acklist_at := p\<rparr>) m q B" if "acklist_at a = 0"
    using h p that unfolding heap_def eqs by (auto simp: own_blocks_def)
  assume a: "acklist_at a \<noteq> 0"
  have "heap (a\<lparr>acklist_at := p\<rparr>) m q (insert (acklist_at a) B)" "acklist_at a \<notin> B"
    using h p a unfolding heap_def eqs by (auto simp: own_blocks_def)
  then show "\<exists>m'. ikcp_free (acklist_at a) m = Some m' \<and> heap (a\<lparr>acklist_at := p\<rparr>) m' q B \<and> seg_at m' = seg_at m"
    by (rule free_block_step)
qed

lemma own_buffer:
  assumes h: "heap a m q (insert p B)" and p: "p \<notin> B" "p \<noteq> 0" "p \<notin> set (heads a)"
  shows "\<exists>m'. ikcp_free (buffer_at a) m = Some m' \<and> heap (a\<lparr>buffer_at := p\<rparr>) m' q B \<and> seg_at m' = seg_at m"
proof -
  have eqs: "heads (a\<lparr>buffer_at := x\<rparr>) = heads a" "queues_in (a\<lparr>buffer_at := x\<rparr>) m q = queues_in a m q" for x m q
    by (simp_all add: heads_def queues_in_def)
  have "heap (a\<lparr>buffer_at := p\<rparr>) m q (insert (buffer_at a) B)" "buffer_at a \<notin> B"
    using h p unfolding heap_def eqs by (auto simp: own_blocks_def)
  then show ?thesis by (rule free_block_step)
qed

section \<open>Sending\<close>

lemma abs_snd_queue:
  assumes "seg_at m' = (seg_at m)(x := s)" and "x \<notin> set (all_nodes q)"
  shows "abs_kcp m' (put_nodes Snd_queue (nodes_of q Snd_queue @ [x]) q) (k\<lparr>nsnd_que := n\<rparr>) =
    (abs_kcp m q k)\<lparr>snd_queue := snd_queue (abs_kcp m q k) @ [s], nsnd_que := n\<rparr>"
  using assms by (cases k) (auto simp: abs_kcp_def all_nodes_def)

lemma mem_send_fragments_safe:
  assumes al: "allocates al" and "heap a m q B"
  shows "safely al (mem_send_fragments al cnt n len buf a m k) (\<lambda>(m', k'). \<exists>q'. heap a m' q' B \<and>
    send_fragments mem_ok cnt n len buf (abs_kcp m q k) = Some (abs_kcp m' q' k') \<and>
    ackcount k' = ackcount k \<and> ackblock k' = ackblock k \<and> mtu k' = mtu k \<and> buffer k' = buffer k)"
  using assms(2)
proof (induction n arbitrary: len buf m q k)
  case 0
  then show ?case by auto
next
  case (Suc n)
  define i where "i = cnt - Suc n"
  define sz where "sz = (if len > sint (mss k) then sint (mss k) else len)"
  define bytes where "bytes = (case buf of Some b \<Rightarrow> if len > 0 then take (nat sz) b else [] | None \<Rightarrow> [])"
  define frg :: u32 where "frg = (if stream k = 0 then of_nat (cnt - i - 1) else 0)"
  obtain x m1 where new: "ikcp_segment_new al sz m = (x, m1)" by (rule prod.exhaust)
  show ?case
  proof (cases "x = 0")
    case True
    with new have "safely al (no_segment sz m) P" for P :: "kcp_memory \<times> ikcpcb \<Rightarrow> bool"
      using safely_no_segment [of al sz m m1] by simp
    with new True show ?thesis by (simp add: Let_def sz_def [symmetric])
  next
    case False
    note n1 = new_step [OF al new False Suc.prems]
    let ?s = "new_fragment sz bytes frg"
    let ?m = "set_seg x ?s m1"
    have h2: "heap a ?m q (insert x B)" "x \<in> dom (links_of ?m)" using heap_set_seg [OF n1(1)] n1(3) by simp_all
    obtain m3 where m3: "on_links (iqueue_init x) ?m = Some m3" "heap a m3 q (insert x B)" "x \<in> dom (links_of m3)" "seg_at m3 = seg_at ?m"
      using init_step [OF h2(1) n1(2) h2(2)] by blast
    let ?q = "put_nodes Snd_queue (nodes_of q Snd_queue @ [x]) q" and ?k = "k\<lparr>nsnd_que := nsnd_que k + 1\<rparr>"
    obtain m4 where m4: "on_links (iqueue_add_tail x (snd_queue_at a)) m3 = Some m4" "heap a m4 ?q B" "seg_at m4 = seg_at m3"
      using put_step [OF m3(2) n1(2) m3(3), of Snd_queue] by auto
    have "seg_at m4 = (seg_at m)(x := ?s)" by (simp add: m4(3) m3(4) n1(5) set_seg_def)
    from abs_snd_queue [OF this n1(4), where k = k and n = "nsnd_que k + 1"]
    have abs4: "abs_kcp m4 ?q ?k = (abs_kcp m q k)\<lparr>snd_queue := snd_queue (abs_kcp m q k) @ [?s], nsnd_que := nsnd_que (abs_kcp m q k) + 1\<rparr>"
      by simp
    have list: "send_fragments mem_ok cnt (Suc n) len buf (abs_kcp m q k) =
        send_fragments mem_ok cnt n (len - sz) (map_option (drop (nat sz)) buf) (abs_kcp m4 ?q ?k)"
      unfolding abs4 send_fragments.simps abs_scalars Let_def sz_def bytes_def frg_def i_def
      by (simp only: not_True_eq_False if_False)
    have "(seg_at m1 x)\<lparr>seg_data := bytes, seg_len := word_of_int sz, seg_frg := frg\<rparr> = ?s"
      by (simp add: n1(5) new_fragment_def)
    then have mem: "mem_send_fragments al cnt (Suc n) len buf a m k =
        mem_send_fragments al cnt n (len - sz) (map_option (drop (nat sz)) buf) a m4 ?k"
      using new False m3(1) m4(1) by (simp add: Let_def sz_def [symmetric] bytes_def [symmetric] frg_def [symmetric] i_def [symmetric])
    from Suc.IH [OF m4(2), of "len - sz" "map_option (drop (nat sz)) buf" ?k] show ?thesis unfolding mem list by simp
  qed
qed

lemma abs_replace_last:
  assumes "seg_at m' = (seg_at m)(x := s)" and "x \<notin> set (all_nodes q)" and "nodes_of q Snd_queue = xs @ [old]"
  shows "abs_kcp m' (put_nodes Snd_queue (xs @ [x]) q) k =
    (abs_kcp m q k)\<lparr>snd_queue := butlast (snd_queue (abs_kcp m q k)) @ [s]\<rparr>"
  using assms by (cases k) (auto simp: abs_kcp_def all_nodes_def butlast_append)

lemma mem_send_extend_safe:
  assumes al: "allocates al" and h: "heap a m q B"
  shows "safely al (mem_send_extend al buf len a m k) (\<lambda>(buf', len', m'). \<exists>q'. heap a m' q' B \<and>
    send_extend mem_ok buf len (abs_kcp m q k) = Some (buf', len', abs_kcp m' q' k))"
proof (cases "nodes_of q Snd_queue" rule: rev_cases)
  case Nil
  with h heap_empty [OF h, of Snd_queue] show ?thesis by (auto simp: mem_send_extend_def send_extend_def)
next
  case (snoc xs old)
  define seg where "seg = seg_at m old"
  have start: "iqueue_is_empty (snd_queue_at a) (links_of m) = Some False" "prev_of (links_of m) (snd_queue_at a) = Some old"
    using heap_empty [OF h, of Snd_queue] heap_last [OF h snoc] snoc by simp_all
  have list: "snd_queue (abs_kcp m q k) \<noteq> []" "last (snd_queue (abs_kcp m q k)) = seg" using snoc by (simp_all add: seg_def)
  show ?thesis
  proof (cases "seg_len seg < mss k")
    case False
    with start list h show ?thesis by (auto simp: mem_send_extend_def send_extend_def Let_def seg_def)
  next
    case True
    define capacity where "capacity = sint (mss k - seg_len seg)"
    define extend where "extend = (if len < capacity then len else capacity)"
    define s where "s = ikcp_segment_zero\<lparr>seg_data := seg_data seg @ (case buf of Some b \<Rightarrow> take (nat extend) b | None \<Rightarrow> []),
        seg_len := seg_len seg + word_of_int extend, seg_frg := 0\<rparr>"
    obtain x m1 where new: "ikcp_segment_new al (sint (seg_len seg + word_of_int extend)) m = (x, m1)" by (rule prod.exhaust)
    have listed: "send_extend mem_ok buf len (abs_kcp m q k) = Some (map_option (drop (nat extend)) buf, len - extend,
        (abs_kcp m q k)\<lparr>snd_queue := butlast (snd_queue (abs_kcp m q k)) @ [s]\<rparr>)"
      unfolding send_extend_def Let_def list(2) if_not_P [OF list(1)] abs_scalars if_P [OF True] s_def extend_def capacity_def
      by (simp only: not_True_eq_False if_False)
    show ?thesis
    proof (cases "x = 0")
      case True
      with new have "safely al (no_segment (sint (seg_len seg + word_of_int extend)) m) P" for P :: "u8 list option \<times> int \<times> kcp_memory \<Rightarrow> bool"
        using safely_no_segment [of al _ m m1] by simp
      with start new True \<open>seg_len seg < mss k\<close> show ?thesis
        by (simp add: mem_send_extend_def Let_def split del: if_split flip: seg_def capacity_def extend_def)
    next
      case False
      note n1 = new_step [OF al new False h]
      obtain m2 where m2: "on_links (iqueue_add_tail x (snd_queue_at a)) m1 = Some m2"
          "heap a m2 (put_nodes Snd_queue (nodes_of q Snd_queue @ [x]) q) B" "seg_at m2 = seg_at m1"
        using put_step [OF n1(1-3), of Snd_queue] by auto
      let ?m = "set_seg x s m2"
      have "nodes_of (put_nodes Snd_queue (nodes_of q Snd_queue @ [x]) q) Snd_queue = xs @ old # [x]" using snoc by simp
      from take_step [OF heap_set_seg [OF m2(2), of x s] this]
      obtain m3 where m3: "on_links (iqueue_del old) ?m = Some m3" "heap a m3 (put_nodes Snd_queue (xs @ [x]) q) (insert old B)"
          "old \<in> dom (links_of m3)" "seg_at m3 = seg_at ?m" by auto
      have old: "old \<notin> B" using h snoc by (auto simp: heap_def all_nodes_def)
      obtain m4 where m4: "on_links (iqueue_init old) m3 = Some m4" "heap a m4 (put_nodes Snd_queue (xs @ [x]) q) (insert old B)"
          "seg_at m4 = seg_at m3" using init_step [OF m3(2) old m3(3)] by blast
      obtain m5 where m5: "ikcp_segment_delete old m4 = Some m5" "heap a m5 (put_nodes Snd_queue (xs @ [x]) q) B"
          "seg_at m5 = seg_at m4" using free_step [OF m4(2) old] by blast
      have gone: "Option.bind (on_links (iqueue_del_init old) ?m) (ikcp_segment_delete old) = Some m5"
        unfolding iqueue_del_init_def on_links_bind using m3(1) m4(1) m5(1) by simp
      have "seg_at m5 = (seg_at m)(x := s)" by (simp add: m5(3) m4(3) m3(4) m2(3) n1(5) set_seg_def)
      from abs_replace_last [OF this n1(4) snoc, of k]
      have abs5: "abs_kcp m5 (put_nodes Snd_queue (xs @ [x]) q) k = (abs_kcp m q k)\<lparr>snd_queue := butlast (snd_queue (abs_kcp m q k)) @ [s]\<rparr>" .
      have "(seg_at m2 x)\<lparr>seg_data := seg_data seg @ (case buf of Some b \<Rightarrow> take (nat extend) b | None \<Rightarrow> []),
          seg_len := seg_len seg + word_of_int extend, seg_frg := 0\<rparr> = s"
        by (simp add: s_def m2(3) n1(5))
      then have "mem_send_extend al buf len a m k = Done (map_option (drop (nat extend)) buf, len - extend, m5)"
        using start new \<open>seg_len seg < mss k\<close> False m2(1) gone
        unfolding extend_def capacity_def seg_def by (simp add: mem_send_extend_def Let_def split del: if_split)
      with m5(2) abs5 listed show ?thesis by auto
    qed
  qed
qed

lemma mem_send_queue_safe:
  assumes al: "allocates al" and h: "heap a m q B"
  shows "safely al (mem_send_queue al buf len a m k) (\<lambda>(ret, m', k'). \<exists>q'. heap a m' q' B \<and>
    send_queue mem_ok buf len (abs_kcp m q k) = Some (ret, abs_kcp m' q' k') \<and>
    ackcount k' = ackcount k \<and> ackblock k' = ackblock k \<and> mtu k' = mtu k \<and> buffer k' = buffer k)"
proof (cases "fragment_count len (mss k) \<ge> sint IKCP_WND_RCV")
  case True
  with h show ?thesis unfolding mem_send_queue_def send_queue_def Let_def by (auto intro!: exI [of _ q])
next
  case False
  let ?c = "nat (if fragment_count len (mss k) = 0 then 1 else fragment_count len (mss k))"
  show ?thesis
    unfolding mem_send_queue_def send_queue_def Let_def abs_scalars if_not_P [OF False]
    by (rule safely_and_then [OF mem_send_fragments_safe [OF al h, of ?c ?c len buf k]]) auto
qed

lemma mem_send_safe:
  assumes al: "allocates al" and h: "heap a m q B" and "0 < mss k"
  shows "safely al (mem_send al buf len a m k) (\<lambda>(ret, m', k'). \<exists>q'. heap a m' q' B \<and>
    ikcp_send mem_ok buf len (abs_kcp m q k) = Some (ret, abs_kcp m' q' k') \<and>
    ackcount k' = ackcount k \<and> ackblock k' = ackblock k \<and> mtu k' = mtu k \<and> buffer k' = buffer k)"
proof (cases "len < 0 \<or> stream k = 0")
  case True
  then show ?thesis
    using mem_send_queue_safe [OF al h, of buf len k] h \<open>0 < mss k\<close> by (auto simp: mem_send_def ikcp_send_def)
next
  case False
  then have ext: "mem_send al buf len a m k = and_then (mem_send_extend al buf len a m k)
      (\<lambda>(buf, len, m). if len \<le> 0 then Done (0, m, k) else mem_send_queue al buf len a m k)"
    using \<open>0 < mss k\<close> by (simp add: mem_send_def)
  show ?thesis
    unfolding ext
  proof (rule safely_and_then [OF mem_send_extend_safe [OF al h]], clarify)
    fix buf' len' m' q'
    assume e: "heap a m' q' B" "send_extend mem_ok buf len (abs_kcp m q k) = Some (buf', len', abs_kcp m' q' k)"
    have list: "ikcp_send mem_ok buf len (abs_kcp m q k) =
        (if len' \<le> 0 then Some (0, abs_kcp m' q' k) else send_queue mem_ok buf' len' (abs_kcp m' q' k))"
      using e(2) False \<open>0 < mss k\<close> by (simp add: ikcp_send_def)
    show "safely al (if len' \<le> 0 then Done (0, m', k) else mem_send_queue al buf' len' a m' k)
       (\<lambda>(ret, m', k'). \<exists>q'. heap a m' q' B \<and> ikcp_send mem_ok buf len (abs_kcp m q k) = Some (ret, abs_kcp m' q' k') \<and>
          ackcount k' = ackcount k \<and> ackblock k' = ackblock k \<and> mtu k' = mtu k \<and> buffer k' = buffer k)"
      unfolding list using mem_send_queue_safe [OF al e(1), of buf' len' k] e(1) by (cases "len' \<le> 0") auto
  qed
qed

end
