(* ===== verification/Kcp_Heap_Input.thy ===== *)
theory Kcp_Heap_Input
  imports Kcp_Alloc
begin

text \<open>
  \<open>ikcp_input\<close> on memory, with \<open>ikcp_ack_push\<close>, which replaces its block when it grows, and the new segments that
  are handed to \<open>ikcp_parse_data\<close>. \<open>rep B s K\<close> says that the memory and the scalar fields \<open>s\<close> hold the control block
  \<open>K\<close> of the models on lists, next to other blocks \<open>B\<close>; every operation leads from \<open>rep\<close> to \<open>rep\<close>, with the
  result of its model on lists, or it runs out of memory.
\<close>

section \<open>\<open>ikcp_input\<close>\<close>

type_synonym kcp_image = "kcp_pointers \<times> kcp_memory \<times> ikcpcb"

text \<open>The contents of the list of acknowledgements are in the control block; its block is in memory.\<close>

definition mem_ack_push :: "allocator \<Rightarrow> u32 \<Rightarrow> u32 \<Rightarrow> kcp_image \<Rightarrow> kcp_image outcome" where
  "mem_ack_push al sn ts = (\<lambda>(a, m, k).
     let newsize = unat (ackcount k + 1)
     in and_then
          (if newsize > unat (ackblock k) then
             let sz = grow_block newsize 8 * 4 * 2;
                 (p, m') = ikcp_malloc al sz m
             in if p = 0 then No_memory sz m
                else and_then (if acklist_at a \<noteq> 0 then checked (ikcp_free (acklist_at a) m') else Done m')
                       (\<lambda>m. Done (a\<lparr>acklist_at := p\<rparr>, m))
           else Done (a, m))
          (\<lambda>(a, m). if acklist_at a \<in> blocks m then Done (a, m, ikcp_ack_push sn ts k) else Undefined))"

text \<open>A new segment is filled with the fields of the header and the payload, and handed over.\<close>

definition mem_new_data ::
  "allocator \<Rightarrow> u8 \<Rightarrow> u8 \<Rightarrow> u16 \<Rightarrow> u32 \<Rightarrow> u32 \<Rightarrow> u32 \<Rightarrow> u32 \<Rightarrow> u8 list \<Rightarrow> kcp_image \<Rightarrow> kcp_image outcome" where
  "mem_new_data al cmd frg wnd ts sn una len data = (\<lambda>(a, m, k).
     let (seg, m') = ikcp_segment_new al (sint len) m
     in if seg = 0 then no_segment (sint len) m
        else
          let m = set_seg seg ((seg_at m' seg)
                \<lparr>seg_conv := conv k, seg_cmd := ucast cmd, seg_frg := ucast frg, seg_wnd := ucast wnd, seg_ts := ts,
                 seg_sn := sn, seg_una := una, seg_len := len, seg_data := take (unat len) data\<rparr>) m'
          in and_then (checked (mem_parse_data a seg m k)) (\<lambda>(m, k). Done (a, m, k)))"

definition mem_input_push ::
  "allocator \<Rightarrow> u8 \<Rightarrow> u8 \<Rightarrow> u16 \<Rightarrow> u32 \<Rightarrow> u32 \<Rightarrow> u32 \<Rightarrow> u32 \<Rightarrow> u8 list \<Rightarrow> kcp_image \<Rightarrow> kcp_image outcome" where
  "mem_input_push al cmd frg wnd ts sn una len data = (\<lambda>(a, m, k).
     if itimediff sn (rcv_nxt k + rcv_wnd k) < 0 then
       and_then (mem_ack_push al sn ts (a, m, k)) (\<lambda>(a, m, k).
         if itimediff sn (rcv_nxt k) \<ge> 0
         then mem_new_data al cmd frg wnd ts sn una len data (a, m, k)
         else Done (a, m, k))
     else Done (a, m, k))"

definition mem_input_ack ::
  "u32 \<Rightarrow> u32 \<Rightarrow> bool \<Rightarrow> u32 \<Rightarrow> u32 \<Rightarrow> kcp_image \<Rightarrow> (bool \<times> u32 \<times> u32 \<times> kcp_image) option" where
  "mem_input_ack sn ts flag maxack latest_ts = (\<lambda>(a, m, k).
     let k = (if itimediff (current k) ts \<ge> 0 then ikcp_update_ack (itimediff (current k) ts) k else k)
     in do {
       (m, k) \<leftarrow> mem_parse_ack a sn m k;
       k \<leftarrow> mem_shrink_buf a m k;
       if \<not> flag then Some (True, sn, ts, a, m, k)
       else if itimediff sn maxack > 0 then Some (flag, sn, ts, a, m, k)
       else Some (flag, maxack, latest_ts, a, m, k)})"

definition mem_input_segment ::
  "allocator \<Rightarrow> u8 \<Rightarrow> u8 \<Rightarrow> u16 \<Rightarrow> u32 \<Rightarrow> u32 \<Rightarrow> u32 \<Rightarrow> u32 \<Rightarrow> u8 list \<Rightarrow> bool \<Rightarrow> u32 \<Rightarrow> u32 \<Rightarrow> kcp_image \<Rightarrow>
   (bool \<times> u32 \<times> u32 \<times> kcp_image) outcome" where
  "mem_input_segment al cmd frg wnd ts sn una len data flag maxack latest_ts = (\<lambda>(a, m, k).
     and_then (checked (do {
         (m, k) \<leftarrow> mem_parse_una a una m (k\<lparr>rmt_wnd := ucast wnd\<rparr>);
         k \<leftarrow> mem_shrink_buf a m k;
         Some (m, k)}))
       (\<lambda>(m, k).
         if ucast cmd = IKCP_CMD_ACK then checked (mem_input_ack sn ts flag maxack latest_ts (a, m, k))
         else if ucast cmd = IKCP_CMD_PUSH
         then and_then (mem_input_push al cmd frg wnd ts sn una len data (a, m, k)) (\<lambda>s. Done (flag, maxack, latest_ts, s))
         else if ucast cmd = IKCP_CMD_WASK
         then Done (flag, maxack, latest_ts, a, m, k\<lparr>probe := probe k OR IKCP_ASK_TELL\<rparr>)
         else Done (flag, maxack, latest_ts, a, m, k)))"

function mem_input_loop ::
  "allocator \<Rightarrow> u8 list \<Rightarrow> bool \<Rightarrow> u32 \<Rightarrow> u32 \<Rightarrow> kcp_image \<Rightarrow>
   ((int \<times> kcp_image) + (bool \<times> u32 \<times> u32 \<times> kcp_image)) outcome" where
  "mem_input_loop al data flag maxack latest_ts s =
     (if length data < unat IKCP_OVERHEAD then Done (Inr (flag, maxack, latest_ts, s))
      else
        let (cv, p) = ikcp_decode32u data
        in if cv \<noteq> conv (snd (snd s)) then Done (Inl (-2, s))
           else
             let (cmd, p) = ikcp_decode8u p;
                 (frg, p) = ikcp_decode8u p;
                 (wnd, p) = ikcp_decode16u p;
                 (ts, p) = ikcp_decode32u p;
                 (sn, p) = ikcp_decode32u p;
                 (una, p) = ikcp_decode32u p;
                 (len, p) = ikcp_decode32u p
             in if length data - unat IKCP_OVERHEAD < unat len \<or> sint len < 0 then Done (Inl (-2, s))
                else if ucast cmd \<noteq> IKCP_CMD_PUSH \<and> ucast cmd \<noteq> IKCP_CMD_ACK \<and>
                        ucast cmd \<noteq> IKCP_CMD_WASK \<and> ucast cmd \<noteq> IKCP_CMD_WINS
                then Done (Inl (-3, s))
                else and_then (mem_input_segment al cmd frg wnd ts sn una len p flag maxack latest_ts s)
                  (\<lambda>(flag, maxack, latest_ts, s).
                    mem_input_loop al (drop (unat len) (drop (unat IKCP_OVERHEAD) data)) flag maxack latest_ts s))"
  by pat_completeness auto
termination
  by (relation "measure (\<lambda>(al, data, _). length data)") auto

declare mem_input_loop.simps [simp del]

definition mem_input :: "allocator \<Rightarrow> u8 list option \<Rightarrow> kcp_image \<Rightarrow> (int \<times> kcp_image) outcome" where
  "mem_input al data_opt s =
     (let prev_una = snd_una (snd (snd s))
      in case data_opt of
           None \<Rightarrow> Done (-1, s)
         | Some data \<Rightarrow>
             if length data < unat IKCP_OVERHEAD then Done (-1, s)
             else and_then (mem_input_loop al data False 0 0 s) (\<lambda>r.
               case r of
                 Inl (ret, s) \<Rightarrow> Done (ret, s)
               | Inr (flag, maxack, latest_ts, a, m, k) \<Rightarrow>
                   and_then (checked (if flag then mem_parse_fastack a maxack latest_ts m k else Some m)) (\<lambda>m.
                     let k = (if itimediff (snd_una k) prev_una > 0 then input_cwnd k else k)
                     in Done (0, a, m, k))))"

section \<open>The image of a control block\<close>

text \<open>The control block \<open>K\<close> of the models on lists is what the memory holds, and other blocks are \<open>B\<close>.\<close>

definition rep :: "addr set \<Rightarrow> kcp_image \<Rightarrow> ikcpcb \<Rightarrow> bool" where
  "rep B s K \<longleftrightarrow> (case s of (a, m, k) \<Rightarrow> \<exists>q. heap a m q B \<and> blocks_fit a k \<and> abs_kcp m q k = K)"

definition same_blocks :: "ikcpcb \<Rightarrow> ikcpcb \<Rightarrow> bool" where
  "same_blocks K K' \<longleftrightarrow> ackblock K' = ackblock K \<and> (ackcount K' = ackcount K \<or> ackcount K' = 0) \<and>
     mtu K' = mtu K \<and> buffer K' = buffer K"

lemma abs_buffer [simp]: "buffer (abs_kcp m q k) = buffer k"
  by (simp add: abs_kcp_def)

lemma repE:
  assumes "rep B (a, m, k) K"
  obtains q where "heap a m q B" "blocks_fit a k" "abs_kcp m q k = K"
  using assms by (auto simp: rep_def)

lemma repI:
  assumes "heap a m' q' B" and "abs_kcp m' q' k' = K'" and "blocks_fit a k" and "abs_kcp m q k = K" and "same_blocks K K'"
  shows "rep B (a, m', k') K'"
proof -
  have "ackblock k' = ackblock K'" "ackcount k' = ackcount K'" "ackblock k = ackblock K" "ackcount k = ackcount K"
    "mtu k' = mtu K'" "buffer k' = buffer K'" "mtu k = mtu K" "buffer k = buffer K"
    using assms(2,4) by auto
  with assms(3,5) have "blocks_fit a k'" by (auto simp: blocks_fit_def same_blocks_def)
  with assms(1,2) show ?thesis by (auto simp: rep_def)
qed

lemma rep_scalars:
  assumes "rep B (a, m, k) K"
  shows "conv k = conv K" "snd_una k = snd_una K" "current k = current K" "rcv_nxt k = rcv_nxt K" "rcv_wnd k = rcv_wnd K"
    "probe k = probe K" "mss k = mss K" "mtu k = mtu K"
  using assms by (auto elim!: repE)

lemma same_blocks_trans: "same_blocks K K' \<Longrightarrow> same_blocks K' K'' \<Longrightarrow> same_blocks K K''"
  by (auto simp: same_blocks_def)

lemma same_blocks_input [simp]:
  "same_blocks K (ikcp_parse_una una K)" "same_blocks K (ikcp_parse_ack sn K)" "same_blocks K (ikcp_shrink_buf K)"
  "same_blocks K (ikcp_parse_fastack sn ts K)" "same_blocks K (ikcp_update_ack rtt K)" "same_blocks K (input_cwnd K)"
  "same_blocks K (K\<lparr>rmt_wnd := w\<rparr>)" "same_blocks K (K\<lparr>probe := x\<rparr>)" "same_blocks K K"
  by (simp_all add: same_blocks_def ikcp_parse_una_def ikcp_parse_ack_def ikcp_shrink_buf_def ikcp_parse_fastack_def
      ikcp_update_ack_def input_cwnd_def Let_def split_beta split: list.split)

lemma same_blocks_move_ready [simp]: "same_blocks K (ikcp_move_ready K)"
proof -
  obtain b nb q nq n where "ikcp_move_ready K = K\<lparr>rcv_buf := b, nrcv_buf := nb, rcv_queue := q, nrcv_que := nq, rcv_nxt := n\<rparr>"
    using move_ready_fields by blast
  then show ?thesis by (simp add: same_blocks_def)
qed

lemma same_blocks_parse_data [simp]: "same_blocks K (ikcp_parse_data s K)"
  using same_blocks_move_ready [of K] same_blocks_move_ready [of "K\<lparr>rcv_buf := b, nrcv_buf := n\<rparr>" for b n]
  by (auto simp: ikcp_parse_data_def Let_def same_blocks_def split: option.splits)

section \<open>Receiving a datagram\<close>

lemma abs_ack_push: "abs_kcp m q (ikcp_ack_push sn ts k) = ikcp_ack_push sn ts (abs_kcp m q k)"
  by (cases k) (simp add: ikcp_ack_push_def abs_kcp_def Let_def)

lemma grow_block_pos: "0 < grow_block n 8"
proof -
  have "0 < grow_block n b" if "0 < b" for b
    using that
  proof (induction n b rule: grow_block.induct)
    case (1 n b)
    then show ?case by (cases "b < n") (simp_all add: grow_block.simps [of n b])
  qed
  then show ?thesis by simp
qed

lemma mem_ack_push_safe:
  assumes al: "allocates al" and r: "rep B (a, m, k) K"
  shows "safely al (mem_ack_push al sn ts (a, m, k)) (\<lambda>s. rep B s (ikcp_ack_push sn ts K))"
proof -
  obtain q where q: "heap a m q B" "blocks_fit a k" "abs_kcp m q k = K" using r by (rule repE)
  have fin: "rep B (a', m', ikcp_ack_push sn ts k) (ikcp_ack_push sn ts K) \<and> acklist_at a' \<in> blocks m'"
    if "heap a' m' q B" "acklist_at a' \<noteq> 0" "seg_at m' = seg_at m" for a' m'
  proof -
    have "abs_kcp m' q k = K" using that(3) q(3) by (simp add: abs_kcp_def)
    then have "abs_kcp m' q (ikcp_ack_push sn ts k) = ikcp_ack_push sn ts K" by (simp add: abs_ack_push)
    moreover have "blocks_fit a' (ikcp_ack_push sn ts k)"
      using q(2) that(2) by (simp add: blocks_fit_def ikcp_ack_push_def Let_def)
    ultimately show ?thesis using that heap_own(2) [OF that(1,2)] by (auto simp: rep_def)
  qed
  show ?thesis
  proof (cases "unat (ackcount k + 1) > unat (ackblock k)")
    case False
    then have "acklist_at a \<noteq> 0" using q(2) by (auto simp: blocks_fit_def)
    from fin [OF q(1) this] False show ?thesis by (simp add: mem_ack_push_def)
  next
    case True
    obtain p m1 where new: "ikcp_malloc al (grow_block (unat (ackcount k + 1)) 8 * 4 * 2) m = (p, m1)" by (rule prod.exhaust)
    show ?thesis
    proof (cases "p = 0")
      case True
      with new \<open>unat (ackcount k + 1) > unat (ackblock k)\<close> show ?thesis by (simp add: mem_ack_push_def)
    next
      case p: False
      have pos: "0 < grow_block (unat (ackcount k + 1)) 8 * 4 * 2" using grow_block_pos by simp
      note b = block_step [OF al new pos p q(1)]
      note own = own_acklist [OF b(1,2) p b(3)]
      show ?thesis
      proof (cases "acklist_at a = 0")
        case True
        from fin [OF own(1) [OF True]] p b(4) new \<open>unat (ackcount k + 1) > unat (ackblock k)\<close> True show ?thesis
          by (simp add: mem_ack_push_def)
      next
        case False
        obtain m2 where m2: "ikcp_free (acklist_at a) m1 = Some m2" "heap (a\<lparr>acklist_at := p\<rparr>) m2 q B" "seg_at m2 = seg_at m1"
          using own(2) [OF False] by blast
        from fin [OF m2(2)] m2(1,3) p b(4) new \<open>unat (ackcount k + 1) > unat (ackblock k)\<close> False show ?thesis
          by (simp add: mem_ack_push_def)
      qed
    qed
  qed
qed

lemma mem_parse_data_rep:
  assumes h: "heap a m q (insert n B)" and n: "n \<notin> B" "n \<in> dom (links_of m)" and ack: "blocks_fit a k"
  shows "\<exists>m' k'. mem_parse_data a n m k = Some (m', k') \<and> rep B (a, m', k') (ikcp_parse_data (seg_at m n) (abs_kcp m q k))"
proof -
  have fresh: "n \<in> blocks m" "n \<notin> set (heads a @ all_nodes q)" using h by (auto simp: heap_def)
  obtain m' k' q' where r: "mem_parse_data a n m k = Some (m', k')" "queues_in a m' q'"
      "abs_kcp m' q' k' = ikcp_parse_data (seg_at m n) (abs_kcp m q k)" "same_sent q q'"
      "if n \<in> set (received_nodes q')
       then set (received_nodes q') = insert n (set (received_nodes q)) \<and> blocks m' = blocks m
       else received_nodes q' = received_nodes q \<and> blocks m' = blocks m - {n}"
    using parse_data_refines [OF heap_queues [OF h] n(2) fresh, of k] by blast
  have nodes: "set (all_nodes q'') = set (received_nodes q'') \<union> (set (snd_queue_nodes q'') \<union> set (snd_buf_nodes q''))" for q''
    by (auto simp: all_nodes_def received_nodes_def)
  have "heap a m' q' B"
  proof (cases "n \<in> set (received_nodes q')")
    case True
    then have "set (all_nodes q') = insert n (set (all_nodes q))" using r(4,5) by (simp add: nodes same_sent_def)
    moreover have "set (all_nodes q) \<inter> B = {}" using h by (auto simp: heap_def)
    ultimately show ?thesis using heap_exchange [OF h r(2), of B] r(5) True n(1) by simp
  next
    case False
    then have "set (all_nodes q') = set (all_nodes q)" "blocks m' = blocks m - {n}"
      using r(4,5) by (simp_all add: nodes same_sent_def)
    with h r(2) n(1) fresh show ?thesis by (auto simp: heap_def)
  qed
  from repI [OF this r(3) ack refl same_blocks_parse_data] r(1) show ?thesis by blast
qed

lemma abs_new_seg:
  assumes "seg_at m' = (seg_at m)(x := s)" and "x \<notin> set (all_nodes q)"
  shows "abs_kcp m' q k = abs_kcp m q k"
  using assms by (cases k) (auto simp: abs_kcp_def all_nodes_def)

lemma mem_new_data_safe:
  assumes al: "allocates al" and r: "rep B (a, m, k) K"
  shows "safely al (mem_new_data al cmd frg wnd ts sn una len data (a, m, k)) (\<lambda>s. rep B s (ikcp_parse_data
    (ikcp_segment_zero\<lparr>seg_conv := conv K, seg_cmd := ucast cmd, seg_frg := ucast frg, seg_wnd := ucast wnd,
      seg_ts := ts, seg_sn := sn, seg_una := una, seg_len := len, seg_data := take (unat len) data\<rparr>) K))"
    (is "safely al _ (\<lambda>s. rep B s (ikcp_parse_data ?s K))")
proof -
  obtain q where q: "heap a m q B" "blocks_fit a k" "abs_kcp m q k = K" using r by (rule repE)
  obtain x m2 where new: "ikcp_segment_new al (sint len) m = (x, m2)" by (rule prod.exhaust)
  show ?thesis
  proof (cases "x = 0")
    case True
    with new have "safely al (no_segment (sint len) m) P" for P :: "kcp_image \<Rightarrow> bool"
      using safely_no_segment [of al "sint len" m m2] by simp
    with new True show ?thesis by (simp add: mem_new_data_def)
  next
    case False
    note n = new_step [OF al new False q(1)]
    have eq: "(seg_at m2 x)\<lparr>seg_conv := conv k, seg_cmd := ucast cmd, seg_frg := ucast frg, seg_wnd := ucast wnd,
        seg_ts := ts, seg_sn := sn, seg_una := una, seg_len := len, seg_data := take (unat len) data\<rparr> = ?s"
      by (simp add: n(5) rep_scalars [OF r])
    have data: "seg_at (set_seg x ?s m2) = (seg_at m)(x := ?s)" by (simp add: set_seg_def n(5))
    have h2: "heap a (set_seg x ?s m2) q (insert x B)" "x \<in> dom (links_of (set_seg x ?s m2))"
      using heap_set_seg [OF n(1)] n(3) by simp_all
    obtain m3 k3 where p: "mem_parse_data a x (set_seg x ?s m2) k = Some (m3, k3)"
        "rep B (a, m3, k3) (ikcp_parse_data (seg_at (set_seg x ?s m2) x) (abs_kcp (set_seg x ?s m2) q k))"
      using mem_parse_data_rep [OF h2(1) n(2) h2(2) q(2)] by blast
    have "rep B (a, m3, k3) (ikcp_parse_data ?s K)"
      using p(2) data q(3) abs_new_seg [OF data n(4), of k] by simp
    with p(1) False new show ?thesis by (simp add: mem_new_data_def Let_def eq)
  qed
qed

lemma mem_input_push_safe:
  assumes al: "allocates al" and r: "rep B (a, m, k) K"
  shows "safely al (mem_input_push al cmd frg wnd ts sn una len data (a, m, k))
    (\<lambda>s. rep B s (input_push cmd frg wnd ts sn una len data K))"
proof (cases "itimediff sn (rcv_nxt k + rcv_wnd k) < 0")
  case False
  with r rep_scalars [OF r] show ?thesis by (simp add: mem_input_push_def input_push_def)
next
  case True
  then have list: "itimediff sn (rcv_nxt K + rcv_wnd K) < 0" using rep_scalars [OF r] by simp
  show ?thesis
    unfolding mem_input_push_def input_push_def prod.case if_P [OF True] if_P [OF list]
  proof (rule safely_and_then [OF mem_ack_push_safe [OF al r, of sn ts]], clarify)
    fix a1 m1 k1
    assume r1: "rep B (a1, m1, k1) (ikcp_ack_push sn ts K)"
    show "safely al (if itimediff sn (rcv_nxt k1) \<ge> 0 then mem_new_data al cmd frg wnd ts sn una len data (a1, m1, k1) else Done (a1, m1, k1))
        (\<lambda>s. rep B s (let k = ikcp_ack_push sn ts K in if itimediff sn (rcv_nxt k) \<ge> 0 then
             let seg = ikcp_segment_zero
                   \<lparr>seg_conv := conv k, seg_cmd := ucast cmd, seg_frg := ucast frg,
                    seg_wnd := ucast wnd, seg_ts := ts, seg_sn := sn, seg_una := una,
                    seg_len := len, seg_data := take (unat len) data\<rparr>
             in ikcp_parse_data seg k
           else k))"
      using r1 rep_scalars [OF r1] mem_new_data_safe [OF al r1, of cmd frg wnd ts sn una len data] by (simp add: Let_def)
  qed
qed

lemma mem_input_ack_safe:
  assumes r: "rep B (a, m, k) K"
  shows "safely al (checked (mem_input_ack sn ts flag maxack latest_ts (a, m, k))) (\<lambda>(flag', maxack', latest_ts', s).
    \<exists>K'. rep B s K' \<and> input_ack sn ts flag maxack latest_ts K = (flag', maxack', latest_ts', K'))"
proof -
  obtain q where q: "heap a m q B" "blocks_fit a k" "abs_kcp m q k = K" using r by (rule repE)
  define k1 where "k1 = (if itimediff (current k) ts \<ge> 0 then ikcp_update_ack (itimediff (current k) ts) k else k)"
  define K1 where "K1 = (if itimediff (current K) ts \<ge> 0 then ikcp_update_ack (itimediff (current K) ts) K else K)"
  have upd: "abs_kcp m q (ikcp_update_ack rtt k) = ikcp_update_ack rtt (abs_kcp m q k)" for rtt
    by (cases k) (simp add: ikcp_update_ack_def abs_kcp_def Let_def)
  have abs1: "abs_kcp m q k1 = K1" using q(3) rep_scalars [OF r] by (simp add: k1_def K1_def upd)
  obtain m2 q2 k2 where m2: "mem_parse_ack a sn m k1 = Some (m2, k2)" "heap a m2 q2 B" "abs_kcp m2 q2 k2 = ikcp_parse_ack sn K1"
    using mem_parse_ack_eq [OF q(1), of sn k1] abs1 by auto
  obtain k3 where k3: "mem_shrink_buf a m2 k2 = Some k3" "abs_kcp m2 q2 k3 = ikcp_shrink_buf (ikcp_parse_ack sn K1)"
    using mem_shrink_buf_eq [OF m2(2), of k2] m2(3) by auto
  have "same_blocks K K1" by (simp add: K1_def)
  then have "same_blocks K (ikcp_shrink_buf (ikcp_parse_ack sn K1))"
    by (rule same_blocks_trans [OF same_blocks_trans [OF _ same_blocks_input(2)] same_blocks_input(3)])
  from repI [OF m2(2) k3(2) q(2,3) this] have fin: "rep B (a, m2, k3) (ikcp_shrink_buf (ikcp_parse_ack sn K1))" .
  show ?thesis
    using m2(1) k3(1) fin unfolding mem_input_ack_def input_ack_def prod.case Let_def k1_def [symmetric] K1_def [symmetric]
    by simp
qed

lemma mem_input_segment_safe:
  assumes al: "allocates al" and r: "rep B (a, m, k) K"
  shows "safely al (mem_input_segment al cmd frg wnd ts sn una len data flag maxack latest_ts (a, m, k)) (\<lambda>(flag', maxack', latest_ts', s).
    \<exists>K'. rep B s K' \<and> input_segment cmd frg wnd ts sn una len data flag maxack latest_ts K = (flag', maxack', latest_ts', K'))"
proof -
  obtain q where q: "heap a m q B" "blocks_fit a k" "abs_kcp m q k = K" using r by (rule repE)
  let ?k = "k\<lparr>rmt_wnd := ucast wnd\<rparr>" and ?K = "K\<lparr>rmt_wnd := ucast wnd\<rparr>"
  have abs1: "abs_kcp m q ?k = ?K" unfolding q(3) [symmetric] by (cases k) (simp add: abs_kcp_def)
  obtain m2 q2 k2 where m2: "mem_parse_una a una m ?k = Some (m2, k2)" "heap a m2 q2 B" "abs_kcp m2 q2 k2 = ikcp_parse_una una ?K"
    using mem_parse_una_eq [OF q(1), of una ?k] abs1 by auto
  obtain k3 where k3: "mem_shrink_buf a m2 k2 = Some k3" "abs_kcp m2 q2 k3 = ikcp_shrink_buf (ikcp_parse_una una ?K)"
    using mem_shrink_buf_eq [OF m2(2), of k2] m2(3) by auto
  let ?K3 = "ikcp_shrink_buf (ikcp_parse_una una ?K)"
  have "same_blocks K ?K3"
    by (rule same_blocks_trans [OF same_blocks_trans [OF same_blocks_input(7) same_blocks_input(1)] same_blocks_input(3)])
  from repI [OF m2(2) k3(2) q(2,3) this] have r3: "rep B (a, m2, k3) ?K3" .
  then obtain q3 where q3: "heap a m2 q3 B" "blocks_fit a k3" "abs_kcp m2 q3 k3 = ?K3" by (rule repE)
  have probe: "rep B (a, m2, k3\<lparr>probe := probe k3 OR IKCP_ASK_TELL\<rparr>) (?K3\<lparr>probe := probe ?K3 OR IKCP_ASK_TELL\<rparr>)"
    by (rule repI [OF q3(1) _ q3(2,3) same_blocks_input(8)]) (simp add: abs_probe q3(3) rep_scalars [OF r3])
  have first: "mem_input_segment al cmd frg wnd ts sn una len data flag maxack latest_ts (a, m, k) =
     (if ucast cmd = IKCP_CMD_ACK then checked (mem_input_ack sn ts flag maxack latest_ts (a, m2, k3))
      else if ucast cmd = IKCP_CMD_PUSH
      then and_then (mem_input_push al cmd frg wnd ts sn una len data (a, m2, k3)) (\<lambda>s. Done (flag, maxack, latest_ts, s))
      else if ucast cmd = IKCP_CMD_WASK
      then Done (flag, maxack, latest_ts, a, m2, k3\<lparr>probe := probe k3 OR IKCP_ASK_TELL\<rparr>)
      else Done (flag, maxack, latest_ts, a, m2, k3))"
    using m2(1) k3(1) unfolding mem_input_segment_def by simp
  have push: "safely al (and_then (mem_input_push al cmd frg wnd ts sn una len data (a, m2, k3)) (\<lambda>s. Done (flag, maxack, latest_ts, s)))
      (\<lambda>(flag', maxack', latest_ts', s). \<exists>K'. rep B s K' \<and>
        (flag, maxack, latest_ts, input_push cmd frg wnd ts sn una len data ?K3) = (flag', maxack', latest_ts', K'))"
    by (rule safely_and_then [OF mem_input_push_safe [OF al r3]]) simp
  show ?thesis
    unfolding first input_segment_def Let_def
    using mem_input_ack_safe [OF r3, of al sn ts flag maxack latest_ts] push probe r3
    by (simp only: safely.simps prod.case prod.inject split: if_split) blast
qed

lemma mem_input_loop_safe:
  assumes al: "allocates al" and "rep B s K"
  shows "safely al (mem_input_loop al data flag maxack latest_ts s) (\<lambda>r.
    case ikcp_input_loop data flag maxack latest_ts K of
      Inl (ret, K') \<Rightarrow> \<exists>s'. r = Inl (ret, s') \<and> rep B s' K'
    | Inr (flag', maxack', latest_ts', K') \<Rightarrow> \<exists>s'. r = Inr (flag', maxack', latest_ts', s') \<and> rep B s' K')"
  using assms(2)
proof (induction "length data" arbitrary: data flag maxack latest_ts s K rule: less_induct)
  case less
  obtain a m k where s: "s = (a, m, k)" by (rule prod_cases3)
  have r: "rep B (a, m, k) K" using less.prems s by simp
  note step = mem_input_loop.simps [of al data flag maxack latest_ts s] ikcp_input_loop.simps [of data flag maxack latest_ts K]
  show ?case
  proof (cases "length data < unat IKCP_OVERHEAD")
    case True
    with less.prems show ?thesis unfolding step by (cases s) auto
  next
    case False
    obtain cv p0 where p0: "ikcp_decode32u data = (cv, p0)" by (rule prod.exhaust)
    obtain cmd p1 where p1: "ikcp_decode8u p0 = (cmd, p1)" by (rule prod.exhaust)
    obtain frg p2 where p2: "ikcp_decode8u p1 = (frg, p2)" by (rule prod.exhaust)
    obtain wnd p3 where p3: "ikcp_decode16u p2 = (wnd, p3)" by (rule prod.exhaust)
    obtain ts p4 where p4: "ikcp_decode32u p3 = (ts, p4)" by (rule prod.exhaust)
    obtain sn p5 where p5: "ikcp_decode32u p4 = (sn, p5)" by (rule prod.exhaust)
    obtain una p6 where p6: "ikcp_decode32u p5 = (una, p6)" by (rule prod.exhaust)
    obtain len p7 where p7: "ikcp_decode32u p6 = (len, p7)" by (rule prod.exhaust)
    note ps = p0 p1 p2 p3 p4 p5 p6 p7
    have cv: "conv (snd (snd s)) = conv K" using rep_scalars(1) [OF r] s by simp
    let ?bad1 = "cv \<noteq> conv K"
    let ?bad2 = "length data - unat IKCP_OVERHEAD < unat len \<or> sint len < 0"
    let ?bad3 = "ucast cmd \<noteq> IKCP_CMD_PUSH \<and> ucast cmd \<noteq> IKCP_CMD_ACK \<and> ucast cmd \<noteq> IKCP_CMD_WASK \<and> ucast cmd \<noteq> IKCP_CMD_WINS"
    let ?rest = "drop (unat len) (drop (unat IKCP_OVERHEAD) data)"
    let ?seg = "mem_input_segment al cmd frg wnd ts sn una len p7 flag maxack latest_ts s"
    have mem: "mem_input_loop al data flag maxack latest_ts s = (if ?bad1 then Done (Inl (-2, s)) else if ?bad2 then Done (Inl (-2, s))
        else if ?bad3 then Done (Inl (-3, s))
        else and_then ?seg (\<lambda>(flag, maxack, latest_ts, s). mem_input_loop al ?rest flag maxack latest_ts s))"
      unfolding step(1) if_not_P [OF False] ps Let_def prod.case cv ..
    obtain f' x' l' K1 where K1: "input_segment cmd frg wnd ts sn una len p7 flag maxack latest_ts K = (f', x', l', K1)"
      by (metis prod_cases4)
    have list: "ikcp_input_loop data flag maxack latest_ts K = (if ?bad1 then Inl (-2, K) else if ?bad2 then Inl (-2, K)
        else if ?bad3 then Inl (-3, K) else ikcp_input_loop ?rest f' x' l' K1)"
      unfolding step(2) if_not_P [OF False] ps Let_def prod.case K1 ..
    show ?thesis
    proof (cases "?bad1 \<or> ?bad2 \<or> ?bad3")
      case True
      define c :: int where "c = (if ?bad1 \<or> ?bad2 then -2 else -3)"
      have "mem_input_loop al data flag maxack latest_ts s = Done (Inl (c, s))"
        "ikcp_input_loop data flag maxack latest_ts K = Inl (c, K)"
        unfolding mem list c_def using True by (simp_all only: split: if_split) blast+
      with less.prems show ?thesis by (cases s) simp
    next
      case ok: False
      have shorter: "length ?rest < length data" using False by simp
      have run: "mem_input_loop al data flag maxack latest_ts s =
          and_then ?seg (\<lambda>(flag, maxack, latest_ts, s). mem_input_loop al ?rest flag maxack latest_ts s)"
        and rec: "ikcp_input_loop data flag maxack latest_ts K = ikcp_input_loop ?rest f' x' l' K1"
        unfolding mem list using ok by (simp_all only: de_Morgan_disj if_False simp_thms)
      have seg: "safely al ?seg (\<lambda>(flag', maxack', latest_ts', s'). rep B s' K1 \<and> (f', x', l') = (flag', maxack', latest_ts'))"
        using mem_input_segment_safe [OF al r, of cmd frg wnd ts sn una len p7 flag maxack latest_ts] K1 s
        by (cases ?seg) auto
      show ?thesis
        unfolding run rec
      proof (rule safely_and_then [OF seg], clarify)
        fix a1 m1 k1
        assume "rep B (a1, m1, k1) K1"
        from less.hyps [OF shorter this, of f' x' l'] show "safely al (mem_input_loop al ?rest f' x' l' (a1, m1, k1)) (\<lambda>r.
          case ikcp_input_loop ?rest f' x' l' K1 of
            Inl (ret, K') \<Rightarrow> \<exists>s'. r = Inl (ret, s') \<and> rep B s' K'
          | Inr (flag', maxack', latest_ts', K') \<Rightarrow> \<exists>s'. r = Inr (flag', maxack', latest_ts', s') \<and> rep B s' K')" .
      qed
    qed
  qed
qed

lemma abs_input_cwnd: "abs_kcp m q (input_cwnd k) = input_cwnd (abs_kcp m q k)"
proof -
  have set: "abs_kcp m q (k\<lparr>cwnd := c\<rparr>) = (abs_kcp m q k)\<lparr>cwnd := c\<rparr>"
    "abs_kcp m q (k\<lparr>incr := i\<rparr>) = (abs_kcp m q k)\<lparr>incr := i\<rparr>" for k c i
    by (cases k; simp add: abs_kcp_def)+
  show ?thesis
    by (cases "cwnd k < rmt_wnd k"; cases "cwnd k < ssthresh k"; cases "incr k < mss k")
      (simp_all add: input_cwnd_def Let_def set)
qed

lemma mem_input_safe:
  assumes al: "allocates al" and r: "rep B s K"
  shows "safely al (mem_input al data s) (\<lambda>(ret, s'). ret = fst (ikcp_input data K) \<and> rep B s' (snd (ikcp_input data K)))"
proof -
  obtain a0 m0 k0 where s: "s = (a0, m0, k0)" by (rule prod_cases3)
  have una: "snd_una (snd (snd s)) = snd_una K" using rep_scalars(2) r s by simp
  show ?thesis
  proof (cases data)
    case None
    with r show ?thesis by (simp add: mem_input_def ikcp_input_def)
  next
    case (Some d)
    show ?thesis
    proof (cases "length d < unat IKCP_OVERHEAD")
      case True
      with Some r show ?thesis by (simp add: mem_input_def ikcp_input_def)
    next
      case False
      let ?cont = "\<lambda>r. case r of Inl (ret, s) \<Rightarrow> Done (ret, s)
        | Inr (flag, maxack, latest_ts, a, m, k) \<Rightarrow>
            and_then (checked (if flag then mem_parse_fastack a maxack latest_ts m k else Some m)) (\<lambda>m.
              Done (0, a, m, if itimediff (snd_una k) (snd_una K) > 0 then input_cwnd k else k))"
      have run: "mem_input al data s = and_then (mem_input_loop al d False 0 0 s) ?cont"
        by (simp only: mem_input_def una Let_def Some option.case False if_False)
      show ?thesis
      proof (cases "ikcp_input_loop d False 0 0 K")
        case (Inl e)
        obtain ret K' where e: "e = (ret, K')" by (rule prod.exhaust)
        have list: "ikcp_input data K = (ret, K')" using Some False Inl e by (simp add: ikcp_input_def Let_def)
        show ?thesis
          unfolding run list by (rule safely_and_then [OF mem_input_loop_safe [OF al r, of d False 0 0]]) (simp add: Inl e, elim exE conjE, simp)
      next
        case (Inr e)
        obtain flag maxack latest_ts K' where e: "e = (flag, maxack, latest_ts, K')" by (metis prod_cases4)
        define K1 where "K1 = (if flag then ikcp_parse_fastack maxack latest_ts K' else K')"
        define K2 where "K2 = (if itimediff (snd_una K1) (snd_una K) > 0 then input_cwnd K1 else K1)"
        have list: "ikcp_input data K = (0, K2)" using Some False Inr e by (simp add: ikcp_input_def Let_def K1_def K2_def)
        show ?thesis
          unfolding run list
        proof (rule safely_and_then [OF mem_input_loop_safe [OF al r, of d False 0 0]])
          fix x
          assume "case ikcp_input_loop d False 0 0 K of
              Inl (ret, K') \<Rightarrow> \<exists>s'. x = Inl (ret, s') \<and> rep B s' K'
            | Inr (flag', maxack', latest_ts', K') \<Rightarrow> \<exists>s'. x = Inr (flag', maxack', latest_ts', s') \<and> rep B s' K'"
          then obtain a m k where x: "x = Inr (flag, maxack, latest_ts, a, m, k)" and r1: "rep B (a, m, k) K'"
            by (auto simp: Inr e)
          from r1 obtain q where q: "heap a m q B" "blocks_fit a k" "abs_kcp m q k = K'" by (rule repE)
          obtain m1 where m1: "(if flag then mem_parse_fastack a maxack latest_ts m k else Some m) = Some m1" "heap a m1 q B"
              "abs_kcp m1 q k = K1"
            using mem_parse_fastack_eq [OF q(1), of maxack latest_ts k] q by (cases flag) (auto simp: K1_def)
          have cw: "abs_kcp m1 q (input_cwnd k) = input_cwnd K1"
            unfolding m1(3) [symmetric] by (rule abs_input_cwnd)
          have "snd_una k = snd_una K1" unfolding m1(3) [symmetric] by simp
          then have abs2: "abs_kcp m1 q (if itimediff (snd_una k) (snd_una K) > 0 then input_cwnd k else k) = K2"
            by (simp add: K2_def cw m1(3))
          have "same_blocks K' K1" by (simp add: K1_def)
          moreover have "same_blocks K1 K2" by (simp add: K2_def)
          ultimately have "same_blocks K' K2" by (rule same_blocks_trans)
          from repI [OF m1(2) abs2 q(2,3) this]
          show "safely al (?cont x) (\<lambda>(ret, s'). ret = fst (0, K2) \<and> rep B s' (snd (0, K2)))"
            by (simp only: x sum.case prod.case m1(1) checked.simps and_then.simps safely.simps) simp
        qed
      qed
    qed
  qed
qed

section \<open>Creation and parameters\<close>

lemma mem_setmtu_safe:
  assumes al: "allocates al" and r: "rep B (a, m, k) K" and mt: "mt \<le> 1431655741"
  shows "safely al (mem_setmtu al mt a m k) (\<lambda>(ret, s). \<exists>ok. ikcp_setmtu ok mt K = (ret, snd (ikcp_setmtu ok mt K)) \<and>
    rep B s (snd (ikcp_setmtu ok mt K)))"
proof (cases "mt < 50")
  case True
  with r show ?thesis by (simp add: mem_setmtu_def ikcp_setmtu_def)
next
  case False
  obtain q where q: "heap a m q B" "blocks_fit a k" "abs_kcp m q k = K" using r by (rule repE)
  let ?n = "unat ((word_of_int mt + IKCP_OVERHEAD) * 3 :: u32)"
  obtain b m1 where new: "ikcp_malloc al ?n m = (b, m1)" by (rule prod.exhaust)
  have guard: "\<not> (mt < 50 \<or> mt < sint IKCP_OVERHEAD)" using False by simp
  have room: "unat (word_of_int mt :: u32) \<le> unat ((word_of_int mt + 24) * 3 :: u32)"
  proof -
    have "(word_of_int mt + 24) * 3 = (word_of_int ((mt + 24) * 3) :: u32)" by simp
    then have "unat ((word_of_int mt + 24) * 3 :: u32) = nat ((mt + 24) * 3)"
      using False mt unat_word_of_int_u32 [of "(mt + 24) * 3"] by (simp only:) simp
    moreover have "unat (word_of_int mt :: u32) = nat mt" using False mt by (intro unat_word_of_int_u32) simp_all
    ultimately show ?thesis using False by simp
  qed
  have pos: "0 < ?n"
  proof (rule ccontr)
    assume "\<not> 0 < ?n"
    then have "word_of_int ((mt + 24) * 3) = (0 :: u32)" by (simp add: unat_eq_zero)
    then have "uint (word_of_int ((mt + 24) * 3) :: u32) = 0" by (rule arg_cong [where f = uint, THEN trans]) simp
    then have "((mt + 24) * 3) mod 4294967296 = 0" unfolding uint_word_of_int by simp
    then obtain c where c: "(mt + 24) * 3 = 4294967296 * c" by (auto simp: mod_eq_0_iff_dvd elim: dvdE)
    have "0 < c" "c < 2" using False mt c by simp_all
    with c have "(mt + 24) * 3 = 4294967296" by simp
    then show False by presburger
  qed
  show ?thesis
  proof (cases "b = 0")
    case True
    with new guard r malloc_null [of al ?n m m1] show ?thesis
      by (auto simp: mem_setmtu_def ikcp_setmtu_def Let_def intro!: exI [of _ False])
  next
    case b: False
    note s = block_step [OF al new pos b q(1)]
    obtain m2 where m2: "ikcp_free (buffer_at a) m1 = Some m2" "heap (a\<lparr>buffer_at := b\<rparr>) m2 q B" "seg_at m2 = seg_at m1"
      using own_buffer [OF s(1,2) b s(3)] by blast
    let ?k = "k\<lparr>mtu := word_of_int mt, mss := word_of_int mt - IKCP_OVERHEAD, buffer := (word_of_int mt + IKCP_OVERHEAD) * 3\<rparr>"
    have "abs_kcp m2 q ?k = snd (ikcp_setmtu True mt K)"
      using guard unfolding q(3) [symmetric] by (cases k) (simp add: ikcp_setmtu_def abs_kcp_def m2(3) s(4))
    moreover have "blocks_fit (a\<lparr>buffer_at := b\<rparr>) ?k"
      using q(2) room by (simp add: blocks_fit_def)
    ultimately have "rep B (a\<lparr>buffer_at := b\<rparr>, m2, ?k) (snd (ikcp_setmtu True mt K))" using m2(2) by (auto simp: rep_def)
    with new guard b m2(1) show ?thesis
      by (auto simp: mem_setmtu_def ikcp_setmtu_def Let_def intro!: exI [of _ True])
  qed
qed

end
