(* ===== verification/Kcp_Lifetime.thy ===== *)
theory Kcp_Lifetime
  imports Kcp_Heap_Input
begin

text \<open>
  The life of a control block in memory: \<open>ikcp_create\<close>, permitted calls, \<open>ikcp_release\<close>. A call is one of those of
  \<open>Kcp_Endpoint\<close>, on the linked queues and with an allocator; \<open>legal_call\<close> says which are permitted. They never touch
  memory that is not allocated, stay inside the output buffer
  and do what the models on lists do, and after the release the memory has the blocks it had before.
\<close>

section \<open>Calls\<close>

fun mem_step :: "allocator \<Rightarrow> kcp_call \<Rightarrow> kcp_image \<Rightarrow> (u8 list list \<times> kcp_image) outcome" where
  "mem_step al (Call_send b) (a, m, k) =
     and_then (mem_send al (Some b) (int (length b)) a m k) (\<lambda>(ret, m, k). Done ([], a, m, k))"
| "mem_step al (Call_recv len) (a, m, k) =
     and_then (checked (mem_recv a True len m k)) (\<lambda>(ret, out, m, k). Done ([], a, m, k))"
| "mem_step al (Call_input data) s = and_then (mem_input al data s) (\<lambda>(ret, s). Done ([], s))"
| "mem_step al (Call_update cur) (a, m, k) =
     and_then (checked (mem_update a cur m k)) (\<lambda>(m, k, out). Done (out, a, m, k))"
| "mem_step al Call_flush (a, m, k) =
     and_then (checked (mem_flush a m k)) (\<lambda>(m, k, out). Done (out, a, m, k))"
| "mem_step al (Call_nodelay nd iv resend nc) (a, m, k) = Done ([], a, m, snd (ikcp_nodelay nd iv resend nc k))"
| "mem_step al (Call_interval iv) (a, m, k) = Done ([], a, m, snd (ikcp_interval iv k))"
| "mem_step al (Call_wndsize sw rw) (a, m, k) = Done ([], a, m, snd (ikcp_wndsize sw rw k))"
| "mem_step al (Call_setmtu mt) (a, m, k) = and_then (mem_setmtu al mt a m k) (\<lambda>(ret, s). Done ([], s))"
| "mem_step al (Call_stream mode) (a, m, k) = Done ([], a, m, k\<lparr>stream := mode\<rparr>)"

text \<open>
  The calls that a program may make, as in \<open>endpoint_step\<close>: with buffers that are not null and their lengths, and without
  lowering the mtu while segments wait, after which a flush can run over the output buffer
  (\<open>lowered_mtu_overruns\<close>). The mtu is at most 1431655741 here: beyond that the size
  \<open>(mtu + 24) * 3\<close> of the buffer does not fit 32 bits, and the buffer is shorter than the mtu.
\<close>

fun legal_call :: "kcp_call \<Rightarrow> kcp_image \<Rightarrow> bool" where
  "legal_call (Call_send b) s \<longleftrightarrow> length b < half32"
| "legal_call (Call_wndsize sw rw) s \<longleftrightarrow> sw < 2147483648 \<and> rw < 2147483648"
| "legal_call (Call_setmtu mt) (a, m, k) \<longleftrightarrow> mt \<le> 1431655741 \<and>
     (int (unat (mtu k)) \<le> mt \<or>
      iqueue_is_empty (snd_buf_at a) (links_of m) = Some True \<and> iqueue_is_empty (snd_queue_at a) (links_of m) = Some True)"
| "legal_call c s \<longleftrightarrow> True"

text \<open>The flush after a call that is not permitted writes behind the end of the buffer.\<close>

lemma lowered_mtu_overruns: "overrun (buffer lowered_mtu) (snd (ikcp_update 100 lowered_mtu))"
proof -
  have "324 \<in> length ` set (snd (ikcp_update 100 lowered_mtu))"
    by (metis lowered_mtu_exceeded(3) list.set_intros(1) list.set_map)
  then obtain d where "d \<in> set (snd (ikcp_update 100 lowered_mtu))" "length d = 324" by auto
  then show ?thesis unfolding overrun_def lowered_mtu_exceeded(2) by (intro bexI [of _ d]) simp_all
qed

section \<open>Creation\<close>

lemma malloc_range:
  assumes "allocates al" and "ikcp_malloc al n m = (p, m')" and "p \<noteq> 0" and "i < n"
  shows "p + of_nat i \<notin> blocks m" and "p + of_nat i \<notin> dom (links_of m)" and "unat p + n \<le> 2 ^ 64"
proof -
  have p: "p = fst (ikcp_malloc al n m)" using assms(2) by simp
  have "unat p + n \<le> 2 ^ 64 \<and> (\<forall>i<n. p + of_nat i \<notin> blocks m \<union> dom (links_of m))"
    using assms(1,3) unfolding allocates_def p Let_def by blast
  with assms(4) show "p + of_nat i \<notin> blocks m" "p + of_nat i \<notin> dom (links_of m)" "unat p + n \<le> 2 ^ 64" by auto
qed

lemma init_four:
  assumes "distinct [x1, x2, x3, x4]" and "{x1, x2, x3, x4} \<subseteq> dom (links_of m)"
  shows "\<exists>m'. do {m \<leftarrow> on_links (iqueue_init x1) m; m \<leftarrow> on_links (iqueue_init x2) m;
      m \<leftarrow> on_links (iqueue_init x3) m; on_links (iqueue_init x4) m} = Some m' \<and>
    queue (links_of m') x1 [] \<and> queue (links_of m') x2 [] \<and> queue (links_of m') x3 [] \<and> queue (links_of m') x4 [] \<and>
    blocks m' = blocks m \<and> seg_at m' = seg_at m"
proof -
  obtain l1 where l1: "iqueue_init x1 (links_of m) = Some l1" "queue l1 x1 []" "unchanged {x1} (links_of m) l1"
    using iq.init_law [of x1 "links_of m"] assms(2) by auto
  obtain l2 where l2: "iqueue_init x2 l1 = Some l2" "queue l2 x2 []" "unchanged {x2} l1 l2"
    using iq.init_law [of x2 l1] assms(2) l1(3) by (auto simp: unchanged_def)
  obtain l3 where l3: "iqueue_init x3 l2 = Some l3" "queue l3 x3 []" "unchanged {x3} l2 l3"
    using iq.init_law [of x3 l2] assms(2) l1(3) l2(3) by (auto simp: unchanged_def)
  obtain l4 where l4: "iqueue_init x4 l3 = Some l4" "queue l4 x4 []" "unchanged {x4} l3 l4"
    using iq.init_law [of x4 l3] assms(2) l1(3) l2(3) l3(3) by (auto simp: unchanged_def)
  have apart: "ring x [] \<inter> {y} = {}" if "x \<noteq> y" for x y using that by (simp add: ring_def)
  have "queue l4 x1 []" "queue l4 x2 []" "queue l4 x3 []"
    using assms(1) l1(2) l2(2) l3(2) iq.que_keeps [OF _ l2(3) apart] iq.que_keeps [OF _ l3(3) apart]
      iq.que_keeps [OF _ l4(3) apart] by auto
  then show ?thesis using l1(1) l2(1) l3(1) l4(1,2) by (simp add: on_links_def)
qed

lemma abs_fresh: "abs_kcp m \<lparr>snd_queue_nodes = [], rcv_queue_nodes = [], snd_buf_nodes = [], rcv_buf_nodes = []\<rparr> (kcp_fresh cv) = kcp_fresh cv"
  by (simp add: abs_kcp_def kcp_fresh_def ikcp_create_def)

lemma mem_create_safe:
  assumes al: "allocates al"
  shows "safely al (mem_create al cv m) (\<lambda>(m', r). case r of
      None \<Rightarrow> blocks m' = blocks m
    | Some (a, k) \<Rightarrow> rep (blocks m) (a, m', k) (kcp_fresh cv))"
proof -
  obtain p m1 where new1: "ikcp_malloc al sizeof_kcp m = (p, m1)" by (rule prod.exhaust)
  show ?thesis
  proof (cases "p = 0")
    case True
    with new1 malloc_null [of al sizeof_kcp m m1] show ?thesis by (simp add: mem_create_def)
  next
    case p: False
    have m1: "m1 = m\<lparr>blocks := insert p (blocks m)\<rparr>" "p \<notin> blocks m"
      using malloc_fresh [OF al new1 _ p] by (simp_all add: sizeof_kcp_def)
    note range = malloc_range [OF al new1 p]
    define b_size where "b_size = unat ((mtu (kcp_fresh cv) + IKCP_OVERHEAD) * 3)"
    have size: "0 < b_size" by (simp add: b_size_def kcp_fresh_def ikcp_create_def)
    let ?m = "put_heads (pointers_in p 0) m1"
    obtain b m2 where new2: "ikcp_malloc al b_size ?m = (b, m2)" by (rule prod.exhaust)
    define a where "a = pointers_in p b"
    have heads_eq: "heads (pointers_in p 0) = heads a" by (simp add: a_def pointers_in_def heads_def)
    have heads_at: "heads a = [p + of_nat 136, p + of_nat 152, p + of_nat 168, p + of_nat 184]"
      by (simp add: a_def pointers_in_def heads_def)
    have out: "set (heads a) \<inter> blocks m = {}"
      using range(1) [of 136] range(1) [of 152] range(1) [of 168] range(1) [of 184] by (simp add: heads_at sizeof_kcp_def)
    have dist: "distinct (heads a)" "p \<notin> set (heads a)" by (simp_all add: heads_at)
    have nz: "p + of_nat i \<noteq> 0" if "0 < i" "i < 272" for i
    proof
      assume z: "p + of_nat i = 0"
      have "unat p + i < 2 ^ 64" using range(3) [of 0] that by (simp add: sizeof_kcp_def)
      then have "unat (p + of_nat i) = unat p + i" using that by (simp add: unat_word_ariths unat_of_nat)
      with z that show False by simp
    qed
    have zero: "0 \<notin> set (heads a)" using nz [of 136] nz [of 152] nz [of 168] nz [of 184] by (auto simp: heads_at)
    show ?thesis
    proof (cases "b = 0")
      case True
      have m2: "m2 = ?m" using new2 True malloc_null by simp
      have "ikcp_free p ?m = Some (?m\<lparr>blocks := blocks ?m - {p}, links_of := (links_of ?m)(p := None)\<rparr>)"
        by (simp add: ikcp_free_def put_heads_def m1)
      moreover have "mem_create al cv m = and_then (checked (ikcp_free p m2)) (\<lambda>m. Done (drop_heads (pointers_in p b) m, None))"
        unfolding mem_create_def new1 Let_def prod.case if_not_P [OF p] b_size_def [symmetric] new2 if_P [OF True] ..
      ultimately show ?thesis by (simp add: m2 drop_heads_def put_heads_def m1)
    next
      case b: False
      note f = malloc_fresh [OF al new2 size b]
      have b_out: "b \<notin> blocks m" "b \<noteq> p" "b \<notin> set (heads a)"
        using f(2,3) m1 by (auto simp: put_heads_def heads_eq split: if_splits)
      have "set (heads a) \<subseteq> dom (links_of m2)" by (auto simp: f(1) put_heads_def heads_eq)
      then have ptrs: "distinct [snd_queue_at a, rcv_queue_at a, snd_buf_at a, rcv_buf_at a]"
          "{snd_queue_at a, rcv_queue_at a, snd_buf_at a, rcv_buf_at a} \<subseteq> dom (links_of m2)"
        using dist(1) by (simp_all add: heads_def)
      obtain m3 where m3: "do {m \<leftarrow> on_links (iqueue_init (snd_queue_at a)) m2; m \<leftarrow> on_links (iqueue_init (rcv_queue_at a)) m;
            m \<leftarrow> on_links (iqueue_init (snd_buf_at a)) m; on_links (iqueue_init (rcv_buf_at a)) m} = Some m3"
          "queue (links_of m3) (snd_queue_at a) []" "queue (links_of m3) (rcv_queue_at a) []"
          "queue (links_of m3) (snd_buf_at a) []" "queue (links_of m3) (rcv_buf_at a) []" "blocks m3 = blocks m2"
        using init_four [OF ptrs] by blast
      let ?q = "\<lparr>snd_queue_nodes = [], rcv_queue_nodes = [], snd_buf_nodes = [], rcv_buf_nodes = []\<rparr>"
      have own: "own_blocks a = [b, p]" using b by (simp add: own_blocks_def a_def pointers_in_def)
      have ptr: "buffer_at a = b" "acklist_at a = 0" by (simp_all add: a_def pointers_in_def)
      have "heap a m3 ?q (blocks m)"
        unfolding heap_def queues_in_def own ptr
        using m3(2-6) dist zero out b b_out m1(2)
        by (auto simp: all_nodes_def f(1) put_heads_def m1(1))
      moreover have "blocks_fit a (kcp_fresh cv)" by (simp add: blocks_fit_def kcp_fresh_def ikcp_create_def)
      ultimately have "rep (blocks m) (a, m3, kcp_fresh cv) (kcp_fresh cv)"
        using abs_fresh by (auto simp: rep_def)
      moreover have "mem_create al cv m = Done (m3, Some (a, kcp_fresh cv))"
        unfolding mem_create_def new1 Let_def prod.case if_not_P [OF p] b_size_def [symmetric] new2 if_not_P [OF b]
          a_def [symmetric] m3(1) by simp
      ultimately show ?thesis by simp
    qed
  qed
qed

section \<open>Every call\<close>

definition same_sizes :: "ikcpcb \<Rightarrow> ikcpcb \<Rightarrow> bool" where
  "same_sizes k' k \<longleftrightarrow> ackblock k' = ackblock k \<and> ackcount k' = ackcount k \<and> mtu k' = mtu k \<and> buffer k' = buffer k"

lemma same_blocks_flush: "same_blocks K (fst (ikcp_flush K))"
proof (cases "updated K = 0")
  case True
  then show ?thesis by (simp add: ikcp_flush_def)
next
  case False
  obtain K1 seg b where o: "flush_owed K = (K1, seg, b)" by (rule prod_cases3)
  have K1: "ackblock K1 = ackblock K" "ackcount K1 = 0" "mtu K1 = mtu K" "buffer K1 = buffer K"
    using o by (auto simp: flush_owed_def flush_probe_timer_def Let_def)
  have move: "same_sizes (flush_move w wnd k) k" for w wnd k
  proof (induction w wnd k rule: flush_move.induct)
    case (1 w wnd k)
    then show ?case
      by (cases "itimediff (snd_nxt k) (snd_una k + w) < 0"; cases "snd_queue k")
        (simp_all add: flush_move.simps [of w wnd k] same_sizes_def)
  qed
  have mark: "same_sizes k' k"
    if "flush_segments r rt wnd ss k b c l = (buf, k', b', c', l')" for r rt wnd ss k b c l buf k' b' c' l'
    using that
  proof (induction ss arbitrary: k b c l buf)
    case (Cons s ss)
    obtain s1 k1 b1 ch lo where t: "flush_turn r rt wnd s k b = (s1, k1, b1, ch, lo)" by (metis prod_cases5)
    have "same_sizes k1 k"
      using t by (auto simp: flush_turn_def same_sizes_def Let_def split: prod.splits if_splits)
    moreover obtain buf1 where "flush_segments r rt wnd ss k1 b1 (if ch then c + 1 else c) (l \<or> lo) = (buf1, k', b', c', l')"
      using Cons.prems unfolding flush_segments_turn t by (auto simp: Let_def split: prod.splits)
    ultimately show ?case using Cons.IH by (auto simp: same_sizes_def)
  qed (simp add: same_sizes_def)
  have cong: "same_sizes (flush_congestion w r c l k) k" for w r c l k
    by (simp add: flush_congestion_def congestion_change_def congestion_lost_def same_sizes_def Let_def)
  have send: "same_sizes (fst (flush_send w wnd k b)) k" for w wnd k b
    unfolding flush_send_def Let_def using mark cong by (auto simp: same_sizes_def split: prod.splits)
  show ?thesis using False o K1 move send by (simp add: ikcp_flush_def same_blocks_def same_sizes_def Let_def)
qed

lemma same_blocks_update: "same_blocks K (fst (ikcp_update cur K))"
proof -
  obtain u t where "ikcp_update cur K = ikcp_flush (K\<lparr>current := cur, updated := u, ts_flush := t\<rparr>) \<or>
      ikcp_update cur K = (K\<lparr>current := cur\<rparr>, [])"
    unfolding ikcp_update_eq by (cases "flush_due cur K") auto
  then show ?thesis
    using same_blocks_flush [of "K\<lparr>current := cur, updated := u, ts_flush := t\<rparr>"] by (auto simp: same_blocks_def)
qed

lemma same_blocks_recv:
  assumes "ikcp_recv has_buffer len K = Some (ret, out, K')"
  shows "same_blocks K K'"
proof -
  let ?k = "if len < 0 then K else drop_front (length (first_message (rcv_queue K))) K"
  let ?m = "ikcp_move_ready ?k"
  have "same_blocks K ?k" by (simp add: same_blocks_def drop_front_def)
  then have m: "same_blocks K ?m" by (rule same_blocks_trans) simp
  have "K' = K \<or> K' = ?m \<or> K' = ?m\<lparr>probe := probe ?m OR IKCP_ASK_TELL\<rparr>"
    using assms unfolding ikcp_recv_eq Let_def by (rule recv_result_cases)
  then show ?thesis using m same_blocks_trans [OF m same_blocks_input(8)] by auto
qed

lemma abs_params:
  "abs_kcp m q (snd (ikcp_nodelay nd iv resend nc k)) = snd (ikcp_nodelay nd iv resend nc (abs_kcp m q k))"
  "abs_kcp m q (snd (ikcp_interval iv k)) = snd (ikcp_interval iv (abs_kcp m q k))"
  "abs_kcp m q (snd (ikcp_wndsize sw rw k)) = snd (ikcp_wndsize sw rw (abs_kcp m q k))"
  "abs_kcp m q (k\<lparr>stream := mode\<rparr>) = (abs_kcp m q k)\<lparr>stream := mode\<rparr>"
  by (cases k; simp add: ikcp_nodelay_def ikcp_interval_def ikcp_wndsize_def abs_kcp_def Let_def)+

lemma same_blocks_params:
  "same_blocks K (snd (ikcp_nodelay nd iv resend nc K))" "same_blocks K (snd (ikcp_interval iv K))"
  "same_blocks K (snd (ikcp_wndsize sw rw K))" "same_blocks K (K\<lparr>stream := mode\<rparr>)"
  by (simp_all add: same_blocks_def ikcp_nodelay_def ikcp_interval_def ikcp_wndsize_def Let_def)

lemma rep_map:
  assumes "rep B (a, m, k) K" and "\<And>m q. abs_kcp m q (f k) = F (abs_kcp m q k)" and "same_blocks K (F K)"
  shows "rep B (a, m, f k) (F K)"
proof -
  obtain q where q: "heap a m q B" "blocks_fit a k" "abs_kcp m q k = K" using assms(1) by (rule repE)
  show ?thesis by (rule repI [OF q(1) _ q(2,3) assms(3)]) (simp add: assms(2) q(3))
qed

lemma rep_empty:
  assumes "rep B (a, m, k) K"
  shows "iqueue_is_empty (snd_buf_at a) (links_of m) = Some True \<Longrightarrow> snd_buf K = []"
    and "iqueue_is_empty (snd_queue_at a) (links_of m) = Some True \<Longrightarrow> snd_queue K = []"
proof -
  obtain q where q: "heap a m q B" "abs_kcp m q k = K" using assms by (rule repE)
  show "iqueue_is_empty (snd_buf_at a) (links_of m) = Some True \<Longrightarrow> snd_buf K = []"
    and "iqueue_is_empty (snd_queue_at a) (links_of m) = Some True \<Longrightarrow> snd_queue K = []"
    using heap_empty [OF q(1), of Snd_buf] heap_empty [OF q(1), of Snd_queue] q(2) by auto
qed

lemma rep_no_overrun:
  assumes "heap a m q B" and "blocks_fit a k" and "abs_kcp m q k = K" and "\<forall>d\<in>set out. d \<noteq> [] \<and> length d \<le> unat (mtu K)"
  shows "\<not> overrun (buffer k) out"
proof -
  have "unat (mtu K) \<le> unat (buffer k)" using assms(2,3) by (auto simp: blocks_fit_def)
  with assms(4) show ?thesis by (fastforce simp: overrun_def)
qed

lemma mem_step_safe:
  assumes al: "allocates al" and r: "rep B s K" and inv: "endpoint_inv K" and legal: "legal_call call s"
  shows "safely al (mem_step al call s) (\<lambda>(out, s'). \<exists>K'. endpoint_step K call out K' \<and> rep B s' K')"
proof -
  obtain a m k where s: "s = (a, m, k)" by (rule prod_cases3)
  note rk = r [unfolded s]
  obtain q where q: "heap a m q B" "blocks_fit a k" "abs_kcp m q k = K" using rk by (rule repE)
  show ?thesis
  proof (cases call)
    case (Call_send b)
    have "0 < mss k" using inv cfg_inv_mss(1) rep_scalars(7) [OF rk] by (simp add: endpoint_inv_def kcp_inv_def word_less_nat_alt)
    have "safely al (mem_send al (Some b) (int (length b)) a m k) (\<lambda>(ret, m', k').
        \<exists>K'. endpoint_step K call [] K' \<and> rep B (a, m', k') K')"
    proof (cases "mem_send al (Some b) (int (length b)) a m k")
      case (Done x)
      obtain ret m' k' where x: "x = (ret, m', k')" by (rule prod_cases3)
      with Done mem_send_safe [OF al q(1) \<open>0 < mss k\<close>, of "Some b" "int (length b)"] obtain q' where
        t: "heap a m' q' B" "ikcp_send mem_ok (Some b) (int (length b)) K = Some (ret, abs_kcp m' q' k')"
          "ackcount k' = ackcount k" "ackblock k' = ackblock k" "mtu k' = mtu k" "buffer k' = buffer k" by (auto simp: q(3))
      have "rep B (a, m', k') (abs_kcp m' q' k')" using t q(2) by (auto simp: rep_def blocks_fit_def)
      moreover have "endpoint_step K call [] (abs_kcp m' q' k')"
        using t(2) legal Call_send by (auto intro: step_send)
      ultimately show ?thesis using Done x by auto
    qed (use mem_send_safe [OF al q(1) \<open>0 < mss k\<close>, of "Some b" "int (length b)"] in simp_all)
    then show ?thesis unfolding Call_send s mem_step.simps by (rule safely_and_then) auto
  next
    case (Call_recv len)
    obtain ret out K' where K': "ikcp_recv True len K = Some (ret, out, K')"
      by (cases "ikcp_recv True len K") (auto simp: ikcp_recv_eq Let_def split: if_splits)
    obtain m' q' k' where t: "mem_recv a True len m k = Some (ret, out, m', k')" "heap a m' q' B" "abs_kcp m' q' k' = K'"
      using mem_recv_eq [OF q(1), of True len k] by (auto simp: q(3) K')
    have "rep B (a, m', k') K'" by (rule repI [OF t(2,3) q(2,3) same_blocks_recv [OF K']])
    moreover have "endpoint_step K call [] K'" using K' Call_recv by (auto intro: step_recv)
    ultimately show ?thesis using t(1) by (auto simp: Call_recv s)
  next
    case (Call_input data)
    have "endpoint_step K call [] (snd (ikcp_input data K))" by (simp add: Call_input step_input)
    then show ?thesis
      unfolding Call_input s mem_step.simps by (intro safely_and_then [OF mem_input_safe [OF al rk]]) auto
  next
    case (Call_update cur)
    obtain K' out where K': "ikcp_update cur K = (K', out)" by (rule prod.exhaust)
    obtain m' q' k' where t: "mem_update a cur m k = Some (m', k', out)" "heap a m' q' B" "abs_kcp m' q' k' = K'"
      using mem_update_eq [OF q(1,2), of cur] rep_no_overrun [OF q endpoint_inv_update_datagrams [OF inv, of cur]]
      by (auto simp: q(3) K')
    have "rep B (a, m', k') K'" using repI [OF t(2,3) q(2,3)] same_blocks_update [of K cur] by (simp add: K')
    moreover have "endpoint_step K call out K'" using step_update [of K cur] K' Call_update by simp
    ultimately show ?thesis using t(1) by (auto simp: Call_update s)
  next
    case Call_flush
    obtain K' out where K': "ikcp_flush K = (K', out)" by (rule prod.exhaust)
    obtain m' q' k' where t: "mem_flush a m k = Some (m', k', out)" "heap a m' q' B" "abs_kcp m' q' k' = K'"
      using mem_flush_eq [OF q(1,2)] rep_no_overrun [OF q endpoint_inv_flush_datagrams [OF inv]] by (auto simp: q(3) K')
    have "rep B (a, m', k') K'" using repI [OF t(2,3) q(2,3)] same_blocks_flush [of K] by (simp add: K')
    moreover have "endpoint_step K call out K'" using step_flush [of K] K' Call_flush by simp
    ultimately show ?thesis using t(1) by (auto simp: Call_flush s)
  next
    case (Call_nodelay nd iv resend nc)
    have "rep B (a, m, snd (ikcp_nodelay nd iv resend nc k)) (snd (ikcp_nodelay nd iv resend nc K))"
      by (rule rep_map [where f = "\<lambda>k. snd (ikcp_nodelay nd iv resend nc k)" and F = "\<lambda>k. snd (ikcp_nodelay nd iv resend nc k)", OF rk abs_params(1) same_blocks_params(1)])
    with step_nodelay show ?thesis unfolding Call_nodelay s by simp blast
  next
    case (Call_interval iv)
    have "rep B (a, m, snd (ikcp_interval iv k)) (snd (ikcp_interval iv K))"
      by (rule rep_map [where f = "\<lambda>k. snd (ikcp_interval iv k)" and F = "\<lambda>k. snd (ikcp_interval iv k)", OF rk abs_params(2) same_blocks_params(2)])
    with step_interval show ?thesis unfolding Call_interval s by simp blast
  next
    case (Call_wndsize sw rw)
    have "rep B (a, m, snd (ikcp_wndsize sw rw k)) (snd (ikcp_wndsize sw rw K))"
      by (rule rep_map [where f = "\<lambda>k. snd (ikcp_wndsize sw rw k)" and F = "\<lambda>k. snd (ikcp_wndsize sw rw k)", OF rk abs_params(3) same_blocks_params(3)])
    with step_wndsize legal show ?thesis unfolding Call_wndsize s by simp blast
  next
    case (Call_setmtu mt)
    have mt: "mt \<le> 1431655741" "int (unat (mtu K)) \<le> mt \<or> snd_buf K = [] \<and> snd_queue K = []"
      using legal rep_empty [OF rk] rep_scalars(8) [OF rk] by (auto simp: Call_setmtu s)
    have step: "endpoint_step K call [] (snd (ikcp_setmtu ok mt K))" for ok
      using mt by (simp add: Call_setmtu step_setmtu)
    show ?thesis
      unfolding Call_setmtu s mem_step.simps
      by (rule safely_and_then [OF mem_setmtu_safe [OF al rk mt(1)]]) (clarsimp, use step Call_setmtu in blast)
  next
    case (Call_stream mode)
    have "rep B (a, m, k\<lparr>stream := mode\<rparr>) (K\<lparr>stream := mode\<rparr>)"
      by (rule rep_map [where f = "\<lambda>k. k\<lparr>stream := mode\<rparr>" and F = "\<lambda>k. k\<lparr>stream := mode\<rparr>", OF rk abs_params(4) same_blocks_params(4)])
    with step_stream show ?thesis unfolding Call_stream s by simp blast
  qed
qed

section \<open>Runs\<close>

inductive mem_run :: "allocator \<Rightarrow> u32 \<Rightarrow> addr set \<Rightarrow> kcp_image \<Rightarrow> bool" for al cv B where
  mem_start: "mem_create al cv m = Done (m', Some (a, k)) \<Longrightarrow> blocks m = B \<Longrightarrow> mem_run al cv B (a, m', k)"
| mem_call: "mem_run al cv B s \<Longrightarrow> legal_call call s \<Longrightarrow> mem_step al call s = Done (out, s') \<Longrightarrow> mem_run al cv B s'"

lemma mem_run_rep:
  assumes al: "allocates al" and "mem_run al cv B s"
  shows "\<exists>K. endpoint_run cv K \<and> rep B s K"
  using assms(2)
proof induction
  case (mem_start m m' a k)
  then have "rep B (a, m', k) (kcp_fresh cv)" using mem_create_safe [OF al, of cv m] by simp
  with run_fresh show ?case by blast
next
  case (mem_call s call out s')
  then obtain K where K: "endpoint_run cv K" "rep B s K" by blast
  obtain K' where "endpoint_step K call out K'" "rep B s' K'"
    using mem_step_safe [OF al K(2) endpoint_run_inv [OF K(1)] mem_call.hyps(2)] mem_call.hyps(3) by auto
  with K(1) run_step show ?case by blast
qed

lemma mem_run_call:
  assumes "allocates al" and "mem_run al cv B s" and "legal_call call s"
  shows "safely al (mem_step al call s) (\<lambda>(out, s').
    \<exists>K K'. endpoint_run cv K \<and> rep B s K \<and> endpoint_step K call out K' \<and> rep B s' K')"
proof -
  obtain K where K: "endpoint_run cv K" "rep B s K" using mem_run_rep [OF assms(1,2)] by blast
  from mem_step_safe [OF assms(1) K(2) endpoint_run_inv [OF K(1)] assms(3)] show ?thesis
    by (cases "mem_step al call s") (use K in auto)
qed

lemma mem_run_release:
  assumes "allocates al" and "mem_run al cv B (a, m, k)"
  shows "\<exists>m'. ikcp_release a m = Some m' \<and> blocks m' = B"
proof -
  obtain K where "rep B (a, m, k) K" using mem_run_rep [OF assms] by blast
  then obtain q where q: "heap a m q B" by (rule repE)
  with release_frees [OF heap_owns [OF q]] heap_rest [OF q] show ?thesis by auto
qed

section \<open>Properties\<close>

text \<open>
  C6 (calls stay in memory). After \<open>ikcp_create\<close> and any permitted calls (\<open>legal_call\<close>: buffers that are not null,
  \<open>ikcp_send\<close> with less than 2 GB, windows below \<open>2 ^ 31\<close>, an mtu of at most 1431655741 that is not lowered while
  segments wait to be sent or acknowledged), each further permitted call follows only links of allocated
  nodes, writes no datagram beyond the output buffer, frees only what is allocated, and never frees twice; its loops over the queues end. It takes
  the four queues from the lists of one reachable control block to those that the same call on the models on
  lists leads to, and hands the same datagrams to the callback. The only other way such a call can end is an
  allocation that is refused. After a call that is not permitted a flush may overrun the buffer (\<open>lowered_mtu_overruns\<close>).
\<close>

theorem calls_stay_in_memory:
  assumes "allocates al" and "mem_run al cv B s" and "legal_call call s"
  shows "safely al (mem_step al call s) (\<lambda>(out, s').
    \<exists>K K'. endpoint_run cv K \<and> rep B s K \<and> endpoint_step K call out K' \<and> rep B s' K')"
  using assms by (rule mem_run_call)

text \<open>An allocator that places the next block behind the others, where there is room.\<close>

definition bump :: allocator where
  "bump = \<lparr>malloc_hook = None, libc_malloc = (\<lambda>n m.
     let p = 4096 * (1 + of_nat (card (blocks m)))
     in if unat p + n \<le> 2 ^ 64 \<and> (\<forall>i<n. p + of_nat i \<notin> blocks m \<union> dom (links_of m)) then p else 0)\<rparr>"

definition empty_memory :: kcp_memory where
  "empty_memory = \<lparr>links_of = (\<lambda>p. None), seg_at = (\<lambda>p. ikcp_segment_zero), blocks = {}\<rparr>"

lemma allocates_bump: "allocates bump"
  by (simp add: allocates_def ikcp_malloc_def bump_def Let_def)

lemma bump_first: "ikcp_malloc bump sizeof_kcp empty_memory = (4096, empty_memory\<lparr>blocks := {4096}\<rparr>)"
  by (simp add: ikcp_malloc_def bump_def empty_memory_def sizeof_kcp_def Let_def)

lemma bump_second:
  "ikcp_malloc bump 4272 (put_heads (pointers_in 4096 0) (empty_memory\<lparr>blocks := {4096}\<rparr>)) =
    (8192, put_heads (pointers_in 4096 0) (empty_memory\<lparr>blocks := {4096, 8192}\<rparr>))"
proof -
  have far: "8192 + of_nat i \<noteq> x" if "i < 4272" "unat x < 8192" for i and x :: addr
  proof
    assume x: "8192 + of_nat i = x"
    have "unat (8192 + of_nat i :: addr) = 8192 + i" using that(1) by (simp add: unat_word_ariths unat_of_nat)
    with x that(2) show False by simp
  qed
  have "\<forall>i<4272. 8192 + of_nat i \<notin> {4096} \<union> set (heads (pointers_in 4096 0))"
    using far by (simp add: heads_def pointers_in_def)
  then show ?thesis
    by (simp add: ikcp_malloc_def bump_def put_heads_def empty_memory_def Let_def dom_def insert_commute cong: if_cong)
qed

lemma bump_create: "\<exists>m a k. mem_create bump 9 empty_memory = Done (m, Some (a, k))"
proof -
  have size: "unat ((mtu (kcp_fresh 9) + IKCP_OVERHEAD) * 3) = 4272" by (simp add: kcp_fresh_def ikcp_create_def)
  obtain X a k where c: "mem_create bump 9 empty_memory = and_then (checked X) (\<lambda>m. Done (m, Some (a, k)))"
    unfolding mem_create_def bump_first Let_def prod.case size bump_second by simp
  show ?thesis
  proof (cases X)
    case None
    with c mem_create_safe [OF allocates_bump, of 9 empty_memory] show ?thesis by simp
  next
    case (Some m)
    with c show ?thesis by simp
  qed
qed

lemma bump_run: "\<exists>m a k. mem_run bump 9 {} (a, m, k)"
proof -
  obtain m a k where "mem_create bump 9 empty_memory = Done (m, Some (a, k))" using bump_create by blast
  then have "mem_run bump 9 {} (a, m, k)" by (rule mem_start) (simp add: empty_memory_def)
  then show ?thesis by blast
qed

theorem calls_stay_in_memory_witness:
  "\<exists>s. mem_run bump 9 {} s \<and> mem_step bump (Call_send [1, 2, 3]) s \<noteq> Undefined"
proof -
  obtain m a k where r: "mem_run bump 9 {} (a, m, k)" using bump_run by blast
  have "legal_call (Call_send [1, 2, 3]) (a, m, k)" by simp
  from calls_stay_in_memory [OF allocates_bump r this] have "mem_step bump (Call_send [1, 2, 3]) (a, m, k) \<noteq> Undefined" by auto
  with r show ?thesis by blast
qed

text \<open>
  C7 (nothing leaks). After \<open>ikcp_create\<close> and any permitted calls (\<open>legal_call\<close>), \<open>ikcp_release\<close> comes to an end without touching memory
  that is not allocated, and leaves exactly the blocks in memory that were there before the creation: every segment, buffer
  and list of acknowledgements that was allocated on the way has been freed once.
\<close>

theorem nothing_leaks:
  assumes "allocates al" and "mem_run al cv B (a, m, k)"
  shows "\<exists>m'. ikcp_release a m = Some m' \<and> blocks m' = B"
  using assms by (rule mem_run_release)

theorem nothing_leaks_witness:
  "\<exists>m a k m'. mem_create bump 9 empty_memory = Done (m, Some (a, k)) \<and> ikcp_release a m = Some m' \<and> blocks m' = {}"
proof -
  obtain m a k where c: "mem_create bump 9 empty_memory = Done (m, Some (a, k))" using bump_create by blast
  then have "mem_run bump 9 {} (a, m, k)" by (rule mem_start) (simp add: empty_memory_def)
  from nothing_leaks [OF allocates_bump this] c show ?thesis by blast
qed

end
