(* ===== verification/Printing.thy ===== *)
theory Printing
  imports Prelude
begin

text \<open>
  Text: the conversions of \<open>printf\<close> that the program uses, and its two functions called
  \<open>print_char_array_in_byte\<close>, in \<open>lib/libfec/source/common.cpp\<close> and in \<open>lib/libfec/lib/source/fec.c\<close> (here
  \<open>print_indexed_bytes\<close>). What is printed is the result.
\<close>

section \<open>Numbers\<close>

fun decimal :: "nat \<Rightarrow> string" where
  "decimal n = (if n < 10 then [char_of (48 + n)] else decimal (n div 10) @ [char_of (48 + n mod 10)])"

declare decimal.simps [simp del]

definition signed_decimal :: "int \<Rightarrow> string" where
  "signed_decimal i = (if i < 0 then ''-'' @ decimal (nat (- i)) else decimal (nat i))"

definition hex_digit :: "nat \<Rightarrow> char" where
  "hex_digit d = ''0123456789ABCDEF'' ! d"

fun hexadecimal :: "nat \<Rightarrow> string" where
  "hexadecimal n = (if n < 16 then [hex_digit n] else hexadecimal (n div 16) @ [hex_digit (n mod 16)])"

declare hexadecimal.simps [simp del]

text \<open>The minimal width with leading zeros, as in \<open>%02X\<close> and \<open>%03d\<close>.\<close>

definition zero_padded :: "nat \<Rightarrow> string \<Rightarrow> string" where
  "zero_padded w s = replicate (w - length s) CHR ''0'' @ s"

lemma decimal_length: "n < 10 ^ d \<Longrightarrow> 0 < d \<Longrightarrow> length (decimal n) \<le> d"
proof (induction d arbitrary: n)
  case (Suc d)
  show ?case
  proof (cases "n < 10")
    case True then show ?thesis by (subst decimal.simps) simp
  next
    case False
    with Suc.prems have "n div 10 < 10 ^ d" "0 < d" by (auto intro: gr0I simp: less_mult_imp_div_less mult.commute)
    with Suc.IH [of "n div 10"] False show ?thesis by (subst decimal.simps) simp
  qed
qed simp

lemma decimal_word: "length (decimal (unat (x :: 64 word))) \<le> 20"
  using unsigned_less [of x, where ?'a = nat] by (intro decimal_length) simp_all

lemma signed_decimal_length:
  assumes "\<bar>i\<bar> < 2 ^ 63"
  shows "length (signed_decimal i) \<le> 20"
proof -
  have "nat \<bar>i\<bar> < 2 ^ 63" using assms by simp
  then have "length (decimal (nat \<bar>i\<bar>)) \<le> 19" by (intro decimal_length) simp_all
  then show ?thesis by (auto simp: signed_decimal_def)
qed

lemma sint32_abs: "\<bar>sint (x :: u32)\<bar> < 2 ^ 63"
  using sint_lt [of x] sint_ge [of x] by simp

section \<open>Bytes\<close>

text \<open>
  \<open>common.cpp\<close>: the bytes up to the first zero. An element is a \<open>char\<close>, which is signed, and \<open>%X\<close> takes it
  as an unsigned number of 32 bits.
\<close>

definition print_byte :: "u8 \<Rightarrow> string" where
  "print_byte b = zero_padded 2 (hexadecimal (unat (scast b :: u32)))"

fun print_bytes :: "nat \<Rightarrow> u8 list \<Rightarrow> string" where
  "print_bytes i [] = [CHR 0x0A]"
| "print_bytes i (b # bs) = (if i > 0 then '':'' else []) @ print_byte b @ print_bytes (i + 1) bs"

definition print_char_array_in_byte :: "u8 list \<Rightarrow> string" where
  "print_char_array_in_byte buf = print_bytes 0 (takeWhile (\<lambda>b. b \<noteq> 0) buf)"

text \<open>\<open>fec.c\<close>: the first \<open>length\<close> bytes, five to a line, each with its index; here the byte is converted.\<close>

definition print_indexed_byte :: "string \<Rightarrow> nat \<Rightarrow> u8 \<Rightarrow> string" where
  "print_indexed_byte name i b =
     (if i \<noteq> 0 \<and> i mod 5 = 0 then [CHR 0x0A] else []) @
     name @ ''_index'' @ zero_padded 3 (decimal i) @ '':'' @ zero_padded 2 (hexadecimal (unat b)) @ ''  ''"

definition print_indexed_bytes :: "u8 list \<Rightarrow> nat \<Rightarrow> string \<Rightarrow> string" where
  "print_indexed_bytes buf len name =
     concat (map (\<lambda>i. print_indexed_byte name i (buf ! i)) [0..<len]) @ [CHR 0x0A, CHR 0x0A]"

lemma hexadecimal_two:
  assumes "n < 256"
  shows "zero_padded 2 (hexadecimal n) = [hex_digit (n div 16), hex_digit (n mod 16)]"
proof (cases "n < 16")
  case True
  then show ?thesis by (subst hexadecimal.simps) (simp add: zero_padded_def hex_digit_def)
next
  case False
  from assms have "n div 16 < 16" by simp
  then have "hexadecimal (n div 16) = [hex_digit (n div 16)]" by (subst hexadecimal.simps) simp
  with False show ?thesis by (subst hexadecimal.simps) (simp add: zero_padded_def)
qed

lemma hexadecimal_filled: "hexadecimal 16777215 = ''FFFFFF''"
  by (simp add: hexadecimal.simps [of "numeral n" for n] hex_digit_def)

lemma unat_scast_byte: "unat (scast (b :: u8) :: u32) = (if unat b < 128 then unat b else 4294967040 + unat b)"
proof -
  have b: "0 \<le> uint b" "uint b < 256" using uint_bounded [of b] by simp_all
  have "sint b = (uint b + 128) mod 256 - 128"
    using int_word_sint [of "uint b", where ?'a = 8] by simp
  moreover have "(x + 128) mod 256 - 128 = (if x < 128 then x else x - 256)" if "0 \<le> x" "x < 256" for x :: int
    using that mod_add_self2 [of "x - 128" 256] by (auto simp: mod_pos_pos_trivial add.commute)
  ultimately have s: "sint b = (if uint b < 128 then uint b else uint b - 256)" using b by simp
  have "uint (scast b :: u32) = sint b mod 4294967296" by (simp only: scast_eq uint_word_of_int) simp
  also have "\<dots> = (if uint b < 128 then uint b else 4294967040 + uint b)"
    using b mod_add_self2 [of "uint b - 256" 4294967296] unfolding s by (auto simp: mod_pos_pos_trivial)
  finally have u: "uint (scast b :: u32) = (if uint b < 128 then uint b else 4294967040 + uint b)" .
  have nats: "a = (if c < 128 then c else 4294967040 + c)"
    if "int a = (if int c < 128 then int c else 4294967040 + int c)" for a c :: nat
    using that by (auto split: if_splits)
  show ?thesis by (rule nats) (rule u [unfolded uint_nat])
qed

text \<open>A byte below 128 is two digits; from 128 on the sign fills six more in front.\<close>

theorem print_byte_digits:
  "print_byte b =
     (if unat b < 128 then [hex_digit (unat b div 16), hex_digit (unat b mod 16)]
      else ''FFFFFF'' @ [hex_digit (unat b div 16), hex_digit (unat b mod 16)])"
proof -
  define u where "u = unat b"
  have u: "u < 256" using unsigned_less [of b, where ?'a = nat] by (simp add: u_def)
  show ?thesis
  proof (cases "u < 128")
    case True
    then show ?thesis by (simp add: print_byte_def unat_scast_byte hexadecimal_two flip: u_def)
  next
    case False
    have n: "(4294967040 + u) div 16 = 268435440 + u div 16" "(4294967040 + u) mod 16 = u mod 16"
      "(268435440 + u div 16) div 16 = 16777215" "(268435440 + u div 16) mod 16 = u div 16"
      using u div_mult_self2 [of 16 u 268435440] mod_mult_self2 [of u 16 268435440]
        div_mult_self2 [of 16 "u div 16" 16777215] mod_mult_self2 [of "u div 16" 16 16777215]
      by (simp_all add: add.commute)
    have "hexadecimal (268435440 + u div 16) = ''FFFFFF'' @ [hex_digit (u div 16)]"
      by (subst hexadecimal.simps) (simp add: n hexadecimal_filled)
    then have "hexadecimal (4294967040 + u) = ''FFFFFF'' @ [hex_digit (u div 16), hex_digit (u mod 16)]"
      by (subst hexadecimal.simps) (simp add: n)
    with False show ?thesis by (simp add: print_byte_def unat_scast_byte zero_padded_def flip: u_def)
  qed
qed

end
