(* ===== verification/Kcp_Log.thy ===== *)
theory Kcp_Log
  imports Kcp_Input Kcp_Flush Printing
begin

text \<open>
  Logging in kcp: \<open>ikcp_canlog\<close>, \<open>ikcp_log\<close> and the calls of them in \<open>ikcp_output\<close>, \<open>ikcp_recv\<close> and \<open>ikcp_input\<close>. A
  line is formatted into an array of 1024 characters without a check; the result \<^const>\<open>None\<close> is a line that
  does not fit. The lines are what the callback \<open>writelog\<close> is called with, in order.

  The formats read \<open>IUINT32\<close> arguments with \<open>%lu\<close>, which takes 64 bits where 32 were passed: what is read is a
  parameter \<open>va\<close> of the model. \<open>ikcp_setoutput\<close> is here too, since the callbacks are not part of \<^typ>\<open>ikcpcb\<close>.
\<close>

section \<open>The callbacks\<close>

definition IKCP_LOG_OUTPUT :: int where [simp]: "IKCP_LOG_OUTPUT = 1"
definition IKCP_LOG_INPUT :: int where [simp]: "IKCP_LOG_INPUT = 2"
definition IKCP_LOG_RECV :: int where [simp]: "IKCP_LOG_RECV = 8"
definition IKCP_LOG_IN_DATA :: int where [simp]: "IKCP_LOG_IN_DATA = 16"
definition IKCP_LOG_IN_ACK :: int where [simp]: "IKCP_LOG_IN_ACK = 32"
definition IKCP_LOG_IN_PROBE :: int where [simp]: "IKCP_LOG_IN_PROBE = 64"
definition IKCP_LOG_IN_WINS :: int where [simp]: "IKCP_LOG_IN_WINS = 128"

record kcp_callbacks =
  output_set :: bool
  writelog_set :: bool
  logmask :: int

definition ikcp_setoutput :: "bool \<Rightarrow> kcp_callbacks \<Rightarrow> kcp_callbacks" where
  "ikcp_setoutput output lg = lg\<lparr>output_set := output\<rparr>"

definition ikcp_canlog :: "kcp_callbacks \<Rightarrow> int \<Rightarrow> bool" where
  "ikcp_canlog lg msk = (if and msk (logmask lg) = 0 \<or> \<not> writelog_set lg then False else True)"

definition ikcp_log :: "kcp_callbacks \<Rightarrow> int \<Rightarrow> string \<Rightarrow> string list option" where
  "ikcp_log lg msk line =
     (if and msk (logmask lg) = 0 \<or> \<not> writelog_set lg then Some []
      else if length line < 1024 then Some [line] else None)"

section \<open>The log of the operations\<close>

text \<open>\<open>ikcp_output\<close>: the lines, what the buffer and the datagrams become, and a failed assertion without a callback.\<close>

definition logged_output :: "kcp_callbacks \<Rightarrow> outbuf \<Rightarrow> (string list \<times> u8 list list) option" where
  "logged_output lg b =
     (if \<not> output_set lg then None
      else map_option (\<lambda>lines. (lines, ikcp_output b))
        (if ikcp_canlog lg IKCP_LOG_OUTPUT
         then ikcp_log lg IKCP_LOG_OUTPUT (''[RO] '' @ signed_decimal (int (length (fst b))) @ '' bytes'')
         else Some []))"

fun logged_recv_merge ::
  "kcp_callbacks \<Rightarrow> (u32 \<Rightarrow> 64 word) \<Rightarrow> bool \<Rightarrow> ikcpseg list \<Rightarrow> string list option" where
  "logged_recv_merge lg va ispeek [] = Some []"
| "logged_recv_merge lg va ispeek (seg # q) =
     (case (if ikcp_canlog lg IKCP_LOG_RECV
            then ikcp_log lg IKCP_LOG_RECV (''recv sn='' @ decimal (unat (va (seg_sn seg))))
            else Some []) of
        None \<Rightarrow> None
      | Some lines \<Rightarrow>
          if seg_frg seg = 0 then Some lines
          else map_option ((@) lines) (logged_recv_merge lg va ispeek q))"

text \<open>
  A segment in \<open>ikcp_input\<close>; \<open>k\<close> is the control block after the segment was processed. The line on an
  acknowledgement passes one mask to \<open>ikcp_canlog\<close> and another one to \<open>ikcp_log\<close>.
\<close>

definition log_segment ::
  "kcp_callbacks \<Rightarrow> (u32 \<Rightarrow> 64 word) \<Rightarrow> u8 \<Rightarrow> u16 \<Rightarrow> u32 \<Rightarrow> u32 \<Rightarrow> ikcpcb \<Rightarrow> string list option" where
  "log_segment lg va cmd wnd ts sn k =
     (if ucast cmd = IKCP_CMD_ACK then
        if ikcp_canlog lg IKCP_LOG_IN_ACK
        then ikcp_log lg IKCP_LOG_IN_DATA
               (''input ack: sn='' @ decimal (unat (va sn)) @ '' rtt='' @ signed_decimal (itimediff (current k) ts) @
                '' rto='' @ signed_decimal (sint (rx_rto k)))
        else Some []
      else if ucast cmd = IKCP_CMD_PUSH then
        if ikcp_canlog lg IKCP_LOG_IN_DATA
        then ikcp_log lg IKCP_LOG_IN_DATA
               (''input psh: sn='' @ decimal (unat (va sn)) @ '' ts='' @ decimal (unat (va ts)))
        else Some []
      else if ucast cmd = IKCP_CMD_WASK then
        if ikcp_canlog lg IKCP_LOG_IN_PROBE then ikcp_log lg IKCP_LOG_IN_PROBE ''input probe'' else Some []
      else
        if ikcp_canlog lg IKCP_LOG_IN_WINS
        then ikcp_log lg IKCP_LOG_IN_WINS (''input wins: '' @ decimal (unat (va (ucast wnd))))
        else Some [])"

function logged_input_loop ::
  "kcp_callbacks \<Rightarrow> (u32 \<Rightarrow> 64 word) \<Rightarrow> u8 list \<Rightarrow> bool \<Rightarrow> u32 \<Rightarrow> u32 \<Rightarrow> ikcpcb \<Rightarrow>
   (string list \<times> ((int \<times> ikcpcb) + (bool \<times> u32 \<times> u32 \<times> ikcpcb))) option" where
  "logged_input_loop lg va data flag maxack latest_ts k =
     (if length data < unat IKCP_OVERHEAD then Some ([], Inr (flag, maxack, latest_ts, k))
      else
        let (cv, p) = ikcp_decode32u data
        in if cv \<noteq> conv k then Some ([], Inl (-2, k))
           else
             let (cmd, p) = ikcp_decode8u p;
                 (frg, p) = ikcp_decode8u p;
                 (wnd, p) = ikcp_decode16u p;
                 (ts, p) = ikcp_decode32u p;
                 (sn, p) = ikcp_decode32u p;
                 (una, p) = ikcp_decode32u p;
                 (len, p) = ikcp_decode32u p
             in if length data - unat IKCP_OVERHEAD < unat len \<or> sint len < 0 then Some ([], Inl (-2, k))
                else if ucast cmd \<noteq> IKCP_CMD_PUSH \<and> ucast cmd \<noteq> IKCP_CMD_ACK \<and>
                        ucast cmd \<noteq> IKCP_CMD_WASK \<and> ucast cmd \<noteq> IKCP_CMD_WINS
                then Some ([], Inl (-3, k))
                else
                  let (flag, maxack, latest_ts, k) =
                        input_segment cmd frg wnd ts sn una len p flag maxack latest_ts k
                  in case log_segment lg va cmd wnd ts sn k of
                       None \<Rightarrow> None
                     | Some lines \<Rightarrow>
                         map_option (\<lambda>(ls, r). (lines @ ls, r))
                           (logged_input_loop lg va (drop (unat len) (drop (unat IKCP_OVERHEAD) data))
                             flag maxack latest_ts k))"
  by pat_completeness auto
termination
  by (relation "measure (\<lambda>(lg, va, data, _). length data)") auto

declare logged_input_loop.simps [simp del]

definition logged_input ::
  "kcp_callbacks \<Rightarrow> (u32 \<Rightarrow> 64 word) \<Rightarrow> u8 list option \<Rightarrow> int \<Rightarrow> ikcpcb \<Rightarrow> (string list \<times> int \<times> ikcpcb) option" where
  "logged_input lg va data_opt sz k =
     (let prev_una = snd_una k
      in case (if ikcp_canlog lg IKCP_LOG_INPUT
               then ikcp_log lg IKCP_LOG_INPUT (''[RI] '' @ signed_decimal (sint (word_of_int sz :: u32)) @ '' bytes'')
               else Some []) of
           None \<Rightarrow> None
         | Some lines \<Rightarrow>
             case data_opt of
               None \<Rightarrow> Some (lines, -1, k)
             | Some data \<Rightarrow>
                 if length data < unat IKCP_OVERHEAD then Some (lines, -1, k)
                 else
                   map_option (\<lambda>(ls, r). (lines @ ls,
                     (case r of
                        Inl (ret, k) \<Rightarrow> (ret, k)
                      | Inr (flag, maxack, latest_ts, k) \<Rightarrow>
                          let k = (if flag then ikcp_parse_fastack maxack latest_ts k else k);
                              k = (if itimediff (snd_una k) prev_una > 0 then input_cwnd k else k)
                          in (0, k))))
                     (logged_input_loop lg va data False 0 0 k))"

section \<open>The lines fit\<close>

lemma ikcp_log_fits: "length line < 1024 \<Longrightarrow> \<exists>lines. ikcp_log lg msk line = Some lines \<and> (\<not> writelog_set lg \<longrightarrow> lines = [])"
  by (simp add: ikcp_log_def)

lemma guarded_log_fits:
  assumes "length line < 1024"
  shows "\<exists>lines. (if ikcp_canlog lg msk then ikcp_log lg msk line else Some []) = Some lines \<and> (\<not> writelog_set lg \<longrightarrow> lines = [])"
  using ikcp_log_fits [OF assms] by (cases "ikcp_canlog lg msk") simp_all

lemma log_segment_fits:
  "\<exists>lines. log_segment lg va cmd wnd ts sn k = Some lines \<and> (\<not> writelog_set lg \<longrightarrow> lines = [])"
proof -
  note len = decimal_word [of "va sn"] decimal_word [of "va ts"] decimal_word [of "va (ucast wnd)"]
    signed_decimal_length [OF sint32_abs [of "rx_rto k"]] signed_decimal_length [OF sint32_abs [of "current k - ts"]]
  have fits: "length (''input ack: sn='' @ decimal (unat (va sn)) @ '' rtt='' @ signed_decimal (itimediff (current k) ts) @
                '' rto='' @ signed_decimal (sint (rx_rto k))) < 1024"
    "length (''input psh: sn='' @ decimal (unat (va sn)) @ '' ts='' @ decimal (unat (va ts))) < 1024"
    "length ''input probe'' < 1024" "length (''input wins: '' @ decimal (unat (va (ucast wnd)))) < 1024"
    using len by (simp_all add: itimediff_def)
  from fits [THEN ikcp_log_fits] show ?thesis by (simp add: log_segment_def)
qed

section \<open>Logging leaves the protocol alone\<close>

lemma logged_input_loop_transparent:
  "\<exists>lines. logged_input_loop lg va data flag maxack latest_ts k =
      Some (lines, ikcp_input_loop data flag maxack latest_ts k) \<and> (\<not> writelog_set lg \<longrightarrow> lines = [])"
proof (induction lg va data flag maxack latest_ts k rule: logged_input_loop.induct)
  case (1 lg va data flag maxack latest_ts k)
  obtain cv p0 where d0: "ikcp_decode32u data = (cv, p0)" by force
  obtain cmd p1 where d1: "ikcp_decode8u p0 = (cmd, p1)" by force
  obtain frg p2 where d2: "ikcp_decode8u p1 = (frg, p2)" by force
  obtain wnd p3 where d3: "ikcp_decode16u p2 = (wnd, p3)" by force
  obtain ts p4 where d4: "ikcp_decode32u p3 = (ts, p4)" by force
  obtain sn p5 where d5: "ikcp_decode32u p4 = (sn, p5)" by force
  obtain una p6 where d6: "ikcp_decode32u p5 = (una, p6)" by force
  obtain len p where d7: "ikcp_decode32u p6 = (len, p)" by force
  note d = d0 d1 d2 d3 d4 d5 d6 d7
  define rejected where "rejected \<longleftrightarrow> length data < unat IKCP_OVERHEAD \<or> cv \<noteq> conv k \<or>
    (length data - unat IKCP_OVERHEAD < unat len \<or> sint len < 0) \<or>
    (ucast cmd \<noteq> IKCP_CMD_PUSH \<and> ucast cmd \<noteq> IKCP_CMD_ACK \<and> ucast cmd \<noteq> IKCP_CMD_WASK \<and> ucast cmd \<noteq> IKCP_CMD_WINS)"
  show ?case
  proof (cases rejected)
    case True
    then show ?thesis
      unfolding rejected_def
      by (subst logged_input_loop.simps, subst ikcp_input_loop.simps) (auto simp: d Let_def)
  next
    case False
    obtain flag' maxack' latest_ts' k' where
      s: "input_segment cmd frg wnd ts sn una len p flag maxack latest_ts k = (flag', maxack', latest_ts', k')"
      by (metis prod_cases4)
    obtain lines where l: "log_segment lg va cmd wnd ts sn k' = Some lines" "\<not> writelog_set lg \<longrightarrow> lines = []"
      using log_segment_fits by blast
    have n: "\<not> length data < unat IKCP_OVERHEAD" "\<not> cv \<noteq> conv k" "\<not> (length data - unat IKCP_OVERHEAD < unat len \<or> sint len < 0)"
      "\<not> (ucast cmd \<noteq> IKCP_CMD_PUSH \<and> ucast cmd \<noteq> IKCP_CMD_ACK \<and> ucast cmd \<noteq> IKCP_CMD_WASK \<and> ucast cmd \<noteq> IKCP_CMD_WINS)"
      using False unfolding rejected_def by blast+
    note ih = "1.IH" [OF n(1) refl d0 [symmetric] n(2) refl d1 [symmetric] refl d2 [symmetric] refl d3 [symmetric]
      refl d4 [symmetric] refl d5 [symmetric] refl d6 [symmetric] refl d7 [symmetric] n(3,4) refl s [symmetric] refl refl l(1)]
    from ih l(2) show ?thesis
      by (subst logged_input_loop.simps, subst ikcp_input_loop.simps)
        (auto simp: d s l(1) n(1,2,3) if_not_P [OF n(4)] Let_def)
  qed
qed

text \<open>
  For any mask and any callback, and whatever the formats read, no line of \<open>ikcp_input\<close> overflows the
  array, the result and the control block are those of the model without the log, and there is no line without a callback.
\<close>

theorem logged_input_transparent:
  "\<exists>lines. logged_input lg va data sz k = Some (lines, ikcp_input data k) \<and> (\<not> writelog_set lg \<longrightarrow> lines = [])"
proof -
  have "length (''[RI] '' @ signed_decimal (sint (word_of_int sz :: u32)) @ '' bytes'') < 1024"
    using signed_decimal_length [OF sint32_abs [of "word_of_int sz"]] by simp
  from guarded_log_fits [OF this] obtain l1 where
    l1: "(if ikcp_canlog lg IKCP_LOG_INPUT
               then ikcp_log lg IKCP_LOG_INPUT (''[RI] '' @ signed_decimal (sint (word_of_int sz :: u32)) @ '' bytes'')
               else Some []) = Some l1" "\<not> writelog_set lg \<longrightarrow> l1 = []"
    by blast
  show ?thesis
  proof (cases data)
    case None
    with l1 show ?thesis by (simp add: logged_input_def ikcp_input_def Let_def)
  next
    case (Some d)
    obtain l2 where "logged_input_loop lg va d False 0 0 k = Some (l2, ikcp_input_loop d False 0 0 k)"
      "\<not> writelog_set lg \<longrightarrow> l2 = []"
      using logged_input_loop_transparent by blast
    with l1 Some show ?thesis by (auto simp: logged_input_def ikcp_input_def Let_def)
  qed
qed

theorem logged_recv_transparent:
  "\<exists>lines. logged_recv_merge lg va ispeek q = Some lines \<and> (\<not> writelog_set lg \<longrightarrow> lines = [])"
proof (induction q)
  case (Cons seg q)
  have "length (''recv sn='' @ decimal (unat (va (seg_sn seg)))) < 1024"
    using decimal_word [of "va (seg_sn seg)"] by simp
  from guarded_log_fits [OF this] obtain l1 where
    "(if ikcp_canlog lg IKCP_LOG_RECV
      then ikcp_log lg IKCP_LOG_RECV (''recv sn='' @ decimal (unat (va (seg_sn seg))))
      else Some []) = Some l1" "\<not> writelog_set lg \<longrightarrow> l1 = []"
    by blast
  with Cons.IH show ?case by auto
qed simp

text \<open>An acknowledgement is logged only when both masks are on, since the call of \<open>ikcp_log\<close> names the wrong one.\<close>

theorem ack_log_needs_both:
  assumes "ucast cmd = IKCP_CMD_ACK"
  shows "log_segment lg va cmd wnd ts sn k \<noteq> Some [] \<longleftrightarrow>
    writelog_set lg \<and> and IKCP_LOG_IN_ACK (logmask lg) \<noteq> 0 \<and> and IKCP_LOG_IN_DATA (logmask lg) \<noteq> 0"
  using assms by (auto simp: log_segment_def ikcp_canlog_def ikcp_log_def)

theorem logged_output_transparent:
  assumes "output_set lg" and "int (length (fst b)) < 2 ^ 31"
  shows "\<exists>lines. logged_output lg b = Some (lines, ikcp_output b) \<and> (\<not> writelog_set lg \<longrightarrow> lines = [])"
proof -
  have "length (''[RO] '' @ signed_decimal (int (length (fst b))) @ '' bytes'') < 1024"
    using signed_decimal_length [of "int (length (fst b))"] assms(2) by simp
  from guarded_log_fits [OF this, of lg IKCP_LOG_OUTPUT] show ?thesis using assms(1) unfolding logged_output_def by auto
qed

end
