(* ===== verification/Gf_Log.thy ===== *)
theory Gf_Log
  imports Fec_Matrix
begin

text \<open>
  The parts of \<open>lib/libfec/lib/source/fec.c\<close> that the build leaves out: the arithmetic with
  logarithms that replaces the multiplication table for more than 8 bits (read here on the tables of 8 bits), and the
  test code \<open>test_gf\<close> and \<open>is_identity\<close>. The two ways to multiply agree, and so do the two versions of the macro of \<open>addmul1\<close>.
  \<open>test_gf\<close> is silent on good tables except for one complaint that it always prints.
\<close>

section \<open>Arithmetic with logarithms\<close>

definition gf_mul_log :: "gf_tables \<Rightarrow> gf \<Rightarrow> gf \<Rightarrow> gf" where
  "gf_mul_log t x y =
     (if x = 0 \<or> y = 0 then 0 else gf_exp t ! nat (gf_log t ! unat x + gf_log t ! unat y))"

definition gf_addmulc_log :: "gf_tables \<Rightarrow> gf \<Rightarrow> gf list \<Rightarrow> nat \<Rightarrow> gf list \<Rightarrow> gf list" where
  "gf_addmulc_log t c src i dst =
     (let mulc = drop (nat (gf_log t ! unat c)) (gf_exp t)
      in if src ! i \<noteq> 0 then dst[i := dst ! i XOR mulc ! nat (gf_log t ! unat (src ! i))] else dst)"

section \<open>Test code\<close>

fun identity_row :: "nat \<Rightarrow> nat list \<Rightarrow> gf list \<Rightarrow> gf list option" where
  "identity_row row [] m = Some m"
| "identity_row row (col # cols) m =
     (if row = col \<and> hd m \<noteq> 1 \<or> row \<noteq> col \<and> hd m \<noteq> 0 then None else identity_row row cols (tl m))"

fun identity_rows :: "nat \<Rightarrow> nat list \<Rightarrow> gf list \<Rightarrow> bool" where
  "identity_rows k [] m = True"
| "identity_rows k (row # rows) m =
     (case identity_row row [0..<k] m of None \<Rightarrow> False | Some m \<Rightarrow> identity_rows k rows m)"

definition is_identity :: "gf list \<Rightarrow> nat \<Rightarrow> bool" where
  "is_identity m k = identity_rows k [0..<k] m"

datatype complaint = Bad_exp_log nat int gf | Bad_mul_inv nat gf gf | Bad_mul_left nat | Bad_mul_right nat

definition test_gf_at :: "gf_tables \<Rightarrow> nat \<Rightarrow> complaint list" where
  "test_gf_at t i =
     (if int (unat (gf_exp t ! nat (gf_log t ! i))) \<noteq> int i
      then [Bad_exp_log i (gf_log t ! i) (gf_exp t ! nat (gf_log t ! i))] else []) @
     (if i \<noteq> 0 \<and> gf_mul t (of_nat i) (inverse_of t ! i) \<noteq> 1
      then [Bad_mul_inv i (inverse_of t ! i) (gf_mul t (of_nat i) (inverse_of t ! i))] else []) @
     (if gf_mul t 0 (of_nat i) \<noteq> 0 then [Bad_mul_left i] else []) @
     (if gf_mul t (of_nat i) 0 \<noteq> 0 then [Bad_mul_right i] else [])"

definition test_gf :: "gf_tables \<Rightarrow> complaint list" where
  "test_gf t = concat (map (test_gf_at t) [0..<GF_SIZE + 1])"

section \<open>The two ways to multiply agree\<close>

lemma gf_log_exp:
  assumes "gf_generated t" and "x \<noteq> 0"
  obtains n where "n < 255" "x = xshift n 1" "gf_log t ! unat x = int n" "gf_exp t ! n = x"
proof -
  obtain n where n: "n < 255" "x = xshift n 1" using xshift_surj [OF assms(2)] by blast
  with assms(1) have "gf_log t ! unat x = int n" "gf_exp t ! n = x" by (simp_all add: gf_generated_def)
  with n show ?thesis by (rule that)
qed

text \<open>The sum of two logarithms needs no reduction, since \<open>gf_exp\<close> holds the powers twice.\<close>

theorem gf_mul_log_table:
  assumes "gf_ready t"
  shows "gf_mul_log t x y = gf_mul t x y"
proof (cases "x = 0 \<or> y = 0")
  case True
  with assms show ?thesis by (auto simp: gf_mul_log_def gf_ready_def pmul_0_left pmul_0_right)
next
  case False
  have g: "gf_generated t" using assms by (simp add: gf_ready_def)
  obtain m where m: "m < 255" "x = xshift m 1" "gf_log t ! unat x = int m" using gf_log_exp [OF g] False by metis
  obtain n where n: "n < 255" "y = xshift n 1" "gf_log t ! unat y = int n" using gf_log_exp [OF g] False by metis
  have "gf_mul_log t x y = gf_exp t ! (m + n)" using False m(3) n(3) by (simp add: gf_mul_log_def nat_add_distrib)
  also have "\<dots> = xshift (m + n) 1" using g m(1) n(1) by (simp add: gf_generated_def)
  also have "\<dots> = pmul x y" unfolding m(2) n(2) by (rule pmul_xshift2 [symmetric])
  finally show ?thesis using assms by (simp add: gf_ready_def)
qed

text \<open>The macro agrees for the factors that \<open>addmul\<close> lets through; for 0 it would not.\<close>

theorem gf_addmulc_log_table:
  assumes "gf_ready t" and "c \<noteq> 0" and "gf_sized t" and "i < length dst"
  shows "gf_addmulc_log t c src i dst = gf_addmulc t c src i dst"
proof (cases "src ! i = 0")
  case True
  with assms show ?thesis
    by (simp add: gf_addmulc_log_def gf_addmulc_def gf_ready_def pmul_0_right)
next
  case False
  have g: "gf_generated t" using assms by (simp add: gf_ready_def)
  obtain m where m: "m < 255" "gf_log t ! unat c = int m" using gf_log_exp [OF g assms(2)] by metis
  obtain n where n: "n < 255" "gf_log t ! unat (src ! i) = int n" using gf_log_exp [OF g False] by metis
  have "drop m (gf_exp t) ! n = gf_mul_log t c (src ! i)"
    using assms(2,3) False m n by (simp add: gf_mul_log_def nat_add_distrib gf_sized_def)
  then show ?thesis
    using False m(2) n(2) by (simp add: gf_addmulc_log_def gf_addmulc_def gf_mul_log_table [OF assms(1)])
qed

section \<open>The tests\<close>

lemma test_gf_at_nonzero:
  assumes "gf_ready t" and "0 < i" and "i < 256"
  shows "test_gf_at t i = []"
proof -
  define x :: gf where "x = of_nat i"
  have x: "unat x = i" using assms(3) by (simp add: x_def unat_of_nat)
  with assms(2) have "x \<noteq> 0" by auto
  note x = x this
  have g: "gf_generated t" using assms by (simp add: gf_ready_def)
  obtain n where n: "gf_log t ! i = int n" "gf_exp t ! n = x" using gf_log_exp [OF g x(2)] x(1) by metis
  have "pmul x (inverse_of t ! i) = 1"
    using g pinverse_left [OF x(2)] x(1) by (metis gf_generated_def pmul_commute)
  with n x(1) assms(1,2) show ?thesis
    by (simp add: test_gf_at_def gf_ready_def pmul_0_left pmul_0_right x_def [symmetric])
qed

text \<open>
  On the tables that \<open>init_fec\<close> makes, \<open>test_gf\<close> prints one line: the logarithm of 0 is
  \<open>GF_SIZE\<close>, and the loop starts with 0.
\<close>

theorem test_gf_complains:
  assumes "gf_ready t"
  shows "test_gf t = [Bad_exp_log 0 255 1]"
proof -
  have g: "gf_generated t" using assms by (simp add: gf_ready_def)
  have one: "gf_exp t ! 255 = 1"
    using g xshift_order_steps(4) by (simp add: gf_generated_def)
  have zero: "test_gf_at t 0 = [Bad_exp_log 0 255 1]"
    using g assms one by (simp add: test_gf_at_def gf_generated_def gf_ready_def pmul_0_left)
  have "test_gf t = test_gf_at t 0 @ concat (map (test_gf_at t) [1..<256])"
    unfolding test_gf_def by (subst upt_conv_Cons) simp_all
  also have "concat (map (test_gf_at t) [1..<256]) = []"
    using test_gf_at_nonzero [OF assms] by simp
  finally show ?thesis using zero by simp
qed

lemma identity_row_iff:
  "identity_row row [a..<b] m = (if \<forall>j<b - a. j < length m \<longrightarrow> m ! j = (if row = a + j then 1 else 0)
     then Some (drop (b - a) m) else None)" if "b - a \<le> length m"
  using that
proof (induction "b - a" arbitrary: a m)
  case (Suc d)
  then obtain x m' where m: "m = x # m'" by (cases m) auto
  have up: "[a..<b] = a # [Suc a..<b]" using Suc.hyps(2) by (simp add: upt_conv_Cons)
  have d: "b - a = Suc (b - Suc a)" using Suc.hyps(2) by simp
  have ih: "identity_row row [Suc a..<b] m' = (if \<forall>j<b - Suc a. j < length m' \<longrightarrow> m' ! j = (if row = Suc a + j then 1 else 0)
     then Some (drop (b - Suc a) m') else None)"
    using Suc m by simp
  show ?case
    unfolding up d using ih by (auto simp: m All_less_Suc2)
qed simp

theorem is_identity_iff:
  assumes "length m = k * k"
  shows "is_identity m k \<longleftrightarrow> (\<forall>i<k. \<forall>j<k. m ! (i * k + j) = (if i = j then 1 else 0))"
proof -
  have "identity_rows k [r..<r + n] m \<longleftrightarrow> (\<forall>i<n. \<forall>j<k. m ! (i * k + j) = (if r + i = j then 1 else 0))"
    if "length m = n * k" for r n and m :: "gf list"
    using that
  proof (induction n arbitrary: r m)
    case (Suc n)
    have up: "[r..<r + Suc n] = r # [Suc r..<Suc r + n]" by (simp add: upt_conv_Cons)
    have len: "k - 0 \<le> length m" "length (drop k m) = n * k" using Suc.prems by simp_all
    have row: "identity_row r [0..<k] m = (if \<forall>j<k. m ! j = (if r = j then 1 else 0) then Some (drop k m) else None)"
      using identity_row_iff [OF len(1)] len(1) by simp
    have "(drop k m) ! (i * k + j) = m ! (Suc i * k + j)" for i j
      using len(1) by (simp add: add.assoc)
    then show ?case
      unfolding up using Suc.IH [OF len(2), of "Suc r"] row
      by (auto simp: All_less_Suc2)
  qed simp
  from this [OF assms, of 0] show ?thesis by (simp add: is_identity_def)
qed

end
