(* ===== verification/Spec2Isabelle.thy ===== *)
theory Spec2Isabelle
  imports Fec_Loop Fec_Delivery Fec_Books Fec_System Kcp_Lifetime Kcp_Log Gf_Log
begin

text \<open>
  A verification of fec_kcp, a reliable transport over lossy datagrams: the automatic repeat request
  protocol kcp (\<open>lib/kcp\<close>) sends its datagrams through a packet codec with forward error
  correction (\<open>lib/libfec\<close>), and two sample programs (\<open>samples\<close>) tunnel UDP traffic through both.

  \<^bold>\<open>How the program works\<close>

  \<^item> An application gives a message to \<open>ikcp_send\<close>, which cuts it into segments in \<open>snd_queue\<close>. A timer
    calls \<open>ikcp_update\<close>, which calls \<open>ikcp_flush\<close> when it is due: segments move to \<open>snd_buf\<close> as far as the
    windows allow, get consecutive serial numbers, and are sent, and sent again after a timeout or
    when they were skipped, until the peer acknowledges them. \<open>ikcp_input\<close> reads a datagram of the peer:
    acknowledgements remove segments from \<open>snd_buf\<close>, data goes to \<open>rcv_buf\<close>, in order of the numbers,
    and from there without gaps to \<open>rcv_queue\<close>, from which \<open>ikcp_recv\<close> returns whole messages.
  \<^item> kcp passes each datagram to an output callback. There \<open>FecEncode\<close> puts it behind a header and collects
    it; the \<open>k\<close>-th datagram completes a group, \<open>rs_encode2\<close> adds \<open>r\<close> redundant packets, and all are sent.
    At the peer \<open>FecDecode\<close> collects packets by the number of their group; with any \<open>k\<close> of them
    \<open>rs_decode2\<close> recovers the others, \<open>Output\<close> hands the datagrams out in order, and they go to
    \<open>ikcp_input\<close>. \<open>FecKcp\<close> packs one control block, one encoder and one decoder together.
  \<^item> Below, \<open>fec.c\<close> is a Reed-Solomon code over the field with 256 elements: tables for the
    arithmetic, a systematic matrix made from a Vandermonde matrix, and a decoder that inverts the
    rows it has.
  \<^item> The samples run an epoll loop over the socket of the application, the socket of the peer and the timer.

  \<^bold>\<open>Where each part is\<close>

  \<^item> Prelude: machine integers, serial number comparison, windows of serial numbers.
  \<^item> kcp, \<open>lib/kcp/source/ikcp.c\<close> and \<open>lib/kcp/include/ikcp.h\<close>. Codec: the encoding of integers. Kcp_State:
    \<open>IKCPSEG\<close> and \<open>IKCPCB\<close> as the records \<^typ>\<open>ikcpseg\<close> and \<^typ>\<open>ikcpcb\<close>, creation and parameters.
    Kcp_Recv: \<open>ikcp_recv\<close>, \<open>ikcp_peeksize\<close>, \<open>ikcp_parse_data\<close>. Kcp_Send: \<open>ikcp_send\<close>. Kcp_Ack: the round
    trip estimator, acknowledged segments, the list of acknowledgements to send. Kcp_Input: \<open>ikcp_input\<close>.
    Kcp_Flush: \<open>ikcp_flush\<close>. Kcp_Clock: \<open>ikcp_update\<close>, \<open>ikcp_check\<close>. Kcp_Log: \<open>ikcp_log\<close> and what the operations log.
    Kcp_Wire, Kcp_Endpoint and Kcp_Delivery have no code of their own: datagrams, sequences of calls on a
    control block, and two control blocks, one sending to the other.
  \<^item> kcp in memory. The four queues are lists in the theories above. Iqueue has the queue macros on linked nodes, and
    the operations follow the links and allocate and free blocks in Kcp_Memory (\<open>ikcp_parse_data\<close>, \<open>ikcp_release\<close>), Kcp_Heap
    (\<open>ikcp_recv\<close>, the loops over acknowledged segments), Kcp_Heap_Flush (\<open>ikcp_flush\<close>, \<open>ikcp_update\<close>), Kcp_Alloc (the allocator,
    \<open>ikcp_create\<close>, \<open>ikcp_setmtu\<close>, \<open>ikcp_send\<close>) and Kcp_Heap_Input (\<open>ikcp_input\<close>, \<open>ikcp_ack_push\<close>); each is
    proved to do what its model on lists does. Kcp_Lifetime: from the creation to the release.
  \<^item> libfec, \<open>lib/libfec/lib/source\<close>. Gf: the tables of \<open>fec.c\<close>; Gf_Field is the field they stand for.
    Gf_Log: multiplication with logarithms, and the test code. Fec_Matrix: \<open>addmul1\<close>, \<open>matmul\<close>, \<open>invert_mat\<close>. Fec_Vdm: \<open>invert_vdm\<close>. Fec: \<open>fec_new\<close>, \<open>fec_encode\<close>,
    \<open>shuffle\<close>, \<open>fec_decode\<close>. Rs: \<open>rs.c\<close>. Erasure_Code: the contract between \<open>rs.c\<close> and its callers.
  \<^item> libfec, \<open>lib/libfec/source\<close>. Timeout_Map: \<open>timeout_map.cpp\<close>. Fec_Encode: \<open>fec_encode.cpp\<close>. Fec_System:
    \<open>random_generator.cpp\<close>, the clock, destructors. Printing: \<open>print_char_array_in_byte\<close>. Fec_Decode: \<open>fec_decode.cpp\<close>; Fec_Group, Fec_Output and Fec_Books are about its
    \<open>Input\<close>, its \<open>Output\<close> and its maps.
  \<^item> The composition. Fec_Kcp: \<open>source/fec_kcp.cpp\<close> and \<open>source/fec_manager.cpp\<close>. Fec_Samples: the event
    handlers of \<open>samples/fec_kcp_server.cpp\<close> and \<open>samples/fec_kcp_client.cpp\<close>; Fec_Tunnel: sequences of
    events; Fec_Delivery: two \<open>FecKcp\<close>s. Fec_Sockets: \<open>source/fec_kcp_common.cpp\<close>. Fec_Loop: \<open>run\<close> and \<open>main\<close>.

  \<^bold>\<open>What the theorems show\<close>

  \<^item> One control block: whatever the network sends, and whatever permitted calls the application makes, the invariants
    of both directions hold and every datagram fits the mtu (Kcp_Endpoint). Permitted are calls with buffers that are not
    null and lengths, windows and mtu below \<open>2 ^ 31\<close>, but no \<open>ikcp_setmtu\<close> that lowers the mtu while segments
    wait: the code accepts it, and the next flush then exceeds the mtu and can overrun the output buffer
    (\<open>lowered_mtu_exceeded\<close>). \<open>ikcp_parse_data\<close> delivers in order and
    exactly once, \<open>ikcp_recv\<close> returns whole messages (Kcp_Recv); exactly the acknowledged segments leave
    (Kcp_Ack); a flush writes what is owed and what is due, nothing else, and conserves the data (Kcp_Wire).
  \<^item> One control block in memory: from \<open>ikcp_create\<close> on every permitted call (as above, and with an mtu of at most
    1431655741) only touches allocated memory, writes no datagram beyond the output buffer, frees nothing twice and
    does what the models on lists do, or runs out of memory; \<open>ikcp_release\<close> frees all the rest (Kcp_Lifetime). The
    log lines fit their array and leave the protocol alone (Kcp_Log).
  \<^item> Two control blocks: what one flush writes, the peer takes over in order; a message arrives with the
    first flush that gets through, after any number of flushes that are lost (Kcp_Delivery).
  \<^item> The code: the tables are those of the field, the matrix inversion is one, and any \<open>k\<close> distinct packets give
    the data back (Gf, Fec_Matrix, Fec).
  \<^item> The codec: any \<open>k\<close> packets of a group, in any order and mixed with other groups, come out of the
    decoder as the datagrams that went into the encoder (Fec_Group, Fec_Output); its maps agree
    in every state, and groups that got no packet for long, not even a duplicate, are forgotten (Fec_Books).
  \<^item> The whole: the datagrams of one \<open>FecKcpUpdate\<close> reach the kcp of the peer (Fec_Kcp), and a message that is sent
    with them is what the peer's application gets, whichever \<open>r\<close> packets are lost (Fec_Delivery); the samples
    treat packets as \<open>FecKcp\<close> does (Fec_Samples), the timer event ends unless a full message is over-read by its log
    (Fec_Tunnel), and from \<open>main\<close> on a sample only returns when it should and keeps kcp in a state of Kcp_Endpoint, or comes to
    one of the listed events that are undefined behaviour (Fec_Loop).
  \<^item> Where the code does not do what it seems to mean, a theorem says what it does: reading behind a packet
    (Fec_Group), a group handed out twice (Fec_Output), a message too long for the buffer of the samples, and one that
    fills it and is logged as a C string (Fec_Samples), descriptors left open (Fec_Sockets), a lowered mtu (Kcp_Endpoint).

  \<^bold>\<open>Interfaces\<close>

  Three locales state what one part promises another, and each is interpreted on the model of the code:
  \<open>node_queues\<close> (Iqueue, for the theories on memory), \<open>erasure_code\<close> (Erasure_Code, for the packet codec) and
  \<open>expiring_keys\<close> (Timeout_Map, for the decoder).

  \<^bold>\<open>Conventions\<close>

  \<^item> An operation takes the state and returns it updated. A callback or a sending function is the list of what it
    is called with; the result of a system call, a clock reading and a successful allocation are arguments.
  \<^item> The result \<^const>\<open>None\<close> is undefined behaviour of C or C++ (an access outside a buffer, a null pointer), a failed
    assertion, or a loop that does not end. That a call returns is part of what the theorems on single operations prove. The
    runs of Kcp_Endpoint, Kcp_Lifetime, Fec_Books and Fec_Tunnel are sequences of calls that do return;
    Kcp_Lifetime proves of each further call that it returns or is refused memory, and Fec_Tunnel and Fec_Loop
    say of the events of the samples when they do not return.
  \<^item> There is one exception. \<open>FecEncodeManager::Input\<close> and \<open>new_listen_socket\<close> end without a \<open>return\<close>, which the C++
    standard leaves undefined. A missing return is read as the return of an arbitrary integer, an argument \<open>junk\<close>, and
    what is proved of these two and of their callers is proved for every such integer.
  \<^item> In the theories on memory the allocator is an argument that may refuse any request, with the hook of \<open>ikcp_allocator\<close> or
    without. \<open>No_memory\<close> is the end of a run in which a request was refused that \<open>ikcp_send\<close> asserts to succeed, or
    \<open>ikcp_input\<close> takes for granted; \<open>ikcp_create\<close> and \<open>ikcp_setmtu\<close> report the failure as the code does.
  \<^item> \<open>IUINT32\<close> and the smaller unsigned types are words and wrap around; an \<open>int\<close> or \<open>long\<close> is an
    integer, with the conversions to words written out. No fuel is used: loops are structural, or terminate by a
    proved measure, or are \<open>partial_function\<close>s whose results are proved to exist (the loops over linked
    nodes, over ready packets, and over waiting messages).
  \<^item> A \<open>std::map\<close> is a red-black tree of the library, with \<open>operator[]\<close> inserting the default; pointers to
    buffers with their lengths are byte lists with the length argument.

  \<^bold>\<open>Bounds\<close>

  Group sizes \<open>k + r\<close> up to 127 in the decoder, since it reads them as signed characters, and up to 255 in
  the encoder; packets up to 65535 bytes, the width of the length field; windows and buffers below \<open>2 ^ 31\<close>, half of the
  serial numbers; \<open>GF_BITS\<close> is 8, as \<open>fec.h\<close> and the build have it.

  \<^bold>\<open>Not modelled\<close>

  \<^item> Text that is printed for a person: glog (except that the log lines of the samples read their buffers up to a
    zero byte), \<open>ikcp_qprint\<close> and \<open>pr_matrix\<close> (which have no body), the timing macros behind \<open>TEST\<close>, and
    the branches of \<open>fec.c\<close> for more than 8 bits other than the arithmetic of Gf_Log.
  \<^item> Mutexes: the samples have one thread, and each operation holds its lock throughout.
  \<^item> Failing allocations in libfec, which does not test the result or exits (\<open>my_malloc\<close>).
  \<^item> The contents of the output buffer and of the list of acknowledgements as memory: their blocks are allocated and
    freed in Kcp_Alloc and Kcp_Heap_Input, the bytes are those of Kcp_Flush and Kcp_Ack; a flush with a datagram longer than the
    buffer is \<^const>\<open>None\<close> (\<open>overrun\<close> in Kcp_Heap_Flush). The hook for \<open>free\<close> is taken to
    free the block. \<open>ikcp_check\<close>, which changes nothing, is modelled on lists only.
  \<^item> The system: what \<open>epoll_wait\<close>, the clock, the random device, the sockets and \<open>strtol\<close> return is an argument; the
    interval of the timer is outside.
  \<^item> The header files only declare what the theories model.
\<close>

end
